(* ===== verification/Prelude.thy ===== *)
theory Prelude
  imports Main "HOL-Library.Word"
begin

text \<open>
  Shared vocabulary of the development: the machine integers of the target (a 32-bit
  big-endian MIPS core, so \<open>unsigned long\<close>, \<open>unsigned int\<close> and pointers are 32 bits wide),
  results of code that can return early or leave its buffers, big-endian field access to
  packets, and the generic lemmas on lists and words the components use.
\<close>

unbundle bit_operations_syntax

named_theorems res_simps \<open>unfolding of the result combinators\<close>

subsection \<open>Machine integers\<close>

type_synonym byte = "8 word"
type_synonym u16 = "16 word"
type_synonym u32 = "32 word"

text \<open>
  Characters of the text-level components are HOL's \<open>char\<close> (one byte each); \<open>NUL\<close> is
  the terminator of a C string.
\<close>

abbreviation NUL :: char where
  "NUL \<equiv> CHR 0x00"

subsection \<open>Results\<close>

text \<open>
  Code that can fail returns a value of \<open>'e + 'a\<close>: \<open>Inl e\<close> for an early exit with \<open>e\<close>,
  \<open>Inr a\<close> for a normal result. \<open>rbind\<close> runs the rest only on a normal result, which is
  what an early \<open>return\<close> of the source does.
\<close>

fun rbind :: "'e + 'a \<Rightarrow> ('a \<Rightarrow> 'e + 'b) \<Rightarrow> 'e + 'b" where
  "rbind (Inl e) f = Inl e"
| "rbind (Inr a) f = f a"

lemma rbind_eq_Inr [res_simps]:
  "rbind r f = Inr b \<longleftrightarrow> (\<exists>a. r = Inr a \<and> f a = Inr b)"
  by (cases r) auto

lemma rbind_eq_Inl [res_simps]:
  "rbind r f = Inl e \<longleftrightarrow> r = Inl e \<or> (\<exists>a. r = Inr a \<and> f a = Inl e)"
  by (cases r) auto

lemma rbind_def_cases:
  "rbind r f = (case r of Inl e \<Rightarrow> Inl e | Inr a \<Rightarrow> f a)"
  by (cases r) auto

lemma rbind_assoc: "rbind (rbind r f) g = rbind r (\<lambda>a. rbind (f a) g)"
  by (cases r) auto

lemma rbind_cong [fundef_cong]:
  "r = r' \<Longrightarrow> (\<And>a. r' = Inr a \<Longrightarrow> f a = f' a) \<Longrightarrow> rbind r f = rbind r' f'"
  by (cases r') auto

text \<open>For evaluation: the rest is simplified only once the first result is known.\<close>

lemma rbind_weak_cong: "r = r' \<Longrightarrow> rbind r f = rbind r' f"
  by simp

text \<open>
  \<open>ensures E P r\<close>: the result \<open>r\<close> is either an allowed early exit (one of \<open>E\<close>) or a
  normal result with \<open>P\<close>. It composes along \<open>rbind\<close>, so that a property of a long
  handler is proved one call at a time.
\<close>

definition ensures :: "'e set \<Rightarrow> ('a \<Rightarrow> bool) \<Rightarrow> 'e + 'a \<Rightarrow> bool" where
  "ensures E P r = (case r of Inl e \<Rightarrow> e \<in> E | Inr a \<Rightarrow> P a)"

lemma ensures_Inl [simp]: "ensures E P (Inl e) \<longleftrightarrow> e \<in> E"
  by (simp add: ensures_def)

lemma ensures_Inr [simp]: "ensures E P (Inr a) \<longleftrightarrow> P a"
  by (simp add: ensures_def)

lemma ensures_rbind:
  "ensures E P r \<Longrightarrow> (\<And>a. P a \<Longrightarrow> ensures E Q (f a)) \<Longrightarrow> ensures E Q (rbind r f)"
  by (cases r) auto

lemma ensures_mono:
  "ensures E P r \<Longrightarrow> (\<And>a. P a \<Longrightarrow> Q a) \<Longrightarrow> ensures E Q r"
  by (cases r) auto

lemma ensures_conj:
  "ensures E P r \<Longrightarrow> ensures E Q r \<Longrightarrow> ensures E (\<lambda>a. P a \<and> Q a) r"
  by (cases r) auto

lemma ensures_D:
  "ensures E P r \<Longrightarrow> r = Inr a \<Longrightarrow> P a"
  by simp

lemma ensures_InlD:
  "ensures E P r \<Longrightarrow> r = Inl e \<Longrightarrow> e \<in> E"
  by simp

subsection \<open>Big-endian fields of byte buffers\<close>

definition put_bytes :: "byte list \<Rightarrow> nat \<Rightarrow> byte list \<Rightarrow> byte list" where
  "put_bytes buf off bs = take off buf @ bs @ drop (off + length bs) buf"

definition be16 :: "u16 \<Rightarrow> byte list" where
  "be16 w = [ucast (drop_bit 8 w), ucast w]"

definition be32 :: "u32 \<Rightarrow> byte list" where
  "be32 w = [ucast (drop_bit 24 w), ucast (drop_bit 16 w), ucast (drop_bit 8 w), ucast w]"

definition get16 :: "byte list \<Rightarrow> nat \<Rightarrow> u16" where
  "get16 buf off = word_cat (buf ! off) (buf ! Suc off)"

definition get32 :: "byte list \<Rightarrow> nat \<Rightarrow> u32" where
  "get32 buf off =
     word_cat (get16 buf off) (get16 buf (off + 2))"

definition get_bytes :: "byte list \<Rightarrow> nat \<Rightarrow> nat \<Rightarrow> byte list" where
  "get_bytes buf off n = take n (drop off buf)"

lemma length_put_bytes [simp]:
  "off + length bs \<le> length buf \<Longrightarrow> length (put_bytes buf off bs) = length buf"
  by (simp add: put_bytes_def)

lemma nth_put_bytes:
  assumes "off + length bs \<le> length buf"
  shows "put_bytes buf off bs ! i =
    (if off \<le> i \<and> i < off + length bs then bs ! (i - off) else buf ! i)"
proof -
  have "length (take off buf) = off"
    using assms by simp
  then show ?thesis
    using assms by (auto simp: put_bytes_def nth_append)
qed

lemma length_be [simp]: "length (be16 v) = 2" "length (be32 w) = 4"
  by (simp_all add: be16_def be32_def)

lemma length_get_bytes [simp]:
  "off + n \<le> length buf \<Longrightarrow> length (get_bytes buf off n) = n"
  by (simp add: get_bytes_def)

lemma get_bytes_put_same [simp]:
  "off + length bs \<le> length buf \<Longrightarrow> n = length bs \<Longrightarrow> get_bytes (put_bytes buf off bs) off n = bs"
  by (simp add: get_bytes_def put_bytes_def)

lemma get_bytes_put_other:
  assumes "off + length bs \<le> length buf" "i + n \<le> off \<or> off + length bs \<le> i"
    "i + n \<le> length buf"
  shows "get_bytes (put_bytes buf off bs) i n = get_bytes buf i n"
  using assms by (intro nth_equalityI) (auto simp: get_bytes_def nth_put_bytes)

lemma word_cat_split16 [simp]:
  "(word_cat (ucast (drop_bit 8 w) :: byte) (ucast w :: byte) :: u16) = w"
  by (rule bit_word_eqI) (auto simp: bit_word_cat_iff bit_simps)

lemma word_cat_split32:
  "(word_cat (word_cat (ucast (drop_bit 24 w) :: byte) (ucast (drop_bit 16 w) :: byte) :: u16)
     (word_cat (ucast (drop_bit 8 w) :: byte) (ucast w :: byte) :: u16) :: u32) = w"
  by (rule bit_word_eqI) (auto simp: bit_word_cat_iff bit_simps)

lemma get16_put_same [simp]:
  "off + 2 \<le> length buf \<Longrightarrow> get16 (put_bytes buf off (be16 v)) off = v"
  by (simp add: get16_def nth_put_bytes be16_def)

lemma get32_put_same [simp]:
  "off + 4 \<le> length buf \<Longrightarrow> get32 (put_bytes buf off (be32 v)) off = v"
  by (simp add: get32_def get16_def nth_put_bytes be32_def word_cat_split32 Suc_diff_le)

lemma get16_put_other:
  "off + length bs \<le> length buf \<Longrightarrow> i + 2 \<le> off \<or> off + length bs \<le> i \<Longrightarrow>
   get16 (put_bytes buf off bs) i = get16 buf i"
  by (auto simp: get16_def nth_put_bytes)

lemma get32_put_other:
  "off + length bs \<le> length buf \<Longrightarrow> i + 4 \<le> off \<or> off + length bs \<le> i \<Longrightarrow>
   get32 (put_bytes buf off bs) i = get32 buf i"
  by (auto simp: get32_def get16_put_other)

subsection \<open>Words\<close>

lemma unat_byte_less [simp]: "unat (b :: byte) < 256"
  using unsigned_less [of b] by simp

lemma unat_u32_less [simp]: "unat (w :: u32) < 4294967296"
  using unsigned_less [of w] by simp

lemma all_bytes_iff:
  "(\<forall>b :: byte. P b) \<longleftrightarrow> list_all (\<lambda>n. P (word_of_nat n)) [0..<256]"
proof
  assume *: "list_all (\<lambda>n. P (word_of_nat n)) [0..<256]"
  show "\<forall>b :: byte. P b"
  proof
    fix b :: byte
    have "unat b \<in> set [0..<256]" by simp
    with * have "P (word_of_nat (unat b))" by (auto simp: list_all_iff simp del: set_upt)
    then show "P b" by simp
  qed
qed (simp add: list_all_iff)

lemma xor_left_cancel [simp]: "a XOR b = a XOR c \<longleftrightarrow> b = c" for a b c :: "'a::len word"
  by (auto simp: bit_eq_iff bit_simps)

lemma xor_right_cancel [simp]: "b XOR a = c XOR a \<longleftrightarrow> b = c" for a b c :: "'a::len word"
  by (simp add: xor.commute [of _ a])

lemma bit_byteD: "bit (b :: byte) n \<Longrightarrow> n < 8"
  by (drule bit_imp_le_length) simp

lemma ucast_byte_eq [simp]: "(ucast b :: u32) = ucast b' \<longleftrightarrow> b = b'" for b b' :: byte
  by (auto simp: bit_eq_iff bit_simps dest: bit_byteD)

lemma ucast_byte_eq16 [simp]: "(ucast b :: u16) = ucast b' \<longleftrightarrow> b = b'" for b b' :: byte
  by (auto simp: bit_eq_iff bit_simps dest: bit_byteD)

lemma byte_mask: "(0xff :: 'a::len word) = mask 8"
  by (simp add: mask_eq_exp_minus_1)

lemma unat_and_mask_less: "unat (x AND mask n :: 'a::len word) < 2 ^ n"
  by (simp add: take_bit_eq_mask [symmetric] unsigned_take_bit_eq)

lemma and_le_nat: "x AND y \<le> y" for x y :: nat
proof -
  have "int (x AND y) \<le> int y"
    by (simp only: of_nat_and_eq) (simp add: AND_upper2)
  then show ?thesis by simp
qed

lemma unat_of_nat_small: "n < 2 ^ LENGTH('a) \<Longrightarrow> unat (of_nat n :: 'a::len word) = n"
  by (simp add: unat_of_nat)

lemma unat_drop_bit: "unat (drop_bit n w) = unat w div 2 ^ n" for w :: "'a::len word"
  by (subst unat_drop_bit_eq) (rule drop_bit_eq_div)

lemma unat_push_bit_small:
  "unat w * 2 ^ n < 2 ^ LENGTH('a) \<Longrightarrow> unat (push_bit n w) = unat w * 2 ^ n" for w :: "'a::len word"
  by (subst unsigned_push_bit_eq) (simp add: push_bit_eq_mult take_bit_eq_mod)

lemma unat_ucast_le:
  "LENGTH('a) \<le> LENGTH('b) \<Longrightarrow> unat (ucast w :: 'b::len word) = unat w" for w :: "'a::len word"
  by (subst unsigned_ucast_eq) (simp add: take_bit_nat_eq_self less_le_trans [OF unsigned_less])

lemma half_mask: "(0xffff :: 'a::len word) = mask 16"
  by (simp add: mask_eq_exp_minus_1)

lemma unat_and_mask: "unat (x AND mask n) = unat x mod 2 ^ n" for x :: "'a::len word"
proof -
  have "x AND mask n = take_bit n x" by (simp add: take_bit_eq_mask)
  then show ?thesis by (simp only: unsigned_take_bit_eq) (simp add: take_bit_eq_mod)
qed

end
