(* ===== verification/Crc.thy ===== *)
theory Crc
  imports Prelude
begin

text \<open>
  The checksums of the boot loader: \<open>crc32\<close> of \<open>lib_generic/crc32.c\<close> (environment
  sectors and image headers) and \<open>cyg_crc16\<close> of \<open>common/crc16.c\<close> (the X/Y-modem
  loader). Both are table driven. The theory models the constant tables, the table generator
  that \<open>crc32.c\<close> carries, and the update loops (the 32-bit one unrolled by eight), and
  shows that the tables are the bit-serial generator's, that the loops compute a fold of one
  step, that a checksum can be computed piecewise and that a corrupted byte is detected.
\<close>

subsection \<open>The table of \<open>crc32.c\<close>\<close>

definition crc_table :: "u32 list" where
  "crc_table =
   [0x00000000, 0x77073096, 0xee0e612c, 0x990951ba, 0x076dc419, 0x706af48f,
    0xe963a535, 0x9e6495a3, 0x0edb8832, 0x79dcb8a4, 0xe0d5e91e, 0x97d2d988,
    0x09b64c2b, 0x7eb17cbd, 0xe7b82d07, 0x90bf1d91, 0x1db71064, 0x6ab020f2,
    0xf3b97148, 0x84be41de, 0x1adad47d, 0x6ddde4eb, 0xf4d4b551, 0x83d385c7,
    0x136c9856, 0x646ba8c0, 0xfd62f97a, 0x8a65c9ec, 0x14015c4f, 0x63066cd9,
    0xfa0f3d63, 0x8d080df5, 0x3b6e20c8, 0x4c69105e, 0xd56041e4, 0xa2677172,
    0x3c03e4d1, 0x4b04d447, 0xd20d85fd, 0xa50ab56b, 0x35b5a8fa, 0x42b2986c,
    0xdbbbc9d6, 0xacbcf940, 0x32d86ce3, 0x45df5c75, 0xdcd60dcf, 0xabd13d59,
    0x26d930ac, 0x51de003a, 0xc8d75180, 0xbfd06116, 0x21b4f4b5, 0x56b3c423,
    0xcfba9599, 0xb8bda50f, 0x2802b89e, 0x5f058808, 0xc60cd9b2, 0xb10be924,
    0x2f6f7c87, 0x58684c11, 0xc1611dab, 0xb6662d3d, 0x76dc4190, 0x01db7106,
    0x98d220bc, 0xefd5102a, 0x71b18589, 0x06b6b51f, 0x9fbfe4a5, 0xe8b8d433,
    0x7807c9a2, 0x0f00f934, 0x9609a88e, 0xe10e9818, 0x7f6a0dbb, 0x086d3d2d,
    0x91646c97, 0xe6635c01, 0x6b6b51f4, 0x1c6c6162, 0x856530d8, 0xf262004e,
    0x6c0695ed, 0x1b01a57b, 0x8208f4c1, 0xf50fc457, 0x65b0d9c6, 0x12b7e950,
    0x8bbeb8ea, 0xfcb9887c, 0x62dd1ddf, 0x15da2d49, 0x8cd37cf3, 0xfbd44c65,
    0x4db26158, 0x3ab551ce, 0xa3bc0074, 0xd4bb30e2, 0x4adfa541, 0x3dd895d7,
    0xa4d1c46d, 0xd3d6f4fb, 0x4369e96a, 0x346ed9fc, 0xad678846, 0xda60b8d0,
    0x44042d73, 0x33031de5, 0xaa0a4c5f, 0xdd0d7cc9, 0x5005713c, 0x270241aa,
    0xbe0b1010, 0xc90c2086, 0x5768b525, 0x206f85b3, 0xb966d409, 0xce61e49f,
    0x5edef90e, 0x29d9c998, 0xb0d09822, 0xc7d7a8b4, 0x59b33d17, 0x2eb40d81,
    0xb7bd5c3b, 0xc0ba6cad, 0xedb88320, 0x9abfb3b6, 0x03b6e20c, 0x74b1d29a,
    0xead54739, 0x9dd277af, 0x04db2615, 0x73dc1683, 0xe3630b12, 0x94643b84,
    0x0d6d6a3e, 0x7a6a5aa8, 0xe40ecf0b, 0x9309ff9d, 0x0a00ae27, 0x7d079eb1,
    0xf00f9344, 0x8708a3d2, 0x1e01f268, 0x6906c2fe, 0xf762575d, 0x806567cb,
    0x196c3671, 0x6e6b06e7, 0xfed41b76, 0x89d32be0, 0x10da7a5a, 0x67dd4acc,
    0xf9b9df6f, 0x8ebeeff9, 0x17b7be43, 0x60b08ed5, 0xd6d6a3e8, 0xa1d1937e,
    0x38d8c2c4, 0x4fdff252, 0xd1bb67f1, 0xa6bc5767, 0x3fb506dd, 0x48b2364b,
    0xd80d2bda, 0xaf0a1b4c, 0x36034af6, 0x41047a60, 0xdf60efc3, 0xa867df55,
    0x316e8eef, 0x4669be79, 0xcb61b38c, 0xbc66831a, 0x256fd2a0, 0x5268e236,
    0xcc0c7795, 0xbb0b4703, 0x220216b9, 0x5505262f, 0xc5ba3bbe, 0xb2bd0b28,
    0x2bb45a92, 0x5cb36a04, 0xc2d7ffa7, 0xb5d0cf31, 0x2cd99e8b, 0x5bdeae1d,
    0x9b64c2b0, 0xec63f226, 0x756aa39c, 0x026d930a, 0x9c0906a9, 0xeb0e363f,
    0x72076785, 0x05005713, 0x95bf4a82, 0xe2b87a14, 0x7bb12bae, 0x0cb61b38,
    0x92d28e9b, 0xe5d5be0d, 0x7cdcefb7, 0x0bdbdf21, 0x86d3d2d4, 0xf1d4e242,
    0x68ddb3f8, 0x1fda836e, 0x81be16cd, 0xf6b9265b, 0x6fb077e1, 0x18b74777,
    0x88085ae6, 0xff0f6a70, 0x66063bca, 0x11010b5c, 0x8f659eff, 0xf862ae69,
    0x616bffd3, 0x166ccf45, 0xa00ae278, 0xd70dd2ee, 0x4e048354, 0x3903b3c2,
    0xa7672661, 0xd06016f7, 0x4969474d, 0x3e6e77db, 0xaed16a4a, 0xd9d65adc,
    0x40df0b66, 0x37d83bf0, 0xa9bcae53, 0xdebb9ec5, 0x47b2cf7f, 0x30b5ffe9,
    0xbdbdf21c, 0xcabac28a, 0x53b39330, 0x24b4a3a6, 0xbad03605, 0xcdd70693,
    0x54de5729, 0x23d967bf, 0xb3667a2e, 0xc4614ab8, 0x5d681b02, 0x2a6f2b94,
    0xb40bbe37, 0xc30c8ea1, 0x5a05df1b, 0x2d02ef8d]"

text \<open>
  \<open>make_crc_table\<close>: the polynomial pattern is assembled from its exponents, then each byte is
  shifted through eight times.
\<close>

definition crc_poly :: u32 where
  "crc_poly = fold (\<lambda>e poly. poly OR push_bit (31 - e) 1)
     [0, 1, 2, 4, 5, 7, 8, 10, 11, 12, 16, 22, 23, 26] 0"

definition crc_shift :: "u32 \<Rightarrow> u32" where
  "crc_shift c = (if c AND 1 \<noteq> 0 then crc_poly XOR drop_bit 1 c else drop_bit 1 c)"

definition make_crc_table :: "u32 list" where
  "make_crc_table = map (\<lambda>n. (crc_shift ^^ 8) (of_nat n)) [0..<256]"

subsection \<open>The update loop of \<open>crc32.c\<close>\<close>

text \<open>The macro \<open>DO1\<close>, and \<open>DO8\<close> as eight of them.\<close>

definition DO1 :: "u32 \<Rightarrow> byte \<Rightarrow> u32" where
  "DO1 crc b = (crc_table ! unat ((crc XOR ucast b) AND 0xff)) XOR drop_bit 8 crc"

fun crc32_loop :: "u32 \<Rightarrow> byte list \<Rightarrow> u32" where
  "crc32_loop crc (a # b # c # d # e # f # g # h # buf) =
     crc32_loop (DO1 (DO1 (DO1 (DO1 (DO1 (DO1 (DO1 (DO1 crc a) b) c) d) e) f) g) h) buf"
| "crc32_loop crc [] = crc"
| "crc32_loop crc (b # buf) = crc32_loop (DO1 crc b) buf"

definition crc32 :: "u32 \<Rightarrow> byte list \<Rightarrow> u32" where
  "crc32 crc buf = crc32_loop (crc XOR 0xffffffff) buf XOR 0xffffffff"

text \<open>The variant without the final complement that the JFFS2 code calls.\<close>

definition crc32_no_comp :: "u32 \<Rightarrow> byte list \<Rightarrow> u32" where
  "crc32_no_comp crc buf = crc32_loop crc buf"

subsection \<open>The CRC of the modem protocols\<close>

definition crc16_tab :: "u16 list" where
  "crc16_tab =
   [0x0000, 0x1021, 0x2042, 0x3063, 0x4084, 0x50a5, 0x60c6, 0x70e7,
    0x8108, 0x9129, 0xa14a, 0xb16b, 0xc18c, 0xd1ad, 0xe1ce, 0xf1ef,
    0x1231, 0x0210, 0x3273, 0x2252, 0x52b5, 0x4294, 0x72f7, 0x62d6,
    0x9339, 0x8318, 0xb37b, 0xa35a, 0xd3bd, 0xc39c, 0xf3ff, 0xe3de,
    0x2462, 0x3443, 0x0420, 0x1401, 0x64e6, 0x74c7, 0x44a4, 0x5485,
    0xa56a, 0xb54b, 0x8528, 0x9509, 0xe5ee, 0xf5cf, 0xc5ac, 0xd58d,
    0x3653, 0x2672, 0x1611, 0x0630, 0x76d7, 0x66f6, 0x5695, 0x46b4,
    0xb75b, 0xa77a, 0x9719, 0x8738, 0xf7df, 0xe7fe, 0xd79d, 0xc7bc,
    0x48c4, 0x58e5, 0x6886, 0x78a7, 0x0840, 0x1861, 0x2802, 0x3823,
    0xc9cc, 0xd9ed, 0xe98e, 0xf9af, 0x8948, 0x9969, 0xa90a, 0xb92b,
    0x5af5, 0x4ad4, 0x7ab7, 0x6a96, 0x1a71, 0x0a50, 0x3a33, 0x2a12,
    0xdbfd, 0xcbdc, 0xfbbf, 0xeb9e, 0x9b79, 0x8b58, 0xbb3b, 0xab1a,
    0x6ca6, 0x7c87, 0x4ce4, 0x5cc5, 0x2c22, 0x3c03, 0x0c60, 0x1c41,
    0xedae, 0xfd8f, 0xcdec, 0xddcd, 0xad2a, 0xbd0b, 0x8d68, 0x9d49,
    0x7e97, 0x6eb6, 0x5ed5, 0x4ef4, 0x3e13, 0x2e32, 0x1e51, 0x0e70,
    0xff9f, 0xefbe, 0xdfdd, 0xcffc, 0xbf1b, 0xaf3a, 0x9f59, 0x8f78,
    0x9188, 0x81a9, 0xb1ca, 0xa1eb, 0xd10c, 0xc12d, 0xf14e, 0xe16f,
    0x1080, 0x00a1, 0x30c2, 0x20e3, 0x5004, 0x4025, 0x7046, 0x6067,
    0x83b9, 0x9398, 0xa3fb, 0xb3da, 0xc33d, 0xd31c, 0xe37f, 0xf35e,
    0x02b1, 0x1290, 0x22f3, 0x32d2, 0x4235, 0x5214, 0x6277, 0x7256,
    0xb5ea, 0xa5cb, 0x95a8, 0x8589, 0xf56e, 0xe54f, 0xd52c, 0xc50d,
    0x34e2, 0x24c3, 0x14a0, 0x0481, 0x7466, 0x6447, 0x5424, 0x4405,
    0xa7db, 0xb7fa, 0x8799, 0x97b8, 0xe75f, 0xf77e, 0xc71d, 0xd73c,
    0x26d3, 0x36f2, 0x0691, 0x16b0, 0x6657, 0x7676, 0x4615, 0x5634,
    0xd94c, 0xc96d, 0xf90e, 0xe92f, 0x99c8, 0x89e9, 0xb98a, 0xa9ab,
    0x5844, 0x4865, 0x7806, 0x6827, 0x18c0, 0x08e1, 0x3882, 0x28a3,
    0xcb7d, 0xdb5c, 0xeb3f, 0xfb1e, 0x8bf9, 0x9bd8, 0xabbb, 0xbb9a,
    0x4a75, 0x5a54, 0x6a37, 0x7a16, 0x0af1, 0x1ad0, 0x2ab3, 0x3a92,
    0xfd2e, 0xed0f, 0xdd6c, 0xcd4d, 0xbdaa, 0xad8b, 0x9de8, 0x8dc9,
    0x7c26, 0x6c07, 0x5c64, 0x4c45, 0x3ca2, 0x2c83, 0x1ce0, 0x0cc1,
    0xef1f, 0xff3e, 0xcf5d, 0xdf7c, 0xaf9b, 0xbfba, 0x8fd9, 0x9ff8,
    0x6e17, 0x7e36, 0x4e55, 0x5e74, 0x2e93, 0x3eb2, 0x0ed1, 0x1ef0]"

definition crc16_step :: "u16 \<Rightarrow> byte \<Rightarrow> u16" where
  "crc16_step cksum b =
     (crc16_tab ! unat ((drop_bit 8 cksum XOR ucast b) AND 0xFF)) XOR push_bit 8 cksum"

definition cyg_crc16 :: "byte list \<Rightarrow> u16" where
  "cyg_crc16 buf = foldl crc16_step 0 buf"

text \<open>The bit-serial step for the polynomial named in the table's comment.\<close>

definition crc16_shift :: "u16 \<Rightarrow> u16" where
  "crc16_shift c = (if bit c 15 then push_bit 1 c XOR 0x1021 else push_bit 1 c)"


subsection \<open>The bit-serial steps are linear and injective\<close>

fun evens :: "'a list \<Rightarrow> 'a list" where
  "evens (x # y # zs) = x # evens zs"
| "evens zs = zs"

lemma evens_nth: "2 * i < length xs \<Longrightarrow> evens xs ! i = xs ! (2 * i)"
proof (induction xs arbitrary: i rule: evens.induct)
  case (1 x y zs)
  then show ?case by (cases i) auto
qed auto

lemma length_evens: "length (evens xs) = (length xs + 1) div 2"
  by (induction xs rule: evens.induct) auto

lemma crc_poly_eq: "crc_poly = 0xedb88320"
  by (simp add: crc_poly_def)

lemma crc_shift_xor: "crc_shift (a XOR b) = crc_shift a XOR crc_shift b"
proof -
  have "(a XOR b) AND 1 = (a AND 1) XOR (b AND 1)"
    by (rule bit_word_eqI) (auto simp: bit_simps)
  moreover have "a AND 1 = 0 \<or> a AND 1 = 1" "b AND 1 = 0 \<or> b AND 1 = 1"
    by (simp_all add: and_one_eq mod2_eq_if)
  ultimately show ?thesis
    by (auto simp: crc_shift_def drop_bit_xor xor.assoc xor.left_commute xor.commute
        intro: bit_word_eqI)
qed

lemma crc_shift_pow_xor: "(crc_shift ^^ n) (a XOR b) = (crc_shift ^^ n) a XOR (crc_shift ^^ n) b"
  by (induction n) (simp_all add: crc_shift_xor)

lemma crc_shift_0: "crc_shift 0 = 0"
  by (simp add: crc_shift_def)

lemma crc_shift_inj: "crc_shift a = crc_shift b \<Longrightarrow> a = b"
proof -
  have top: "bit (crc_shift c) 31 \<longleftrightarrow> c AND 1 \<noteq> 0" for c
    by (auto simp: crc_shift_def crc_poly_eq bit_simps dest: bit_imp_le_length)
  assume eq: "crc_shift a = crc_shift b"
  then have low: "a AND 1 \<noteq> 0 \<longleftrightarrow> b AND 1 \<noteq> 0"
    using top by metis
  with eq have "drop_bit 1 a = drop_bit 1 b"
    by (auto simp: crc_shift_def split: if_splits)
  then have "bit a (Suc n) \<longleftrightarrow> bit b (Suc n)" for n
    by (metis bit_drop_bit_eq comp_apply plus_1_eq_Suc)
  moreover have "bit a 0 \<longleftrightarrow> bit b 0"
    using low by (simp add: bit_0 and_one_eq flip: even_iff_mod_2_eq_zero)
  ultimately have "bit a n \<longleftrightarrow> bit b n" for n
    by (cases n) simp_all
  then show ?thesis by (simp add: bit_eq_iff)
qed

lemma crc_shift_pow_inj: "(crc_shift ^^ n) a = (crc_shift ^^ n) b \<Longrightarrow> a = b"
  by (induction n) (auto dest: crc_shift_inj)


lemma crc_shift_double: "n < 2147483648 \<Longrightarrow> crc_shift (of_nat (2 * n)) = of_nat n"
proof -
  assume n: "n < 2147483648"
  have "(of_nat (2 * n) :: u32) AND 1 = 0"
    by (simp add: and_one_eq flip: even_iff_mod_2_eq_zero)
  moreover have "drop_bit 1 (of_nat (2 * n) :: u32) = of_nat n"
    using n by (simp add: drop_bit_eq_div word_unat_eq_iff unat_div unat_of_nat unat_word_ariths)
  ultimately show ?thesis
    by (simp add: crc_shift_def)
qed

lemma of_nat_double_Suc: "(of_nat (Suc (2 * n)) :: 'a::len word) = of_nat (2 * n) XOR 1"
proof -
  have "even (of_nat (2 * n) :: 'a word)" by simp
  then have "(of_nat (2 * n) :: 'a word) XOR 1 = of_nat (2 * n) + 1"
    by (simp only: xor_one_eq) simp
  then show ?thesis by simp
qed

subsection \<open>The table lookup is eight bit-serial steps\<close>

lemma crc_table_evens: "map crc_shift (evens crc_table) = take 128 crc_table"
  by (simp add: crc_table_def crc_shift_def crc_poly_eq)

lemma length_crc_table [simp]: "length crc_table = 256"
  by (simp add: crc_table_def)

lemma crc_table_odds: "evens (tl crc_table) = map (\<lambda>t. t XOR 0x77073096) (evens crc_table)"
  by (simp add: crc_table_def)

lemma crc_table_0: "crc_table ! 0 = 0"
  by (simp add: crc_table_def)

lemma crc_shift_8_1: "(crc_shift ^^ 8) 1 = 0x77073096"
proof -
  have "(crc_shift ^^ 8) 1 = crc_shift (crc_shift (crc_shift (crc_shift
      (crc_shift (crc_shift (crc_shift (crc_shift 1)))))))"
    by (simp add: numeral_eq_Suc)
  also have "crc_shift 1 = 0xedb88320" by (simp add: crc_shift_def crc_poly_eq)
  also have "crc_shift 0xedb88320 = 0x76dc4190" by (simp add: crc_shift_def crc_poly_eq)
  also have "crc_shift 0x76dc4190 = 0x3b6e20c8" by (simp add: crc_shift_def crc_poly_eq)
  also have "crc_shift 0x3b6e20c8 = 0x1db71064" by (simp add: crc_shift_def crc_poly_eq)
  also have "crc_shift 0x1db71064 = 0x0edb8832" by (simp add: crc_shift_def crc_poly_eq)
  also have "crc_shift 0x0edb8832 = 0x076dc419" by (simp add: crc_shift_def crc_poly_eq)
  also have "crc_shift 0x076dc419 = 0xee0e612c" by (simp add: crc_shift_def crc_poly_eq)
  also have "crc_shift 0xee0e612c = 0x77073096" by (simp add: crc_shift_def crc_poly_eq)
  finally show ?thesis .
qed

lemma crc_table_half: "n < 128 \<Longrightarrow> crc_shift (crc_table ! (2 * n)) = crc_table ! n"
  using arg_cong [OF crc_table_evens, of "\<lambda>xs. xs ! n"]
  by (simp add: evens_nth length_evens)

lemma crc_table_odd: "n < 128 \<Longrightarrow> crc_table ! Suc (2 * n) = crc_table ! (2 * n) XOR 0x77073096"
  using arg_cong [OF crc_table_odds, of "\<lambda>xs. xs ! n"]
  by (simp add: evens_nth length_evens nth_tl)

lemma crc_table_nth: "n < 256 \<Longrightarrow> crc_table ! n = (crc_shift ^^ 8) (of_nat n)"
proof (induction n rule: less_induct)
  case (less n)
  have even_case: "crc_table ! (2 * m) = (crc_shift ^^ 8) (of_nat (2 * m))"
    if "m < 128" "2 * m \<le> n" for m
  proof (cases "m = 0")
    case True
    then show ?thesis
      by (simp add: crc_table_0 crc_shift_0 numeral_eq_Suc)
  next
    case False
    with that less have "crc_table ! m = (crc_shift ^^ 8) (of_nat m)" by simp
    also have "of_nat m = crc_shift (of_nat (2 * m))"
      using that by (simp only: crc_shift_double)
    finally have "crc_shift (crc_table ! (2 * m)) = crc_shift ((crc_shift ^^ 8) (of_nat (2 * m)))"
      using that by (simp only: crc_table_half funpow_swap1)
    then show ?thesis by (rule crc_shift_inj)
  qed
  show ?case
  proof (cases "even n")
    case True
    then obtain m where "n = 2 * m" by (auto elim: evenE)
    with less.prems even_case show ?thesis by auto
  next
    case False
    then obtain m where n: "n = Suc (2 * m)" by (auto elim: oddE)
    with less.prems have m: "m < 128" by simp
    then have "crc_table ! n = (crc_shift ^^ 8) (of_nat (2 * m)) XOR (crc_shift ^^ 8) 1"
      using n by (simp only: crc_table_odd even_case crc_shift_8_1 order.refl le_SucI)
    then show ?thesis
      unfolding n of_nat_double_Suc crc_shift_pow_xor .
  qed
qed

lemma crc_table_make: "crc_table = make_crc_table"
  by (rule nth_equalityI) (simp_all add: crc_table_nth make_crc_table_def)

lemma crc_shift_clear: "a AND mask n = 0 \<Longrightarrow> (crc_shift ^^ n) a = drop_bit n a"
proof (induction n)
  case 0
  then show ?case by simp
next
  case (Suc n)
  have "a AND mask n = 0"
    using Suc.prems by (auto simp: bit_eq_iff bit_simps)
  with Suc.IH have "(crc_shift ^^ Suc n) a = crc_shift (drop_bit n a)" by simp
  moreover have "\<not> bit a n"
    using arg_cong [OF Suc.prems, of "\<lambda>w. bit w n"] by (auto simp: bit_simps dest: bit_imp_le_length)
  then have "drop_bit n a AND 1 = 0"
    by (simp add: and_one_eq bit_iff_odd_drop_bit flip: even_iff_mod_2_eq_zero)
  then have "crc_shift (drop_bit n a) = drop_bit (Suc n) a"
    by (simp add: crc_shift_def)
  ultimately show ?case by simp
qed

lemma DO1_bit_serial: "DO1 crc b = (crc_shift ^^ 8) (crc XOR ucast b)"
proof -
  let ?x = "crc XOR ucast b :: u32"
  have "?x = (?x AND 0xff) XOR (?x AND NOT 0xff)"
    by (rule bit_word_eqI) (auto simp: bit_simps)
  then have "(crc_shift ^^ 8) ?x = (crc_shift ^^ 8) (?x AND 0xff) XOR (crc_shift ^^ 8) (?x AND NOT 0xff)"
    by (metis crc_shift_pow_xor)
  also have "(crc_shift ^^ 8) (?x AND NOT 0xff) = drop_bit 8 (?x AND NOT 0xff)"
    by (rule crc_shift_clear) (simp add: byte_mask and.assoc)
  also have "drop_bit 8 (?x AND NOT 0xff) = drop_bit 8 crc"
    unfolding byte_mask by (rule bit_word_eqI) (auto simp: bit_simps dest: bit_imp_le_length)
  also have "(crc_shift ^^ 8) (?x AND 0xff) = crc_table ! unat (?x AND 0xff)"
    using unat_and_mask_less [of ?x 8] by (simp add: crc_table_nth byte_mask)
  finally show ?thesis
    by (simp add: DO1_def)
qed


subsection \<open>The loops are folds of one step\<close>

lemma crc32_loop_foldl: "crc32_loop crc buf = foldl DO1 crc buf"
  by (induction crc buf rule: crc32_loop.induct) simp_all

lemma DO1_inj_crc: "DO1 c b = DO1 c' b \<Longrightarrow> c = c'"
  by (auto simp: DO1_bit_serial dest: crc_shift_pow_inj)

lemma DO1_inj_byte: "DO1 c b = DO1 c b' \<Longrightarrow> b = b'"
  by (auto simp: DO1_bit_serial dest!: crc_shift_pow_inj)

subsection \<open>The 16-bit table\<close>

lemma crc16_shift_xor: "crc16_shift (a XOR b) = crc16_shift a XOR crc16_shift b"
  by (auto simp: crc16_shift_def push_bit_xor bit_xor_iff xor.assoc xor.left_commute xor.commute)

lemma crc16_shift_pow_xor: "(crc16_shift ^^ n) (a XOR b) = (crc16_shift ^^ n) a XOR (crc16_shift ^^ n) b"
  by (induction n) (simp_all add: crc16_shift_xor)

lemma crc16_shift_0: "crc16_shift 0 = 0"
  by (simp add: crc16_shift_def)

lemma crc16_shift_inj: "crc16_shift a = crc16_shift b \<Longrightarrow> a = b"
proof -
  have low: "bit (crc16_shift c) 0 \<longleftrightarrow> bit c 15" for c
    by (simp add: crc16_shift_def bit_xor_iff bit_push_bit_iff bit_0 even_xor_iff)
  assume eq: "crc16_shift a = crc16_shift b"
  then have top: "bit a 15 \<longleftrightarrow> bit b 15"
    using low by metis
  with eq have "push_bit 1 a = push_bit 1 b"
    by (auto simp: crc16_shift_def split: if_splits)
  then have "bit (push_bit 1 a) (Suc n) \<longleftrightarrow> bit (push_bit 1 b) (Suc n)" for n
    by (simp only:)
  then have "bit a n \<longleftrightarrow> bit b n" if "n < 15" for n
    using that unfolding bit_push_bit_iff by (simp, blast)
  with top have "bit a n \<longleftrightarrow> bit b n" if "n < 16" for n
    using that by (cases "n = 15") auto
  then show ?thesis by (intro bit_word_eqI) simp
qed

lemma crc16_shift_pow_inj: "(crc16_shift ^^ n) a = (crc16_shift ^^ n) b \<Longrightarrow> a = b"
  by (induction n) (auto dest: crc16_shift_inj)

lemma length_crc16_tab [simp]: "length crc16_tab = 256"
  by (simp add: crc16_tab_def)

lemma crc16_tab_evens: "map crc16_shift (take 128 crc16_tab) = evens crc16_tab"
  by (simp add: crc16_tab_def crc16_shift_def)

lemma crc16_tab_odds: "evens (tl crc16_tab) = map (\<lambda>t. t XOR 0x1021) (evens crc16_tab)"
  by (simp add: crc16_tab_def)

lemma crc16_tab_0: "crc16_tab ! 0 = 0"
  by (simp add: crc16_tab_def)

lemma crc16_shift_8_1: "(crc16_shift ^^ 8) 0x100 = 0x1021"
proof -
  have "(crc16_shift ^^ 8) 0x100 = crc16_shift (crc16_shift (crc16_shift (crc16_shift
      (crc16_shift (crc16_shift (crc16_shift (crc16_shift 0x100)))))))"
    by (simp add: numeral_eq_Suc)
  also have "crc16_shift 0x100 = 0x200" by (simp add: crc16_shift_def)
  also have "crc16_shift 0x200 = 0x400" by (simp add: crc16_shift_def)
  also have "crc16_shift 0x400 = 0x800" by (simp add: crc16_shift_def)
  also have "crc16_shift 0x800 = 0x1000" by (simp add: crc16_shift_def)
  also have "crc16_shift 0x1000 = 0x2000" by (simp add: crc16_shift_def)
  also have "crc16_shift 0x2000 = 0x4000" by (simp add: crc16_shift_def)
  also have "crc16_shift 0x4000 = 0x8000" by (simp add: crc16_shift_def)
  also have "crc16_shift 0x8000 = 0x1021" by (simp add: crc16_shift_def)
  finally show ?thesis .
qed

lemma crc16_tab_double: "n < 128 \<Longrightarrow> crc16_tab ! (2 * n) = crc16_shift (crc16_tab ! n)"
  using arg_cong [OF crc16_tab_evens, of "\<lambda>xs. xs ! n"]
  by (simp add: evens_nth length_evens)

lemma crc16_tab_odd: "n < 128 \<Longrightarrow> crc16_tab ! Suc (2 * n) = crc16_tab ! (2 * n) XOR 0x1021"
  using arg_cong [OF crc16_tab_odds, of "\<lambda>xs. xs ! n"]
  by (simp add: evens_nth length_evens nth_tl)

lemma crc16_shift_double:
  "n < 128 \<Longrightarrow> crc16_shift (push_bit 8 (of_nat n)) = push_bit 8 (of_nat (2 * n))"
proof -
  assume n: "n < 128"
  have "bit (of_nat n :: u16) 7 \<longleftrightarrow> bit n 7"
    by (simp add: bit_of_nat_iff)
  also have "\<not> bit n 7"
    using n by (simp add: bit_iff_odd)
  finally have "\<not> bit (push_bit 8 (of_nat n) :: u16) 15"
    by (simp add: bit_push_bit_iff)
  then show ?thesis
    by (simp add: crc16_shift_def push_bit_eq_mult mult.commute mult.left_commute)
qed

lemma crc16_tab_nth: "n < 256 \<Longrightarrow> crc16_tab ! n = (crc16_shift ^^ 8) (push_bit 8 (of_nat n))"
proof (induction n rule: less_induct)
  case (less n)
  have even_case: "crc16_tab ! (2 * m) = (crc16_shift ^^ 8) (push_bit 8 (of_nat (2 * m)))"
    if "m < 128" "2 * m \<le> n" for m
  proof (cases "m = 0")
    case True
    then show ?thesis
      by (simp add: crc16_tab_0 crc16_shift_0 numeral_eq_Suc)
  next
    case False
    with that less have "crc16_tab ! m = (crc16_shift ^^ 8) (push_bit 8 (of_nat m))" by simp
    with that show ?thesis
      by (simp only: crc16_tab_double crc16_shift_double [symmetric] funpow_swap1)
  qed
  show ?case
  proof (cases "even n")
    case True
    then obtain m where "n = 2 * m" by (auto elim: evenE)
    with less.prems even_case show ?thesis by auto
  next
    case False
    then obtain m where n: "n = Suc (2 * m)" by (auto elim: oddE)
    with less.prems have m: "m < 128" by simp
    then have "crc16_tab ! n =
        (crc16_shift ^^ 8) (push_bit 8 (of_nat (2 * m))) XOR (crc16_shift ^^ 8) (push_bit 8 1)"
      using n by (simp add: crc16_tab_odd even_case crc16_shift_8_1 del: of_nat_mult)
    then show ?thesis
      unfolding n of_nat_double_Suc push_bit_xor crc16_shift_pow_xor .
  qed
qed

lemma crc16_shift_clear: "drop_bit (16 - n) a = 0 \<Longrightarrow> n \<le> 16 \<Longrightarrow> (crc16_shift ^^ n) a = push_bit n a"
proof (induction n)
  case 0
  then show ?case by simp
next
  case (Suc n)
  have bits: "\<not> bit a i" if "16 - Suc n \<le> i" for i
    using that arg_cong [OF Suc.prems(1), of "\<lambda>w. bit w (i - (16 - Suc n))"]
    by (simp add: bit_drop_bit_eq)
  then have "drop_bit (16 - n) a = 0"
    by (auto simp: bit_eq_iff bit_drop_bit_eq)
  with Suc have "(crc16_shift ^^ Suc n) a = crc16_shift (push_bit n a)" by simp
  moreover have "\<not> bit (push_bit n a) 15"
    using bits [of "15 - n"] Suc.prems(2) by (auto simp: bit_push_bit_iff)
  then have "crc16_shift (push_bit n a) = push_bit (Suc n) a"
    by (simp add: crc16_shift_def push_bit_push_bit del: push_bit_Suc)
  ultimately show ?case by simp
qed

lemma crc16_step_bit_serial:
  "crc16_step c b = (crc16_shift ^^ 8) (c XOR push_bit 8 (ucast b))"
proof -
  let ?x = "c XOR push_bit 8 (ucast b) :: u16"
  let ?i = "(drop_bit 8 c XOR ucast b) AND 0xFF :: u16"
  have "?x = push_bit 8 ?i XOR take_bit 8 c"
    unfolding byte_mask
    by (rule bit_word_eqI) (auto simp: bit_simps dest: bit_imp_le_length)
  then have "(crc16_shift ^^ 8) ?x = (crc16_shift ^^ 8) (push_bit 8 ?i) XOR (crc16_shift ^^ 8) (take_bit 8 c)"
    by (simp only: crc16_shift_pow_xor)
  also have "(crc16_shift ^^ 8) (take_bit 8 c) = push_bit 8 c"
  proof -
    have "drop_bit (16 - 8) (take_bit 8 c) = 0" by (simp add: drop_bit_take_bit)
    then have "(crc16_shift ^^ 8) (take_bit 8 c) = push_bit 8 (take_bit 8 c)"
      by (rule crc16_shift_clear) simp
    also have "\<dots> = push_bit 8 c"
      by (rule bit_word_eqI) (auto simp: bit_simps)
    finally show ?thesis .
  qed
  also have "(crc16_shift ^^ 8) (push_bit 8 ?i) = crc16_tab ! unat ?i"
    using unat_and_mask_less [of "drop_bit 8 c XOR ucast b :: u16" 8]
    by (simp add: crc16_tab_nth byte_mask)
  finally show ?thesis
    by (simp add: crc16_step_def)
qed

lemma crc16_step_inj_crc: "crc16_step c b = crc16_step c' b \<Longrightarrow> c = c'"
  by (auto simp: crc16_step_bit_serial dest: crc16_shift_pow_inj)

lemma push_bit_ucast_inj: "push_bit 8 (ucast b :: u16) = push_bit 8 (ucast b') \<Longrightarrow> b = b'" for b b' :: byte
proof -
  assume eq: "push_bit 8 (ucast b :: u16) = push_bit 8 (ucast b')"
  have "bit b n \<longleftrightarrow> bit b' n" if "n < 8" for n
    using that arg_cong [OF eq, of "\<lambda>w. bit w (8 + n)"] by (simp add: bit_simps)
  then show ?thesis by (intro bit_word_eqI) simp
qed

lemma crc16_step_inj_byte: "crc16_step c b = crc16_step c b' \<Longrightarrow> b = b'"
  by (auto simp: crc16_step_bit_serial dest!: crc16_shift_pow_inj push_bit_ucast_inj)

subsection \<open>The checksum interface\<close>

text \<open>
  What a client relies on: a checksum register, one step per byte, injective in the register
  and in the byte. Piecewise computation and the detection of a corrupted byte follow from
  that alone; both CRCs are instances.
\<close>

locale checksum =
  fixes stepf :: "'c \<Rightarrow> byte \<Rightarrow> 'c"
  assumes step_inj_reg: "stepf c b = stepf c' b \<Longrightarrow> c = c'"
    and step_inj_byte: "stepf c b = stepf c b' \<Longrightarrow> b = b'"
begin

lemma fold_inj: "foldl stepf c xs = foldl stepf c' xs \<Longrightarrow> c = c'"
  by (induction xs arbitrary: c c') (auto dest: step_inj_reg)

lemma detects_byte:
  assumes "a \<noteq> b"
  shows "foldl stepf c (xs @ a # ys) \<noteq> foldl stepf c (xs @ b # ys)"
  using assms by (auto dest!: fold_inj step_inj_byte)

lemma piecewise: "foldl stepf c (xs @ ys) = foldl stepf (foldl stepf c xs) ys"
  by simp

end

interpretation c32: checksum DO1
  by unfold_locales (auto dest: DO1_inj_crc DO1_inj_byte)

interpretation c16: checksum crc16_step
  by unfold_locales (auto dest: crc16_step_inj_crc crc16_step_inj_byte)

lemma crc32_update:
  assumes "i < length bs" "bs ! i \<noteq> b"
  shows "crc32 crc (bs[i := b]) \<noteq> crc32 crc bs"
  using assms c32.detects_byte [of "bs ! i" b "crc XOR 0xffffffff" "take i bs" "drop (Suc i) bs"]
  by (auto simp: crc32_def crc32_loop_foldl upd_conv_take_nth_drop id_take_nth_drop [symmetric])

subsection \<open>Properties\<close>

text \<open>C25: The constant table of \<open>crc32.c\<close> is the one its own generator \<open>make_crc_table\<close> builds
  for the polynomial with the listed exponents.\<close>

theorem crc_table_is_generated: "crc_table = make_crc_table"
  by (rule crc_table_make)

text \<open>C26: The unrolled, table-driven \<open>crc32\<close> equals the bit-serial reference: for every byte,
  eight shift-and-conditionally-subtract steps of the register combined with that byte.\<close>

theorem crc32_bit_serial:
  "crc32 crc buf =
     foldl (\<lambda>c b. (crc_shift ^^ 8) (c XOR ucast b)) (crc XOR 0xffffffff) buf XOR 0xffffffff"
  by (simp add: crc32_def crc32_loop_foldl DO1_bit_serial [abs_def])

text \<open>C21: A checksum can be computed piecewise: feeding the result of a first call as the seed of a
  second call is the checksum of the concatenation (this is how callers process a buffer in
  chunks).\<close>

theorem crc32_append: "crc32 crc (xs @ ys) = crc32 (crc32 crc xs) ys"
  by (simp add: crc32_def crc32_loop_foldl xor.assoc)

text \<open>C25: Changing any single byte of a block changes its \<open>crc32\<close>, whatever precedes and follows
  it, so a corrupted byte in an environment sector is always noticed.\<close>

theorem crc32_detects_byte:
  assumes "a \<noteq> b"
  shows "crc32 crc (xs @ a # ys) \<noteq> crc32 crc (xs @ b # ys)"
  using c32.detects_byte [OF assms] by (simp add: crc32_def crc32_loop_foldl)

theorem crc32_detects_byte_witness:
  "crc32 0 ([1, 2] @ 3 # [4]) \<noteq> crc32 0 ([1, 2] @ 7 # [4])"
  by (rule crc32_detects_byte) simp

text \<open>The modem CRC likewise detects every single-byte change of a block.\<close>

theorem cyg_crc16_detects_byte:
  assumes "a \<noteq> b"
  shows "cyg_crc16 (xs @ a # ys) \<noteq> cyg_crc16 (xs @ b # ys)"
  using c16.detects_byte [OF assms] by (simp add: cyg_crc16_def)

theorem cyg_crc16_detects_byte_witness:
  "cyg_crc16 ([1, 2] @ 3 # [4]) \<noteq> cyg_crc16 ([1, 2] @ 7 # [4])"
  by (rule cyg_crc16_detects_byte) simp

end
