(* ===== verification/Lzma.thy ===== *)
theory Lzma
  imports Prelude
begin

text \<open>
  The LZMA decoder of \<open>lib_generic/LzmaDecode.c\<close> in the configuration of this boot loader
  (neither \<open>_LZMA_IN_CB\<close> nor \<open>_LZMA_OUT_READ\<close>, 16-bit probabilities), which unpacks the
  kernel image and, in \<open>lib_bootstrap\<close>, the second stage of the loader itself.

  The macros of the range coder become functions on the record \<open>rcoder\<close>; the rest of the
  decoder's local variables are the record \<open>lzstate\<close>. Every array access of the source is
  checked in the model: an index outside the probability table, a read of the input past its
  limit, a read of the output at a position not written yet or a write past \<open>outSize\<close> is the
  exit \<open>Out_Of_Bounds\<close>. A loop that would run past its bound is the exit
  \<open>Out_Of_Loop_Bound\<close>. The safety theorem shows that neither exit is ever taken, for any
  input bytes.
\<close>

subsection \<open>Constants\<close>

abbreviation (input) kTopValue :: u32 where "kTopValue \<equiv> 0x1000000"
abbreviation (input) kBitModelTotal :: int where "kBitModelTotal \<equiv> 2048"
abbreviation (input) kLenNumLowBits :: nat where "kLenNumLowBits \<equiv> 3"
abbreviation (input) kLenNumMidBits :: nat where "kLenNumMidBits \<equiv> 3"
abbreviation (input) kLenNumHighBits :: nat where "kLenNumHighBits \<equiv> 8"
abbreviation (input) kNumLitStates :: nat where "kNumLitStates \<equiv> 7"
abbreviation (input) kNumPosSlotBits :: nat where "kNumPosSlotBits \<equiv> 6"
abbreviation (input) kNumAlignBits :: nat where "kNumAlignBits \<equiv> 4"
abbreviation (input) LZMA_LIT_SIZE :: nat where "LZMA_LIT_SIZE \<equiv> 768"

text \<open>Offsets inside a length coder (\<open>LenChoice\<close> to \<open>kNumLenProbs\<close>).\<close>

abbreviation (input) LenChoice :: nat where "LenChoice \<equiv> 0"
abbreviation (input) LenChoice2 :: nat where "LenChoice2 \<equiv> 1"
abbreviation (input) LenLow :: nat where "LenLow \<equiv> 2"
abbreviation (input) LenMid :: nat where "LenMid \<equiv> 130"
abbreviation (input) LenHigh :: nat where "LenHigh \<equiv> 258"

text \<open>Offsets inside the probability table (\<open>IsMatch\<close> to \<open>Literal\<close>).\<close>

abbreviation (input) IsMatch :: nat where "IsMatch \<equiv> 0"
abbreviation (input) IsRep :: nat where "IsRep \<equiv> 192"
abbreviation (input) IsRepG0 :: nat where "IsRepG0 \<equiv> 204"
abbreviation (input) IsRepG1 :: nat where "IsRepG1 \<equiv> 216"
abbreviation (input) IsRepG2 :: nat where "IsRepG2 \<equiv> 228"
abbreviation (input) IsRep0Long :: nat where "IsRep0Long \<equiv> 240"
abbreviation (input) PosSlot :: nat where "PosSlot \<equiv> 432"
abbreviation (input) SpecPos :: nat where "SpecPos \<equiv> 688"
abbreviation (input) Align :: nat where "Align \<equiv> 802"
abbreviation (input) LenCoder :: nat where "LenCoder \<equiv> 818"
abbreviation (input) RepLenCoder :: nat where "RepLenCoder \<equiv> 1332"
abbreviation (input) LiteralBase :: nat where "LiteralBase \<equiv> 1846"

subsection \<open>State\<close>

datatype lzma_exit = LZMA_RESULT_DATA_ERROR | Out_Of_Bounds | Out_Of_Loop_Bound

record lzma_props =
  prop_lc :: nat
  prop_lp :: nat
  prop_pb :: nat

text \<open>
  \<open>lzctx\<close> is what does not change during a call: the input, the size of the probability
  array behind \<open>vs->Probs\<close>, the masks, \<open>lc\<close> and the output capacity.
\<close>

record lzctx =
  inStream :: "byte list"
  probsSize :: nat
  posStateMask :: u32
  literalPosMask :: u32
  ctx_lc :: nat
  outSize :: nat

record rcoder =
  Range :: u32
  Code :: u32
  Buffer :: nat
  Probs :: "nat \<Rightarrow> u16"

text \<open>
  \<open>outStream\<close> holds the bytes written so far, so that \<open>nowPos\<close> is its length.
\<close>

record lzstate =
  outStream :: "byte list"
  previousByte :: byte
  lzs :: nat
  rep0 :: u32
  rep1 :: u32
  rep2 :: u32
  rep3 :: u32

abbreviation nowPos :: "lzstate \<Rightarrow> u32" where
  "nowPos z \<equiv> of_nat (length (outStream z))"

subsection \<open>Stream properties\<close>

text \<open>The counting loop \<open>for (x = 0; prop0 >= d; x++, prop0 -= d)\<close>.\<close>

fun props_count :: "nat \<Rightarrow> nat \<Rightarrow> nat \<Rightarrow> nat \<times> nat" where
  "props_count d x prop0 =
     (if d \<le> prop0 \<and> 0 < d then props_count d (Suc x) (prop0 - d) else (x, prop0))"

definition LzmaDecodeProperties :: "byte list \<Rightarrow> int \<Rightarrow> lzma_exit + lzma_props" where
  "LzmaDecodeProperties propsData n =
     (if n < 5 then Inl LZMA_RESULT_DATA_ERROR
      else case propsData of
        [] \<Rightarrow> Inl Out_Of_Bounds
      | b # _ \<Rightarrow>
         (let prop0 = unat b in
          if prop0 \<ge> 9 * 5 * 5 then Inl LZMA_RESULT_DATA_ERROR
          else
            let (pb, prop0) = props_count (9 * 5) 0 prop0;
                (lp, prop0) = props_count 9 0 prop0
            in Inr \<lparr>prop_lc = prop0, prop_lp = lp, prop_pb = pb\<rparr>))"

definition LzmaGetNumProbs :: "lzma_props \<Rightarrow> nat" where
  "LzmaGetNumProbs p = 1846 + LZMA_LIT_SIZE * 2 ^ (prop_lc p + prop_lp p)"

subsection \<open>The range coder\<close>

definition RC_READ_BYTE :: "lzctx \<Rightarrow> rcoder \<Rightarrow> lzma_exit + byte \<times> rcoder" where
  "RC_READ_BYTE c r =
     (if Buffer r = length (inStream c) then Inl LZMA_RESULT_DATA_ERROR
      else if Buffer r < length (inStream c)
      then Inr (inStream c ! Buffer r, r\<lparr>Buffer := Suc (Buffer r)\<rparr>)
      else Inl Out_Of_Bounds)"

fun rc_init_loop :: "nat \<Rightarrow> lzctx \<Rightarrow> rcoder \<Rightarrow> lzma_exit + rcoder" where
  "rc_init_loop 0 c r = Inr r"
| "rc_init_loop (Suc i) c r =
     rbind (RC_READ_BYTE c r) (\<lambda>(b, r).
       rc_init_loop i c (r\<lparr>Code := push_bit 8 (Code r) OR ucast b\<rparr>))"

definition RC_INIT :: "lzctx \<Rightarrow> rcoder \<Rightarrow> lzma_exit + rcoder" where
  "RC_INIT c r = rc_init_loop 5 c (r\<lparr>Buffer := 0, Code := 0, Range := 0xFFFFFFFF\<rparr>)"

definition RC_NORMALIZE :: "lzctx \<Rightarrow> rcoder \<Rightarrow> lzma_exit + rcoder" where
  "RC_NORMALIZE c r =
     (if Range r < kTopValue then
        rbind (RC_READ_BYTE c r) (\<lambda>(b, r).
          Inr (r\<lparr>Range := push_bit 8 (Range r), Code := push_bit 8 (Code r) OR ucast b\<rparr>))
      else Inr r)"

text \<open>
  \<open>IfBit0(p)\<close> with the \<open>UpdateBit0(p)\<close> or \<open>UpdateBit1(p)\<close> that follows it at every use:
  the decoded bit and the new coder state. \<open>i\<close> is the index of \<open>p\<close> in the table.
\<close>

definition prob_up :: "u16 \<Rightarrow> u16" where
  "prob_up p = word_of_int (uint p + drop_bit 5 (kBitModelTotal - uint p))"

definition prob_down :: "u16 \<Rightarrow> u16" where
  "prob_down p = p - drop_bit 5 p"

definition RC_BIT :: "lzctx \<Rightarrow> nat \<Rightarrow> rcoder \<Rightarrow> lzma_exit + bool \<times> rcoder" where
  "RC_BIT c i r =
     rbind (RC_NORMALIZE c r) (\<lambda>r.
       if i < probsSize c then
         (let p = Probs r i; bound = drop_bit 11 (Range r) * ucast p in
          if Code r < bound
          then Inr (False, r\<lparr>Range := bound, Probs := (Probs r)(i := prob_up p)\<rparr>)
          else Inr (True, r\<lparr>Range := Range r - bound, Code := Code r - bound,
                            Probs := (Probs r)(i := prob_down p)\<rparr>))
       else Inl Out_Of_Bounds)"

text \<open>
  The loop of \<open>RangeDecoderBitTreeDecode\<close>; the number of levels is a positive constant at
  every use, so the do-while runs exactly that many times.
\<close>

fun bittree_loop :: "lzctx \<Rightarrow> nat \<Rightarrow> nat \<Rightarrow> nat \<Rightarrow> rcoder \<Rightarrow> lzma_exit + nat \<times> rcoder" where
  "bittree_loop c probs 0 res r = Inr (res, r)"
| "bittree_loop c probs (Suc i) res r =
     rbind (RC_BIT c (probs + res) r) (\<lambda>(b, r).
       bittree_loop c probs i (2 * res + of_bool b) r)"

definition RangeDecoderBitTreeDecode ::
  "lzctx \<Rightarrow> nat \<Rightarrow> nat \<Rightarrow> rcoder \<Rightarrow> lzma_exit + nat \<times> rcoder" where
  "RangeDecoderBitTreeDecode c probs numLevels r =
     rbind (bittree_loop c probs numLevels 1 r) (\<lambda>(res, r). Inr (res - 2 ^ numLevels, r))"

subsection \<open>Output\<close>

text \<open>\<open>outStream[nowPos - rep0]\<close>: the subtraction wraps at 32 bits.\<close>

definition out_read :: "lzstate \<Rightarrow> lzma_exit + byte" where
  "out_read z =
     (let i = unat (nowPos z - rep0 z) in
      if i < length (outStream z) then Inr (outStream z ! i) else Inl Out_Of_Bounds)"

text \<open>\<open>previousByte = b; outStream[nowPos++] = previousByte\<close>.\<close>

definition out_write :: "lzctx \<Rightarrow> byte \<Rightarrow> lzstate \<Rightarrow> lzma_exit + lzstate" where
  "out_write c b z =
     (if length (outStream z) < outSize c
      then Inr (z\<lparr>outStream := outStream z @ [b], previousByte := b\<rparr>)
      else Inl Out_Of_Bounds)"

subsection \<open>Literals\<close>

text \<open>The two symbol loops; eight bits are read, so the bound 8 is enough.\<close>

fun lit_matched ::
  "nat \<Rightarrow> lzctx \<Rightarrow> nat \<Rightarrow> nat \<Rightarrow> nat \<Rightarrow> rcoder \<Rightarrow> lzma_exit + nat \<times> rcoder" where
  "lit_matched 0 c prob matchByte symbol r = Inl Out_Of_Loop_Bound"
| "lit_matched (Suc n) c prob matchByte symbol r =
     (let matchByte = 2 * matchByte; bit = and matchByte 0x100 in
      rbind (RC_BIT c (prob + 0x100 + bit + symbol) r) (\<lambda>(b, r).
        let symbol = 2 * symbol + of_bool b in
        if b = (bit = 0) then Inr (symbol, r)
        else if symbol < 0x100 then lit_matched n c prob matchByte symbol r
        else Inr (symbol, r)))"

fun lit_plain :: "nat \<Rightarrow> lzctx \<Rightarrow> nat \<Rightarrow> nat \<Rightarrow> rcoder \<Rightarrow> lzma_exit + nat \<times> rcoder" where
  "lit_plain 0 c prob symbol r =
     (if symbol < 0x100 then Inl Out_Of_Loop_Bound else Inr (symbol, r))"
| "lit_plain (Suc n) c prob symbol r =
     (if symbol < 0x100 then
        rbind (RC_BIT c (prob + symbol) r) (\<lambda>(b, r).
          lit_plain n c prob (2 * symbol + of_bool b) r)
      else Inr (symbol, r))"

definition literal_prob :: "lzctx \<Rightarrow> lzstate \<Rightarrow> nat" where
  "literal_prob c z =
     LiteralBase + LZMA_LIT_SIZE *
       (push_bit (ctx_lc c) (unat (nowPos z AND literalPosMask c)) +
        drop_bit (8 - ctx_lc c) (unat (previousByte z)))"

definition state_after_literal :: "nat \<Rightarrow> nat" where
  "state_after_literal st = (if st < 4 then 0 else if st < 10 then st - 3 else st - 6)"

definition lz_literal :: "lzctx \<Rightarrow> rcoder \<Rightarrow> lzstate \<Rightarrow> lzma_exit + rcoder \<times> lzstate" where
  "lz_literal c r z =
     (let prob = literal_prob c z in
      rbind
        (if lzs z \<ge> kNumLitStates then
           rbind (out_read z) (\<lambda>mb. lit_matched 8 c prob (unat mb) 1 r)
         else Inr (1, r))
        (\<lambda>(symbol, r).
          rbind (lit_plain 8 c prob symbol r) (\<lambda>(symbol, r).
            rbind (out_write c (of_nat symbol) z) (\<lambda>z.
              Inr (r, z\<lparr>lzs := state_after_literal (lzs z)\<rparr>)))))"

subsection \<open>Matches\<close>

datatype lz_next = Continue | Match nat

definition state_after_match :: "nat \<Rightarrow> nat" where
  "state_after_match st = (if st < kNumLitStates then 0 else 3)"

definition state_after_rep :: "nat \<Rightarrow> nat" where
  "state_after_rep st = (if st < kNumLitStates then 8 else 11)"

definition state_after_shortrep :: "nat \<Rightarrow> nat" where
  "state_after_shortrep st = (if st < kNumLitStates then 9 else 11)"

text \<open>
  From the \<open>IsRep\<close> decision to the choice of the length coder: a new match, a one-byte repeat
  (finished at once), or a repeat with one of the four last distances.
\<close>

definition lz_shortrep :: "lzctx \<Rightarrow> rcoder \<Rightarrow> lzstate \<Rightarrow> lzma_exit + rcoder \<times> lzstate" where
  "lz_shortrep c r z =
     (if nowPos z = 0 then Inl LZMA_RESULT_DATA_ERROR
      else
        let z = z\<lparr>lzs := state_after_shortrep (lzs z)\<rparr> in
        rbind (out_read z) (\<lambda>b. rbind (out_write c b z) (\<lambda>z. Inr (r, z))))"

definition lz_olddist :: "lzctx \<Rightarrow> rcoder \<Rightarrow> lzstate \<Rightarrow> lzma_exit + rcoder \<times> lzstate" where
  "lz_olddist c r z =
     rbind (RC_BIT c (IsRepG1 + lzs z) r) (\<lambda>(b, r).
       if \<not> b then Inr (r, z\<lparr>rep1 := rep0 z, rep0 := rep1 z\<rparr>)
       else
         rbind (RC_BIT c (IsRepG2 + lzs z) r) (\<lambda>(b, r).
           if \<not> b
           then Inr (r, z\<lparr>rep2 := rep1 z, rep1 := rep0 z, rep0 := rep2 z\<rparr>)
           else Inr (r, z\<lparr>rep3 := rep2 z, rep2 := rep1 z, rep1 := rep0 z, rep0 := rep3 z\<rparr>)))"

definition lz_rep0 ::
  "lzctx \<Rightarrow> nat \<Rightarrow> rcoder \<Rightarrow> lzstate \<Rightarrow> lzma_exit + lz_next \<times> rcoder \<times> lzstate" where
  "lz_rep0 c posState r z =
     rbind (RC_BIT c (IsRep0Long + 16 * lzs z + posState) r) (\<lambda>(b, r).
       if \<not> b then rbind (lz_shortrep c r z) (\<lambda>(r, z). Inr (Continue, r, z))
       else Inr (Match RepLenCoder, r, z\<lparr>lzs := state_after_rep (lzs z)\<rparr>))"

definition lz_rep ::
  "lzctx \<Rightarrow> nat \<Rightarrow> rcoder \<Rightarrow> lzstate \<Rightarrow> lzma_exit + lz_next \<times> rcoder \<times> lzstate" where
  "lz_rep c posState r z =
     rbind (RC_BIT c (IsRepG0 + lzs z) r) (\<lambda>(b, r).
       if \<not> b then lz_rep0 c posState r z
       else
         rbind (lz_olddist c r z) (\<lambda>(r, z).
           Inr (Match RepLenCoder, r, z\<lparr>lzs := state_after_rep (lzs z)\<rparr>)))"

definition lz_choose ::
  "lzctx \<Rightarrow> nat \<Rightarrow> rcoder \<Rightarrow> lzstate \<Rightarrow> lzma_exit + lz_next \<times> rcoder \<times> lzstate" where
  "lz_choose c posState r z =
     rbind (RC_BIT c (IsRep + lzs z) r) (\<lambda>(b, r).
       if \<not> b then
         Inr (Match LenCoder, r,
           z\<lparr>rep3 := rep2 z, rep2 := rep1 z, rep1 := rep0 z,
             lzs := state_after_match (lzs z)\<rparr>)
       else lz_rep c posState r z)"

definition lz_len ::
  "lzctx \<Rightarrow> nat \<Rightarrow> nat \<Rightarrow> rcoder \<Rightarrow> lzma_exit + nat \<times> rcoder" where
  "lz_len c prob posState r =
     rbind (RC_BIT c (prob + LenChoice) r) (\<lambda>(b, r).
       if \<not> b then
         RangeDecoderBitTreeDecode c (prob + LenLow + 8 * posState) kLenNumLowBits r
       else
         rbind (RC_BIT c (prob + LenChoice2) r) (\<lambda>(b, r).
           if \<not> b then
             rbind (RangeDecoderBitTreeDecode c (prob + LenMid + 8 * posState) kLenNumMidBits r)
               (\<lambda>(len, r). Inr (len + 8, r))
           else
             rbind (RangeDecoderBitTreeDecode c (prob + LenHigh) kLenNumHighBits r)
               (\<lambda>(len, r). Inr (len + 16, r))))"

text \<open>
  Distances. The direct-bit loop and the reverse bit tree are do-while loops with a positive
  count; entering one with count 0 would wrap the counter and is the loop-bound exit.
\<close>

fun direct_bits :: "nat \<Rightarrow> lzctx \<Rightarrow> u32 \<Rightarrow> rcoder \<Rightarrow> lzma_exit + u32 \<times> rcoder" where
  "direct_bits 0 c d r = Inl Out_Of_Loop_Bound"
| "direct_bits (Suc n) c d r =
     rbind (RC_NORMALIZE c r) (\<lambda>r.
       let r = r\<lparr>Range := drop_bit 1 (Range r)\<rparr>; d = push_bit 1 d;
           (d, r) = (if Range r \<le> Code r
                     then (d OR 1, r\<lparr>Code := Code r - Range r\<rparr>) else (d, r))
       in if n = 0 then Inr (d, r) else direct_bits n c d r)"

fun reverse_bits ::
  "nat \<Rightarrow> lzctx \<Rightarrow> nat \<Rightarrow> u32 \<Rightarrow> nat \<Rightarrow> u32 \<Rightarrow> rcoder \<Rightarrow> lzma_exit + u32 \<times> rcoder" where
  "reverse_bits 0 c prob i mi d r = Inl Out_Of_Loop_Bound"
| "reverse_bits (Suc n) c prob i mi d r =
     rbind (RC_BIT c (prob + mi) r) (\<lambda>(b, r).
       let d = (if b then d OR i else d) in
       if n = 0 then Inr (d, r)
       else reverse_bits n c prob (push_bit 1 i) (2 * mi + of_bool b) d r)"

definition lz_posslot ::
  "lzctx \<Rightarrow> nat \<Rightarrow> rcoder \<Rightarrow> lzma_exit + u32 \<times> rcoder" where
  "lz_posslot c posSlot r =
     (if posSlot \<ge> 4 then
        (let numDirectBits = drop_bit 1 posSlot - 1;
             d = 2 OR (of_nat posSlot AND 1 :: u32) in
         if posSlot < 14 then
           (let d = push_bit numDirectBits d in
            reverse_bits numDirectBits c (SpecPos + unat d - posSlot - 1) 1 1 d r)
         else
           rbind (direct_bits (numDirectBits - kNumAlignBits) c d r) (\<lambda>(d, r).
             reverse_bits kNumAlignBits c Align 1 1 (push_bit kNumAlignBits d) r))
      else Inr (of_nat posSlot, r))"

text \<open>
  The block guarded by \<open>state < 4\<close>: the result says whether the end marker was seen (the
  incremented distance is zero).
\<close>

definition lz_distance ::
  "lzctx \<Rightarrow> nat \<Rightarrow> rcoder \<Rightarrow> lzstate \<Rightarrow> lzma_exit + bool \<times> rcoder \<times> lzstate" where
  "lz_distance c len r z =
     (if lzs z < 4 then
        rbind (RangeDecoderBitTreeDecode c (PosSlot + 64 * min len 3) kNumPosSlotBits r)
          (\<lambda>(posSlot, r).
            rbind (lz_posslot c posSlot r) (\<lambda>(d, r).
              Inr (d + 1 = 0, r, z\<lparr>lzs := lzs z + kNumLitStates, rep0 := d + 1\<rparr>)))
      else Inr (False, r, z))"

text \<open>The copy loop; \<open>len\<close> is at least 2 when it starts.\<close>

fun lz_copy :: "nat \<Rightarrow> lzctx \<Rightarrow> lzstate \<Rightarrow> lzma_exit + lzstate" where
  "lz_copy 0 c z = Inl Out_Of_Loop_Bound"
| "lz_copy (Suc len) c z =
     rbind (out_read z) (\<lambda>b.
       rbind (out_write c b z) (\<lambda>z.
         if len \<noteq> 0 \<and> length (outStream z) < outSize c then lz_copy len c z else Inr z))"

definition lz_match ::
  "lzctx \<Rightarrow> nat \<Rightarrow> rcoder \<Rightarrow> lzstate \<Rightarrow> lzma_exit + bool \<times> rcoder \<times> lzstate" where
  "lz_match c posState r z =
     rbind (lz_choose c posState r z) (\<lambda>(nx, r, z).
       case nx of
         Continue \<Rightarrow> Inr (False, r, z)
       | Match prob \<Rightarrow>
           rbind (lz_len c prob posState r) (\<lambda>(len, r).
             rbind (lz_distance c len r z) (\<lambda>(eos, r, z).
               if eos then Inr (True, r, z)
               else if nowPos z < rep0 z then Inl LZMA_RESULT_DATA_ERROR
               else rbind (lz_copy (len + 2) c z) (\<lambda>z. Inr (False, r, z)))))"

subsection \<open>The decoder\<close>

definition lz_iter ::
  "lzctx \<Rightarrow> rcoder \<Rightarrow> lzstate \<Rightarrow> lzma_exit + bool \<times> rcoder \<times> lzstate" where
  "lz_iter c r z =
     (let posState = unat (nowPos z AND posStateMask c) in
      rbind (RC_BIT c (IsMatch + 16 * lzs z + posState) r) (\<lambda>(b, r).
        if \<not> b then rbind (lz_literal c r z) (\<lambda>(r, z). Inr (False, r, z))
        else lz_match c posState r z))"

text \<open>
  The main loop \<open>while (nowPos < outSize)\<close>. Every iteration writes at least one byte, so
  \<open>outSize\<close> iterations are enough.
\<close>

fun lz_loop :: "nat \<Rightarrow> lzctx \<Rightarrow> rcoder \<Rightarrow> lzstate \<Rightarrow> lzma_exit + rcoder \<times> lzstate" where
  "lz_loop n c r z =
     (if length (outStream z) < outSize c then
        (case n of
           0 \<Rightarrow> Inl Out_Of_Loop_Bound
         | Suc n \<Rightarrow>
             rbind (lz_iter c r z) (\<lambda>(eos, r, z).
               if eos then Inr (r, z) else lz_loop n c r z))
      else Inr (r, z))"

record lzma_result =
  decoded :: "byte list"
  inSizeProcessed :: nat
  outSizeProcessed :: nat

definition lz_context :: "lzma_props \<Rightarrow> nat \<Rightarrow> byte list \<Rightarrow> nat \<Rightarrow> lzctx" where
  "lz_context props psize inp osize =
     \<lparr>inStream = inp, probsSize = psize,
      posStateMask = push_bit (prop_pb props) 1 - 1,
      literalPosMask = push_bit (prop_lp props) 1 - 1,
      ctx_lc = prop_lc props, outSize = osize\<rparr>"

definition lz_start :: lzstate where
  "lz_start = \<lparr>outStream = [], previousByte = 0, lzs = 0, rep0 = 1, rep1 = 1, rep2 = 1, rep3 = 1\<rparr>"

text \<open>
  \<open>LzmaDecode\<close>: \<open>old\<close> is the content of the \<open>Probs\<close> array on entry and \<open>psize\<close> its
  number of elements.
\<close>

definition LzmaDecode ::
  "lzma_props \<Rightarrow> (nat \<Rightarrow> u16) \<Rightarrow> nat \<Rightarrow> byte list \<Rightarrow> nat \<Rightarrow> lzma_exit + lzma_result" where
  "LzmaDecode props old psize inp osize =
     (let c = lz_context props psize inp osize;
          numProbs = LzmaGetNumProbs props;
          p = (\<lambda>i. if i < numProbs then 1024 else old i) in
      if psize < numProbs then Inl Out_Of_Bounds
      else
        rbind (RC_INIT c \<lparr>Range = 0, Code = 0, Buffer = 0, Probs = p\<rparr>) (\<lambda>r.
          rbind (lz_loop osize c r lz_start) (\<lambda>(r, z).
            rbind (RC_NORMALIZE c r) (\<lambda>r.
              Inr \<lparr>decoded = outStream z, inSizeProcessed = Buffer r,
                   outSizeProcessed = length (outStream z)\<rparr>))))"

subsection \<open>Invariants and reference definitions\<close>

abbreviation safe :: "('a \<Rightarrow> bool) \<Rightarrow> lzma_exit + 'a \<Rightarrow> bool" where
  "safe \<equiv> ensures {LZMA_RESULT_DATA_ERROR}"

definition prob_ok :: "u16 \<Rightarrow> bool" where
  "prob_ok p \<longleftrightarrow> 31 \<le> unat p \<and> unat p \<le> 2017"

definition rc_ok :: "nat \<Rightarrow> lzctx \<Rightarrow> rcoder \<Rightarrow> bool" where
  "rc_ok N c r \<longleftrightarrow> N \<le> probsSize c \<and> Buffer r \<le> length (inStream c) \<and>
     65536 \<le> unat (Range r) \<and> (\<forall>i<N. prob_ok (Probs r i))"

text \<open>The context of a call whose properties are in range and whose table is large enough.\<close>

definition ctx_ok :: "nat \<Rightarrow> lzctx \<Rightarrow> bool" where
  "ctx_ok N c \<longleftrightarrow> ctx_lc c \<le> 8 \<and> outSize c < 2 ^ 32 \<and>
     (\<exists>pb\<le>4. posStateMask c = mask pb) \<and>
     (\<exists>lp\<le>4. literalPosMask c = mask lp \<and> N = 1846 + 768 * 2 ^ (ctx_lc c + lp))"

definition rep_ok :: "lzstate \<Rightarrow> u32 \<Rightarrow> bool" where
  "rep_ok z d \<longleftrightarrow> 1 \<le> unat d \<and> unat d \<le> max 1 (length (outStream z))"

definition lz_pre :: "lzctx \<Rightarrow> lzstate \<Rightarrow> bool" where
  "lz_pre c z \<longleftrightarrow> lzs z < 12 \<and> length (outStream z) \<le> outSize c \<and>
     rep_ok z (rep0 z) \<and> rep_ok z (rep1 z) \<and> rep_ok z (rep2 z) \<and> rep_ok z (rep3 z)"

definition lz_ok :: "lzctx \<Rightarrow> lzstate \<Rightarrow> bool" where
  "lz_ok c z \<longleftrightarrow> lz_pre c z \<and> (7 \<le> lzs z \<longrightarrow> outStream z \<noteq> [])"

text \<open>One more step: the state is in order again and at least one byte was added.\<close>

definition lz_grown :: "lzctx \<Rightarrow> lzstate \<Rightarrow> lzstate \<Rightarrow> bool" where
  "lz_grown c z z' \<longleftrightarrow> lz_ok c z' \<and> length (outStream z) < length (outStream z')"

definition choose_post :: "nat \<Rightarrow> lzctx \<Rightarrow> lzstate \<Rightarrow> lz_next \<times> rcoder \<times> lzstate \<Rightarrow> bool" where
  "choose_post N c z = (\<lambda>(nx, r', z'). rc_ok N c r' \<and>
      (case nx of Continue \<Rightarrow> lz_grown c z z'
       | Match prob \<Rightarrow> prob + 514 \<le> N \<and> lz_pre c z' \<and> outStream z' = outStream z))"

text \<open>After the distance block: as before it, but \<open>rep0\<close> is any non-zero value or the end marker.\<close>

definition dist_post :: "nat \<Rightarrow> lzctx \<Rightarrow> lzstate \<Rightarrow> bool \<times> rcoder \<times> lzstate \<Rightarrow> bool" where
  "dist_post N c z = (\<lambda>(eos, r', z'). rc_ok N c r' \<and> outStream z' = outStream z \<and>
     lz_pre c (z'\<lparr>rep0 := 1\<rparr>) \<and> (\<not> eos \<longrightarrow> rep0 z' \<noteq> 0))"

text \<open>Reference definition of an LZ77 copy: \<open>n\<close> times the byte \<open>d\<close> positions back.\<close>

fun lz_expand :: "nat \<Rightarrow> nat \<Rightarrow> byte list \<Rightarrow> byte list" where
  "lz_expand 0 d out = out"
| "lz_expand (Suc n) d out = lz_expand n d (out @ [out ! (length out - d)])"

definition step_post :: "nat \<Rightarrow> lzctx \<Rightarrow> lzstate \<Rightarrow> bool \<times> rcoder \<times> lzstate \<Rightarrow> bool" where
  "step_post N c z = (\<lambda>(eos, r', z'). rc_ok N c r' \<and>
     (if eos then outStream z' = outStream z else lz_grown c z z'))"

subsection \<open>Safety\<close>

lemma unat_prob_up:
  assumes "prob_ok p" shows "unat (prob_up p) = unat p + (2048 - unat p) div 32"
proof -
  obtain n where n: "n = unat p" "n \<le> 2017" using assms by (simp add: prob_ok_def)
  have "2048 - int n = int (2048 - n)" using n(2) by simp
  then have "drop_bit 5 (2048 - int n) = int ((2048 - n) div 32)"
    by (simp only: drop_bit_of_nat drop_bit_eq_div [of _ "_ :: nat"]) simp
  then have "prob_up p = word_of_int (int (n + (2048 - n) div 32))"
    by (simp add: prob_up_def n(1) del: of_int_of_nat_eq)
  moreover have "n + (2048 - n) div 32 < 2 ^ 16"
    using n(2) by simp
  ultimately show ?thesis
    by (simp add: n(1) unat_of_nat_small del: of_nat_add)
qed

lemma unat_prob_down: "unat (prob_down p) = unat p - unat p div 32"
  unfolding prob_down_def by (subst unat_sub) (simp_all add: word_le_nat_alt unat_drop_bit)

lemma prob_ok_up: "prob_ok p \<Longrightarrow> prob_ok (prob_up p)"
  unfolding prob_ok_def using unat_prob_up [of p] by (auto simp: prob_ok_def)

lemma prob_ok_down: "prob_ok p \<Longrightarrow> prob_ok (prob_down p)"
  unfolding prob_ok_def unat_prob_down by auto

lemma rc_bound:
  assumes "prob_ok p"
  shows "unat (drop_bit 11 R * (ucast p :: u32)) = unat R div 2048 * unat p"
proof -
  have "unat R div 2048 * unat p \<le> 2097151 * 2017"
    using assms unat_u32_less [of R] by (intro mult_le_mono) (linarith, simp add: prob_ok_def)
  moreover have "unat (ucast p :: u32) = unat p"
    by (rule unat_ucast_le) simp
  moreover have "unat (drop_bit 11 R) = unat R div 2048"
    by (simp add: unat_drop_bit)
  ultimately show ?thesis
    by (subst unat_mult_lem [THEN iffD1]) simp_all
qed

lemma rc_bound_range:
  assumes "prob_ok p" "16777216 \<le> n"
  shows "65536 \<le> n div 2048 * unat p" "n div 2048 * unat p + 65536 \<le> n"
proof -
  have q: "8192 \<le> n div 2048" using assms(2) by simp
  have "8192 * 31 \<le> n div 2048 * unat p"
    using assms(1) q by (intro mult_le_mono) (auto simp: prob_ok_def)
  then show "65536 \<le> n div 2048 * unat p" by simp
  have "n div 2048 * unat p \<le> n div 2048 * 2017"
    using assms(1) by (intro mult_le_mono) (auto simp: prob_ok_def)
  then show "n div 2048 * unat p + 65536 \<le> n" using q by linarith
qed

lemma RC_READ_BYTE_safe:
  "rc_ok N c r \<Longrightarrow> safe (\<lambda>(b, r'). rc_ok N c r' \<and> Range r' = Range r) (RC_READ_BYTE c r)"
  by (auto simp: RC_READ_BYTE_def rc_ok_def)

lemma RC_NORMALIZE_safe:
  assumes "rc_ok N c r"
  shows "safe (\<lambda>r'. rc_ok N c r' \<and> 16777216 \<le> unat (Range r')) (RC_NORMALIZE c r)"
proof (cases "Range r < kTopValue")
  case True
  then have "unat (Range r) < 16777216" by (simp add: word_less_nat_alt)
  then have "unat (push_bit 8 (Range r)) = 256 * unat (Range r)"
    by (subst unat_push_bit_small) simp_all
  with True assms show ?thesis
    unfolding RC_NORMALIZE_def
    by (auto intro!: ensures_rbind [OF RC_READ_BYTE_safe [OF assms]] simp: rc_ok_def)
next
  case False
  with assms show ?thesis by (simp add: RC_NORMALIZE_def word_less_nat_alt)
qed

lemma RC_BIT_step:
  assumes "rc_ok N c r" "16777216 \<le> unat (Range r)" "i < N"
  shows "rc_ok N c (r\<lparr>Range := drop_bit 11 (Range r) * ucast (Probs r i),
      Probs := (Probs r)(i := prob_up (Probs r i))\<rparr>)"
    and "rc_ok N c (r\<lparr>Range := Range r - drop_bit 11 (Range r) * ucast (Probs r i), Code := code,
      Probs := (Probs r)(i := prob_down (Probs r i))\<rparr>)"
proof -
  have p: "prob_ok (Probs r i)" using assms by (simp add: rc_ok_def)
  note b = rc_bound [OF p, of "Range r"] and br = rc_bound_range [OF p assms(2)]
  have "unat (Range r - drop_bit 11 (Range r) * ucast (Probs r i)) =
      unat (Range r) - unat (Range r) div 2048 * unat (Probs r i)"
    using br(2) by (subst unat_sub) (simp_all add: word_le_nat_alt b)
  with assms br show
    "rc_ok N c (r\<lparr>Range := drop_bit 11 (Range r) * ucast (Probs r i),
      Probs := (Probs r)(i := prob_up (Probs r i))\<rparr>)"
    "rc_ok N c (r\<lparr>Range := Range r - drop_bit 11 (Range r) * ucast (Probs r i), Code := code,
      Probs := (Probs r)(i := prob_down (Probs r i))\<rparr>)"
    by (auto simp: rc_ok_def b prob_ok_up prob_ok_down)
qed

lemma RC_BIT_safe:
  assumes "rc_ok N c r" "i < N"
  shows "safe (\<lambda>(b, r'). rc_ok N c r') (RC_BIT c i r)"
  unfolding RC_BIT_def
proof (rule ensures_rbind [OF RC_NORMALIZE_safe [OF assms(1)]], elim conjE)
  fix r assume r: "rc_ok N c r" "16777216 \<le> unat (Range r)"
  have "i < probsSize c" using assms by (simp add: rc_ok_def)
  with RC_BIT_step [OF r assms(2)]
  show "safe (\<lambda>(b, r'). rc_ok N c r') (if i < probsSize c then
         (let p = Probs r i; bound = drop_bit 11 (Range r) * ucast p in
          if Code r < bound
          then Inr (False, r\<lparr>Range := bound, Probs := (Probs r)(i := prob_up p)\<rparr>)
          else Inr (True, r\<lparr>Range := Range r - bound, Code := Code r - bound,
                            Probs := (Probs r)(i := prob_down p)\<rparr>))
       else Inl Out_Of_Bounds)"
    by (simp add: Let_def)
qed

lemma bittree_loop_safe:
  assumes "rc_ok N c r" "(res + 1) * 2 ^ i \<le> 2 * M" "probs + M \<le> N"
  shows "safe (\<lambda>(res', r'). rc_ok N c r' \<and> res * 2 ^ i \<le> res' \<and> res' < (res + 1) * 2 ^ i)
    (bittree_loop c probs i res r)"
  using assms
proof (induction i arbitrary: res r)
  case (Suc i)
  have "(res + 1) * 2 \<le> (res + 1) * 2 ^ Suc i"
    by (intro mult_le_mono) simp_all
  with Suc.prems have i: "probs + res < N" by simp
  have "safe (\<lambda>(res', r'). rc_ok N c r' \<and> res * 2 ^ Suc i \<le> res' \<and> res' < (res + 1) * 2 ^ Suc i)
    (bittree_loop c probs i (2 * res + of_bool b) r')" if "rc_ok N c r'" for b r'
    using Suc.prems
    by (cases b; intro ensures_mono [OF Suc.IH [OF that]]) (auto simp: algebra_simps)
  then show ?case
    by (auto intro!: ensures_rbind [OF RC_BIT_safe [OF Suc.prems(1) i]] simp del: power_Suc)
qed simp

lemma bittree_safe:
  assumes "rc_ok N c r" "probs + 2 ^ n \<le> N"
  shows "safe (\<lambda>(res, r'). rc_ok N c r' \<and> res < 2 ^ n) (RangeDecoderBitTreeDecode c probs n r)"
  unfolding RangeDecoderBitTreeDecode_def
  using assms
  by (intro ensures_rbind [OF bittree_loop_safe [where M = "2 ^ n"]]) auto

lemma lit_matched_safe:
  assumes "rc_ok N c r" "prob + 768 \<le> N" "2 ^ 8 \<le> symbol * 2 ^ m" "symbol < 256"
  shows "safe (\<lambda>(symbol, r'). rc_ok N c r' \<and> 0 < symbol \<and> symbol < 512)
    (lit_matched m c prob matchByte symbol r)"
  using assms
proof (induction m arbitrary: matchByte symbol r)
  case (Suc m)
  have s: "0 < symbol"
    using Suc.prems by (auto intro: gr0I)
  have i: "prob + 256 + and (2 * matchByte) 256 + symbol < N"
    using Suc.prems and_le_nat [of "2 * matchByte" 256] by simp
  have ih: "safe (\<lambda>(symbol, r'). rc_ok N c r' \<and> 0 < symbol \<and> symbol < 512)
      (lit_matched m c prob mb (2 * symbol + of_bool b) r')"
    if "rc_ok N c r'" "2 * symbol + of_bool b < 256" for mb b r'
    using Suc.prems that by (intro Suc.IH) (auto simp: algebra_simps)
  show ?case
    unfolding lit_matched.simps Let_def
    using s Suc.prems(4) ih [where b = True] ih [where b = False]
    by (intro ensures_rbind [OF RC_BIT_safe [OF Suc.prems(1) i]]) auto
qed simp

lemma lit_plain_safe:
  assumes "rc_ok N c r" "prob + 768 \<le> N" "2 ^ 8 \<le> symbol * 2 ^ m" "symbol < 512"
  shows "safe (\<lambda>(symbol, r'). rc_ok N c r' \<and> 256 \<le> symbol \<and> symbol < 512)
    (lit_plain m c prob symbol r)"
  using assms
proof (induction m arbitrary: symbol r)
  case (Suc m)
  show ?case
  proof (cases "symbol < 256")
    case True
    with Suc.prems have i: "prob + symbol < N" by simp
    have "safe (\<lambda>(symbol, r'). rc_ok N c r' \<and> 256 \<le> symbol \<and> symbol < 512)
        (lit_plain m c prob (2 * symbol + of_bool b) r')" if "rc_ok N c r'" for b r'
      using Suc.prems True that by (intro Suc.IH) (auto simp: algebra_simps)
    with True show ?thesis
      by (auto intro!: ensures_rbind [OF RC_BIT_safe [OF Suc.prems(1) i]])
  qed (use Suc.prems in simp)
qed simp

lemma literal_prob_bound:
  assumes "ctx_ok N c"
  shows "literal_prob c z + 768 \<le> N"
proof -
  obtain lp where lp: "literalPosMask c = mask lp" "N = 1846 + 768 * 2 ^ (ctx_lc c + lp)"
    and lc: "ctx_lc c \<le> 8"
    using assms by (auto simp: ctx_ok_def)
  have "unat (previousByte z) div 2 ^ (8 - ctx_lc c) < 2 ^ ctx_lc c"
    using lc unat_byte_less [of "previousByte z"]
    by (intro less_mult_imp_div_less) (simp flip: power_add)
  moreover have "unat (nowPos z AND mask lp) + 1 \<le> 2 ^ lp"
    using unat_and_mask_less [of "nowPos z" lp] by simp
  then have "(unat (nowPos z AND mask lp) + 1) * 2 ^ ctx_lc c \<le> 2 ^ lp * 2 ^ ctx_lc c"
    by (rule mult_le_mono1)
  ultimately show ?thesis
    unfolding literal_prob_def lp push_bit_eq_mult drop_bit_eq_div power_add
    by (simp add: algebra_simps)
qed

lemma lenpos_bound:
  assumes "ctx_ok N c"
  shows "unat (nowPos z AND posStateMask c) < 16"
proof -
  obtain pb where pb: "posStateMask c = mask pb" "pb \<le> 4"
    using assms by (auto simp: ctx_ok_def)
  have "(2::nat) ^ pb \<le> 2 ^ 4" using pb(2) by (intro power_increasing) auto
  with unat_and_mask_less [of "nowPos z" pb] show ?thesis by (simp add: pb(1))
qed

lemma lz_pre_lzs: "lz_pre c z \<Longrightarrow> st < 12 \<Longrightarrow> lz_pre c (z\<lparr>lzs := st\<rparr>)"
  by (simp add: lz_pre_def rep_ok_def)

lemma lz_grown_lzs:
  "lz_grown c z z' \<Longrightarrow> st < 12 \<Longrightarrow> lz_grown c z (z'\<lparr>lzs := st\<rparr>)"
  by (auto simp: lz_grown_def lz_ok_def lz_pre_lzs)

lemma state_after_less [simp]:
  "state_after_rep st < 12" "state_after_match st < 12" "state_after_shortrep st < 12"
  "st < 12 \<Longrightarrow> state_after_literal st < 12"
  by (auto simp: state_after_rep_def state_after_match_def state_after_shortrep_def
      state_after_literal_def)

lemma lz_grown_less: "lz_grown c z z' \<Longrightarrow> lzs z' < 12"
  by (simp add: lz_grown_def lz_ok_def lz_pre_def)

lemma out_read_safe:
  assumes "lz_pre c z" "ctx_ok N c" "outStream z \<noteq> []"
  shows "out_read z = Inr (outStream z ! (length (outStream z) - unat (rep0 z)))"
proof -
  let ?n = "length (outStream z)"
  have n: "unat (nowPos z) = ?n"
    using assms by (intro unat_of_nat_small) (simp add: lz_pre_def ctx_ok_def)
  have r: "1 \<le> unat (rep0 z)" "unat (rep0 z) \<le> ?n"
    using assms by (auto simp: lz_pre_def rep_ok_def max_def Suc_le_eq split: if_splits)
  then have "unat (nowPos z - rep0 z) = ?n - unat (rep0 z)"
    by (subst unat_sub) (simp_all only: word_le_nat_alt n)
  with r show ?thesis by (simp add: out_read_def Let_def)
qed

lemma out_write_safe:
  assumes "lz_pre c z" "length (outStream z) < outSize c"
  shows "safe (lz_grown c z) (out_write c b z)"
  using assms by (auto simp: out_write_def lz_grown_def lz_ok_def lz_pre_def rep_ok_def)

lemma lz_literal_safe:
  assumes "rc_ok N c r" "lz_ok c z" "ctx_ok N c" "length (outStream z) < outSize c"
  shows "safe (\<lambda>(r', z'). rc_ok N c r' \<and> lz_grown c z z') (lz_literal c r z)"
proof -
  note lp = literal_prob_bound [OF assms(3), of z]
  have m: "safe (\<lambda>(symbol, r'). rc_ok N c r' \<and> 0 < symbol \<and> symbol < 512)
     (if lzs z \<ge> 7 then
           rbind (out_read z) (\<lambda>mb. lit_matched 8 c (literal_prob c z) (unat mb) 1 r)
         else Inr (1, r))"
    using assms out_read_safe [of c z N] lp
    by (auto simp: lz_ok_def simp del: lit_matched.simps intro!: lit_matched_safe)
  have "safe (\<lambda>(r', z'). rc_ok N c r' \<and> lz_grown c z z')
      (rbind (out_write c (of_nat symbol) z) (\<lambda>z.
              Inr (r, z\<lparr>lzs := state_after_literal (lzs z)\<rparr>)))" if "rc_ok N c r" for r symbol
    using assms that
    by (intro ensures_rbind [OF out_write_safe])
       (auto intro: lz_grown_lzs lz_grown_less state_after_less simp: lz_ok_def)
  then show ?thesis
    unfolding lz_literal_def Let_def
    using lp
    by (intro ensures_rbind [OF m])
       (auto simp del: lit_plain.simps intro!: ensures_rbind [OF lit_plain_safe])
qed

lemma lz_shortrep_safe:
  assumes "rc_ok N c r" "lz_ok c z" "ctx_ok N c" "length (outStream z) < outSize c"
  shows "safe (\<lambda>(r', z'). rc_ok N c r' \<and> lz_grown c z z') (lz_shortrep c r z)"
proof (cases "outStream z = []")
  case False
  let ?z = "z\<lparr>lzs := state_after_shortrep (lzs z)\<rparr>"
  have z: "lz_pre c ?z"
    using assms by (simp add: lz_ok_def lz_pre_lzs)
  have "safe (\<lambda>(r', z'). rc_ok N c r' \<and> lz_grown c z z')
      (rbind (out_write c b ?z) (\<lambda>z. Inr (r, z)))" for b
    using assms by (intro ensures_rbind [OF out_write_safe [OF z]]) (auto simp: lz_grown_def)
  then show ?thesis
    unfolding lz_shortrep_def Let_def
    using False out_read_safe [OF z assms(3)] by simp
qed (simp add: lz_shortrep_def)

lemma lz_olddist_safe:
  assumes "rc_ok N c r" "lz_pre c z" "240 \<le> N"
  shows "safe (\<lambda>(r', z'). rc_ok N c r' \<and> lz_pre c z' \<and> outStream z' = outStream z \<and> lzs z' = lzs z)
    (lz_olddist c r z)"
proof -
  have i: "216 + lzs z < N" "228 + lzs z < N" using assms by (auto simp: lz_pre_def)
  show ?thesis
    unfolding lz_olddist_def
    by (intro ensures_rbind [OF RC_BIT_safe [OF assms(1) i(1)]])
       (use assms(2) in \<open>auto intro!: ensures_rbind [OF RC_BIT_safe [OF _ i(2)]]
          simp: lz_pre_def rep_ok_def\<close>)
qed

lemma lz_rep0_safe:
  assumes "rc_ok N c r" "lz_ok c z" "ctx_ok N c" "length (outStream z) < outSize c" "posState < 16"
    and "2614 \<le> N"
  shows "safe (choose_post N c z) (lz_rep0 c posState r z)"
proof -
  have pre: "lz_pre c z" using assms by (simp add: lz_ok_def)
  have i: "240 + 16 * lzs z + posState < N"
    using assms pre by (auto simp: lz_pre_def)
  have sh: "safe (choose_post N c z) (rbind (lz_shortrep c r z) (\<lambda>(r, z). Inr (Continue, r, z)))"
    if "rc_ok N c r" for r
    by (rule ensures_rbind [OF lz_shortrep_safe [OF that assms(2-4)]]) (auto simp: choose_post_def)
  show ?thesis
    unfolding lz_rep0_def
    by (rule ensures_rbind [OF RC_BIT_safe [OF assms(1) i]])
       (use sh pre assms(6) in \<open>auto simp: choose_post_def lz_pre_lzs\<close>)
qed

lemma lz_rep_safe:
  assumes "rc_ok N c r" "lz_ok c z" "ctx_ok N c" "length (outStream z) < outSize c" "posState < 16"
    and "2614 \<le> N"
  shows "safe (choose_post N c z) (lz_rep c posState r z)"
proof -
  have pre: "lz_pre c z" using assms by (simp add: lz_ok_def)
  have i: "204 + lzs z < N"
    using assms pre by (auto simp: lz_pre_def)
  have ol: "safe (choose_post N c z) (rbind (lz_olddist c r z) (\<lambda>(r, z).
        Inr (Match RepLenCoder, r, z\<lparr>lzs := state_after_rep (lzs z)\<rparr>)))"
    if "rc_ok N c r" for r
    using assms(6) by (intro ensures_rbind [OF lz_olddist_safe [OF that pre]])
      (auto simp: choose_post_def lz_pre_lzs)
  show ?thesis
    unfolding lz_rep_def
    by (rule ensures_rbind [OF RC_BIT_safe [OF assms(1) i]])
       (use ol lz_rep0_safe [OF _ assms(2-)] in auto)
qed

lemma lz_choose_safe:
  assumes "rc_ok N c r" "lz_ok c z" "ctx_ok N c" "length (outStream z) < outSize c" "posState < 16"
  shows "safe (choose_post N c z) (lz_choose c posState r z)"
proof -
  have N: "2614 \<le> N"
  proof -
    obtain k where "N = 1846 + 768 * 2 ^ k" using assms(3) by (auto simp: ctx_ok_def)
    then show ?thesis by simp
  qed
  have pre: "lz_pre c z" using assms by (simp add: lz_ok_def)
  have i: "192 + lzs z < N"
    using pre N by (auto simp: lz_pre_def)
  show ?thesis
    unfolding lz_choose_def
    by (rule ensures_rbind [OF RC_BIT_safe [OF assms(1) i]])
       (use N pre lz_rep_safe [OF _ assms(2-) N] in
         \<open>auto simp: choose_post_def [of N c z] lz_pre_def rep_ok_def\<close>)
qed

lemma lz_len_safe:
  assumes "rc_ok N c r" "prob + 514 \<le> N" "posState < 16"
  shows "safe (\<lambda>(len, r'). rc_ok N c r') (lz_len c prob posState r)"
proof -
  have i: "prob < N" "prob + 1 < N" using assms by auto
  have t: "safe (\<lambda>(len, r'). rc_ok N c r')
      (RangeDecoderBitTreeDecode c (prob + LenLow + 8 * posState) kLenNumLowBits r)"
      "safe (\<lambda>(len, r'). rc_ok N c r')
      (rbind (RangeDecoderBitTreeDecode c (prob + LenMid + 8 * posState) kLenNumMidBits r)
               (\<lambda>(len, r). Inr (len + 8, r)))"
      "safe (\<lambda>(len, r'). rc_ok N c r')
      (rbind (RangeDecoderBitTreeDecode c (prob + LenHigh) kLenNumHighBits r)
               (\<lambda>(len, r). Inr (len + 16, r)))" if "rc_ok N c r" for r
    using assms that
    by (force intro: ensures_mono [OF bittree_safe] ensures_rbind [OF bittree_safe])+
  show ?thesis
    unfolding lz_len_def
    using assms i t by (auto intro!: ensures_rbind [OF RC_BIT_safe])
qed

lemma reverse_bits_safe:
  assumes "rc_ok N c r" "(mi + 1) * 2 ^ n \<le> 2 * M" "prob + M \<le> N" "0 < n"
  shows "safe (\<lambda>(d, r'). rc_ok N c r') (reverse_bits n c prob i mi d r)"
  using assms
proof (induction n arbitrary: i mi d r)
  case (Suc n)
  have "(mi + 1) * 2 \<le> (mi + 1) * 2 ^ Suc n"
    by (intro mult_le_mono) simp_all
  with Suc.prems have ix: "prob + mi < N" by simp
  have ih: "safe (\<lambda>(d, r'). rc_ok N c r') (reverse_bits n c prob i' (2 * mi + of_bool b) d' r')"
    if "rc_ok N c r'" "0 < n" for b r' d' i'
    using Suc.prems that by (cases b; intro Suc.IH) (auto simp: algebra_simps)
  show ?case
    unfolding reverse_bits.simps Let_def
    using ih [where b = True] ih [where b = False]
    by (intro ensures_rbind [OF RC_BIT_safe [OF Suc.prems(1) ix]]) auto
qed simp

lemma direct_bits_safe:
  assumes "rc_ok N c r" "0 < n"
  shows "safe (\<lambda>(d, r'). rc_ok N c r') (direct_bits n c d r)"
  using assms
proof (induction n arbitrary: d r)
  case (Suc n)
  have "rc_ok N c (r'\<lparr>Range := drop_bit 1 (Range r')\<rparr>)"
    "rc_ok N c (r'\<lparr>Range := drop_bit 1 (Range r'), Code := x\<rparr>)"
    if "rc_ok N c r'" "16777216 \<le> unat (Range r')" for r' x
    using that by (auto simp: rc_ok_def unat_drop_bit simp del: drop_bit_Suc)
  then show ?case
    unfolding direct_bits.simps Let_def
    by (intro ensures_rbind [OF RC_NORMALIZE_safe [OF Suc.prems(1)]]) (auto intro!: Suc.IH)
qed simp

lemma lz_posslot_safe:
  assumes "rc_ok N c r" "posSlot < 64" "2614 \<le> N"
  shows "safe (\<lambda>(d, r'). rc_ok N c r') (lz_posslot c posSlot r)"
proof -
  define nd where "nd = drop_bit 1 posSlot - 1"
  have nd: "nd = posSlot div 2 - 1" by (simp add: nd_def drop_bit_eq_div)
  consider "posSlot < 4" | "4 \<le> posSlot" "posSlot < 14" | "14 \<le> posSlot" by linarith
  then show ?thesis
  proof cases
    case 2
    define d :: u32 where "d = push_bit nd (2 OR (of_nat posSlot AND 1))"
    have n: "nd \<le> 5" "0 < nd" using 2 by (auto simp: nd)
    have "posSlot \<in> {4, 5, 6, 7, 8, 9, 10, 11, 12, 13}"
      using 2 by (simp, presburger)
    then have "unat d \<le> 96"
      unfolding d_def nd by (elim insertE) simp_all
    moreover have "(2::nat) ^ nd \<le> 2 ^ 5" using n by (intro power_increasing) auto
    ultimately have "safe (\<lambda>(d, r'). rc_ok N c r')
        (reverse_bits nd c (688 + unat d - posSlot - 1) 1 1 d r)"
      using assms n by (intro reverse_bits_safe [where M = "2 ^ nd"]) auto
    with 2 show ?thesis
      unfolding lz_posslot_def Let_def nd_def [symmetric] d_def [symmetric] by simp
  next
    case 3
    then have "0 < nd - 4" by (simp add: nd)
    with 3 assms show ?thesis
      unfolding lz_posslot_def Let_def nd_def [symmetric]
      by (auto intro!: ensures_rbind [OF direct_bits_safe] reverse_bits_safe [where M = 16])
  qed (use assms in \<open>simp add: lz_posslot_def\<close>)
qed

lemma lz_distance_safe:
  assumes "rc_ok N c r" "lz_pre c z" "2614 \<le> N"
  shows "safe (dist_post N c z) (lz_distance c len r z)"
proof (cases "lzs z < 4")
  case True
  have b: "432 + 64 * min len 3 + 2 ^ 6 \<le> N" using assms(3) by simp
  have "safe (dist_post N c z) (rbind (lz_posslot c posSlot r) (\<lambda>(d, r).
      Inr (d + 1 = 0, r, z\<lparr>lzs := lzs z + 7, rep0 := d + 1\<rparr>)))"
    if "posSlot < 64" "rc_ok N c r" for posSlot r
    using True assms(2)
    by (intro ensures_rbind [OF lz_posslot_safe [OF that(2,1) assms(3)]])
       (auto simp: dist_post_def lz_pre_def rep_ok_def)
  with True show ?thesis
    unfolding lz_distance_def
    by (auto intro!: ensures_rbind [OF bittree_safe [OF assms(1) b]])
next
  case False
  then show ?thesis
    using assms by (auto simp: lz_distance_def dist_post_def lz_pre_def rep_ok_def)
qed

lemma length_lz_expand [simp]: "length (lz_expand n d out) = length out + n"
  by (induction n d out rule: lz_expand.induct) auto

lemma nth_lz_expand_old: "i < length out \<Longrightarrow> lz_expand n d out ! i = out ! i"
  by (induction n d out rule: lz_expand.induct) (auto simp: nth_append)

lemma nth_lz_expand:
  "0 < d \<Longrightarrow> d \<le> length out \<Longrightarrow> length out \<le> i \<Longrightarrow> i < length out + n \<Longrightarrow>
   lz_expand n d out ! i = lz_expand n d out ! (i - d)"
proof (induction n d out rule: lz_expand.induct)
  case (2 n d out)
  let ?out = "out @ [out ! (length out - d)]"
  show ?case
  proof (cases "i = length out")
    case True
    then have "lz_expand n d ?out ! i = out ! (length out - d)"
      "lz_expand n d ?out ! (i - d) = out ! (length out - d)"
      using "2.prems" by (simp_all add: nth_lz_expand_old nth_append)
    then show ?thesis by simp
  next
    case False
    with 2 show ?thesis by simp
  qed
qed simp

lemma lz_copy_spec:
  assumes "lz_pre c z" "ctx_ok N c" "outStream z \<noteq> []" "length (outStream z) < outSize c" "0 < len"
  shows "lz_copy len c z = Inr (z\<lparr>
      outStream := lz_expand (min len (outSize c - length (outStream z))) (unat (rep0 z)) (outStream z),
      previousByte := last (lz_expand (min len (outSize c - length (outStream z))) (unat (rep0 z)) (outStream z))\<rparr>)"
  using assms
proof (induction len arbitrary: z)
  case (Suc len)
  define b where "b = outStream z ! (length (outStream z) - unat (rep0 z))"
  define z' where "z' = z\<lparr>outStream := outStream z @ [b], previousByte := b\<rparr>"
  have step: "lz_copy (Suc len) c z =
      (if len \<noteq> 0 \<and> length (outStream z') < outSize c then lz_copy len c z' else Inr z')"
    using Suc.prems out_read_safe [OF Suc.prems(1-3)]
    by (simp add: out_write_def z'_def b_def)
  have pre: "lz_pre c z'"
    using Suc.prems by (auto simp: z'_def lz_pre_def rep_ok_def)
  obtain k where k: "min (Suc len) (outSize c - length (outStream z)) = Suc k"
    using Suc.prems(4) by (metis Suc_diff_Suc min_Suc_Suc)
  show ?case
  proof (cases "len \<noteq> 0 \<and> length (outStream z') < outSize c")
    case True
    have "lz_copy len c z' = Inr (z'\<lparr>
      outStream := lz_expand (min len (outSize c - length (outStream z'))) (unat (rep0 z')) (outStream z'),
      previousByte := last (lz_expand (min len (outSize c - length (outStream z'))) (unat (rep0 z')) (outStream z'))\<rparr>)"
      by (rule Suc.IH) (use Suc.prems pre True in \<open>auto simp: z'_def\<close>)
    moreover have "k = min len (outSize c - length (outStream z'))"
      using k by (auto simp: z'_def)
    ultimately show ?thesis
      using True unfolding step k by (simp add: z'_def b_def)
  next
    case False
    then have "k = 0" using k by (auto simp: z'_def)
    with False show ?thesis
      unfolding step k by (auto simp: z'_def b_def)
  qed
qed simp

lemma lz_copy_safe:
  assumes "lz_pre c z" "ctx_ok N c" "outStream z \<noteq> []" "length (outStream z) < outSize c" "0 < len"
  shows "safe (lz_grown c z) (lz_copy len c z)"
  unfolding lz_copy_spec [OF assms]
  using assms by (auto simp: lz_grown_def lz_ok_def lz_pre_def rep_ok_def simp flip: length_greater_0_conv)

lemma lz_match_copy_safe:
  assumes "dist_post N c z (eos, r, z')" "ctx_ok N c" "length (outStream z) < outSize c"
  shows "safe (step_post N c z)
    (if eos then Inr (True, r, z')
     else if nowPos z' < rep0 z' then Inl LZMA_RESULT_DATA_ERROR
     else rbind (lz_copy (len + 2) c z') (\<lambda>z. Inr (False, r, z)))"
proof -
  have o: "outStream z' = outStream z" and rc: "rc_ok N c r" and d: "\<not> eos \<Longrightarrow> rep0 z' \<noteq> 0"
    using assms(1) by (auto simp: dist_post_def)
  have n: "unat (nowPos z') = length (outStream z')"
    using assms o by (intro unat_of_nat_small) (simp add: ctx_ok_def)
  have "safe (step_post N c z) (rbind (lz_copy (len + 2) c z') (\<lambda>z. Inr (False, r, z)))"
    if "\<not> eos" "rep0 z' \<le> nowPos z'"
  proof -
    have "unat (rep0 z') \<noteq> 0" using d that by (simp only: unsigned_eq_0_iff) simp
    moreover have "unat (rep0 z') \<le> length (outStream z')"
      using that n by (simp only: word_le_nat_alt)
    ultimately have "lz_pre c z'" "outStream z' \<noteq> []"
      using assms(1) by (auto simp: dist_post_def lz_pre_def rep_ok_def)
    then show ?thesis
      using assms o rc
      by (intro ensures_rbind [OF lz_copy_safe]) (auto simp: step_post_def lz_grown_def)
  qed
  then show ?thesis
    using o rc by (auto simp: step_post_def not_less)
qed

lemma lz_match_safe:
  assumes "rc_ok N c r" "lz_ok c z" "ctx_ok N c" "length (outStream z) < outSize c" "posState < 16"
  shows "safe (step_post N c z) (lz_match c posState r z)"
proof -
  have N: "2614 \<le> N"
  proof -
    obtain k where "N = 1846 + 768 * 2 ^ k" using assms(3) by (auto simp: ctx_ok_def)
    then show ?thesis by simp
  qed
  have cp: "safe (step_post N c z)
      (rbind (lz_distance c len r z') (\<lambda>(eos, r, z).
               if eos then Inr (True, r, z)
               else if nowPos z < rep0 z then Inl LZMA_RESULT_DATA_ERROR
               else rbind (lz_copy (len + 2) c z) (\<lambda>z. Inr (False, r, z))))"
    if "rc_ok N c r" "lz_pre c z'" "outStream z' = outStream z" for r z' len
    by (rule ensures_rbind [OF lz_distance_safe [OF that(1,2) N]])
       (use lz_match_copy_safe [OF _ assms(3,4)] that in \<open>auto simp: dist_post_def\<close>)
  show ?thesis
    unfolding lz_match_def
  proof (rule ensures_rbind [OF lz_choose_safe [OF assms]], clarify, goal_cases)
    case (1 nx r z')
    show ?case
    proof (cases nx)
      case Continue
      then show ?thesis using 1 by (simp add: choose_post_def step_post_def)
    next
      case (Match prob)
      then have m: "rc_ok N c r" "prob + 514 \<le> N" "lz_pre c z'" "outStream z' = outStream z"
        using 1 by (simp_all add: choose_post_def)
      show ?thesis
        unfolding Match lz_next.case
        by (rule ensures_rbind [OF lz_len_safe [OF m(1,2) assms(5)]]) (use cp m in auto)
    qed
  qed
qed

lemma lz_iter_safe:
  assumes "rc_ok N c r" "lz_ok c z" "ctx_ok N c" "length (outStream z) < outSize c"
  shows "safe (step_post N c z) (lz_iter c r z)"
proof -
  let ?ps = "unat (nowPos z AND posStateMask c)"
  have ps: "?ps < 16" by (rule lenpos_bound [OF assms(3)])
  have "192 \<le> N" using assms(3) by (auto simp: ctx_ok_def)
  with ps assms(2) have i: "0 + 16 * lzs z + ?ps < N"
    by (simp add: lz_ok_def lz_pre_def)
  have "safe (step_post N c z) (rbind (lz_literal c r z) (\<lambda>(r, z). Inr (False, r, z)))"
    if "rc_ok N c r" for r
    by (rule ensures_rbind [OF lz_literal_safe [OF that assms(2-4)]]) (auto simp: step_post_def)
  then show ?thesis
    unfolding lz_iter_def Let_def
    using lz_match_safe [OF _ assms(2-4) ps]
    by (intro ensures_rbind [OF RC_BIT_safe [OF assms(1) i]]) auto
qed

lemma lz_loop_safe:
  assumes "rc_ok N c r" "lz_ok c z" "ctx_ok N c" "outSize c \<le> length (outStream z) + n"
  shows "safe (\<lambda>(r', z'). rc_ok N c r' \<and> length (outStream z') \<le> outSize c) (lz_loop n c r z)"
  using assms
proof (induction n arbitrary: r z)
  case 0
  then show ?case by (simp add: lz_ok_def lz_pre_def)
next
  case (Suc n)
  have le: "length (outStream z) \<le> outSize c"
    using Suc.prems by (simp add: lz_ok_def lz_pre_def)
  show ?case
  proof (cases "length (outStream z) < outSize c")
    case True
    have "safe (\<lambda>(r', z'). rc_ok N c r' \<and> length (outStream z') \<le> outSize c)
       (rbind (lz_iter c r z) (\<lambda>(eos, r, z). if eos then Inr (r, z) else lz_loop n c r z))"
    proof (rule ensures_rbind [OF lz_iter_safe [OF Suc.prems(1-3) True]], clarify)
      fix eos r' z' assume "step_post N c z (eos, r', z')"
      with Suc.prems le
      show "safe (\<lambda>(r', z'). rc_ok N c r' \<and> length (outStream z') \<le> outSize c)
        (if eos then Inr (r', z') else lz_loop n c r' z')"
        by (auto simp: step_post_def lz_grown_def simp del: lz_loop.simps intro!: Suc.IH split: if_splits)
    qed
    with True show ?thesis by (subst lz_loop.simps) simp
  next
    case False
    with Suc.prems le show ?thesis by (subst lz_loop.simps) simp
  qed
qed

lemma rc_init_loop_safe:
  "rc_ok N c r \<Longrightarrow> safe (rc_ok N c) (rc_init_loop n c r)"
proof (induction n arbitrary: r)
  case (Suc n)
  have "safe (rc_ok N c) (rc_init_loop n c (r'\<lparr>Code := x\<rparr>))" if "rc_ok N c r'" for r' x
    using that by (intro Suc.IH) (simp add: rc_ok_def)
  then show ?case
    by (auto intro!: ensures_rbind [OF RC_READ_BYTE_safe [OF Suc.prems]])
qed simp

lemma RC_INIT_safe:
  "N \<le> probsSize c \<Longrightarrow> (\<forall>i<N. prob_ok (Probs r i)) \<Longrightarrow> safe (rc_ok N c) (RC_INIT c r)"
  unfolding RC_INIT_def by (rule rc_init_loop_safe) (simp add: rc_ok_def)

lemma lz_context_ok:
  assumes "prop_lc p \<le> 8" "prop_lp p \<le> 4" "prop_pb p \<le> 4" "osize < 2 ^ 32"
  shows "ctx_ok (LzmaGetNumProbs p) (lz_context p psize inp osize)"
proof -
  have m: "posStateMask (lz_context p psize inp osize) = mask (prop_pb p)"
    "literalPosMask (lz_context p psize inp osize) = mask (prop_lp p)"
    by (simp_all add: lz_context_def mask_eq_decr_exp push_bit_eq_mult)
  show ?thesis
    using assms unfolding ctx_ok_def m
    by (auto simp: lz_context_def LzmaGetNumProbs_def)
qed

lemma lz_start_ok: "lz_ok c lz_start"
  by (simp add: lz_start_def lz_ok_def lz_pre_def rep_ok_def)

lemma LzmaDecode_safe:
  assumes "prop_lc p \<le> 8" "prop_lp p \<le> 4" "prop_pb p \<le> 4" "osize < 2 ^ 32"
    "LzmaGetNumProbs p \<le> psize"
  shows "safe (\<lambda>res. length (decoded res) \<le> osize \<and> outSizeProcessed res = length (decoded res) \<and>
      inSizeProcessed res \<le> length inp) (LzmaDecode p old psize inp osize)"
proof -
  let ?c = "lz_context p psize inp osize" and ?N = "LzmaGetNumProbs p"
  have c: "outSize ?c = osize" "inStream ?c = inp" "probsSize ?c = psize"
    by (simp_all add: lz_context_def)
  have i: "safe (rc_ok ?N ?c) (RC_INIT ?c \<lparr>Range = 0, Code = 0, Buffer = 0,
      Probs = \<lambda>i. if i < ?N then 1024 else old i\<rparr>)"
    using assms by (intro RC_INIT_safe) (simp_all add: c prob_ok_def)
  have l: "safe (\<lambda>(r', z'). rc_ok ?N ?c r' \<and> length (outStream z') \<le> osize)
      (lz_loop osize ?c r lz_start)" if "rc_ok ?N ?c r" for r
    using lz_loop_safe [OF that lz_start_ok lz_context_ok [OF assms(1-4)], of osize] by (simp add: c)
  have e: "safe (\<lambda>res. length (decoded res) \<le> osize \<and> outSizeProcessed res = length (decoded res) \<and>
      inSizeProcessed res \<le> length inp)
      (rbind (RC_NORMALIZE ?c r) (\<lambda>r. Inr \<lparr>decoded = outStream z, inSizeProcessed = Buffer r,
                   outSizeProcessed = length (outStream z)\<rparr>))"
    if "rc_ok ?N ?c r" "length (outStream z) \<le> osize" for r z
    using that by (intro ensures_rbind [OF RC_NORMALIZE_safe]) (auto simp: rc_ok_def c)
  show ?thesis
    unfolding LzmaDecode_def Let_def
    using assms(5) e
    by (auto intro!: ensures_rbind [OF i] ensures_rbind [OF l] simp del: lz_loop.simps)
qed

lemma props_count_eq: "0 < d \<Longrightarrow> props_count d x n = (x + n div d, n mod d)"
proof (induction d x n rule: props_count.induct)
  case (1 d x n)
  then show ?case
    by (subst props_count.simps) (auto simp: le_div_geq le_mod_geq simp del: props_count.simps)
qed

lemma push_or_byte:
  fixes w :: u32 and b :: byte
  assumes "unat w < 16777216"
  shows "unat (push_bit 8 w OR ucast b) = unat w * 256 + unat b"
proof -
  have "push_bit 8 w OR ucast b = push_bit 8 w + ucast b"
    by (rule disjunctive_add_eq_or [symmetric]) (rule bit_word_eqI, auto simp: bit_simps dest: bit_byteD)
  moreover have p: "unat (push_bit 8 w) = unat w * 256"
    using assms by (subst unat_push_bit_small) simp_all
  moreover have b: "unat (ucast b :: u32) = unat b" by (rule unat_ucast_le) simp
  moreover have "unat w * 256 + unat b < 4294967296"
    using assms unat_byte_less [of b] by linarith
  ultimately show ?thesis
    by (simp add: unat_word_ariths)
qed

lemma RC_NORMALIZE_interval:
  assumes "RC_NORMALIZE c r = Inr r'" "Code r < Range r"
  shows "Code r' < Range r'"
proof (cases "Range r < kTopValue")
  case True
  then have R: "unat (Range r) < 16777216" by (simp add: word_less_nat_alt)
  have C: "unat (Code r) < unat (Range r)" using assms(2) by (simp add: word_less_nat_alt)
  have "unat (push_bit 8 (Code r) OR ucast b) < unat (push_bit 8 (Range r))" for b :: byte
  proof -
    have "unat (push_bit 8 (Range r)) = unat (Range r) * 256"
      using R by (subst unat_push_bit_small) simp_all
    moreover have "unat (push_bit 8 (Code r) OR ucast b) = unat (Code r) * 256 + unat b"
      using R C by (intro push_or_byte) simp
    ultimately show ?thesis using C unat_byte_less [of b] by linarith
  qed
  with True assms(1) show ?thesis
    by (auto simp: RC_NORMALIZE_def RC_READ_BYTE_def word_less_nat_alt split: if_splits)
next
  case False
  with assms show ?thesis by (auto simp: RC_NORMALIZE_def)
qed

lemma sub_less_interval:
  "b \<le> x \<Longrightarrow> x < y \<Longrightarrow> x - b < y - b" for b x y :: u32
  unfolding word_less_nat_alt word_le_nat_alt
  by (subst (1 2) unat_sub) (auto simp: word_le_nat_alt)

lemma RC_BIT_interval:
  assumes "RC_BIT c i r = Inr (b, r')" "Code r < Range r"
  shows "Code r' < Range r'"
  using assms(1) RC_NORMALIZE_interval [OF _ assms(2)]
  by (auto simp: RC_BIT_def Let_def rbind_eq_Inr sub_less_interval not_less split: if_splits)

lemma rc_init_loop_numeral:
  "rc_init_loop (numeral k) c r =
     rbind (RC_READ_BYTE c r) (\<lambda>(b, r).
       rc_init_loop (pred_numeral k) c (r\<lparr>Code := push_bit 8 (Code r) OR ucast b\<rparr>))"
  by (simp add: numeral_eq_Suc)

lemma lit_plain_numeral:
  "lit_plain (numeral k) c prob symbol r =
     (if symbol < 0x100 then
        rbind (RC_BIT c (prob + symbol) r) (\<lambda>(b, r).
          lit_plain (pred_numeral k) c prob (2 * symbol + of_bool b) r)
      else Inr (symbol, r))"
  by (simp add: numeral_eq_Suc)

lemmas lzma_eval = LzmaDecode_def LzmaGetNumProbs_def lz_context_def lz_start_def RC_INIT_def
  RC_READ_BYTE_def RC_BIT_def RC_NORMALIZE_def lz_iter_def lz_literal_def literal_prob_def
  prob_up_def prob_down_def out_write_def state_after_literal_def Let_def
  rc_init_loop_numeral lit_plain_numeral

lemma LzmaDecodeProperties_bounds:
  "LzmaDecodeProperties pd n = Inr p \<Longrightarrow> prop_lc p \<le> 8 \<and> prop_lp p \<le> 4 \<and> prop_pb p \<le> 4"
  by (cases pd)
     (auto simp: LzmaDecodeProperties_def Let_def props_count_eq less_Suc_eq_le [symmetric]
        less_mult_imp_div_less simp del: props_count.simps split: if_splits)

lemma LzmaDecodeProperties_Inl:
  "pd \<noteq> [] \<Longrightarrow> LzmaDecodeProperties pd n = Inl e \<Longrightarrow> e = LZMA_RESULT_DATA_ERROR"
  by (cases pd)
     (auto simp: LzmaDecodeProperties_def Let_def props_count_eq simp del: props_count.simps
        split: if_splits)

lemma RC_BIT_frame:
  "RC_BIT c i r = Inr (b, r') \<Longrightarrow>
   (\<forall>j. j \<noteq> i \<longrightarrow> Probs r' j = Probs r j) \<and> Buffer r' \<le> Suc (Buffer r)"
  by (auto simp: RC_BIT_def RC_NORMALIZE_def RC_READ_BYTE_def Let_def rbind_eq_Inr split: if_splits)

subsection \<open>Properties\<close>

text \<open>
  C8: For every byte stream, accepted properties byte, probability array of the size
  \<open>LzmaGetNumProbs\<close> asks for and output capacity below 4 GB, the decoder terminates without
  an access outside its buffers: the only early exit is the data error, and a normal result has at
  most \<open>outSize\<close> bytes of output and consumed at most the input.
\<close>

theorem LzmaDecode_memory_safe:
  assumes "LzmaDecodeProperties propsData n = Inr p" "LzmaGetNumProbs p \<le> psize" "osize < 2 ^ 32"
  shows "case LzmaDecode p old psize inp osize of
      Inl e \<Rightarrow> e = LZMA_RESULT_DATA_ERROR
    | Inr res \<Rightarrow> length (decoded res) \<le> osize \<and> outSizeProcessed res = length (decoded res) \<and>
        inSizeProcessed res \<le> length inp"
proof -
  have "prop_lc p \<le> 8" "prop_lp p \<le> 4" "prop_pb p \<le> 4"
    using LzmaDecodeProperties_bounds [OF assms(1)] by simp_all
  from LzmaDecode_safe [OF this assms(3,2), of inp old] show ?thesis
    by (auto split: sum.splits)
qed

theorem LzmaDecode_memory_safe_witness:
  "LzmaDecodeProperties [0, 0, 0, 0, 0] 5 = Inr \<lparr>prop_lc = 0, prop_lp = 0, prop_pb = 0\<rparr> \<and>
   LzmaGetNumProbs \<lparr>prop_lc = 0, prop_lp = 0, prop_pb = 0\<rparr> = 2614 \<and>
   LzmaDecode \<lparr>prop_lc = 0, prop_lp = 0, prop_pb = 0\<rparr> (\<lambda>_. 0) 2614 [0, 0, 0, 0, 0, 0, 0, 0] 1 =
     Inr \<lparr>decoded = [0], inSizeProcessed = 6, outSizeProcessed = 1\<rparr> \<and>
   (case LzmaDecode \<lparr>prop_lc = 0, prop_lp = 0, prop_pb = 0\<rparr> (\<lambda>_. 0) 2614 [0, 0, 0, 0] 1 of
      Inl e \<Rightarrow> e = LZMA_RESULT_DATA_ERROR
    | Inr res \<Rightarrow> length (decoded res) \<le> 1 \<and> outSizeProcessed res = length (decoded res) \<and>
        inSizeProcessed res \<le> 4)"
proof (intro conjI)
  show p: "LzmaDecodeProperties [0, 0, 0, 0, 0] 5 = Inr \<lparr>prop_lc = 0, prop_lp = 0, prop_pb = 0\<rparr>"
    by (simp add: LzmaDecodeProperties_def)
  show n: "LzmaGetNumProbs \<lparr>prop_lc = 0, prop_lp = 0, prop_pb = 0\<rparr> = 2614"
    by (simp add: LzmaGetNumProbs_def)
  show "LzmaDecode \<lparr>prop_lc = 0, prop_lp = 0, prop_pb = 0\<rparr> (\<lambda>_. 0) 2614 [0, 0, 0, 0, 0, 0, 0, 0] 1 =
     Inr \<lparr>decoded = [0], inSizeProcessed = 6, outSizeProcessed = 1\<rparr>"
    by (simp add: lzma_eval cong: rbind_weak_cong)
  show "case LzmaDecode \<lparr>prop_lc = 0, prop_lp = 0, prop_pb = 0\<rparr> (\<lambda>_. 0) 2614 [0, 0, 0, 0] 1 of
      Inl e \<Rightarrow> e = LZMA_RESULT_DATA_ERROR
    | Inr res \<Rightarrow> length (decoded res) \<le> 1 \<and> outSizeProcessed res = length (decoded res) \<and>
        inSizeProcessed res \<le> 4"
    using LzmaDecode_memory_safe [OF p, where psize = 2614 and osize = 1 and old = "\<lambda>_. 0" and inp = "[0, 0, 0, 0]"] n
    by (auto split: sum.splits)
qed

text \<open>
  C25: The copy loop of a match is an LZ77 copy: it appends \<open>len\<close> bytes, fewer only where the output
  is full, keeps what was there, and every new byte equals the one \<open>rep0\<close> positions before it
  (also where source and destination overlap).
\<close>

theorem lz_copy_is_lz77:
  assumes "lz_ok c z" "ctx_ok N c" "outStream z \<noteq> []" "length (outStream z) < outSize c" "0 < len"
  shows "\<exists>z'. lz_copy len c z = Inr z' \<and>
    length (outStream z') = min (length (outStream z) + len) (outSize c) \<and>
    take (length (outStream z)) (outStream z') = outStream z \<and>
    (\<forall>i. length (outStream z) \<le> i \<and> i < length (outStream z') \<longrightarrow>
       outStream z' ! i = outStream z' ! (i - unat (rep0 z)))"
proof -
  have pre: "lz_pre c z" using assms(1) by (simp add: lz_ok_def)
  have d: "0 < unat (rep0 z)" "unat (rep0 z) \<le> length (outStream z)"
    using pre assms(3) by (auto simp: lz_pre_def rep_ok_def max_def Suc_le_eq split: if_splits)
  define n where "n = min len (outSize c - length (outStream z))"
  have "length (outStream z) + n = min (length (outStream z) + len) (outSize c)"
    using assms(4) by (auto simp: n_def)
  moreover have "take (length (outStream z)) (lz_expand n (unat (rep0 z)) (outStream z)) = outStream z"
    by (rule nth_equalityI) (simp_all add: nth_lz_expand_old)
  ultimately show ?thesis
    using nth_lz_expand [OF d, of _ n]
    unfolding lz_copy_spec [OF pre assms(2-5)] n_def [symmetric] by simp
qed

theorem lz_copy_is_lz77_witness:
  "let c = lz_context \<lparr>prop_lc = 0, prop_lp = 0, prop_pb = 0\<rparr> 2614 [] 4;
       z = lz_start\<lparr>outStream := [7, 8], rep0 := 2\<rparr> in
   lz_ok c z \<and>
   (\<exists>z'. lz_copy 5 c z = Inr z' \<and> length (outStream z') = 4 \<and> take (Suc (Suc 0)) (outStream z') = [7, 8] \<and>
     (\<forall>i. Suc (Suc 0) \<le> i \<and> i < length (outStream z') \<longrightarrow> outStream z' ! i = outStream z' ! (i - 2)))"
proof -
  let ?c = "lz_context \<lparr>prop_lc = 0, prop_lp = 0, prop_pb = 0\<rparr> 2614 [] 4"
  let ?z = "lz_start\<lparr>outStream := [7, 8], rep0 := 2\<rparr>"
  have "ctx_ok 2614 ?c"
    using lz_context_ok [of "\<lparr>prop_lc = 0, prop_lp = 0, prop_pb = 0\<rparr>" 4 2614 "[]"]
    by (simp add: LzmaGetNumProbs_def)
  moreover have ok: "lz_ok ?c ?z"
    by (simp add: lz_ok_def lz_pre_def rep_ok_def lz_start_def lz_context_def)
  ultimately show ?thesis
    using lz_copy_is_lz77 [of ?c ?z 2614 5]
    by (simp add: lz_context_def [of _ _ _ 4] lz_start_def)
qed

text \<open>
  C30: Decoding a bit keeps the range coder in order: the adapted probability stays within
  31..2017, so that both sub-intervals are non-empty and the range, at least \<open>2^16\<close>, needs at most
  one byte to normalise; and a code value inside the current interval stays inside.
\<close>

theorem RC_BIT_keeps_coder:
  assumes "rc_ok N c r" "i < N" "RC_BIT c i r = Inr (b, r')"
  shows "31 \<le> unat (Probs r' i) \<and> unat (Probs r' i) \<le> 2017 \<and> 65536 \<le> unat (Range r') \<and>
    (\<forall>j. j \<noteq> i \<longrightarrow> Probs r' j = Probs r j) \<and> Buffer r' \<le> Suc (Buffer r) \<and>
    (Code r < Range r \<longrightarrow> Code r' < Range r')"
proof -
  have "rc_ok N c r'"
    using RC_BIT_safe [OF assms(1,2)] assms(3) by simp
  moreover have "\<forall>j. j \<noteq> i \<longrightarrow> Probs r' j = Probs r j" "Buffer r' \<le> Suc (Buffer r)"
    using RC_BIT_frame [OF assms(3)] by auto
  ultimately show ?thesis
    using assms(2) RC_BIT_interval [OF assms(3)] by (auto simp: rc_ok_def prob_ok_def)
qed

theorem RC_BIT_keeps_coder_witness:
  "let c = lz_context \<lparr>prop_lc = 0, prop_lp = 0, prop_pb = 0\<rparr> 1 [9] 4;
       r = \<lparr>Range = 0x10000, Code = 0xFFFF, Buffer = 0, Probs = \<lambda>_. 1024\<rparr>;
       r' = \<lparr>Range = 0x800000, Code = 0x7FFF09, Buffer = 1, Probs = (\<lambda>_. 1024)(0 := 992)\<rparr> in
   rc_ok 1 c r \<and> RC_BIT c 0 r = Inr (True, r') \<and>
   31 \<le> unat (Probs r' 0) \<and> unat (Probs r' 0) \<le> 2017 \<and> Code r' < Range r'"
proof -
  let ?c = "lz_context \<lparr>prop_lc = 0, prop_lp = 0, prop_pb = 0\<rparr> 1 [9] 4"
  let ?r = "\<lparr>Range = 0x10000, Code = 0xFFFF, Buffer = 0, Probs = \<lambda>_. 1024\<rparr>"
  let ?r' = "\<lparr>Range = 0x800000, Code = 0x7FFF09, Buffer = 1, Probs = (\<lambda>_. 1024)(0 := 992)\<rparr>"
  have ok: "rc_ok 1 ?c ?r"
    by (simp add: rc_ok_def prob_ok_def lz_context_def)
  moreover have bit: "RC_BIT ?c 0 ?r = Inr (True, ?r')"
    by (simp add: lzma_eval cong: rbind_weak_cong)
  ultimately show ?thesis
    using RC_BIT_keeps_coder [OF ok _ bit] by simp
qed

text \<open>
  The two subtraction loops of \<open>LzmaDecodeProperties\<close> compute the division and remainders
  of the formula kept beside them as a comment; every byte below 225 is accepted and every other
  one, or a short header, is the data error.
\<close>

theorem LzmaDecodeProperties_arith:
  "LzmaDecodeProperties (b # rest) n =
     (if 5 \<le> n \<and> unat b < 225
      then Inr \<lparr>prop_lc = unat b mod 9, prop_lp = unat b div 9 mod 5, prop_pb = unat b div 9 div 5\<rparr>
      else Inl LZMA_RESULT_DATA_ERROR)"
proof -
  have "unat b mod 45 = 9 * (unat b div 9 mod 5) + unat b mod 9"
    using mod_mult2_eq [of "unat b" 9 5] by simp
  then have "unat b mod 45 div 9 = unat b div 9 mod 5" "unat b mod 45 mod 9 = unat b mod 9"
    by simp_all
  then show ?thesis
    by (auto simp: LzmaDecodeProperties_def Let_def props_count_eq div_mult2_eq [symmetric]
        simp del: props_count.simps)
qed

end
