(* ===== verification/LzmaWrapper.thy ===== *)
theory LzmaWrapper
  imports Lzma
begin

text \<open>
  \<open>lzma_inflate\<close> of \<open>lib_generic/LzmaWrapper.c\<close>: the 13-byte header of an LZMA file (five
  properties bytes and a 64-bit little-endian size) in front of the decoder of theory \<open>Lzma\<close>. The
  allocator behind \<open>malloc\<close> is the parameter \<open>alloc\<close> (does an allocation of so many bytes
  succeed) and \<open>old\<close> the content of the fresh array. A read of \<open>source\<close> beyond its bytes is the exit
  \<open>Out_Of_Bounds\<close>; every return of the source is a value of \<open>inflate_result\<close>.
\<close>

subsection \<open>Operations\<close>

record inflate_result =
  ret :: int
  dest :: "byte list option"
  d_len_out :: u32
  rpos_out :: u32

definition MyReadFileAndCheck ::
  "byte list \<Rightarrow> nat \<Rightarrow> u32 \<Rightarrow> lzma_exit + (byte list \<times> u32) option" where
  "MyReadFileAndCheck src n rpos =
     (if n = 0 then Inr None
      else if unat rpos + n \<le> length src
      then Inr (Some (get_bytes src (unat rpos) n, rpos + of_nat n))
      else Inl Out_Of_Bounds)"

text \<open>
  The loop over the eight size bytes; \<open>None\<close> is the failed read. The state is
  \<open>(outSz, outSzHigh, waitEOS, rpos)\<close>.
\<close>

fun read_size :: "nat \<Rightarrow> nat \<Rightarrow> byte list \<Rightarrow> u32 \<times> u32 \<times> bool \<times> u32 \<Rightarrow>
    lzma_exit + (u32 \<times> u32 \<times> bool \<times> u32) option" where
  "read_size 0 i src st = Inr (Some st)"
| "read_size (Suc n) i src (outSz, outSzHigh, waitEOS, rpos) =
     rbind (MyReadFileAndCheck src 1 rpos) (\<lambda>res. case res of
       None \<Rightarrow> Inr None
     | Some (bs, rpos) \<Rightarrow>
         (let b = hd bs; waitEOS = (waitEOS \<and> b = 0xFF) in
          if i < 4
          then read_size n (Suc i) src (outSz + push_bit (8 * i) (ucast b), outSzHigh, waitEOS, rpos)
          else read_size n (Suc i) src
                 (outSz, outSzHigh + push_bit (8 * (i - 4)) (ucast b), waitEOS, rpos)))"

text \<open>
  From the allocation on: \<open>outSizeFull > d_len\<close> compares the size with the address
  \<open>d_len\<close>, not with the capacity \<open>*d_len\<close>.
\<close>

definition inflate_body ::
  "(nat \<Rightarrow> bool) \<Rightarrow> (nat \<Rightarrow> u16) \<Rightarrow> byte list \<Rightarrow> u32 \<Rightarrow> u32 \<Rightarrow> u32 \<Rightarrow> lzma_props \<Rightarrow> u32 \<Rightarrow> u32 \<Rightarrow>
   lzma_exit + inflate_result" where
  "inflate_body alloc old source s_len d_len d_cap props outSizeFull rpos =
     (let compressedSize = s_len - 13;
          fail = Inr \<lparr>ret = 1, dest = None, d_len_out = d_cap, rpos_out = rpos\<rparr>;
          numProbs = LzmaGetNumProbs props;
          out_null = (outSizeFull = 0 \<or> outSizeFull > d_len);
          in_null = (compressedSize = 0 \<or> compressedSize + rpos > s_len) in
      if \<not> alloc (2 * numProbs) \<or> (out_null \<and> outSizeFull \<noteq> 0) \<or> (in_null \<and> compressedSize \<noteq> 0)
      then fail
      else if \<not> in_null \<and> length source < unat rpos + unat compressedSize then Inl Out_Of_Bounds
      else
        (case LzmaDecode props old numProbs
                (get_bytes source (unat rpos) (unat compressedSize)) (unat outSizeFull) of
           Inl LZMA_RESULT_DATA_ERROR \<Rightarrow> fail
         | Inl e \<Rightarrow> Inl e
         | Inr res \<Rightarrow>
             Inr \<lparr>ret = 0, dest = Some (decoded res),
                  d_len_out = of_nat (outSizeProcessed res), rpos_out = rpos\<rparr>))"

text \<open>
  \<open>s_len\<close> is a 32-bit \<open>int\<close> that the code only converts to unsigned, so it is taken as such;
  \<open>d_len\<close> is the pointer argument and \<open>d_cap\<close> the value behind it; \<open>rpos\<close> is the static
  variable on entry.
\<close>

definition lzma_inflate ::
  "(nat \<Rightarrow> bool) \<Rightarrow> (nat \<Rightarrow> u16) \<Rightarrow> byte list \<Rightarrow> u32 \<Rightarrow> u32 \<Rightarrow> u32 \<Rightarrow> u32 \<Rightarrow>
   lzma_exit + inflate_result" where
  "lzma_inflate alloc old source s_len d_len d_cap rpos =
     (let fail = (\<lambda>rpos. Inr \<lparr>ret = 1, dest = None, d_len_out = d_cap, rpos_out = rpos\<rparr>) in
      rbind (MyReadFileAndCheck source 5 rpos) (\<lambda>hdr. case hdr of
        None \<Rightarrow> fail rpos
      | Some (properties, rpos) \<Rightarrow>
          rbind (read_size 8 0 source (0, 0, True, rpos)) (\<lambda>sz. case sz of
            None \<Rightarrow> fail rpos
          | Some (outSz, outSzHigh, waitEOS, rpos) \<Rightarrow>
              if waitEOS then fail rpos
              else if outSzHigh \<noteq> 0 then fail rpos
              else
                (case LzmaDecodeProperties properties 5 of
                   Inl LZMA_RESULT_DATA_ERROR \<Rightarrow> fail rpos
                 | Inl e \<Rightarrow> Inl e
                 | Inr props \<Rightarrow>
                     inflate_body alloc old source s_len d_len d_cap props outSz rpos))))"


text \<open>Reference: the 32-bit little-endian field at offset \<open>k\<close>.\<close>

definition le32_at :: "byte list \<Rightarrow> nat \<Rightarrow> u32" where
  "le32_at src k = ucast (src ! k) + push_bit 8 (ucast (src ! Suc k)) +
     push_bit 16 (ucast (src ! Suc (Suc k))) + push_bit 24 (ucast (src ! Suc (Suc (Suc k))))"

text \<open>What is left of a call once its 13 header bytes at offset \<open>k\<close> are read.\<close>

definition inflate_after_header ::
  "(nat \<Rightarrow> bool) \<Rightarrow> (nat \<Rightarrow> u16) \<Rightarrow> byte list \<Rightarrow> u32 \<Rightarrow> u32 \<Rightarrow> u32 \<Rightarrow> nat \<Rightarrow> u32 \<Rightarrow> bool \<Rightarrow>
   lzma_exit + inflate_result" where
  "inflate_after_header alloc old src s_len d_len d_cap k rpos w =
    (let fail = Inr \<lparr>ret = 1, dest = None, d_len_out = d_cap, rpos_out = rpos\<rparr> in
     if w \<or> le32_at src (k + 9) \<noteq> 0 then fail
     else case LzmaDecodeProperties (get_bytes src k 5) 5 of
            Inl LZMA_RESULT_DATA_ERROR \<Rightarrow> fail
          | Inl e \<Rightarrow> Inl e
          | Inr props \<Rightarrow> inflate_body alloc old src s_len d_len d_cap props (le32_at src (k + 5)) rpos)"

subsection \<open>Lemmas\<close>

lemma read_byte:
  "unat rpos < length src \<Longrightarrow>
   MyReadFileAndCheck src 1 rpos = Inr (Some ([src ! unat rpos], rpos + 1))"
  by (simp add: MyReadFileAndCheck_def get_bytes_def take_Suc hd_drop_conv_nth)

lemma read_size_numeral:
  "read_size (numeral m) i src (a, h, w, rpos) =
     rbind (MyReadFileAndCheck src 1 rpos) (\<lambda>res. case res of
       None \<Rightarrow> Inr None
     | Some (bs, rpos) \<Rightarrow>
         (let b = hd bs; w = (w \<and> b = 0xFF) in
          if i < 4 then read_size (pred_numeral m) (Suc i) src (a + push_bit (8 * i) (ucast b), h, w, rpos)
          else read_size (pred_numeral m) (Suc i) src (a, h + push_bit (8 * (i - 4)) (ucast b), w, rpos)))"
  by (subst numeral_eq_Suc) (rule read_size.simps)

lemma read_header:
  assumes "k + 5 \<le> length src" "length src < 2 ^ 32"
  shows "MyReadFileAndCheck src 5 (of_nat k) = Inr (Some (get_bytes src k 5, of_nat (k + 5)))"
  using assms by (simp add: MyReadFileAndCheck_def unat_of_nat_small)

lemma read_size_step:
  assumes "k < length src" "length src < 2 ^ 32"
  shows "read_size (Suc n) i src (a, h, w, of_nat k) =
    (if i < 4 then read_size n (Suc i) src
       (a + push_bit (8 * i) (ucast (src ! k)), h, w \<and> src ! k = 0xFF, of_nat (Suc k))
     else read_size n (Suc i) src
       (a, h + push_bit (8 * (i - 4)) (ucast (src ! k)), w \<and> src ! k = 0xFF, of_nat (Suc k)))"
proof -
  have "unat (of_nat k :: u32) = k" using assms by (simp add: unat_of_nat_small)
  then show ?thesis
    using assms read_byte [of "of_nat k" src] by (simp add: Let_def add.commute)
qed

lemma read_size_value:
  assumes "k + 8 \<le> length src" "length src < 2 ^ 32"
  shows "\<exists>w. read_size 8 0 src (0, 0, True, of_nat k) =
    Inr (Some (le32_at src k, le32_at src (Suc (Suc (Suc (Suc k)))), w, of_nat (k + 8)))"
proof -
  have 8: "(8::nat) = Suc (Suc (Suc (Suc (Suc (Suc (Suc (Suc 0)))))))" by simp
  show ?thesis
    unfolding 8 using assms
    by (simp add: read_size_step le32_at_def del: of_nat_Suc read_size.simps(2))
qed

lemma lzma_inflate_header:
  assumes "k + 13 \<le> length src" "length src < 2 ^ 32" "rpos = of_nat k" "rpos' = of_nat (k + 13)"
  shows "\<exists>w. lzma_inflate alloc old src s_len d_len d_cap rpos =
    inflate_after_header alloc old src s_len d_len d_cap k rpos' w"
proof -
  have "k + 5 \<le> length src" using assms by simp
  note h = read_header [OF this assms(2)]
  have "(k + 5) + 8 \<le> length src" using assms by simp
  from read_size_value [OF this assms(2)] obtain w where
    w: "read_size 8 0 src (0, 0, True, of_nat (k + 5)) =
      Inr (Some (le32_at src (k + 5), le32_at src (Suc (Suc (Suc (Suc (k + 5))))), w, of_nat (k + 5 + 8)))" ..
  have "Suc (Suc (Suc (Suc (k + 5)))) = k + 9" "k + 5 + 8 = k + 13" by simp_all
  note w = w [unfolded this]
  show ?thesis
    by (rule exI [of _ w])
       (simp add: lzma_inflate_def inflate_after_header_def h w Let_def assms(3,4) del: of_nat_add)
qed

lemma inflate_body_safe:
  assumes "prop_lc p \<le> 8" "prop_lp p \<le> 4" "prop_pb p \<le> 4"
    and "unat s_len = length src" "13 \<le> unat s_len" "unat rpos + unat (s_len - 13) \<le> length src"
  shows "\<exists>r. inflate_body alloc old src s_len d_len d_cap p osz rpos = Inr r \<and> rpos_out r = rpos \<and>
    (ret r = 1 \<and> dest r = None \<and> d_len_out r = d_cap \<or>
     ret r = 0 \<and> (\<exists>out. dest r = Some out \<and> d_len_out r = of_nat (length out) \<and>
                   length out \<le> unat osz))"
proof -
  have "safe (\<lambda>res. length (decoded res) \<le> unat osz \<and> outSizeProcessed res = length (decoded res) \<and>
      inSizeProcessed res \<le> length inp)
      (LzmaDecode p old (LzmaGetNumProbs p) inp (unat osz))" for inp
    using assms(1-3) unat_u32_less [of osz] by (intro LzmaDecode_safe) simp_all
  from this [of "get_bytes src (unat rpos) (unat (s_len - 13))"] show ?thesis
    using assms
    by (auto simp: inflate_body_def Let_def not_less split: sum.splits lzma_exit.splits)
qed

lemma inflate_body_overrun:
  assumes "unat s_len = length src" "13 < length src" "length src < 2 ^ 31"
  shows "inflate_body alloc old src s_len d_len d_cap p osz 26 =
    Inr \<lparr>ret = 1, dest = None, d_len_out = d_cap, rpos_out = 26\<rparr>"
proof -
  have "13 \<le> s_len" using assms by (simp add: word_le_nat_alt)
  then have c: "unat (s_len - 13) = length src - 13" by (subst unat_sub) (simp_all add: assms)
  then have "unat (s_len - 13 + 26) = length src + 13"
    using assms by (subst unat_add_lem [THEN iffD1]) simp_all
  then have "s_len < s_len - 13 + 26" using assms by (simp add: word_less_nat_alt)
  moreover have "s_len - 13 \<noteq> 0" using c assms by (metis unsigned_0 zero_less_diff less_irrefl)
  ultimately show ?thesis by (simp add: inflate_body_def Let_def)
qed

lemma lzma_inflate_first:
  assumes "13 \<le> length src" "length src < 2 ^ 31"
  shows "\<exists>r. lzma_inflate alloc old src (of_nat (length src)) d_len d_cap 0 = Inr r \<and>
    rpos_out r = 13 \<and>
    (ret r = 1 \<and> dest r = None \<and> d_len_out r = d_cap \<or>
     ret r = 0 \<and> (\<exists>out. dest r = Some out \<and> d_len_out r = of_nat (length out) \<and>
                   length out \<le> unat (le32_at src 5)))"
proof -
  let ?n = "of_nat (length src) :: u32"
  have n: "unat ?n = length src" using assms by (simp add: unat_of_nat_small)
  then have "unat (?n - 13) = length src - 13"
    using assms by (subst unat_sub) (simp_all add: word_le_nat_alt)
  then have b: "unat (13 :: u32) + unat (?n - 13) \<le> length src" using assms by simp
  obtain w where w: "lzma_inflate alloc old src ?n d_len d_cap 0 =
      inflate_after_header alloc old src ?n d_len d_cap 0 13 w"
    using lzma_inflate_header [of 0 src 0 13 alloc old ?n d_len d_cap] assms by auto
  show ?thesis
  proof (cases "LzmaDecodeProperties (get_bytes src 0 5) 5")
    case (Inl e)
    then have "e = LZMA_RESULT_DATA_ERROR"
      using assms by (intro LzmaDecodeProperties_Inl) (auto simp: get_bytes_def)
    with Inl show ?thesis by (simp add: w inflate_after_header_def Let_def)
  next
    case (Inr p)
    have "\<exists>r. inflate_body alloc old src ?n d_len d_cap p (le32_at src 5) 13 = Inr r \<and> rpos_out r = 13 \<and>
        (ret r = 1 \<and> dest r = None \<and> d_len_out r = d_cap \<or>
         ret r = 0 \<and> (\<exists>out. dest r = Some out \<and> d_len_out r = of_nat (length out) \<and>
                   length out \<le> unat (le32_at src 5)))"
      using LzmaDecodeProperties_bounds [OF Inr] n b assms by (intro inflate_body_safe) simp_all
    with Inr show ?thesis by (auto simp: w inflate_after_header_def Let_def)
  qed
qed

text \<open>The capacity is only copied into the result.\<close>

abbreviation (input) no_capacity :: "lzma_exit + inflate_result \<Rightarrow> lzma_exit + int \<times> byte list option \<times> u32" where
  "no_capacity x \<equiv> map_sum id (\<lambda>r. (ret r, dest r, rpos_out r)) x"

lemma inflate_body_capacity:
  "no_capacity (inflate_body alloc old src s_len d_len cap p osz rpos) =
   no_capacity (inflate_body alloc old src s_len d_len cap' p osz rpos)"
proof (cases "LzmaDecode p old (LzmaGetNumProbs p) (get_bytes src (unat rpos) (unat (s_len - 13))) (unat osz)")
  case (Inl e)
  then show ?thesis
    unfolding inflate_body_def Let_def by (cases e) (simp_all add: if_distrib [of "map_sum _ _"] split del: if_split cong: if_cong)
next
  case (Inr res)
  then show ?thesis
    unfolding inflate_body_def Let_def by (simp add: if_distrib [of "map_sum _ _"] split del: if_split cong: if_cong)
qed

lemma lzma_inflate_capacity:
  "no_capacity (lzma_inflate alloc old src s_len d_len cap rpos) = no_capacity (lzma_inflate alloc old src s_len d_len cap' rpos)"
proof (cases "MyReadFileAndCheck src 5 rpos")
  case h: (Inr h)
  show ?thesis
  proof (cases h)
    case None
    with h show ?thesis by (simp add: lzma_inflate_def Let_def)
  next
    case (Some hr)
    then obtain pd rp where hr: "h = Some (pd, rp)" by (cases hr) simp
    show ?thesis
    proof (cases "read_size 8 0 src (0, 0, True, rp)")
      case sz: (Inr sz)
      show ?thesis
      proof (cases sz)
        case (Some st)
        then obtain a hi w rp' where st: "sz = Some (a, hi, w, rp')" by (cases st) simp
        show ?thesis
          using h hr sz st inflate_body_capacity [of alloc old src s_len d_len cap _ a rp' cap']
          by (cases "LzmaDecodeProperties pd 5") (simp_all add: lzma_inflate_def Let_def split: lzma_exit.split)
      qed (use h hr sz in \<open>simp add: lzma_inflate_def Let_def\<close>)
    qed (use h hr in \<open>simp add: lzma_inflate_def Let_def\<close>)
  qed
qed (simp add: lzma_inflate_def Let_def)

text \<open>A file with one byte of content.\<close>

definition one_byte_file :: "byte list" where
  "one_byte_file = [0, 0, 0, 0, 0, 1, 0, 0, 0, 0, 0, 0, 0, 0, 0, 0, 0, 0, 0, 0]"

lemma lzma_inflate_one_byte_alloc:
  assumes "alloc 5228"
  shows "lzma_inflate alloc (\<lambda>_. 0) one_byte_file 20 0x87f00000 cap 0 =
   Inr \<lparr>ret = 0, dest = Some [0], d_len_out = 1, rpos_out = 13\<rparr>"
proof -
  let ?p = "\<lparr>prop_lc = 0, prop_lp = 0, prop_pb = 0\<rparr>"
  have "MyReadFileAndCheck one_byte_file 5 0 = Inr (Some ([0, 0, 0, 0, 0], 5))"
    by (simp add: MyReadFileAndCheck_def get_bytes_def one_byte_file_def)
  moreover have "read_size 8 0 one_byte_file (0, 0, True, 5) = Inr (Some (1, 0, False, 13))"
    by (simp add: one_byte_file_def MyReadFileAndCheck_def get_bytes_def read_size_numeral Let_def
        cong: rbind_weak_cong)
  moreover have "LzmaDecodeProperties [0, 0, 0, 0, 0] 5 = Inr ?p"
    by (simp add: LzmaDecodeProperties_def)
  moreover have "inflate_body alloc (\<lambda>_. 0) one_byte_file 20 0x87f00000 cap ?p 1 13 =
      Inr \<lparr>ret = 0, dest = Some [0], d_len_out = 1, rpos_out = 13\<rparr>"
    by (simp add: assms inflate_body_def get_bytes_def lzma_eval one_byte_file_def cong: rbind_weak_cong)
  ultimately show ?thesis by (simp add: lzma_inflate_def)
qed

lemma lzma_inflate_one_byte:
  "lzma_inflate (\<lambda>_. True) (\<lambda>_. 0) one_byte_file 20 0x87f00000 cap 0 =
   Inr \<lparr>ret = 0, dest = Some [0], d_len_out = 1, rpos_out = 13\<rparr>"
  by (simp add: lzma_inflate_one_byte_alloc)

subsection \<open>Properties\<close>

text \<open>
  C15: The first call of \<open>lzma_inflate\<close> on a source of at least 13 bytes, whatever they are, reads
  only the source and returns: either failure with \<open>*d_len\<close> unchanged, or success with
  \<open>*d_len\<close> set to the length of the output, which is at most the size the header announces.
\<close>

theorem lzma_inflate_first_call:
  assumes "13 \<le> length src" "length src < 2 ^ 31"
  shows "\<exists>r. lzma_inflate alloc old src (of_nat (length src)) d_len d_cap 0 = Inr r \<and>
    rpos_out r = 13 \<and>
    (ret r = 1 \<and> dest r = None \<and> d_len_out r = d_cap \<or>
     ret r = 0 \<and> (\<exists>out. dest r = Some out \<and> d_len_out r = of_nat (length out) \<and>
                   length out \<le> unat (le32_at src 5)))"
  by (rule lzma_inflate_first [OF assms])

theorem lzma_inflate_first_call_witness:
  "\<exists>r. lzma_inflate (\<lambda>_. True) (\<lambda>_. 0) (replicate 20 0) (of_nat (length (replicate 20 (0 :: byte)))) 9 7 0 =
      Inr r \<and> rpos_out r = 13 \<and>
    (ret r = 1 \<and> dest r = None \<and> d_len_out r = 7 \<or>
     ret r = 0 \<and> (\<exists>out. dest r = Some out \<and> d_len_out r = of_nat (length out) \<and>
                   length out \<le> unat (le32_at (replicate 20 0) 5)))"
  by (rule lzma_inflate_first_call) simp_all

text \<open>
  The static read position is never reset, so the call after a successful one (entered with
  \<open>rpos = 13\<close>) fails for every source of at least 26 bytes: it looks for the header behind the
  first one and then finds the compressed data to end past \<open>s_len\<close>.
\<close>

theorem lzma_inflate_second_call_fails:
  assumes "26 \<le> length src" "length src < 2 ^ 31"
  shows "lzma_inflate alloc old src (of_nat (length src)) d_len d_cap 13 =
    Inr \<lparr>ret = 1, dest = None, d_len_out = d_cap, rpos_out = 26\<rparr>"
proof -
  let ?n = "of_nat (length src) :: u32"
  have n: "unat ?n = length src" using assms by (simp add: unat_of_nat_small)
  obtain w where w: "lzma_inflate alloc old src ?n d_len d_cap 13 =
      inflate_after_header alloc old src ?n d_len d_cap 13 26 w"
    using lzma_inflate_header [of 13 src 13 26 alloc old ?n d_len d_cap] assms by auto
  have body: "inflate_body alloc old src ?n d_len d_cap p osz 26 =
      Inr \<lparr>ret = 1, dest = None, d_len_out = d_cap, rpos_out = 26\<rparr>" for p osz
    using n assms by (intro inflate_body_overrun) simp_all
  have "e = LZMA_RESULT_DATA_ERROR" if "LzmaDecodeProperties (get_bytes src 13 5) 5 = Inl e" for e
    using that assms by (intro LzmaDecodeProperties_Inl [OF _ that]) (auto simp: get_bytes_def)
  then show ?thesis
    by (auto simp: w inflate_after_header_def Let_def body split: sum.split lzma_exit.split)
qed

theorem lzma_inflate_second_call_fails_witness:
  "lzma_inflate (\<lambda>_. True) (\<lambda>_. 0) (replicate 30 0) (of_nat (length (replicate 30 (0 :: byte)))) 9 7 13 =
    Inr \<lparr>ret = 1, dest = None, d_len_out = 7, rpos_out = 26\<rparr>"
  by (rule lzma_inflate_second_call_fails) simp_all


text \<open>
  The capacity \<open>*d_len\<close> has no influence on what is decoded, because the size check compares
  the announced size with the pointer \<open>d_len\<close> itself: for a one-byte image and a capacity of 0 the
  call still writes the byte and reports success.
\<close>

theorem lzma_inflate_ignores_capacity:
  "map_sum id (\<lambda>r. (ret r, dest r, rpos_out r)) (lzma_inflate alloc old src s_len d_len cap rpos) =
   map_sum id (\<lambda>r. (ret r, dest r, rpos_out r)) (lzma_inflate alloc old src s_len d_len cap' rpos) \<and>
   lzma_inflate (\<lambda>_. True) (\<lambda>_. 0) [0, 0, 0, 0, 0, 1, 0, 0, 0, 0, 0, 0, 0, 0, 0, 0, 0, 0, 0, 0] 20
     0x87f00000 0 0 = Inr \<lparr>ret = 0, dest = Some [0], d_len_out = 1, rpos_out = 13\<rparr>"
  using lzma_inflate_capacity [of alloc old src s_len d_len cap rpos cap']
    lzma_inflate_one_byte [unfolded one_byte_file_def] by blast

end
