(* ===== verification/LineEdit.thy ===== *)
theory LineEdit
  imports Prelude
begin

text \<open>
  Line input of \<open>common/main.c\<close>: \<open>readline\<close> with its editing keys and \<open>delete_char\<close>. The state holds
  \<open>console_buffer\<close>, the index of the write pointer \<open>p\<close>, the counters \<open>n\<close> and \<open>col\<close>, and the
  characters sent to the console. \<open>CONFIG_AUTO_COMPLETE\<close> is not defined.
\<close>

subsection \<open>State and keys\<close>

abbreviation (input) CFG_CBSIZE :: nat where "CFG_CBSIZE \<equiv> 512"

datatype rl_exit =
    Console_Fault   \<comment> \<open>access outside \<open>console_buffer\<close>\<close>
  | No_Input        \<comment> \<open>\<open>getc\<close> waits for ever\<close>

record rl_st =
  console_buffer :: string
  rl_p :: nat
  rl_n :: int
  rl_col :: int
  rl_out :: string

definition BS :: char where "BS = CHR 0x08"
definition BEL :: char where "BEL = CHR 0x07"
definition TAB :: char where "TAB = CHR 0x09"
definition DEL :: char where "DEL = CHR 0x7F"
definition CR :: char where "CR = CHR 0x0D"
definition LF :: char where "LF = CHR 0x0A"
definition CTRL_C :: char where "CTRL_C = CHR 0x03"
definition CTRL_U :: char where "CTRL_U = CHR 0x15"
definition CTRL_W :: char where "CTRL_W = CHR 0x17"

definition erase_seq :: string where "erase_seq = [BS, CHR '' '', BS]"

definition tab_seq :: string where "tab_seq = ''        ''"

definition rl_puts :: "string \<Rightarrow> rl_st \<Rightarrow> rl_st" where
  "rl_puts s st = st\<lparr>rl_out := rl_out st @ s\<rparr>"

subsection \<open>Deleting\<close>

text \<open>\<open>while (col > plen) { puts (erase_seq); --col; }\<close>\<close>

definition erase_line :: "int \<Rightarrow> rl_st \<Rightarrow> rl_st" where
  "erase_line plen st =
     rl_puts (concat (replicate (nat (rl_col st - plen)) erase_seq)) (st\<lparr>rl_col := min (rl_col st) plen\<rparr>)"

text \<open>The output of one character, with tabs expanded.\<close>

definition rl_echo :: "char \<Rightarrow> rl_st \<Rightarrow> rl_st" where
  "rl_echo c st =
     (if c = TAB
      then rl_puts (drop (nat (rl_col st mod 8)) tab_seq) (st\<lparr>rl_col := rl_col st + 8 - rl_col st mod 8\<rparr>)
      else rl_puts [c] (st\<lparr>rl_col := rl_col st + 1\<rparr>))"

definition delete_char :: "int \<Rightarrow> rl_st \<Rightarrow> rl_exit + rl_st" where
  "delete_char plen st =
     (if rl_n st = 0 then Inr st
      else if rl_p st = 0 \<or> length (console_buffer st) < rl_p st then Inl Console_Fault
      else
        let p = rl_p st - 1; st = st\<lparr>rl_p := p\<rparr>;
            st = (if console_buffer st ! p = TAB
                  then fold rl_echo (take p (console_buffer st)) (erase_line plen st)
                  else rl_puts erase_seq (st\<lparr>rl_col := rl_col st - 1\<rparr>))
        in Inr (st\<lparr>rl_n := rl_n st - 1\<rparr>))"

text \<open>The loop of \<open>^W\<close>, which looks at the character just deleted; at most \<open>n\<close> rounds.\<close>

fun erase_word :: "nat \<Rightarrow> int \<Rightarrow> rl_st \<Rightarrow> rl_exit + rl_st" where
  "erase_word 0 plen st = Inr st"
| "erase_word (Suc k) plen st =
     (if length (console_buffer st) \<le> rl_p st then Inl Console_Fault
      else if rl_n st > 0 \<and> console_buffer st ! rl_p st \<noteq> CHR '' ''
      then rbind (delete_char plen st) (erase_word k plen)
      else Inr st)"

subsection \<open>\<open>readline\<close>\<close>

datatype rl_res = RL_More rl_st | RL_Line nat rl_st | RL_Break rl_st

definition rl_key :: "int \<Rightarrow> char \<Rightarrow> rl_st \<Rightarrow> rl_exit + rl_res" where
  "rl_key plen c st =
     (if c = CR \<or> c = LF then
        if rl_p st < length (console_buffer st)
        then Inr (RL_Line (rl_p st)
               (rl_puts [CR, LF] (st\<lparr>console_buffer := (console_buffer st)[rl_p st := NUL]\<rparr>)))
        else Inl Console_Fault
      else if c = NUL then Inr (RL_More st)
      else if c = CTRL_C then
        Inr (RL_Break (st\<lparr>console_buffer := (console_buffer st)[0 := NUL]\<rparr>))
      else if c = CTRL_U then
        Inr (RL_More ((erase_line plen st)\<lparr>rl_p := 0, rl_n := 0\<rparr>))
      else if c = CTRL_W then
        rbind (delete_char plen st) (\<lambda>st.
          rbind (erase_word (nat (rl_n st)) plen st) (\<lambda>st. Inr (RL_More st)))
      else if c = BS \<or> c = DEL then
        rbind (delete_char plen st) (\<lambda>st. Inr (RL_More st))
      else if rl_n st < int CFG_CBSIZE - 2 then
        let st = rl_echo c st in
        if rl_p st < length (console_buffer st)
        then Inr (RL_More (st\<lparr>console_buffer := (console_buffer st)[rl_p st := c],
                              rl_p := rl_p st + 1, rl_n := rl_n st + 1\<rparr>))
        else Inl Console_Fault
      else Inr (RL_More (rl_puts [BEL] st)))"

fun readline_loop :: "int \<Rightarrow> string \<Rightarrow> rl_st \<Rightarrow> rl_exit + (int \<times> rl_st \<times> string)" where
  "readline_loop plen [] st = Inl No_Input"
| "readline_loop plen (c # inp) st =
     rbind (rl_key plen c st) (\<lambda>r. case r of
       RL_More st \<Rightarrow> readline_loop plen inp st
     | RL_Line k st \<Rightarrow> Inr (int k, st, inp)
     | RL_Break st \<Rightarrow> Inr (- 1, st, inp))"

text \<open>\<open>readline\<close> on a console buffer and pending input: return value, new state and input left.\<close>

definition readline :: "string \<Rightarrow> string \<Rightarrow> string \<Rightarrow> rl_exit + (int \<times> rl_st \<times> string)" where
  "readline prompt buf inp =
     readline_loop (int (length prompt)) inp
       \<lparr>console_buffer = buf, rl_p = 0, rl_n = 0, rl_col = int (length prompt), rl_out = prompt\<rparr>"

subsection \<open>Specifications\<close>

text \<open>What the keys mean: an edit of the line typed so far.\<close>

fun drop_word :: "string \<Rightarrow> string" where
  "drop_word [] = []"
| "drop_word (c # s) = (if s = [] \<or> c = CHR '' '' then s else drop_word s)"

definition edit :: "char \<Rightarrow> string \<Rightarrow> string" where
  "edit c s =
     (if c = NUL then s
      else if c = CTRL_U then []
      else if c = CTRL_W then rev (drop_word (rev s))
      else if c = BS \<or> c = DEL then butlast s
      else if length s < 510 then s @ [c] else s)"

text \<open>A line on the screen from column \<open>col\<close> on.\<close>

fun shown :: "int \<Rightarrow> string \<Rightarrow> string" where
  "shown col [] = []"
| "shown col (c # s) =
     (if c = TAB then replicate (nat (8 - col mod 8)) (CHR '' '') @ shown (col + 8 - col mod 8) s
      else c # shown (col + 1) s)"

text \<open>A terminal line: the cells left of the cursor, nearest first, and those right of it.\<close>

fun term_put :: "char \<Rightarrow> string \<times> string \<Rightarrow> string \<times> string" where
  "term_put c (l, r) =
     (if c = BS then (case l of [] \<Rightarrow> (l, r) | x # l \<Rightarrow> (l, x # r))
      else if c = BEL then (l, r)
      else (c # l, tl r))"

definition screen :: "string \<Rightarrow> string \<times> string" where
  "screen out = fold term_put out ([], [])"

definition line_end :: "char \<Rightarrow> bool" where
  "line_end c \<longleftrightarrow> c = CR \<or> c = LF \<or> c = CTRL_C"

text \<open>The invariant of the editor: the line \<open>s\<close> is in the buffer and on the screen.\<close>

definition rl_inv :: "string \<Rightarrow> string \<Rightarrow> rl_st \<Rightarrow> bool" where
  "rl_inv prompt s st \<longleftrightarrow>
     length (console_buffer st) = CFG_CBSIZE \<and> take (length s) (console_buffer st) = s \<and> length s \<le> 510 \<and>
     rl_p st = length s \<and> rl_n st = int (length s) \<and> BEL \<notin> set s \<and> BS \<notin> set s \<and>
     rl_col st = int (length prompt + length (shown (int (length prompt)) s)) \<and>
     (\<exists>k. screen (rl_out st) = (rev (prompt @ shown (int (length prompt)) s), replicate k (CHR '' '')))"

subsection \<open>Lemmas\<close>

lemmas key_defs = BS_def BEL_def TAB_def DEL_def CR_def LF_def CTRL_C_def CTRL_U_def CTRL_W_def

lemma rl_puts_simps [simp]:
  "console_buffer (rl_puts s st) = console_buffer st" "rl_p (rl_puts s st) = rl_p st"
  "rl_n (rl_puts s st) = rl_n st" "rl_col (rl_puts s st) = rl_col st" "rl_out (rl_puts s st) = rl_out st @ s"
  by (simp_all add: rl_puts_def)

lemma screen_append: "screen (a @ b) = fold term_put b (screen a)"
  by (simp add: screen_def)

lemma shown_append: "shown col (s @ t) = shown col s @ shown (col + int (length (shown col s))) t"
proof (induction s arbitrary: col)
  case (Cons c s)
  show ?case
  proof (cases "c = TAB")
    case True
    have "int (nat (8 - col mod 8)) = 8 - col mod 8" "col mod 8 \<le> 8"
      using pos_mod_bound [of 8 col] by simp_all
    with True Cons.IH show ?thesis by (simp add: algebra_simps)
  qed (simp add: Cons.IH algebra_simps)
qed simp

lemma term_put_plain: "BS \<notin> set s \<Longrightarrow> BEL \<notin> set s \<Longrightarrow> fold term_put s (l, r) = (rev s @ l, drop (length s) r)"
  by (induction s arbitrary: l r) (auto simp: drop_Suc)

lemma term_put_erase: "fold term_put erase_seq (c # l, r) = (l, CHR '' '' # tl (c # r))"
  by (simp add: erase_seq_def key_defs)

lemma term_put_erases:
  "n \<le> length l \<Longrightarrow> fold term_put (concat (replicate n erase_seq)) (l, r) = (drop n l, replicate n (CHR '' '') @ r)"
proof (induction n arbitrary: l r)
  case (Suc n)
  then obtain c l' where "l = c # l'" by (cases l) auto
  with Suc show ?case by (simp add: term_put_erase replicate_app_Cons_same)
qed simp

lemma shown_plain: "BS \<notin> set s \<Longrightarrow> BEL \<notin> set s \<Longrightarrow> BS \<notin> set (shown col s) \<and> BEL \<notin> set (shown col s)"
  by (induction s arbitrary: col) (auto simp: key_defs)

lemma rl_echo_simps [simp]:
  "console_buffer (rl_echo c st) = console_buffer st" "rl_p (rl_echo c st) = rl_p st" "rl_n (rl_echo c st) = rl_n st"
  by (simp_all add: rl_echo_def)

lemma tab_seq_drop: "drop (nat (col mod 8)) tab_seq = replicate (nat (8 - col mod 8)) (CHR '' '')"
proof -
  have t: "tab_seq = replicate 8 (CHR '' '')" by (simp add: tab_seq_def numeral_eq_Suc)
  have "8 - nat (col mod 8) = nat (8 - col mod 8)" by (simp add: nat_diff_distrib)
  then show ?thesis by (simp add: t)
qed

text \<open>The console shows \<open>t\<close> behind the prompt.\<close>

definition shows_line :: "string \<Rightarrow> string \<Rightarrow> rl_st \<Rightarrow> bool" where
  "shows_line prompt t st \<longleftrightarrow>
     rl_col st = int (length prompt + length (shown (int (length prompt)) t)) \<and>
     (\<exists>k. screen (rl_out st) = (rev (prompt @ shown (int (length prompt)) t), replicate k (CHR '' '')))"

lemma rl_inv_shows:
  "rl_inv prompt s st \<longleftrightarrow>
     length (console_buffer st) = CFG_CBSIZE \<and> take (length s) (console_buffer st) = s \<and> length s \<le> 510 \<and>
     rl_p st = length s \<and> rl_n st = int (length s) \<and> BEL \<notin> set s \<and> BS \<notin> set s \<and> shows_line prompt s st"
  by (auto simp: rl_inv_def shows_line_def)

lemma shows_line_echo:
  assumes "shows_line prompt t st" "c \<noteq> BS" "c \<noteq> BEL"
  shows "shows_line prompt (t @ [c]) (rl_echo c st)"
proof -
  let ?p = "int (length prompt)"
  let ?col = "rl_col st"
  obtain k where c: "?col = ?p + int (length (shown ?p t))"
    and k: "screen (rl_out st) = (rev (prompt @ shown ?p t), replicate k (CHR '' ''))"
    using assms(1) by (auto simp: shows_line_def)
  let ?e = "shown ?col [c]"
  have s: "shown ?p (t @ [c]) = shown ?p t @ ?e" by (simp add: shown_append c)
  have o: "rl_out (rl_echo c st) = rl_out st @ ?e" "rl_col (rl_echo c st) = ?col + int (length ?e)"
    using pos_mod_bound [of 8 ?col, THEN less_imp_le] by (simp_all add: rl_echo_def tab_seq_drop)
  have p: "BS \<notin> set ?e \<and> BEL \<notin> set ?e" using assms(2,3) by (intro shown_plain) simp_all
  have "screen (rl_out (rl_echo c st)) = (rev (prompt @ shown ?p (t @ [c])), replicate (k - length ?e) (CHR '' ''))"
    unfolding o screen_append k using p by (simp add: term_put_plain s)
  then show ?thesis unfolding shows_line_def o(2) s using c by auto
qed

lemma shows_line_echoes:
  "shows_line prompt t st \<Longrightarrow> BS \<notin> set s \<Longrightarrow> BEL \<notin> set s \<Longrightarrow> shows_line prompt (t @ s) (fold rl_echo s st)"
proof (induction s arbitrary: t st)
  case (Cons c s)
  from Cons.prems have "shows_line prompt (t @ [c]) (rl_echo c st)" by (intro shows_line_echo) auto
  from Cons.IH [OF this] Cons.prems show ?case by simp
qed simp

lemma shows_line_erase:
  assumes "shows_line prompt t st"
  shows "shows_line prompt [] (erase_line (int (length prompt)) st)"
proof -
  let ?s = "shown (int (length prompt)) t"
  obtain k where c: "rl_col st = int (length prompt + length ?s)"
    and k: "screen (rl_out st) = (rev (prompt @ ?s), replicate k (CHR '' ''))"
    using assms by (auto simp: shows_line_def)
  have "screen (rl_out (erase_line (int (length prompt)) st)) =
      (rev prompt, replicate (length ?s) (CHR '' '') @ replicate k (CHR '' ''))"
    using c by (simp add: erase_line_def screen_append k term_put_erases)
  then show ?thesis
    using c by (auto simp: shows_line_def erase_line_def replicate_add [symmetric])
qed

lemma fold_rl_echo_simps [simp]:
  "console_buffer (fold rl_echo s st) = console_buffer st" "rl_p (fold rl_echo s st) = rl_p st"
  "rl_n (fold rl_echo s st) = rl_n st"
  by (induction s arbitrary: st) simp_all

lemma erase_line_simps [simp]:
  "console_buffer (erase_line plen st) = console_buffer st" "rl_p (erase_line plen st) = rl_p st"
  "rl_n (erase_line plen st) = rl_n st"
  by (simp_all add: erase_line_def)

lemma delete_char_step:
  assumes i: "rl_inv prompt s st"
  shows "\<exists>st'. delete_char (int (length prompt)) st = Inr st' \<and> rl_inv prompt (butlast s) st' \<and>
    console_buffer st' = console_buffer st"
proof (cases "s = []")
  case True
  then show ?thesis using i by (simp add: delete_char_def rl_inv_def)
next
  case False
  define t where "t = butlast s"
  define c where "c = last s"
  have s: "s = t @ [c]" using False by (simp add: t_def c_def)
  let ?p = "int (length prompt)"
  have b: "length (console_buffer st) = 512" "take (Suc (length t)) (console_buffer st) = t @ [c]"
    "rl_p st = Suc (length t)" "rl_n st = int (length t) + 1" "length t < 510"
    "BEL \<notin> set t" "BS \<notin> set t" "c \<noteq> BS" "c \<noteq> BEL" and sh: "shows_line prompt s st"
    using i by (auto simp: rl_inv_shows s)
  have tk: "take (length t) (console_buffer st) = t" "console_buffer st ! length t = c"
    using b(1,2,5) by (simp_all add: take_Suc_conv_app_nth)
  define st1 where "st1 = st\<lparr>rl_p := length t\<rparr>"
  define st2 where "st2 = (if c = TAB then fold rl_echo t (erase_line ?p st1)
     else rl_puts erase_seq (st1\<lparr>rl_col := rl_col st - 1\<rparr>))"
  have d: "delete_char ?p st = Inr (st2\<lparr>rl_n := int (length t)\<rparr>)"
    using b tk by (simp add: delete_char_def st2_def st1_def Let_def)
  have s1: "shows_line prompt s st1" using sh by (simp add: shows_line_def st1_def)
  have "shows_line prompt t st2"
  proof (cases "c = TAB")
    case True
    then show ?thesis
      using shows_line_echoes [OF shows_line_erase [OF s1], of t] b by (simp add: st2_def)
  next
    case False
    obtain k where "rl_col st1 = ?p + int (length (shown ?p s))"
      "screen (rl_out st1) = (rev (prompt @ shown ?p s), replicate k (CHR '' ''))"
      using s1 by (auto simp: shows_line_def)
    then have "rl_col st2 = ?p + int (length (shown ?p t))"
      "screen (rl_out st2) = (rev (prompt @ shown ?p t), replicate (Suc k) (CHR '' ''))"
      using False by (simp_all add: st2_def st1_def screen_append s shown_append term_put_erase)
    then show ?thesis unfolding shows_line_def by (intro conjI exI [of _ "Suc k"]) simp_all
  qed
  then show ?thesis
    using d b tk s
    by (auto simp: rl_inv_shows shows_line_def t_def [symmetric] st2_def st1_def)
qed

lemma erase_word_step:
  "rl_inv prompt (rev t) st \<Longrightarrow> console_buffer st ! length t = c \<Longrightarrow>
   \<exists>st'. erase_word (length t) (int (length prompt)) st = Inr st' \<and> rl_inv prompt (rev (drop_word (c # t))) st'"
proof (induction t arbitrary: st c)
  case (Cons d t)
  have b: "length (console_buffer st) = 512" "rl_p st = Suc (length t)" "rl_n st = 1 + int (length t)"
    "length t < 510" "take (Suc (length t)) (console_buffer st) = rev t @ [d]"
    using Cons.prems(1) by (auto simp: rl_inv_def)
  show ?case
  proof (cases "c = CHR '' ''")
    case True
    then show ?thesis using Cons.prems b by simp
  next
    case False
    from delete_char_step [OF Cons.prems(1)] obtain st1 where
      1: "delete_char (int (length prompt)) st = Inr st1" "rl_inv prompt (rev t) st1"
        "console_buffer st1 = console_buffer st" by auto
    have "console_buffer st1 ! length t = d"
      using b 1(3) by (simp add: take_Suc_conv_app_nth)
    from Cons.IH [OF 1(2) this] False Cons.prems(2) b 1(1) show ?thesis by simp
  qed
qed simp

lemma rl_key_step:
  assumes i: "rl_inv prompt s st" and c: "\<not> line_end c" "c \<noteq> BEL"
  shows "\<exists>st'. rl_key (int (length prompt)) c st = Inr (RL_More st') \<and> rl_inv prompt (edit c s) st'"
proof -
  let ?p = "int (length prompt)"
  have ne: "c \<noteq> CR" "c \<noteq> LF" "c \<noteq> CTRL_C" using c(1) by (simp_all add: line_end_def)
  have b: "length (console_buffer st) = 512" "rl_p st = length s" "rl_n st = int (length s)" "length s \<le> 510"
    "take (length s) (console_buffer st) = s" "BEL \<notin> set s" "BS \<notin> set s" and sh: "shows_line prompt s st"
    using i by (auto simp: rl_inv_shows)
  consider "c = NUL" | "c = CTRL_U" | "c = CTRL_W" | "c = BS \<or> c = DEL"
    | "c \<noteq> NUL" "c \<noteq> CTRL_U" "c \<noteq> CTRL_W" "c \<noteq> BS" "c \<noteq> DEL" by blast
  then show ?thesis
  proof cases
    case 1
    then show ?thesis using i by (simp add: rl_key_def edit_def key_defs)
  next
    case 2
    have "rl_inv prompt [] ((erase_line ?p st)\<lparr>rl_p := 0, rl_n := 0\<rparr>)"
      using shows_line_erase [OF sh] b by (simp add: rl_inv_shows shows_line_def)
    then show ?thesis using 2 by (simp add: rl_key_def edit_def key_defs)
  next
    case 3
    show ?thesis
    proof (cases "s = []")
      case True
      then show ?thesis using 3 i b by (simp add: rl_key_def edit_def key_defs delete_char_def)
    next
      case False
      define t where "t = rev (butlast s)"
      have s: "s = rev t @ [last s]" using False by (simp add: t_def)
      obtain st1 where d: "delete_char ?p st = Inr st1" "rl_inv prompt (rev t) st1"
          "console_buffer st1 = console_buffer st"
        using delete_char_step [OF i] by (auto simp: t_def)
      have ls: "length s = Suc (length t)" using False by (simp add: t_def)
      have "console_buffer st1 ! length t = last s"
      proof -
        have "take (length s) (console_buffer st) ! length t = last s"
          unfolding b(5) by (subst s) (simp add: nth_append)
        then show ?thesis using ls d(3) by simp
      qed
      from erase_word_step [OF d(2) this] obtain st2 where
        w: "erase_word (length t) ?p st1 = Inr st2" "rl_inv prompt (rev (drop_word (last s # t))) st2" by blast
      have "rl_n st1 = int (length t)" using d(2) by (simp add: rl_inv_def)
      moreover have "edit c s = rev (drop_word (last s # t))"
      proof -
        have rs: "rev s = last s # t" by (subst s) simp
        show ?thesis unfolding edit_def rs using 3 by (simp add: key_defs)
      qed
      ultimately show ?thesis using 3 d w by (simp add: rl_key_def key_defs)
    qed
  next
    case 4
    obtain st1 where d: "delete_char ?p st = Inr st1" "rl_inv prompt (butlast s) st1"
      using delete_char_step [OF i] by blast
    have "edit c s = butlast s" "rl_key ?p c st = rbind (delete_char ?p st) (\<lambda>st. Inr (RL_More st))"
      using 4 by (elim disjE; simp add: edit_def rl_key_def key_defs)+
    then show ?thesis using d by simp
  next
    case 5
    show ?thesis
    proof (cases "length s < 510")
      case True
      have "shows_line prompt (s @ [c]) (rl_echo c st)" using sh 5 c(2) by (intro shows_line_echo)
      then have "rl_inv prompt (s @ [c]) ((rl_echo c st)\<lparr>console_buffer := (console_buffer st)[length s := c],
          rl_p := length s + 1, rl_n := int (length s) + 1\<rparr>)"
        using b True 5 c(2) by (auto simp: rl_inv_shows shows_line_def take_Suc_conv_app_nth)
      then show ?thesis using 5 ne b True by (simp add: rl_key_def edit_def Let_def)
    next
      case False
      have "rl_inv prompt s (rl_puts [BEL] st)"
        using i by (auto simp: rl_inv_def screen_append key_defs)
      then show ?thesis using 5 ne b False by (simp add: rl_key_def edit_def)
    qed
  qed
qed

lemma readline_loop_edits:
  assumes "rl_inv prompt s st" "\<forall>c \<in> set keys. \<not> line_end c \<and> c \<noteq> BEL"
  shows "\<exists>st'. readline_loop (int (length prompt)) (keys @ rest) st = readline_loop (int (length prompt)) rest st' \<and>
    rl_inv prompt (fold edit keys s) st'"
  using assms
proof (induction keys arbitrary: s st)
  case (Cons c keys)
  then obtain st1 where 1: "rl_key (int (length prompt)) c st = Inr (RL_More st1)" "rl_inv prompt (edit c s) st1"
    using rl_key_step [of prompt s st c] by auto
  from Cons.IH [OF 1(2)] Cons.prems(2) 1(1) show ?case by simp
qed auto

lemma readline_line:
  assumes "length buf = CFG_CBSIZE" "\<forall>c \<in> set keys. \<not> line_end c \<and> c \<noteq> BEL" "BS \<notin> set prompt" "BEL \<notin> set prompt"
  shows "\<exists>st out. readline prompt buf (keys @ [CR] @ rest) = Inr (int (length (fold edit keys [])), st, rest) \<and>
    length (console_buffer st) = CFG_CBSIZE \<and>
    take (length (fold edit keys []) + 1) (console_buffer st) = fold edit keys [] @ [NUL] \<and>
    rl_out st = out @ [CR, LF] \<and>
    (\<exists>k. screen out = (rev (prompt @ shown (int (length prompt)) (fold edit keys [])), replicate k (CHR '' '')))"
proof -
  let ?st = "\<lparr>console_buffer = buf, rl_p = 0, rl_n = 0, rl_col = int (length prompt), rl_out = prompt\<rparr>"
  let ?s = "fold edit keys []"
  have "rl_inv prompt [] ?st"
    using assms by (auto simp: rl_inv_def screen_def term_put_plain intro: exI [of _ 0])
  from readline_loop_edits [OF this assms(2), of "CR # rest"] obtain st where
    r: "readline prompt buf (keys @ [CR] @ rest) = readline_loop (int (length prompt)) (CR # rest) st"
    and i: "rl_inv prompt ?s st" by (auto simp: readline_def)
  then show ?thesis
    by (auto simp: rl_inv_def rl_key_def take_Suc_conv_app_nth)
qed

text \<open>
  C12: \<open>readline\<close> implements line editing: for any keys up to the first line end it returns the length
  of the line that results from applying the edits they mean, leaves that line terminated in the
  buffer and shows exactly the prompt and that line on the terminal, blank to the right.
\<close>
theorem readline_edits:
  assumes "length buf = CFG_CBSIZE" "\<forall>c \<in> set keys. \<not> line_end c \<and> c \<noteq> BEL" "BS \<notin> set prompt" "BEL \<notin> set prompt"
  shows "\<exists>st out. readline prompt buf (keys @ [CR] @ rest) = Inr (int (length (fold edit keys [])), st, rest) \<and>
    length (console_buffer st) = CFG_CBSIZE \<and>
    take (length (fold edit keys []) + 1) (console_buffer st) = fold edit keys [] @ [NUL] \<and>
    rl_out st = out @ [CR, LF] \<and>
    (\<exists>k. screen out = (rev (prompt @ shown (int (length prompt)) (fold edit keys [])), replicate k (CHR '' '')))"
  using assms by (rule readline_line)

theorem readline_edits_witness:
  "\<exists>st. readline ''> '' (replicate 512 NUL) (''ab'' @ [BS] @ ''c d'' @ [CTRL_W] @ ''e'' @ [CR] @ ''x'') = Inr (3, st, ''x'') \<and>
     take (Suc (Suc (Suc (Suc 0)))) (console_buffer st) = ''ace'' @ [NUL]"
  using readline_edits [of "replicate 512 NUL" "''ab'' @ [BS] @ ''c d'' @ [CTRL_W] @ ''e''" "''> ''" "''x''"]
  by (auto simp: key_defs line_end_def edit_def)

lemma readline_break:
  assumes "length buf = CFG_CBSIZE" "\<forall>c \<in> set keys. \<not> line_end c \<and> c \<noteq> BEL" "BS \<notin> set prompt" "BEL \<notin> set prompt"
  shows "\<exists>st. readline prompt buf (keys @ [CTRL_C] @ rest) = Inr (- 1, st, rest) \<and> console_buffer st ! 0 = NUL"
proof -
  let ?st = "\<lparr>console_buffer = buf, rl_p = 0, rl_n = 0, rl_col = int (length prompt), rl_out = prompt\<rparr>"
  have "rl_inv prompt [] ?st"
    using assms by (auto simp: rl_inv_def screen_def term_put_plain intro: exI [of _ 0])
  from readline_loop_edits [OF this assms(2), of "CTRL_C # rest"] show ?thesis
    by (auto simp: readline_def rl_inv_def rl_key_def key_defs)
qed

subsection \<open>Lines read by the users of \<open>readline\<close>\<close>

lemma edit_no_NUL: "NUL \<notin> set s \<Longrightarrow> NUL \<notin> set (edit c s)"
proof -
  have d: "set (drop_word t) \<subseteq> set t" for t by (induction t) auto
  assume "NUL \<notin> set s"
  then show ?thesis using d [of "rev s"] by (auto simp: edit_def dest: in_set_butlastD)
qed

lemma edits_no_NUL: "NUL \<notin> set s \<Longrightarrow> NUL \<notin> set (fold edit keys s)"
  by (induction keys arbitrary: s) (simp_all add: edit_no_NUL)

lemma takeWhile_line:
  assumes "take (length s + 1) b = s @ [NUL]" "NUL \<notin> set s"
  shows "takeWhile (\<lambda>c. c \<noteq> NUL) b = s"
proof -
  have "b = s @ NUL # drop (length s + 1) b"
    using append_take_drop_id [of "length s + 1" b] unfolding assms(1) by simp
  then have "takeWhile (\<lambda>c. c \<noteq> NUL) b = takeWhile (\<lambda>c. c \<noteq> NUL) (s @ NUL # drop (length s + 1) b)" by simp
  also have "\<dots> = s" using assms(2) by (subst takeWhile_append2) auto
  finally show ?thesis .
qed

definition prompt_ok :: "string \<Rightarrow> bool" where
  "prompt_ok prompt \<longleftrightarrow> BS \<notin> set prompt \<and> BEL \<notin> set prompt"

definition keys_ok :: "string \<Rightarrow> bool" where
  "keys_ok keys \<longleftrightarrow> (\<forall>c \<in> set keys. \<not> line_end c \<and> c \<noteq> BEL)"

lemma readline_typed:
  assumes "length buf = CFG_CBSIZE" "keys_ok keys" "prompt_ok prompt"
  defines "line \<equiv> fold edit keys []"
  obtains rl where "readline prompt buf (keys @ CR # rest) = Inr (int (length line), rl, rest)"
    "length (console_buffer rl) = CFG_CBSIZE" "takeWhile (\<lambda>c. c \<noteq> NUL) (console_buffer rl) = line"
    "console_buffer rl ! 0 = (if line = [] then NUL else hd line)"
proof -
  obtain rl out where r: "readline prompt buf (keys @ CR # rest) = Inr (int (length line), rl, rest)"
    "length (console_buffer rl) = CFG_CBSIZE" "take (length line + 1) (console_buffer rl) = line @ [NUL]"
    using readline_line [of buf keys prompt rest] assms by (auto simp: keys_ok_def prompt_ok_def)
  have t: "takeWhile (\<lambda>c. c \<noteq> NUL) (console_buffer rl) = line"
    using takeWhile_line [OF r(3)] edits_no_NUL [of "[]" keys] by (simp add: line_def)
  have "console_buffer rl ! 0 = (line @ [NUL]) ! 0" unfolding r(3) [symmetric] by simp
  then have "console_buffer rl ! 0 = (if line = [] then NUL else hd line)" by (simp add: nth_append hd_conv_nth)
  with r(1,2) t show ?thesis by (rule that)
qed

end
