(* ===== verification/Ctype.thy ===== *)
theory Ctype
  imports Prelude
begin

text \<open>
  Character classes: the 256-entry mask table of \<open>lib_generic/ctype.c\<close> and the test macros and
  case conversions of \<open>include/linux/ctype.h\<close> over it. The lemmas give each test the range of
  character codes it stands for on the ASCII half of the table.
\<close>

subsection \<open>Table and tests\<close>

abbreviation (input) ct_U :: nat where "ct_U \<equiv> 0x01"
abbreviation (input) ct_L :: nat where "ct_L \<equiv> 0x02"
abbreviation (input) ct_D :: nat where "ct_D \<equiv> 0x04"
abbreviation (input) ct_C :: nat where "ct_C \<equiv> 0x08"
abbreviation (input) ct_P :: nat where "ct_P \<equiv> 0x10"
abbreviation (input) ct_S :: nat where "ct_S \<equiv> 0x20"
abbreviation (input) ct_X :: nat where "ct_X \<equiv> 0x40"
abbreviation (input) ct_SP :: nat where "ct_SP \<equiv> 0x80"

definition ctype :: "nat list" where
  "ctype =
     replicate 8 ct_C @
     [ct_C] @ replicate 5 (or ct_C ct_S) @ replicate 2 ct_C @
     replicate 8 ct_C @
     replicate 8 ct_C @
     [or ct_S ct_SP] @ replicate 7 ct_P @
     replicate 8 ct_P @
     replicate 8 ct_D @
     replicate 2 ct_D @ replicate 6 ct_P @
     [ct_P] @ replicate 6 (or ct_U ct_X) @ [ct_U] @
     replicate 8 ct_U @
     replicate 8 ct_U @
     replicate 3 ct_U @ replicate 5 ct_P @
     [ct_P] @ replicate 6 (or ct_L ct_X) @ [ct_L] @
     replicate 8 ct_L @
     replicate 8 ct_L @
     replicate 3 ct_L @ replicate 4 ct_P @ [ct_C] @
     replicate 16 0 @
     replicate 16 0 @
     [or ct_S ct_SP] @ replicate 15 ct_P @
     replicate 16 ct_P @
     replicate 16 ct_U @
     replicate 7 ct_U @ [ct_P] @ replicate 7 ct_U @ [ct_L] @
     replicate 16 ct_L @
     replicate 7 ct_L @ [ct_P] @ replicate 8 ct_L"

definition ismask :: "char \<Rightarrow> nat" where
  "ismask c = ctype ! of_char c"

definition isdigit :: "char \<Rightarrow> bool" where
  "isdigit c \<longleftrightarrow> and (ismask c) ct_D \<noteq> 0"

definition islower :: "char \<Rightarrow> bool" where
  "islower c \<longleftrightarrow> and (ismask c) ct_L \<noteq> 0"

definition isupper :: "char \<Rightarrow> bool" where
  "isupper c \<longleftrightarrow> and (ismask c) ct_U \<noteq> 0"

definition isspace :: "char \<Rightarrow> bool" where
  "isspace c \<longleftrightarrow> and (ismask c) ct_S \<noteq> 0"

definition isxdigit :: "char \<Rightarrow> bool" where
  "isxdigit c \<longleftrightarrow> and (ismask c) (or ct_D ct_X) \<noteq> 0"

definition toupper :: "char \<Rightarrow> char" where
  "toupper c = (if islower c then char_of (of_char c - 32 :: nat) else c)"

definition tolower :: "char \<Rightarrow> char" where
  "tolower c = (if isupper c then char_of (of_char c + 32 :: nat) else c)"

subsection \<open>Meaning of the tests\<close>

lemma length_ctype: "length ctype = 256"
  by (simp add: ctype_def)

lemma of_char_less: "(of_char c :: nat) < 256"
proof -
  have "(of_char c :: nat) mod 256 = of_char c" by (rule of_char_mod_256)
  then show ?thesis by (metis mod_less_divisor zero_less_numeral)
qed

text \<open>A statement on the table entry of every character is checked segment by segment.\<close>

definition all_from :: "(nat \<Rightarrow> nat \<Rightarrow> bool) \<Rightarrow> nat \<Rightarrow> nat list \<Rightarrow> bool" where
  "all_from P a ys \<longleftrightarrow> (\<forall>i<length ys. P (ys ! i) (a + i))"

definition ctype_spec :: "nat \<Rightarrow> nat \<Rightarrow> bool" where
  "ctype_spec v n \<longleftrightarrow>
     (and v 4 \<noteq> 0) = (48 \<le> n \<and> n \<le> 57) \<and>
     (and v (or 4 0x40) \<noteq> 0) = (48 \<le> n \<and> n \<le> 57 \<or> 65 \<le> n \<and> n \<le> 70 \<or> 97 \<le> n \<and> n \<le> 102) \<and>
     (n < 128 \<longrightarrow> (and v 1 \<noteq> 0) = (65 \<le> n \<and> n \<le> 90)) \<and>
     (n < 128 \<longrightarrow> (and v 2 \<noteq> 0) = (97 \<le> n \<and> n \<le> 122)) \<and>
     (n < 128 \<longrightarrow> (and v 0x20 \<noteq> 0) = (9 \<le> n \<and> n \<le> 13 \<or> n = 32))"

lemma all_from_append:
  "all_from P a (xs @ ys) \<longleftrightarrow> all_from P a xs \<and> all_from P (a + length xs) ys"
  unfolding all_from_def
proof (safe, goal_cases)
  case (1 i)
  then show ?case by (auto dest: spec [of _ i] simp: nth_append)
next
  case (2 i)
  then show ?case using spec [OF 2(1), of "length xs + i"] by (simp add: add.assoc)
next
  case (3 i)
  then show ?case
    by (cases "i < length xs") (auto simp: nth_append dest: spec [of _ "i - length xs"])
qed

lemma all_from_replicate:
  "all_from P a (replicate k v) \<longleftrightarrow> (\<forall>n. a \<le> n \<and> n < a + k \<longrightarrow> P v n)"
  unfolding all_from_def
proof (safe, goal_cases)
  case (1 n)
  then show ?case by (auto dest: spec [of _ "n - a"])
qed auto

lemma all_from_single: "all_from P a [v] \<longleftrightarrow> P v a"
  by (simp add: all_from_def)

lemma ctype_spec_all: "ctype_spec (ismask c) (of_char c)"
proof -
  have "all_from ctype_spec 0 ctype"
    unfolding ctype_def all_from_append all_from_replicate all_from_single
    by (intro conjI) (auto simp: ctype_spec_def)
  then show ?thesis
    using of_char_less [of c] by (simp add: all_from_def length_ctype ismask_def)
qed

lemma isdigit_iff: "isdigit c \<longleftrightarrow> 48 \<le> (of_char c :: nat) \<and> (of_char c :: nat) \<le> 57"
  using ctype_spec_all [of c] by (simp add: isdigit_def ctype_spec_def)

lemma isxdigit_iff:
  "isxdigit c \<longleftrightarrow> 48 \<le> (of_char c :: nat) \<and> (of_char c :: nat) \<le> 57 \<or>
     65 \<le> (of_char c :: nat) \<and> (of_char c :: nat) \<le> 70 \<or>
     97 \<le> (of_char c :: nat) \<and> (of_char c :: nat) \<le> 102"
  using ctype_spec_all [of c] by (simp only: isxdigit_def ctype_spec_def)

lemma isupper_iff:
  "(of_char c :: nat) < 128 \<Longrightarrow> isupper c \<longleftrightarrow> 65 \<le> (of_char c :: nat) \<and> (of_char c :: nat) \<le> 90"
  using ctype_spec_all [of c] by (simp add: isupper_def ctype_spec_def)

lemma islower_iff:
  "(of_char c :: nat) < 128 \<Longrightarrow> islower c \<longleftrightarrow> 97 \<le> (of_char c :: nat) \<and> (of_char c :: nat) \<le> 122"
  using ctype_spec_all [of c] by (simp add: islower_def ctype_spec_def)

lemma isspace_iff:
  "(of_char c :: nat) < 128 \<Longrightarrow>
   isspace c \<longleftrightarrow> 9 \<le> (of_char c :: nat) \<and> (of_char c :: nat) \<le> 13 \<or> (of_char c :: nat) = 32"
  using ctype_spec_all [of c] by (simp add: isspace_def ctype_spec_def)

lemma of_char_toupper:
  "(of_char c :: nat) < 128 \<Longrightarrow>
   (of_char (toupper c) :: nat) = (if 97 \<le> (of_char c :: nat) \<and> (of_char c :: nat) \<le> 122
     then of_char c - 32 else of_char c)"
  by (simp add: toupper_def islower_iff)

end
