(* ===== verification/Vsprintf.thy ===== *)
theory Vsprintf
  imports Ctype
begin

text \<open>
  Number parsing and formatting of \<open>lib_generic/vsprintf.c\<close>. A C string is the list of its
  characters without the terminator, so that a pointer into it is a suffix and reading at the end
  yields \<open>NUL\<close>. \<open>unsigned long\<close> is a 32-bit word (\<open>CFG_64BIT_VSPRINTF\<close> is not defined).
  Output buffers are the characters appended to them.
\<close>

subsection \<open>Parsing\<close>

definition peek :: "string \<Rightarrow> char" where
  "peek s = (case s of [] \<Rightarrow> NUL | c # _ \<Rightarrow> c)"

definition digit_value :: "char \<Rightarrow> u32" where
  "digit_value c =
     (if isdigit c then of_nat (of_char c) - 48
      else of_nat (of_char (if islower c then toupper c else c)) - 65 + 10)"

fun strtoul_loop :: "u32 \<Rightarrow> u32 \<Rightarrow> string \<Rightarrow> u32 \<times> string" where
  "strtoul_loop base result [] = (result, [])"
| "strtoul_loop base result (c # cp) =
     (if isxdigit c \<and> digit_value c < base
      then strtoul_loop base (result * base + digit_value c) cp
      else (result, c # cp))"

definition simple_strtoul :: "string \<Rightarrow> u32 \<Rightarrow> u32 \<times> string" where
  "simple_strtoul cp base =
     (let (cp, base) =
        (if peek cp = CHR ''0'' then
           let cp = tl cp;
               (cp, base) = (if peek cp = CHR ''x'' \<and> isxdigit (peek (tl cp))
                             then (tl cp, 16) else (cp, base))
           in (cp, if base = 0 then 8 else base)
         else (cp, base));
          base = (if base = 0 then 10 else base)
      in strtoul_loop base 0 cp)"

definition simple_strtol :: "string \<Rightarrow> u32 \<Rightarrow> u32 \<times> string" where
  "simple_strtol cp base =
     (if peek cp = CHR ''-'' then apfst uminus (simple_strtoul (tl cp) base)
      else simple_strtoul cp base)"

text \<open>\<open>skip_atoi\<close> accumulates in a 32-bit \<open>int\<close>.\<close>

definition is_digit :: "char \<Rightarrow> bool" where
  "is_digit c \<longleftrightarrow> 48 \<le> (of_char c :: nat) \<and> (of_char c :: nat) \<le> 57"

fun skip_atoi :: "u32 \<Rightarrow> string \<Rightarrow> u32 \<times> string" where
  "skip_atoi i [] = (i, [])"
| "skip_atoi i (c # s) =
     (if is_digit c
      then skip_atoi (i * 10 + of_nat (of_char c) - 48) s else (i, c # s))"

subsection \<open>Formatting of numbers\<close>

record nflags =
  ZEROPAD :: bool
  SIGN :: bool
  PLUS :: bool
  SPACE :: bool
  LEFT :: bool
  SPECIAL :: bool
  LARGE :: bool

definition digits_lower :: string where
  "digits_lower = ''0123456789abcdefghijklmnopqrstuvwxyz''"

definition digits_upper :: string where
  "digits_upper = ''0123456789ABCDEFGHIJKLMNOPQRSTUVWXYZ''"

text \<open>The digits in \<open>tmp\<close>, least significant first: the loop \<open>tmp[i++] = digits[do_div(num,base)]\<close>.\<close>

fun num_digits :: "string \<Rightarrow> nat \<Rightarrow> nat \<Rightarrow> string" where
  "num_digits digits base num =
     (if num = 0 \<or> base < 2 then []
      else digits ! (num mod base) # num_digits digits base (num div base))"

text \<open>The padding loops \<open>while (size-- > 0) *str++ = c\<close>: what they write and the final \<open>size\<close>.\<close>

definition pad :: "char \<Rightarrow> int \<Rightarrow> string" where
  "pad c n = replicate (nat n) c"

definition pad_rest :: "int \<Rightarrow> int" where
  "pad_rest n = (if n > 0 then - 1 else n - 1)"

definition number :: "u32 \<Rightarrow> int \<Rightarrow> int \<Rightarrow> int \<Rightarrow> nflags \<Rightarrow> string option" where
  "number num base sz precision type =
     (let digits = (if LARGE type then digits_upper else digits_lower);
          zeropad = (ZEROPAD type \<and> \<not> LEFT type) in
      if base < 2 \<or> base > 36 then None
      else
        let c = (if zeropad then CHR ''0'' else CHR '' '');
            neg = (SIGN type \<and> sint num < 0);
            sign = (if neg then ''-''
                    else if SIGN type \<and> PLUS type then ''+''
                    else if SIGN type \<and> SPACE type then '' '' else []);
            num = (if neg then - num else num);
            sz = (if sign \<noteq> [] then sz - 1 else sz);
            sz = (if SPECIAL type then if base = 16 then sz - 2 else if base = 8 then sz - 1 else sz
                  else sz);
            tmp = (if num = 0 then ''0'' else num_digits digits (nat base) (unat num));
            precision = max (int (length tmp)) precision;
            sz = sz - precision;
            lead = (if \<not> zeropad \<and> \<not> LEFT type then pad CHR '' '' sz else []);
            sz = (if \<not> zeropad \<and> \<not> LEFT type then pad_rest sz else sz);
            prefix = (if SPECIAL type then
                        if base = 8 then ''0'' else if base = 16 then [CHR ''0'', digits ! 33] else []
                      else []);
            fill = (if \<not> LEFT type then pad c sz else []);
            sz = (if \<not> LEFT type then pad_rest sz else sz);
            zeros = pad CHR ''0'' (precision - int (length tmp))
        in Some (lead @ sign @ prefix @ fill @ zeros @ rev tmp @ pad CHR '' '' sz))"


subsection \<open>Formatted output\<close>

text \<open>
  The variable arguments, with the type the conversion takes them at: an integer or pointer
  value, a string pointer (\<open>None\<close> for \<open>NULL\<close>) or the address a \<open>%n\<close> stores to. A missing
  argument or one of another type makes the result \<open>None\<close>. \<open>stores\<close> lists what \<open>%n\<close> stored.
\<close>

datatype varg = VInt u32 | VStr "string option" | VOut

record vout =
  outp :: string
  vargs :: "varg list"
  stores :: "nat list"

definition no_flags :: nflags where
  "no_flags = \<lparr>ZEROPAD = False, SIGN = False, PLUS = False, SPACE = False, LEFT = False,
     SPECIAL = False, LARGE = False\<rparr>"

fun vs_flags :: "nflags \<Rightarrow> string \<Rightarrow> nflags \<times> string" where
  "vs_flags fl [] = (fl, [])"
| "vs_flags fl (c # fmt) =
     (if c = CHR ''-'' then vs_flags (fl\<lparr>LEFT := True\<rparr>) fmt
      else if c = CHR ''+'' then vs_flags (fl\<lparr>PLUS := True\<rparr>) fmt
      else if c = CHR '' '' then vs_flags (fl\<lparr>SPACE := True\<rparr>) fmt
      else if c = CHR ''#'' then vs_flags (fl\<lparr>SPECIAL := True\<rparr>) fmt
      else if c = CHR ''0'' then vs_flags (fl\<lparr>ZEROPAD := True\<rparr>) fmt
      else (fl, c # fmt))"

fun vs_int_arg :: "varg list \<Rightarrow> (u32 \<times> varg list) option" where
  "vs_int_arg (VInt w # as) = Some (w, as)"
| "vs_int_arg _ = None"

definition vs_width :: "nflags \<Rightarrow> string \<Rightarrow> varg list \<Rightarrow> (u32 \<times> nflags \<times> string \<times> varg list) option" where
  "vs_width fl fmt as =
     (if is_digit (peek fmt) then
        (let (w, fmt) = skip_atoi 0 fmt in Some (w, fl, fmt, as))
      else if peek fmt = CHR ''*'' then
        (case vs_int_arg as of
           None \<Rightarrow> None
         | Some (w, as) \<Rightarrow>
             if sint w < 0 then Some (- w, fl\<lparr>LEFT := True\<rparr>, tl fmt, as)
             else Some (w, fl, tl fmt, as))
      else Some (- 1, fl, fmt, as))"

definition vs_precision :: "string \<Rightarrow> varg list \<Rightarrow> (u32 \<times> string \<times> varg list) option" where
  "vs_precision fmt as =
     (if peek fmt = CHR ''.'' then
        let fmt = tl fmt in
        if is_digit (peek fmt) then
          (let (p, fmt) = skip_atoi 0 fmt in Some (if sint p < 0 then 0 else p, fmt, as))
        else if peek fmt = CHR ''*'' then
          (case vs_int_arg as of
             None \<Rightarrow> None
           | Some (p, as) \<Rightarrow> Some (if sint p < 0 then 0 else p, tl fmt, as))
        else Some (0, fmt, as)
      else Some (- 1, fmt, as))"

definition vs_qualifier :: "string \<Rightarrow> char \<times> string" where
  "vs_qualifier fmt =
     (if peek fmt \<in> {CHR ''h'', CHR ''l'', CHR ''q''} then (peek fmt, tl fmt) else (NUL, fmt))"

definition vs_number :: "char \<Rightarrow> u32 \<Rightarrow> int \<Rightarrow> u32 \<Rightarrow> u32 \<Rightarrow> nflags \<Rightarrow> string" where
  "vs_number q w base width precision fl =
     (let num = (if q = CHR ''h'' then
                   if SIGN fl then scast (ucast w :: u16) else ucast (ucast w :: u16)
                 else w)
      in case number num base (sint width) (sint precision) fl of
           None \<Rightarrow> [] | Some s \<Rightarrow> s)"

definition vs_string :: "string option \<Rightarrow> u32 \<Rightarrow> u32 \<Rightarrow> nflags \<Rightarrow> string" where
  "vs_string sp width precision fl =
     (let s = (case sp of None \<Rightarrow> ''<NULL>'' | Some s \<Rightarrow> s);
          len = min (length s) (unat precision);
          fill = pad CHR '' '' (sint width - int len)
      in if LEFT fl then take len s @ fill else fill @ take len s)"

text \<open>
  The \<open>switch\<close> on the conversion character, for what precedes it; the result is the output added,
  the arguments left, a stored count if any and whether the character is consumed (at the end of
  the format the unknown conversion is not).
\<close>

definition vs_convert :: "char \<Rightarrow> char \<Rightarrow> u32 \<Rightarrow> u32 \<Rightarrow> nflags \<Rightarrow> vout \<Rightarrow> vout option" where
  "vs_convert c q width precision fl v =
     (let num = (\<lambda>base fl. case vs_int_arg (vargs v) of
            None \<Rightarrow> None
          | Some (w, as) \<Rightarrow>
              Some (v\<lparr>outp := outp v @ vs_number q w base width precision fl, vargs := as\<rparr>))
      in
      if c = CHR ''c'' then
        (case vs_int_arg (vargs v) of
           None \<Rightarrow> None
         | Some (w, as) \<Rightarrow>
             (let ch = [char_of (unat (ucast w :: byte))]; fill = pad CHR '' '' (sint width - 1)
              in Some (v\<lparr>outp := outp v @ (if LEFT fl then ch @ fill else fill @ ch), vargs := as\<rparr>)))
      else if c = CHR ''s'' then
        (case vargs v of
           VStr sp # as \<Rightarrow>
             Some (v\<lparr>outp := outp v @ vs_string sp width precision fl, vargs := as\<rparr>)
         | _ \<Rightarrow> None)
      else if c = CHR ''p'' then
        (case vs_int_arg (vargs v) of
           None \<Rightarrow> None
         | Some (w, as) \<Rightarrow>
             (let (width, fl) = (if width = - 1 then (8, fl\<lparr>ZEROPAD := True\<rparr>) else (width, fl))
              in Some (v\<lparr>outp := outp v @ vs_number NUL w 16 width precision fl, vargs := as\<rparr>)))
      else if c = CHR ''n'' then
        (case vargs v of
           VOut # as \<Rightarrow> Some (v\<lparr>vargs := as, stores := stores v @ [length (outp v)]\<rparr>)
         | _ \<Rightarrow> None)
      else if c = CHR ''%'' then Some (v\<lparr>outp := outp v @ ''%''\<rparr>)
      else if c = CHR ''o'' then num 8 fl
      else if c = CHR ''X'' then num 16 (fl\<lparr>LARGE := True\<rparr>)
      else if c = CHR ''x'' then num 16 fl
      else if c = CHR ''d'' \<or> c = CHR ''i'' then num 10 (fl\<lparr>SIGN := True\<rparr>)
      else if c = CHR ''u'' then num 10 fl
      else Some (v\<lparr>outp := outp v @ ''%'' @ (if c = NUL then [] else [c])\<rparr>))"

text \<open>One directive after its \<open>%\<close>: the state after it and what is left of the format.\<close>

definition vs_directive :: "string \<Rightarrow> vout \<Rightarrow> (vout \<times> string) option" where
  "vs_directive fmt v =
     (let (fl, fmt) = vs_flags no_flags fmt in
      case vs_width fl fmt (vargs v) of
        None \<Rightarrow> None
      | Some (width, fl, fmt, as) \<Rightarrow>
          (case vs_precision fmt as of
             None \<Rightarrow> None
           | Some (precision, fmt, as) \<Rightarrow>
               (let (q, fmt) = vs_qualifier fmt in
                case vs_convert (peek fmt) q width precision fl (v\<lparr>vargs := as\<rparr>) of
                  None \<Rightarrow> None
                | Some v \<Rightarrow> Some (v, tl fmt))))"

lemma length_vs_flags: "length (snd (vs_flags fl fmt)) \<le> length fmt"
  by (induction fl fmt rule: vs_flags.induct) auto

lemma length_skip_atoi: "length (snd (skip_atoi i s)) \<le> length s"
  by (induction i s rule: skip_atoi.induct) auto

lemma length_vs_width:
  "vs_width fl fmt as = Some (w, fl', fmt', as') \<Longrightarrow> length fmt' \<le> length fmt"
  using length_skip_atoi [of 0 fmt]
  by (auto simp: vs_width_def split: if_splits prod.splits option.splits)

lemma length_vs_precision:
  "vs_precision fmt as = Some (p, fmt', as') \<Longrightarrow> length fmt' \<le> length fmt"
  using length_skip_atoi [of 0 "tl fmt"]
  by (auto simp: vs_precision_def Let_def split: if_splits prod.splits option.splits)

lemma length_vs_qualifier: "length (snd (vs_qualifier fmt)) \<le> length fmt"
  by (simp add: vs_qualifier_def)

lemma length_vs_directive:
  assumes "vs_directive fmt v = Some (v', fmt')"
  shows "length fmt' \<le> length fmt"
proof -
  obtain fl f1 where 1: "vs_flags no_flags fmt = (fl, f1)" by fastforce
  with assms obtain w fl' f2 as where 2: "vs_width fl f1 (vargs v) = Some (w, fl', f2, as)"
    by (auto simp: vs_directive_def split: option.splits)
  with assms 1 obtain p f3 as' where 3: "vs_precision f2 as = Some (p, f3, as')"
    by (auto simp: vs_directive_def split: option.splits)
  obtain q f4 where 4: "vs_qualifier f3 = (q, f4)" by fastforce
  from assms 1 2 3 4 have "fmt' = tl f4"
    by (auto simp: vs_directive_def split: option.splits)
  then have "length fmt' \<le> length f4" by simp
  also have "\<dots> \<le> length f3" using length_vs_qualifier [of f3] by (simp add: 4)
  also have "\<dots> \<le> length f2" by (rule length_vs_precision [OF 3])
  also have "\<dots> \<le> length f1" by (rule length_vs_width [OF 2])
  also have "\<dots> \<le> length fmt" using length_vs_flags [of no_flags fmt] by (simp add: 1)
  finally show ?thesis .
qed

function vsprintf_loop :: "string \<Rightarrow> vout \<Rightarrow> vout option" where
  "vsprintf_loop [] v = Some v"
| "vsprintf_loop (c # fmt) v =
     (if c \<noteq> CHR ''%'' then vsprintf_loop fmt (v\<lparr>outp := outp v @ [c]\<rparr>)
      else case vs_directive fmt v of
             None \<Rightarrow> None
           | Some (v, fmt) \<Rightarrow> vsprintf_loop fmt v)"
  by pat_completeness auto
termination
  by (relation "measure (length \<circ> fst)") (auto dest!: length_vs_directive)

definition vsprintf :: "string \<Rightarrow> varg list \<Rightarrow> (nat \<times> string \<times> nat list) option" where
  "vsprintf fmt as =
     (case vsprintf_loop fmt \<lparr>outp = [], vargs = as, stores = []\<rparr> of
        None \<Rightarrow> None
      | Some v \<Rightarrow> Some (length (outp v), outp v, stores v))"

subsection \<open>Lemmas\<close>

lemma digits_lower_value:
  assumes "n < 16"
  shows "isxdigit (digits_lower ! n) \<and> digit_value (digits_lower ! n) = of_nat n \<and>
    (digits_lower ! n = CHR ''0'' \<longleftrightarrow> n = 0) \<and> digits_lower ! n \<noteq> CHR ''-''"
proof -
  have "n \<in> set [0, 1, 2, 3, 4, 5, 6, 7, 8, 9, 10, 11, 12, 13, 14, 15]"
    using assms by (simp, presburger)
  then show ?thesis
    unfolding list.set
    by (elim insertE)
       (simp_all add: digits_lower_def isxdigit_iff digit_value_def isdigit_iff islower_iff
          of_char_toupper)
qed

declare num_digits.simps [simp del]

lemma strtoul_loop_num_digits:
  assumes "2 \<le> b" "b \<le> 16"
  shows "strtoul_loop (of_nat b) 0 (rev (num_digits digits_lower b n) @ ys) =
    strtoul_loop (of_nat b) (of_nat n) ys"
proof (induction n arbitrary: ys rule: less_induct)
  case (less n)
  show ?case
  proof (cases "n = 0")
    case False
    have d: "n mod b < 16" "n mod b < b" using assms by (auto intro: less_le_trans [of _ b])
    have "(of_nat (n mod b) :: u32) < of_nat b"
      using assms d unat_of_nat_small [where 'a = 32, of "n mod b"]
      by (simp add: word_less_nat_alt unat_of_nat_small del: mod_less_divisor)
    moreover have "(of_nat (n div b) * of_nat b + of_nat (n mod b) :: u32) = of_nat n"
      by (simp flip: of_nat_mult of_nat_add)
    moreover have "num_digits digits_lower b n =
        digits_lower ! (n mod b) # num_digits digits_lower b (n div b)"
      using False assms by (simp add: num_digits.simps [of _ _ n])
    ultimately show ?thesis
      using less.IH [of "n div b"] False assms digits_lower_value [OF d(1)] by simp
  qed (simp add: num_digits.simps)
qed

lemma num_digits_msb:
  assumes "2 \<le> b" "b \<le> 16" "0 < n"
  shows "\<exists>k ds. 0 < k \<and> k < b \<and> rev (num_digits digits_lower b n) = digits_lower ! k # ds"
  using assms(3)
proof (induction n rule: less_induct)
  case (less n)
  have e: "num_digits digits_lower b n =
        digits_lower ! (n mod b) # num_digits digits_lower b (n div b)"
    using less.prems assms by (simp add: num_digits.simps [of _ _ n])
  show ?case
  proof (cases "n div b = 0")
    case True
    then have "n < b" using assms by (simp add: div_eq_0_iff)
    with True less.prems show ?thesis by (auto simp: e num_digits.simps [of _ _ 0])
  next
    case False
    with less.IH [of "n div b"] less.prems assms show ?thesis by (auto simp: e)
  qed
qed

lemma number_plain:
  assumes "2 \<le> b" "b \<le> 36" "\<not> SIGN fl \<or> 0 \<le> sint w" "\<not> LARGE fl" "\<not> PLUS fl" "\<not> SPACE fl"
    "\<not> SPECIAL fl"
  shows "number w (int b) (- 1) (- 1) fl =
    Some (if w = 0 then ''0'' else rev (num_digits digits_lower b (unat w)))"
  using assms by (auto simp: number_def Let_def pad_def pad_rest_def)

lemma strtoul_loop_stop:
  "rest = [] \<or> \<not> isxdigit (hd rest) \<Longrightarrow> strtoul_loop b r rest = (r, rest)"
  by (cases rest) auto

lemma simple_strtoul_digits_rest:
  assumes "2 \<le> b" "b \<le> 16" "rest = [] \<or> \<not> isxdigit (hd rest) \<and> hd rest \<noteq> CHR ''x''"
  shows "simple_strtoul ((if w = 0 then ''0'' else rev (num_digits digits_lower b (unat w))) @ rest)
    (of_nat b) = (w, rest)"
proof -
  have b: "(of_nat b :: u32) \<noteq> 0"
    using assms by (simp add: word_of_nat_eq_0_iff nat_dvd_not_less)
  have stop: "strtoul_loop (of_nat b) w rest = (w, rest)"
    using assms(3) by (intro strtoul_loop_stop) auto
  show ?thesis
  proof (cases "w = 0")
    case True
    have "peek rest \<noteq> CHR ''x''" using assms(3) by (auto simp: peek_def split: list.split)
    with True b stop show ?thesis
      by (simp add: simple_strtoul_def peek_def [of "CHR ''0'' # rest"] Let_def)
  next
    case False
    then have "0 < unat w" by (simp add: unat_gt_0)
    from num_digits_msb [OF assms(1,2) this] obtain k ds where
      k: "0 < k" "k < b" "rev (num_digits digits_lower b (unat w)) = digits_lower ! k # ds" by blast
    then have "digits_lower ! k \<noteq> CHR ''0''"
      using digits_lower_value [of k] assms by simp
    moreover have "strtoul_loop (of_nat b) 0 (digits_lower ! k # ds @ rest) = (w, rest)"
      using strtoul_loop_num_digits [OF assms(1,2), of "unat w" rest] stop by (simp add: k(3))
    ultimately show ?thesis
      using False b by (simp add: simple_strtoul_def peek_def k(3) del: strtoul_loop.simps)
  qed
qed

lemma simple_strtoul_digits:
  assumes "2 \<le> b" "b \<le> 16"
  shows "simple_strtoul (if w = 0 then ''0'' else rev (num_digits digits_lower b (unat w))) (of_nat b) =
    (w, [])"
  using simple_strtoul_digits_rest [OF assms, of "[]" w] by simp

lemma number_signed:
  assumes "sint w < 0" "SIGN fl" "\<not> LARGE fl" "\<not> SPECIAL fl"
  shows "number w 10 (- 1) (- 1) fl =
    Some (''-'' @ (if - w = 0 then ''0'' else rev (num_digits digits_lower 10 (unat (- w)))))"
  using assms by (auto simp: number_def Let_def pad_def pad_rest_def)

lemma number_hex_special:
  assumes "\<not> SIGN fl" "\<not> LARGE fl" "SPECIAL fl"
  shows "number w 16 (- 1) (- 1) fl =
    Some (''0x'' @ (if w = 0 then ''0'' else rev (num_digits digits_lower 16 (unat w))))"
  using assms by (auto simp: number_def Let_def pad_def pad_rest_def digits_lower_def)

lemma simple_strtoul_hex_prefix:
  "simple_strtoul (''0x'' @ (if w = 0 then ''0'' else rev (num_digits digits_lower 16 (unat w)))) base =
    (w, [])"
proof (cases "w = 0")
  case True
  then show ?thesis
    by (simp add: simple_strtoul_def peek_def Let_def isxdigit_iff digit_value_def isdigit_iff)
next
  case False
  then have "0 < unat w" by (simp add: unat_gt_0)
  from num_digits_msb [OF _ _ this, of 16] obtain k ds where
    k: "k < 16" "rev (num_digits digits_lower 16 (unat w)) = digits_lower ! k # ds" by auto
  moreover have "strtoul_loop 16 0 (digits_lower ! k # ds) = (w, [])"
    using strtoul_loop_num_digits [of 16 "unat w" "[]"] by (simp add: k(2))
  ultimately show ?thesis
    using False digits_lower_value [OF k(1)]
    by (simp add: simple_strtoul_def peek_def del: strtoul_loop.simps)
qed

lemmas vs_eval = vsprintf_def vs_directive_def vs_width_def vs_precision_def vs_qualifier_def
  vs_convert_def vs_number_def no_flags_def peek_def is_digit_def Let_def

text \<open>For evaluation on numerals.\<close>

lemma num_digits_eval:
  "num_digits d b 0 = []"
  "num_digits d 10 (numeral n) = d ! (numeral n mod 10) # num_digits d 10 (numeral n div 10)"
  "num_digits d 16 (numeral n) = d ! (numeral n mod 16) # num_digits d 16 (numeral n div 16)"
  "num_digits d 10 1 = [d ! 1]" "num_digits d 16 1 = [d ! 1]"
  by (simp_all add: num_digits.simps [of d b 0] num_digits.simps [of d 10] num_digits.simps [of d 16])

lemmas strtoul_eval = simple_strtoul_def peek_def Let_def isxdigit_iff digit_value_def isdigit_iff islower_iff

lemmas number_eval = vs_eval number_def pad_def pad_rest_def num_digits_eval digits_upper_def digits_lower_def

lemma vsprintf_lu:
  "vsprintf ''%lu'' [VInt w] =
     (let s = (if w = 0 then ''0'' else rev (num_digits digits_lower 10 (unat w)))
      in Some (length s, s, []))"
  using number_plain [of 10 no_flags w] by (simp add: vs_eval)

lemma vsprintf_lx:
  "vsprintf ''%lx'' [VInt w] =
     (let s = (if w = 0 then ''0'' else rev (num_digits digits_lower 16 (unat w))) in Some (length s, s, []))"
  using number_plain [of 16 no_flags w] by (simp add: vs_eval)

lemma vsprintf_hex:
  "vsprintf ''%#lx'' [VInt w] =
     (let s = ''0x'' @ (if w = 0 then ''0'' else rev (num_digits digits_lower 16 (unat w)))
      in Some (length s, s, []))"
  using number_hex_special [of "no_flags\<lparr>SPECIAL := True\<rparr>" w] by (simp add: vs_eval)

lemma vsprintf_d:
  "vsprintf ''%d'' [VInt w] =
     (let s = (if sint w < 0
               then ''-'' @ (if - w = 0 then ''0'' else rev (num_digits digits_lower 10 (unat (- w))))
               else if w = 0 then ''0'' else rev (num_digits digits_lower 10 (unat w)))
      in Some (length s, s, []))"
  using number_plain [of 10 "no_flags\<lparr>SIGN := True\<rparr>" w]
    number_signed [of w "no_flags\<lparr>SIGN := True\<rparr>"]
  by (cases "sint w < 0") (simp_all add: vs_eval not_less)

text \<open>The digits printed: their characters and their number.\<close>

lemma set_num_digits: "b \<le> length d \<Longrightarrow> set (num_digits d b n) \<subseteq> set d"
proof (induction n rule: less_induct)
  case (less n)
  show ?case
  proof (cases "n = 0 \<or> b < 2")
    case False
    then have "n mod b < length d" "n div b < n" using less.prems by (auto intro: less_le_trans [of _ b])
    with less show ?thesis using False by (simp add: num_digits.simps [of d b n])
  qed (simp add: num_digits.simps [of d b n])
qed

lemma length_num_digits: "n < b ^ k \<Longrightarrow> length (num_digits d b n) \<le> k"
proof (induction k arbitrary: n)
  case (Suc k)
  then have "n div b < b ^ k" by (simp add: less_mult_imp_div_less mult.commute)
  with Suc.IH show ?case by (simp add: num_digits.simps [of d b n])
qed (simp add: num_digits.simps)

lemma digits_no_nul: "NUL \<notin> set digits_lower" "NUL \<notin> set digits_upper"
  by (simp_all add: digits_lower_def digits_upper_def)

lemma number_large:
  "number w 16 (- 1) (- 1) (no_flags\<lparr>LARGE := True\<rparr>) =
    Some (if w = 0 then ''0'' else rev (num_digits digits_upper 16 (unat w)))"
  by (auto simp: number_def Let_def pad_def pad_rest_def no_flags_def)

lemma vsprintf_lX:
  "vsprintf ''%lX'' [VInt w] =
     (let s = (if w = 0 then ''0'' else rev (num_digits digits_upper 16 (unat w))) in Some (length s, s, []))"
  using number_large [of w] by (simp add: vs_eval)

lemma hex_digits_bound:
  fixes w :: u32
  shows "length (if w = 0 then ''0'' else rev (num_digits digits_lower 16 (unat w))) \<le> 8"
    "length (if w = 0 then ''0'' else rev (num_digits digits_upper 16 (unat w))) \<le> 8"
    "NUL \<notin> set (if w = 0 then ''0'' else rev (num_digits digits_lower 16 (unat w)))"
    "NUL \<notin> set (if w = 0 then ''0'' else rev (num_digits digits_upper 16 (unat w)))"
  using length_num_digits [of "unat w" 16 8] unsigned_less [of w] digits_no_nul
    set_num_digits [of 16 digits_lower "unat w"] set_num_digits [of 16 digits_upper "unat w"]
  by (auto simp: digits_lower_def digits_upper_def)

lemma digits_not_minus:
  "peek (if w = 0 then ''0'' else rev (num_digits digits_lower 10 (unat w))) \<noteq> CHR ''-''"
proof (cases "w = 0")
  case False
  then have "0 < unat w" by (simp add: unat_gt_0)
  from num_digits_msb [OF _ _ this, of 10] obtain k ds where
    k: "k < 10" "rev (num_digits digits_lower 10 (unat w)) = digits_lower ! k # ds" by auto
  then show ?thesis using False digits_lower_value [of k] by (simp add: peek_def)
qed (simp add: peek_def)

subsection \<open>Properties\<close>

text \<open>
  C31: Formatting and parsing are inverse on every 32-bit value: what \<open>vsprintf\<close> prints with
  \<open>%lu\<close> reads back with \<open>simple_strtoul\<close> in base 10, what it prints with \<open>%#lx\<close> reads back in any
  base, and what it prints with \<open>%d\<close>, the most negative value included, reads back with
  \<open>simple_strtol\<close>.
\<close>

theorem print_parse_roundtrip:
  "(\<exists>s. vsprintf ''%lu'' [VInt w] = Some (length s, s, []) \<and> simple_strtoul s 10 = (w, [])) \<and>
   (\<exists>s. vsprintf ''%#lx'' [VInt w] = Some (length s, s, []) \<and> simple_strtoul s base = (w, [])) \<and>
   (\<exists>s. vsprintf ''%d'' [VInt w] = Some (length s, s, []) \<and> simple_strtol s 10 = (w, []))"
proof (intro conjI)
  show "\<exists>s. vsprintf ''%lu'' [VInt w] = Some (length s, s, []) \<and> simple_strtoul s 10 = (w, [])"
    unfolding vsprintf_lu Let_def using simple_strtoul_digits [of 10 w] by simp
  show "\<exists>s. vsprintf ''%#lx'' [VInt w] = Some (length s, s, []) \<and> simple_strtoul s base = (w, [])"
    unfolding vsprintf_hex Let_def using simple_strtoul_hex_prefix [of w base] by simp
  show "\<exists>s. vsprintf ''%d'' [VInt w] = Some (length s, s, []) \<and> simple_strtol s 10 = (w, [])"
    unfolding vsprintf_d Let_def
    using simple_strtoul_digits [of 10 w] simple_strtoul_digits [of 10 "- w"] digits_not_minus [of w]
    by (cases "sint w < 0") (simp_all add: simple_strtol_def peek_def [of "CHR ''-'' # _"])
qed

end
