(* ===== verification/Shell.thy ===== *)
theory Shell
  imports LineEdit Vsprintf
begin

text \<open>
  The command interpreter of \<open>common/main.c\<close> and \<open>common/command.c\<close> (the configuration without the
  hush parser): splitting a command line, macro expansion, command lookup, \<open>run_command\<close> with
  \<open>do_run\<close> and \<open>do_bootd\<close>, the keyed autoboot delay and the command loop. Strings are lists of
  characters without the terminator. What other commands do, the environment and control-C are
  the record \<open>shell\<close> of parameters over a state \<open>'s\<close>.
\<close>

subsection \<open>Arguments\<close>

abbreviation (input) CFG_MAXARGS :: nat where "CFG_MAXARGS \<equiv> 16"

definition is_blank :: "char \<Rightarrow> bool" where
  "is_blank c \<longleftrightarrow> c = CHR '' '' \<or> c = TAB"

text \<open>\<open>parse_line\<close>: the arguments and whether it complains about too many.\<close>

fun parse_args :: "nat \<Rightarrow> string \<Rightarrow> string list \<times> bool" where
  "parse_args 0 line = ([], True)"
| "parse_args (Suc n) line =
     (let line = dropWhile is_blank line in
      if line = [] then ([], False)
      else
        let arg = takeWhile (\<lambda>c. \<not> is_blank c) line; line = dropWhile (\<lambda>c. \<not> is_blank c) line in
        if line = [] then ([arg], False)
        else apfst ((#) arg) (parse_args n (tl line)))"

definition parse_line :: "string \<Rightarrow> string list \<times> bool" where
  "parse_line line = parse_args CFG_MAXARGS line"

subsection \<open>Macros\<close>

datatype sh_exit =
    Shell_Fault        \<comment> \<open>access outside a buffer\<close>
  | Stack_Exhausted    \<comment> \<open>commands nested deeper than the given depth\<close>
  | Command_Fault      \<comment> \<open>a command that does not return normally\<close>

record macro_st =
  pm_out :: string
  pm_cnt :: nat
  pm_state :: nat
  pm_prev :: char
  pm_var :: string

definition pm_put :: "char \<Rightarrow> macro_st \<Rightarrow> macro_st" where
  "pm_put c st = st\<lparr>pm_out := pm_out st @ [c], pm_cnt := pm_cnt st - 1\<rparr>"

text \<open>The \<open>switch\<close> on the state; \<open>input\<close> is what follows \<open>c\<close>. \<open>getenv\<close> is the parameter \<open>env\<close>.\<close>

definition pm_switch :: "(string \<Rightarrow> string option) \<Rightarrow> char \<Rightarrow> string \<Rightarrow> macro_st \<Rightarrow> sh_exit + macro_st" where
  "pm_switch env c input st =
     (if pm_state st = 0 then
        Inr (if c = CHR 0x27 \<and> pm_prev st \<noteq> CHR 0x5C then st\<lparr>pm_state := 3\<rparr>
             else if c = CHR ''$'' \<and> pm_prev st \<noteq> CHR 0x5C then st\<lparr>pm_state := 1\<rparr>
             else pm_put c st)
      else if pm_state st = 1 then
        Inr (if c = CHR ''('' \<or> c = CHR ''{'' then st\<lparr>pm_state := 2, pm_var := input\<rparr>
             else
               let st = pm_put (CHR ''$'') (st\<lparr>pm_state := 0\<rparr>) in
               if pm_cnt st \<noteq> 0 then pm_put c st else st)
      else if pm_state st = 2 then
        if c = CHR '')'' \<or> c = CHR ''}'' then
          let envcnt = length (pm_var st) - length input - 1 in
          if envcnt \<ge> CFG_CBSIZE then Inl Shell_Fault
          else Inr ((case env (take envcnt (pm_var st)) of
                       None \<Rightarrow> st
                     | Some val \<Rightarrow> st\<lparr>pm_out := pm_out st @ take (pm_cnt st) val,
                                     pm_cnt := pm_cnt st - length val\<rparr>)\<lparr>pm_state := 0\<rparr>)
        else Inr st
      else
        Inr (if c = CHR 0x27 \<and> pm_prev st \<noteq> CHR 0x5C then st\<lparr>pm_state := 0\<rparr> else pm_put c st))"

function pm_loop :: "(string \<Rightarrow> string option) \<Rightarrow> string \<Rightarrow> macro_st \<Rightarrow> sh_exit + macro_st" where
  "pm_loop env [] st = Inr st"
| "pm_loop env (c # input) st =
     (if pm_cnt st = 0 then Inr st
      else if pm_state st \<noteq> 3 \<and> c = CHR 0x5C \<and> pm_prev st \<noteq> CHR 0x5C then
        (case input of
           [] \<Rightarrow> Inr st
         | c' # input' \<Rightarrow>
             rbind (pm_switch env c' input' (st\<lparr>pm_prev := c\<rparr>)) (\<lambda>st.
               pm_loop env input' (st\<lparr>pm_prev := c'\<rparr>)))
      else rbind (pm_switch env c input st) (\<lambda>st. pm_loop env input (st\<lparr>pm_prev := c\<rparr>)))"
  by pat_completeness auto
termination
  by (relation "measure (\<lambda>(env, input, st). length input)") auto

text \<open>The output and whether a terminator was written behind it.\<close>

definition process_macros :: "(string \<Rightarrow> string option) \<Rightarrow> string \<Rightarrow> sh_exit + (string \<times> bool)" where
  "process_macros env input =
     rbind (pm_loop env input \<lparr>pm_out = [], pm_cnt = CFG_CBSIZE, pm_state = 0, pm_prev = NUL, pm_var = []\<rparr>)
       (\<lambda>st. Inr (pm_out st, pm_cnt st \<noteq> 0))"

subsection \<open>The command table\<close>

datatype cmd_fn = Do_Run | Do_Bootd | Do_Other

record cmd_tbl =
  cmd_name :: string
  cmd_maxargs :: nat
  cmd_repeatable :: bool
  cmd_fn :: cmd_fn
  cmd_usage :: string

text \<open>The loop of \<open>find_cmd\<close>: \<open>Inl\<close> a full match, \<open>Inr\<close> the abbreviations found.\<close>

fun find_cmd_loop :: "string \<Rightarrow> cmd_tbl list \<Rightarrow> cmd_tbl list \<Rightarrow> cmd_tbl + cmd_tbl list" where
  "find_cmd_loop key [] found = Inr found"
| "find_cmd_loop key (t # ts) found =
     (if take (length key) (cmd_name t) = key then
        if length key = length (cmd_name t) then Inl t
        else find_cmd_loop key ts (found @ [t])
      else find_cmd_loop key ts found)"

definition find_cmd :: "cmd_tbl list \<Rightarrow> string \<Rightarrow> cmd_tbl option" where
  "find_cmd table cmd =
     (case find_cmd_loop (takeWhile (\<lambda>c. c \<noteq> CHR ''.'') cmd) table [] of
        Inl t \<Rightarrow> Some t
      | Inr found \<Rightarrow> if length found = 1 then Some (last found) else None)"

subsection \<open>Running commands\<close>

record 's shell =
  sh_getenv :: "'s \<Rightarrow> string \<Rightarrow> string option"
  sh_table :: "cmd_tbl list"
  sh_call :: "cmd_tbl \<Rightarrow> u32 \<Rightarrow> string list \<Rightarrow> 's \<Rightarrow> sh_exit + int \<times> 's"
  sh_had_ctrlc :: "'s \<Rightarrow> bool"
  sh_clear_ctrlc :: "'s \<Rightarrow> 's"

abbreviation (input) CMD_FLAG_REPEAT :: u32 where "CMD_FLAG_REPEAT \<equiv> 1"
abbreviation (input) CMD_FLAG_BOOTD :: u32 where "CMD_FLAG_BOOTD \<equiv> 2"

text \<open>
  The search for the next separator: the token and, behind a separator, the rest. \<open>prev\<close> is the
  character before (the terminator left by the last separator; for the first token whatever
  stands in memory before \<open>cmdbuf\<close>).
\<close>

fun scan_sep :: "char \<Rightarrow> bool \<Rightarrow> bool \<Rightarrow> string \<Rightarrow> string \<times> string option" where
  "scan_sep prev start inquotes [] = ([], None)"
| "scan_sep prev start inquotes (c # s) =
     (let inquotes = (if c = CHR 0x27 \<and> prev \<noteq> CHR 0x5C then \<not> inquotes else inquotes) in
      if \<not> inquotes \<and> c = CHR '';'' \<and> \<not> start \<and> prev \<noteq> CHR 0x5C then ([], Some s)
      else apfst ((#) c) (scan_sep c False inquotes s))"

record 's run_st =
  run_rc :: int
  run_repeatable :: bool
  run_flag :: u32
  run_state :: 's

type_synonym 's runner = "string option \<Rightarrow> u32 \<Rightarrow> 's \<Rightarrow> sh_exit + int \<times> 's"

fun do_run_loop :: "'s runner \<Rightarrow> 's shell \<Rightarrow> u32 \<Rightarrow> string list \<Rightarrow> 's \<Rightarrow> sh_exit + int \<times> 's" where
  "do_run_loop run sh flag [] s = Inr (0, s)"
| "do_run_loop run sh flag (v # vs) s =
     (case sh_getenv sh s v of
        None \<Rightarrow> Inr (1, s)
      | Some arg \<Rightarrow>
          rbind (run (Some arg) flag s) (\<lambda>(rc, s).
            if rc = - 1 then Inr (1, s) else do_run_loop run sh flag vs s))"

definition do_run :: "'s runner \<Rightarrow> 's shell \<Rightarrow> u32 \<Rightarrow> string list \<Rightarrow> 's \<Rightarrow> sh_exit + int \<times> 's" where
  "do_run run sh flag argv s =
     (if length argv < 2 then Inr (1, s) else do_run_loop run sh flag (tl argv) s)"

definition do_bootd :: "'s runner \<Rightarrow> 's shell \<Rightarrow> u32 \<Rightarrow> 's \<Rightarrow> sh_exit + int \<times> 's" where
  "do_bootd run sh flag s =
     rbind (run (sh_getenv sh s ''bootcmd'') flag s) (\<lambda>(rc, s). Inr (if rc < 0 then 1 else 0, s))"

definition call_cmd :: "'s runner \<Rightarrow> 's shell \<Rightarrow> cmd_tbl \<Rightarrow> u32 \<Rightarrow> string list \<Rightarrow> 's \<Rightarrow> sh_exit + int \<times> 's" where
  "call_cmd run sh t flag argv s =
     (case cmd_fn t of
        Do_Run \<Rightarrow> do_run run sh flag argv s
      | Do_Bootd \<Rightarrow> do_bootd run sh flag s
      | Do_Other \<Rightarrow> sh_call sh t flag argv s)"

text \<open>A command with its arguments; the flag says that control-C stopped the line.\<close>

definition run_argv :: "'s runner \<Rightarrow> 's shell \<Rightarrow> string list \<Rightarrow> 's run_st \<Rightarrow> sh_exit + (bool \<times> 's run_st)" where
  "run_argv run sh argv r =
     (let fail = Inr (False, r\<lparr>run_rc := - 1\<rparr>) in
      if argv = [] then fail
      else case find_cmd (sh_table sh) (hd argv) of
        None \<Rightarrow> fail
      | Some t \<Rightarrow>
          if length argv > cmd_maxargs t then fail
          else if cmd_fn t = Do_Bootd \<and> run_flag r AND CMD_FLAG_BOOTD \<noteq> 0 then fail
          else
            let flag = (if cmd_fn t = Do_Bootd then run_flag r OR CMD_FLAG_BOOTD else run_flag r) in
            rbind (call_cmd run sh t flag argv (run_state r)) (\<lambda>(rc, s).
              Inr (sh_had_ctrlc sh s,
                   r\<lparr>run_rc := (if rc \<noteq> 0 then - 1 else run_rc r),
                     run_repeatable := (run_repeatable r \<and> cmd_repeatable t),
                     run_flag := flag, run_state := s\<rparr>)))"

text \<open>
  One token of a command line. Without a terminator, \<open>parse_line\<close> would run on behind \<open>finaltoken\<close>.
\<close>

definition run_token :: "'s runner \<Rightarrow> 's shell \<Rightarrow> string \<Rightarrow> 's run_st \<Rightarrow> sh_exit + (bool \<times> 's run_st)" where
  "run_token run sh token r =
     rbind (process_macros (sh_getenv sh (run_state r)) token) (\<lambda>(finaltoken, terminated).
       if terminated then run_argv run sh (fst (parse_line finaltoken)) r else Inl Shell_Fault)"

definition run_result :: "'s run_st \<Rightarrow> int \<times> 's" where
  "run_result r = (if run_rc r \<noteq> 0 then run_rc r else if run_repeatable r then 1 else 0, run_state r)"

lemma scan_sep_rest: "scan_sep prev start inq s = (t, Some r) \<Longrightarrow> length r < length s"
proof (induction s arbitrary: prev start inq t)
  case (Cons c s)
  define q where "q = (if c = CHR 0x27 \<and> prev \<noteq> CHR 0x5C then \<not> inq else inq)"
  obtain t' r' where "scan_sep c False q s = (t', r')" by fastforce
  with Cons.prems Cons.IH [of c False q t'] show ?case
    by (auto simp: Let_def q_def [symmetric] simp del: not_Some_eq split: if_splits)
qed simp

function run_tokens :: "'s runner \<Rightarrow> 's shell \<Rightarrow> char \<Rightarrow> string \<Rightarrow> 's run_st \<Rightarrow> sh_exit + int \<times> 's" where
  "run_tokens run sh before str r =
     (if str = [] then Inr (run_result r)
      else case scan_sep before True False str of
        (token, rest) \<Rightarrow>
          rbind (run_token run sh token r) (\<lambda>(stopped, r).
            if stopped then Inr (0, run_state r)
            else case rest of None \<Rightarrow> run_tokens run sh NUL [] r | Some str \<Rightarrow> run_tokens run sh NUL str r))"
  by pat_completeness auto
termination
  by (relation "measure (\<lambda>(run, sh, before, str, r). length str)") (auto dest: scan_sep_rest [OF sym])

declare run_tokens.simps [simp del]

definition run_body :: "char \<Rightarrow> 's runner \<Rightarrow> 's shell \<Rightarrow> 's runner" where
  "run_body before run sh cmd flag s =
     (let s = sh_clear_ctrlc sh s in
      case cmd of
        None \<Rightarrow> Inr (- 1, s)
      | Some cmd \<Rightarrow>
          if cmd = [] then Inr (- 1, s)
          else if length cmd \<ge> CFG_CBSIZE then Inr (- 1, s)
          else run_tokens run sh before cmd
                 \<lparr>run_rc = 0, run_repeatable = True, run_flag = flag, run_state = s\<rparr>)"

text \<open>
  \<open>run_command\<close> with at most \<open>depth\<close> nested calls; \<open>before\<close> is the byte in front of \<open>cmdbuf\<close>.
\<close>

fun run_command :: "nat \<Rightarrow> char \<Rightarrow> 's shell \<Rightarrow> 's runner" where
  "run_command 0 before sh = (\<lambda>cmd flag s. Inl Stack_Exhausted)"
| "run_command (Suc depth) before sh = run_body before (run_command depth before sh) sh"

subsection \<open>Specifications\<close>

text \<open>The words of a line, as maximal runs of characters that are not blank.\<close>

function words :: "string \<Rightarrow> string list" where
  "words line =
     (let line = dropWhile is_blank line in
      if line = [] then []
      else takeWhile (\<lambda>c. \<not> is_blank c) line # words (dropWhile (\<lambda>c. \<not> is_blank c) line))"
  by pat_completeness auto
termination
proof (relation "measure length")
  fix line l :: string
  assume l: "l = dropWhile is_blank line" "l \<noteq> []"
  then have "\<not> is_blank (hd l)" using hd_dropWhile by metis
  then have "length (dropWhile (\<lambda>c. \<not> is_blank c) l) < length l"
    using l(2) by (cases l) (simp_all add: le_imp_less_Suc length_dropWhile_le)
  also have "\<dots> \<le> length line" by (simp add: l(1) length_dropWhile_le)
  finally show "(dropWhile (\<lambda>c. \<not> is_blank c) l, line) \<in> measure length" by simp
qed simp

declare words.simps [simp del]

text \<open>
  The parts of a line, what is typed and what it stands for: text without special characters; a variable in braces or in
  parentheses; a character behind a backslash; text in single quotes; a dollar sign that begins no variable; and two
  backslashes, which also protect the character behind them.
\<close>

datatype segment =
    Text string
  | Macro string
  | Paren_Macro string
  | Escaped char
  | Quoted string
  | Dollar char
  | Backslash char

fun render :: "segment \<Rightarrow> string" where
  "render (Text t) = t"
| "render (Macro v) = ''${'' @ v @ ''}''"
| "render (Paren_Macro v) = ''$('' @ v @ '')''"
| "render (Escaped c) = [CHR 0x5C, c]"
| "render (Quoted t) = CHR 0x27 # t @ [CHR 0x27]"
| "render (Dollar c) = [CHR ''$'', c]"
| "render (Backslash c) = [CHR 0x5C, CHR 0x5C, c]"

definition value_or_empty :: "string option \<Rightarrow> string" where
  "value_or_empty v = (case v of None \<Rightarrow> [] | Some val \<Rightarrow> val)"

fun expansion :: "(string \<Rightarrow> string option) \<Rightarrow> segment \<Rightarrow> string" where
  "expansion env (Text t) = t"
| "expansion env (Macro v) = value_or_empty (env v)"
| "expansion env (Paren_Macro v) = value_or_empty (env v)"
| "expansion env (Escaped c) = [c]"
| "expansion env (Quoted t) = t"
| "expansion env (Dollar c) = [CHR ''$'', c]"
| "expansion env (Backslash c) = [CHR 0x5C, c]"

definition plain_char :: "char \<Rightarrow> bool" where
  "plain_char c \<longleftrightarrow> c \<noteq> CHR ''$'' \<and> c \<noteq> CHR 0x27 \<and> c \<noteq> CHR 0x5C"

definition var_name :: "string \<Rightarrow> bool" where
  "var_name v \<longleftrightarrow> length v < CFG_CBSIZE \<and> CHR '')'' \<notin> set v \<and> CHR ''}'' \<notin> set v \<and> CHR 0x5C \<notin> set v"

fun segment_ok :: "segment \<Rightarrow> bool" where
  "segment_ok (Text t) \<longleftrightarrow> list_all plain_char t"
| "segment_ok (Macro v) \<longleftrightarrow> var_name v"
| "segment_ok (Paren_Macro v) \<longleftrightarrow> var_name v"
| "segment_ok (Escaped c) \<longleftrightarrow> c \<noteq> CHR 0x5C"
| "segment_ok (Quoted t) \<longleftrightarrow> CHR 0x27 \<notin> set t \<and> (t \<noteq> [] \<longrightarrow> last t \<noteq> CHR 0x5C)"
| "segment_ok (Dollar c) \<longleftrightarrow> c \<noteq> CHR ''('' \<and> c \<noteq> CHR ''{'' \<and> c \<noteq> CHR 0x5C"
| "segment_ok (Backslash c) \<longleftrightarrow> c \<noteq> CHR 0x5C"

fun join :: "char \<Rightarrow> string list \<Rightarrow> string" where
  "join sep [] = []"
| "join sep [w] = w"
| "join sep (w # ws) = w @ sep # join sep ws"

definition plain_word :: "string \<Rightarrow> bool" where
  "plain_word w \<longleftrightarrow> w \<noteq> [] \<and> (\<forall>c \<in> set w. plain_char c \<and> \<not> is_blank c \<and> c \<noteq> CHR '';'')"

text \<open>A script: commands given as their argument lists, run one after the other.\<close>

fun run_script :: "'s runner \<Rightarrow> 's shell \<Rightarrow> string list list \<Rightarrow> 's run_st \<Rightarrow> sh_exit + int \<times> 's" where
  "run_script run sh [] r = Inr (run_result r)"
| "run_script run sh (argv # script) r =
     rbind (run_argv run sh argv r) (\<lambda>(stopped, r).
       if stopped then Inr (0, run_state r) else run_script run sh script r)"

definition script_ok :: "string list list \<Rightarrow> bool" where
  "script_ok script \<longleftrightarrow> script \<noteq> [] \<and>
     (\<forall>argv \<in> set script. argv \<noteq> [] \<and> length argv \<le> CFG_MAXARGS \<and> list_all plain_word argv)"

text \<open>
  The calls a script makes: each command that is known and has not too many arguments is called with the state the one before
  left; control-C during a command ends the script. The flag says that every command was known, succeeded, may be repeated
  and was not interrupted.
\<close>

fun run_calls :: "'s shell \<Rightarrow> u32 \<Rightarrow> string list list \<Rightarrow> 's \<Rightarrow> sh_exit + (bool \<times> 's)" where
  "run_calls sh flag [] s = Inr (True, s)"
| "run_calls sh flag (argv # script) s =
     (case find_cmd (sh_table sh) (hd argv) of
        None \<Rightarrow> rbind (run_calls sh flag script s) (\<lambda>(_, s). Inr (False, s))
      | Some t \<Rightarrow>
          if length argv > cmd_maxargs t then rbind (run_calls sh flag script s) (\<lambda>(_, s). Inr (False, s))
          else rbind (sh_call sh t flag argv s) (\<lambda>(rc, s).
            if sh_had_ctrlc sh s then Inr (False, s)
            else rbind (run_calls sh flag script s) (\<lambda>(ok, s). Inr (ok \<and> rc = 0 \<and> cmd_repeatable t, s))))"

text \<open>No command of the script is \<open>run\<close> or \<open>bootd\<close>.\<close>

definition calls_only :: "'s shell \<Rightarrow> string list list \<Rightarrow> bool" where
  "calls_only sh script \<longleftrightarrow>
     (\<forall>argv \<in> set script. case find_cmd (sh_table sh) (hd argv) of None \<Rightarrow> True | Some t \<Rightarrow> cmd_fn t = Do_Other)"

subsection \<open>Lemmas\<close>

lemma words_Nil [simp]: "words [] = []"
  by (simp add: words.simps)

lemma words_blank: "is_blank c \<Longrightarrow> words (c # s) = words s"
  by (subst words.simps, subst (2) words.simps) simp

lemma parse_args_words: "fst (parse_args n line) = take n (words line)"
proof (induction n line rule: parse_args.induct)
  case (2 n line)
  define l where "l = dropWhile is_blank line"
  show ?case
  proof (cases "l = []")
    case True
    then show ?thesis by (simp add: words.simps [of line] l_def Let_def)
  next
    case False
    define r where "r = dropWhile (\<lambda>c. \<not> is_blank c) l"
    have w: "words line = takeWhile (\<lambda>c. \<not> is_blank c) l # words r"
      using False by (subst words.simps) (simp add: l_def r_def Let_def)
    show ?thesis
    proof (cases "r = []")
      case True
      then show ?thesis using False w by (simp add: l_def [symmetric] r_def [symmetric] Let_def)
    next
      case r: False
      have b: "is_blank (hd r)" using r hd_dropWhile [of "\<lambda>c. \<not> is_blank c" l] by (simp add: r_def)
      have "words (tl r) = words r"
        using r b by (cases r) (simp_all add: words_blank)
      with 2 [OF l_def] r False w show ?thesis
        by (simp add: l_def [symmetric] r_def [symmetric] Let_def)
    qed
  qed
qed simp

theorem parse_line_words: "fst (parse_line line) = take CFG_MAXARGS (words line)"
  by (simp add: parse_line_def parse_args_words)

lemma words_word:
  assumes "\<forall>c \<in> set w. \<not> is_blank c" "w \<noteq> []"
  shows "words w = [w]" "words (w @ CHR '' '' # s) = w # words s"
proof -
  have b: "is_blank (CHR '' '')" by (simp add: is_blank_def)
  have d: "dropWhile is_blank (w @ t) = w @ t" for t
    using assms by (cases w) auto
  have t: "takeWhile (\<lambda>c. \<not> is_blank c) (w @ CHR '' '' # s) = w"
    "dropWhile (\<lambda>c. \<not> is_blank c) (w @ CHR '' '' # s) = CHR '' '' # s"
    "takeWhile (\<lambda>c. \<not> is_blank c) w = w" "dropWhile (\<lambda>c. \<not> is_blank c) w = []"
    using assms b by (simp_all add: takeWhile_append2 dropWhile_append2)
  show "words w = [w]"
    using d [of "[]"] t(3,4) assms(2) by (subst words.simps) (simp add: Let_def del: dropWhile_eq_Nil_conv)
  show "words (w @ CHR '' '' # s) = w # words s"
    using d [of "CHR '' '' # s"] t(1,2) assms(2) b by (subst words.simps) (simp add: Let_def words_blank)
qed

lemma words_join: "list_all plain_word ws \<Longrightarrow> words (join (CHR '' '') ws) = ws"
  by (induction "CHR '' ''" ws rule: join.induct) (auto simp: words_word plain_word_def)

text \<open>Macro expansion.\<close>

lemma pm_loop_text:
  assumes "list_all plain_char t" "pm_state st = 0" "length t < pm_cnt st" "pm_prev st \<noteq> CHR 0x5C"
  shows "\<exists>p. p \<noteq> CHR 0x5C \<and> pm_loop env (t @ rest) st =
    pm_loop env rest (st\<lparr>pm_out := pm_out st @ t, pm_cnt := pm_cnt st - length t, pm_prev := p\<rparr>)"
  using assms
proof (induction t arbitrary: st)
  case Nil
  then show ?case by (intro exI [of _ "pm_prev st"]) simp
next
  case (Cons c t)
  let ?s = "(pm_put c st)\<lparr>pm_prev := c\<rparr>"
  have c: "c \<noteq> CHR ''$''" "c \<noteq> CHR 0x27" "c \<noteq> CHR 0x5C" using Cons.prems(1) by (simp_all add: plain_char_def)
  have 1: "pm_loop env ((c # t) @ rest) st = pm_loop env (t @ rest) ?s"
    using c Cons.prems by (simp add: pm_switch_def pm_put_def)
  have "list_all plain_char t" "pm_state ?s = 0" "length t < pm_cnt ?s" "pm_prev ?s \<noteq> CHR 0x5C"
    using Cons.prems c by (simp_all add: pm_put_def)
  from Cons.IH [OF this] obtain p where "p \<noteq> CHR 0x5C" "pm_loop env (t @ rest) ?s =
    pm_loop env rest (?s\<lparr>pm_out := pm_out ?s @ t, pm_cnt := pm_cnt ?s - length t, pm_prev := p\<rparr>)" by blast
  then show ?case unfolding 1 by (intro exI [of _ p]) (simp add: pm_put_def)
qed

lemma pm_loop_name:
  assumes "CHR '')'' \<notin> set v" "CHR ''}'' \<notin> set v" "CHR 0x5C \<notin> set v" "pm_state st = 2" "pm_cnt st \<noteq> 0"
    "pm_prev st \<noteq> CHR 0x5C"
  shows "\<exists>p. p \<noteq> CHR 0x5C \<and> pm_loop env (v @ rest) st = pm_loop env rest (st\<lparr>pm_prev := p\<rparr>)"
  using assms
proof (induction v arbitrary: st)
  case Nil
  then show ?case by (intro exI [of _ "pm_prev st"]) simp
next
  case (Cons c v)
  have "c \<noteq> CHR '')''" "c \<noteq> CHR ''}''" "c \<noteq> CHR 0x5C" using Cons.prems(1-3) by auto
  then have 1: "pm_loop env ((c # v) @ rest) st = pm_loop env (v @ rest) (st\<lparr>pm_prev := c\<rparr>)"
    using Cons.prems by (simp add: pm_switch_def)
  from Cons.IH [of "st\<lparr>pm_prev := c\<rparr>"] Cons.prems show ?case unfolding 1 by auto
qed

lemma pm_switch_simps:
  "pm_state st = 0 \<Longrightarrow> c \<noteq> CHR 0x27 \<Longrightarrow> c \<noteq> CHR ''$'' \<Longrightarrow> pm_switch env c input st = Inr (pm_put c st)"
  "pm_state st = 0 \<Longrightarrow> pm_prev st = CHR 0x5C \<Longrightarrow> pm_switch env c input st = Inr (pm_put c st)"
  "pm_state st = 0 \<Longrightarrow> pm_prev st \<noteq> CHR 0x5C \<Longrightarrow> pm_switch env (CHR ''$'') input st = Inr (st\<lparr>pm_state := 1\<rparr>)"
  "pm_state st = 0 \<Longrightarrow> pm_prev st \<noteq> CHR 0x5C \<Longrightarrow> pm_switch env (CHR 0x27) input st = Inr (st\<lparr>pm_state := 3\<rparr>)"
  "pm_state st = 1 \<Longrightarrow> c = CHR ''('' \<or> c = CHR ''{'' \<Longrightarrow> pm_switch env c input st = Inr (st\<lparr>pm_state := 2, pm_var := input\<rparr>)"
  "pm_state st = 1 \<Longrightarrow> c \<noteq> CHR ''('' \<Longrightarrow> c \<noteq> CHR ''{'' \<Longrightarrow> 1 < pm_cnt st \<Longrightarrow>
     pm_switch env c input st = Inr (pm_put c (pm_put (CHR ''$'') (st\<lparr>pm_state := 0\<rparr>)))"
  "pm_state st = 2 \<Longrightarrow> c = CHR '')'' \<or> c = CHR ''}'' \<Longrightarrow> pm_var st = v @ c # input \<Longrightarrow> length v < CFG_CBSIZE \<Longrightarrow>
     pm_switch env c input st = Inr (st\<lparr>pm_out := pm_out st @ take (pm_cnt st) (value_or_empty (env v)),
       pm_cnt := pm_cnt st - length (value_or_empty (env v)), pm_state := 0\<rparr>)"
  by (auto simp: pm_switch_def pm_put_def value_or_empty_def Let_def split: option.split)

lemma pm_loop_step:
  "pm_cnt st \<noteq> 0 \<Longrightarrow> c \<noteq> CHR 0x5C \<Longrightarrow> pm_switch env c input st = Inr st' \<Longrightarrow>
   pm_loop env (c # input) st = pm_loop env input (st'\<lparr>pm_prev := c\<rparr>)"
  "pm_cnt st \<noteq> 0 \<Longrightarrow> pm_state st \<noteq> 3 \<Longrightarrow> pm_prev st \<noteq> CHR 0x5C \<Longrightarrow>
   pm_switch env c input (st\<lparr>pm_prev := CHR 0x5C\<rparr>) = Inr st' \<Longrightarrow>
   pm_loop env (CHR 0x5C # c # input) st = pm_loop env input (st'\<lparr>pm_prev := c\<rparr>)"
  by simp_all

lemma pm_loop_macro:
  assumes "var_name v" "op = CHR ''{'' \<and> cl = CHR ''}'' \<or> op = CHR ''('' \<and> cl = CHR '')''"
    and "pm_state st = 0" "pm_cnt st \<noteq> 0" "pm_prev st \<noteq> CHR 0x5C"
  shows "\<exists>w. pm_loop env (CHR ''$'' # op # v @ cl # rest) st =
    pm_loop env rest (st\<lparr>pm_out := pm_out st @ take (pm_cnt st) (value_or_empty (env v)),
      pm_cnt := pm_cnt st - length (value_or_empty (env v)), pm_prev := cl, pm_var := w\<rparr>)"
proof -
  let ?w = "v @ cl # rest"
  let ?s = "st\<lparr>pm_state := 2, pm_var := ?w, pm_prev := op\<rparr>"
  have op: "op \<noteq> CHR 0x5C" "cl \<noteq> CHR 0x5C" using assms(2) by auto
  have v: "CHR '')'' \<notin> set v" "CHR ''}'' \<notin> set v" "CHR 0x5C \<notin> set v" "length v < CFG_CBSIZE"
    using assms(1) by (simp_all add: var_name_def)
  have "pm_loop env (CHR ''$'' # op # ?w) st = pm_loop env (op # ?w) (st\<lparr>pm_state := 1, pm_prev := CHR ''$''\<rparr>)"
    using pm_loop_step(1) [OF assms(4) _ pm_switch_simps(3) [OF assms(3,5)], of env "op # ?w"] by simp
  also have "\<dots> = pm_loop env ?w ?s"
    using assms(2,4) op by (subst pm_loop_step(1) [OF _ _ pm_switch_simps(5)]) auto
  also obtain p where "p \<noteq> CHR 0x5C" "pm_loop env ?w ?s = pm_loop env (cl # rest) (?s\<lparr>pm_prev := p\<rparr>)"
    using pm_loop_name [OF v(1-3), of ?s env "cl # rest"] assms(4) op by auto
  note this(2)
  also have "pm_loop env (cl # rest) (?s\<lparr>pm_prev := p\<rparr>) = pm_loop env rest
      (?s\<lparr>pm_out := pm_out st @ take (pm_cnt st) (value_or_empty (env v)), pm_cnt := pm_cnt st - length (value_or_empty (env v)),
        pm_state := 0, pm_prev := cl\<rparr>)"
    using assms(2,4) op v(4) by (subst pm_loop_step(1) [OF _ _ pm_switch_simps(7) [where v = v]]) auto
  also have "?s\<lparr>pm_out := pm_out st @ take (pm_cnt st) (value_or_empty (env v)), pm_cnt := pm_cnt st - length (value_or_empty (env v)),
        pm_state := 0, pm_prev := cl\<rparr> = st\<lparr>pm_out := pm_out st @ take (pm_cnt st) (value_or_empty (env v)),
      pm_cnt := pm_cnt st - length (value_or_empty (env v)), pm_prev := cl, pm_var := ?w\<rparr>"
    using assms(3) by (intro macro_st.equality) simp_all
  finally show ?thesis by blast
qed

lemma pm_loop_quoted:
  assumes "CHR 0x27 \<notin> set t" "t \<noteq> [] \<longrightarrow> last t \<noteq> CHR 0x5C" "t = [] \<longrightarrow> pm_prev st \<noteq> CHR 0x5C"
    and "pm_state st = 3" "length t < pm_cnt st"
  shows "pm_loop env (t @ CHR 0x27 # rest) st =
    pm_loop env rest (st\<lparr>pm_out := pm_out st @ t, pm_cnt := pm_cnt st - length t, pm_state := 0, pm_prev := CHR 0x27\<rparr>)"
  using assms
proof (induction t arbitrary: st)
  case Nil
  then show ?case by (simp add: pm_switch_def)
next
  case (Cons c t)
  let ?s = "(pm_put c st)\<lparr>pm_prev := c\<rparr>"
  have 1: "pm_loop env ((c # t) @ CHR 0x27 # rest) st = pm_loop env (t @ CHR 0x27 # rest) ?s"
    using Cons.prems by (auto simp: pm_switch_def pm_put_def)
  have "CHR 0x27 \<notin> set t" "t \<noteq> [] \<longrightarrow> last t \<noteq> CHR 0x5C" "t = [] \<longrightarrow> pm_prev ?s \<noteq> CHR 0x5C" "pm_state ?s = 3" "length t < pm_cnt ?s"
    using Cons.prems by (auto simp: pm_put_def split: if_splits)
  from Cons.IH [OF this] show ?case unfolding 1 by (simp add: pm_put_def)
qed

text \<open>One part of the line.\<close>

lemma pm_loop_segment:
  fixes env seg
  defines "e \<equiv> expansion env seg"
  assumes "segment_ok seg" "length e < pm_cnt st" "pm_state st = 0" "pm_prev st \<noteq> CHR 0x5C"
  shows "\<exists>p w. p \<noteq> CHR 0x5C \<and> pm_loop env (render seg @ rest) st =
    pm_loop env rest (st\<lparr>pm_out := pm_out st @ e, pm_cnt := pm_cnt st - length e, pm_prev := p, pm_var := w\<rparr>)"
proof (cases seg)
  case (Text t)
  then obtain p where "p \<noteq> CHR 0x5C" "pm_loop env (t @ rest) st =
      pm_loop env rest (st\<lparr>pm_out := pm_out st @ t, pm_cnt := pm_cnt st - length t, pm_prev := p\<rparr>)"
    using pm_loop_text [of t st env rest] assms by auto
  then show ?thesis by (intro exI [of _ p] exI [of _ "pm_var st"]) (simp add: e_def Text)
next
  case (Macro v)
  then have t: "take (pm_cnt st) e = e" "e = value_or_empty (env v)" using assms by simp_all
  from pm_loop_macro [of v "CHR ''{''" "CHR ''}''" st env rest] obtain w where
    "pm_loop env (''${'' @ v @ CHR ''}'' # rest) st =
      pm_loop env rest (st\<lparr>pm_out := pm_out st @ e, pm_cnt := pm_cnt st - length e, pm_prev := CHR ''}'', pm_var := w\<rparr>)"
    using assms Macro unfolding t(2) [symmetric] t(1) by auto
  then show ?thesis by (intro exI [of _ "CHR ''}''"] exI [of _ w]) (simp add: Macro)
next
  case (Paren_Macro v)
  then have t: "take (pm_cnt st) e = e" "e = value_or_empty (env v)" using assms by simp_all
  from pm_loop_macro [of v "CHR ''(''" "CHR '')''" st env rest] obtain w where
    "pm_loop env (''$('' @ v @ CHR '')'' # rest) st =
      pm_loop env rest (st\<lparr>pm_out := pm_out st @ e, pm_cnt := pm_cnt st - length e, pm_prev := CHR '')'', pm_var := w\<rparr>)"
    using assms Paren_Macro unfolding t(2) [symmetric] t(1) by auto
  then show ?thesis by (intro exI [of _ "CHR '')''"] exI [of _ w]) (simp add: Paren_Macro)
next
  case (Quoted t)
  have "pm_loop env (CHR 0x27 # t @ CHR 0x27 # rest) st = pm_loop env (t @ CHR 0x27 # rest) (st\<lparr>pm_state := 3, pm_prev := CHR 0x27\<rparr>)"
    using assms by (simp add: pm_switch_def)
  also have "\<dots> = pm_loop env rest (st\<lparr>pm_out := pm_out st @ t, pm_cnt := pm_cnt st - length t, pm_prev := CHR 0x27\<rparr>)"
    using assms Quoted
    by (subst pm_loop_quoted) (simp_all add: e_def, intro arg_cong [where f = "pm_loop env rest"] macro_st.equality, simp_all)
  finally show ?thesis by (intro exI [of _ "CHR 0x27"] exI [of _ "pm_var st"]) (simp add: e_def Quoted)
next
  case (Escaped c)
  then have c: "c \<noteq> CHR 0x5C" using assms by simp
  have "pm_loop env (CHR 0x5C # c # rest) st = pm_loop env rest ((pm_put c (st\<lparr>pm_prev := CHR 0x5C\<rparr>))\<lparr>pm_prev := c\<rparr>)"
    using assms by (intro pm_loop_step(2) pm_switch_simps(2)) simp_all
  with c show ?thesis
    by (intro exI [of _ c] exI [of _ "pm_var st"]) (simp add: e_def Escaped pm_put_def)
next
  case (Dollar c)
  then have c: "c \<noteq> CHR ''(''" "c \<noteq> CHR ''{''" "c \<noteq> CHR 0x5C" using assms by simp_all
  have n: "1 < pm_cnt st" "pm_cnt st \<noteq> 0" using assms Dollar by simp_all
  have "pm_loop env (CHR ''$'' # c # rest) st = pm_loop env (c # rest) (st\<lparr>pm_state := 1, pm_prev := CHR ''$''\<rparr>)"
    using pm_loop_step(1) [OF n(2) _ pm_switch_simps(3) [OF assms(4,5)], of env "c # rest"] by simp
  also have "\<dots> = pm_loop env rest ((pm_put c (pm_put (CHR ''$'') (st\<lparr>pm_prev := CHR ''$'', pm_state := 0\<rparr>)))\<lparr>pm_prev := c\<rparr>)"
    using n c by (subst pm_loop_step(1) [OF _ c(3) pm_switch_simps(6) [OF _ c(1,2)]]) simp_all
  also have "(pm_put c (pm_put (CHR ''$'') (st\<lparr>pm_prev := CHR ''$'', pm_state := 0\<rparr>)))\<lparr>pm_prev := c\<rparr> =
      st\<lparr>pm_out := pm_out st @ e, pm_cnt := pm_cnt st - length e, pm_prev := c, pm_var := pm_var st\<rparr>"
    using assms(4) by (intro macro_st.equality) (simp_all add: pm_put_def e_def Dollar)
  finally show ?thesis using c(3)
    by (intro exI [of _ c] exI [of _ "pm_var st"]) (simp add: Dollar del: pm_loop.simps)
next
  case (Backslash c)
  then have c: "c \<noteq> CHR 0x5C" using assms by simp
  have n: "1 < pm_cnt st" using assms Backslash by simp
  let ?s = "(pm_put (CHR 0x5C) (st\<lparr>pm_prev := CHR 0x5C\<rparr>))\<lparr>pm_prev := CHR 0x5C\<rparr>"
  have "pm_loop env (CHR 0x5C # CHR 0x5C # c # rest) st = pm_loop env (c # rest) ?s"
    using assms n by (intro pm_loop_step(2) pm_switch_simps(2)) simp_all
  also have "\<dots> = pm_loop env rest ((pm_put c ?s)\<lparr>pm_prev := c\<rparr>)"
    using assms(4) n c by (intro pm_loop_step(1) pm_switch_simps(2)) (simp_all add: pm_put_def)
  finally show ?thesis using c
    by (intro exI [of _ c] exI [of _ "pm_var st"]) (simp add: e_def Backslash pm_put_def)
qed

lemma pm_loop_segments:
  assumes "list_all segment_ok segs" "length (concat (map (expansion env) segs)) < pm_cnt st"
    "pm_state st = 0" "pm_prev st \<noteq> CHR 0x5C"
  shows "\<exists>st'. pm_loop env (concat (map render segs)) st = Inr st' \<and>
    pm_out st' = pm_out st @ concat (map (expansion env) segs) \<and>
    pm_cnt st' = pm_cnt st - length (concat (map (expansion env) segs))"
  using assms
proof (induction segs arbitrary: st)
  case (Cons seg segs)
  define e where "e = expansion env seg"
  obtain p w where p: "p \<noteq> CHR 0x5C" and l: "pm_loop env (render seg @ concat (map render segs)) st =
    pm_loop env (concat (map render segs))
      (st\<lparr>pm_out := pm_out st @ e, pm_cnt := pm_cnt st - length e, pm_prev := p, pm_var := w\<rparr>)"
    using pm_loop_segment [of seg env st "concat (map render segs)"] Cons.prems by (auto simp: e_def)
  from Cons.IH [of "st\<lparr>pm_out := pm_out st @ e, pm_cnt := pm_cnt st - length e, pm_prev := p, pm_var := w\<rparr>"]
  show ?case using Cons.prems p l by (auto simp: e_def)
qed auto

lemma process_macros_segments:
  assumes "list_all segment_ok segs" "length (concat (map (expansion env) segs)) < CFG_CBSIZE"
  shows "process_macros env (concat (map render segs)) = Inr (concat (map (expansion env) segs), True)"
  using pm_loop_segments [of segs env "\<lparr>pm_out = [], pm_cnt = CFG_CBSIZE, pm_state = 0, pm_prev = NUL, pm_var = []\<rparr>"] assms
  by (auto simp: process_macros_def)



text \<open>
  A value of at least 512 characters fills \<open>finaltoken\<close> completely: its first 512 characters are
  written and no terminator, so that the following \<open>parse_line\<close> reads on behind the array.
\<close>
theorem process_macros_overflow:
  assumes "segment_ok (Macro v)" "env v = Some val" "CFG_CBSIZE \<le> length val"
  shows "process_macros env (render (Macro v)) = Inr (take CFG_CBSIZE val, False)"
  using pm_loop_macro [of v "CHR ''{''" "CHR ''}''" "\<lparr>pm_out = [], pm_cnt = CFG_CBSIZE, pm_state = 0, pm_prev = NUL, pm_var = []\<rparr>" env "[]"] assms
  by (auto simp: process_macros_def value_or_empty_def)

theorem process_macros_overflow_witness:
  "process_macros (\<lambda>_. Some (replicate 600 CHR ''x'')) ''${v}'' = Inr (replicate 512 CHR ''x'', False)"
  using process_macros_overflow [of "''v''" "\<lambda>_. Some (replicate 600 CHR ''x'')" "replicate 600 CHR ''x''"] by (simp add: var_name_def)

text \<open>Splitting at separators.\<close>

definition sep_free :: "char \<Rightarrow> bool" where
  "sep_free c \<longleftrightarrow> c \<noteq> CHR '';'' \<and> c \<noteq> CHR 0x27 \<and> c \<noteq> CHR 0x5C"

lemma scan_sep_char:
  "c \<noteq> CHR '';'' \<Longrightarrow> c \<noteq> CHR 0x27 \<Longrightarrow>
   scan_sep prev start False (c # s) = apfst ((#) c) (scan_sep c False False s)"
  by (simp add: Let_def)

lemma scan_sep_plain:
  "list_all sep_free t \<Longrightarrow> scan_sep prev start False t = (t, None)"
  by (induction t arbitrary: prev start) (simp_all add: sep_free_def scan_sep_char del: scan_sep.simps(2))

lemma scan_sep_separator:
  "list_all sep_free t \<Longrightarrow> t \<noteq> [] \<or> \<not> start \<and> prev \<noteq> CHR 0x5C \<Longrightarrow>
   scan_sep prev start False (t @ CHR '';'' # r) = (t, Some r)"
proof (induction t arbitrary: prev start)
  case (Cons c t)
  then show ?case by (simp add: sep_free_def scan_sep_char del: scan_sep.simps(2))
qed simp

lemma join_chars: "list_all plain_word ws \<Longrightarrow> list_all plain_char (join (CHR '' '') ws) \<and> list_all sep_free (join (CHR '' '') ws)"
proof -
  have w: "plain_word w \<Longrightarrow> list_all plain_char w \<and> list_all sep_free w" for w
    by (auto simp: plain_word_def plain_char_def sep_free_def list_all_iff)
  have b: "plain_char (CHR '' '')" "sep_free (CHR '' '')" by (simp_all add: plain_char_def sep_free_def)
  show "list_all plain_word ws \<Longrightarrow> list_all plain_char (join (CHR '' '') ws) \<and> list_all sep_free (join (CHR '' '') ws)"
    by (induction "CHR '' ''" ws rule: join.induct) (simp_all add: w b)
qed

lemma join_not_Nil: "list_all plain_word ws \<Longrightarrow> ws \<noteq> [] \<Longrightarrow> join c ws \<noteq> []"
  by (cases "(c, ws)" rule: join.cases) (auto simp: plain_word_def)

lemma run_token_words:
  assumes "list_all plain_char t" "length t < CFG_CBSIZE" "length (words t) \<le> CFG_MAXARGS"
  shows "run_token run sh t r = run_argv run sh (words t) r"
proof -
  have "process_macros env t = Inr (t, True)" for env
    using process_macros_segments [of "[Text t]" env] assms(1,2) by simp
  then show ?thesis using assms(3) by (simp add: run_token_def parse_line_def parse_args_words)
qed

lemma run_token_argv:
  assumes "list_all plain_word argv" "length argv \<le> CFG_MAXARGS" "length (join (CHR '' '') argv) < CFG_CBSIZE"
  shows "run_token run sh (join (CHR '' '') argv) r = run_argv run sh argv r"
  using run_token_words [of "join (CHR '' '') argv" run sh r] join_chars [OF assms(1)] assms by (simp add: words_join)

lemma run_tokens_script:
  assumes "script_ok script" "length (join (CHR '';'') (map (join (CHR '' '')) script)) < CFG_CBSIZE"
  shows "run_tokens run sh before (join (CHR '';'') (map (join (CHR '' '')) script)) r = run_script run sh script r"
  using assms
proof (induction script arbitrary: before r)
  case (Cons argv script)
  let ?t = "join (CHR '' '') argv"
  let ?rest = "join (CHR '';'') (map (join (CHR '' '')) script)"
  have a: "list_all plain_word argv" "argv \<noteq> []" "length argv \<le> CFG_MAXARGS"
    using Cons.prems(1) by (simp_all add: script_ok_def)
  have t: "?t \<noteq> []" using join_not_Nil [OF a(1,2)] .
  have s: "list_all sep_free ?t" using join_chars [OF a(1)] by simp
  show ?case
  proof (cases "script = []")
    case True
    then have "length ?t < CFG_CBSIZE" using Cons.prems(2) by simp
    note k = run_token_argv [OF a(1,3) this]
    have e: "run_tokens run sh NUL [] r' = Inr (run_result r')" for r'
      by (simp add: run_tokens.simps [of run sh NUL "[]"])
    show ?thesis
      using True t
      by (simp add: run_tokens.simps [of run sh before ?t] scan_sep_plain [OF s] k e cong: if_cong)
  next
    case False
    have j: "join (CHR '';'') (map (join (CHR '' '')) (argv # script)) = ?t @ CHR '';'' # ?rest"
      using False by (cases script) simp_all
    have l: "length ?t < CFG_CBSIZE" "length ?rest < CFG_CBSIZE" using Cons.prems(2) unfolding j by simp_all
    have ok: "script_ok script" using Cons.prems(1) False by (simp add: script_ok_def)
    have ih: "run_tokens run sh NUL ?rest r' = run_script run sh script r'" for r'
      using Cons.IH [OF ok l(2)] .
    show ?thesis
      unfolding j run_tokens.simps [of run sh before "?t @ CHR '';'' # ?rest"]
      using t by (simp add: scan_sep_separator [OF s] run_token_argv [OF a(1,3) l(1)] ih cong: if_cong)
  qed
qed (simp add: script_ok_def)

lemma run_command_text:
  fixes script
  defines "line \<equiv> join (CHR '';'') (map (join (CHR '' '')) script)"
  assumes "script_ok script" "length line < CFG_CBSIZE"
  shows "run_command (Suc depth) before sh (Some line) flag s =
    run_script (run_command depth before sh) sh script
      \<lparr>run_rc = 0, run_repeatable = True, run_flag = flag, run_state = sh_clear_ctrlc sh s\<rparr>"
proof -
  have "line \<noteq> []"
  proof -
    obtain argv rest where "script = argv # rest" using assms(2) by (cases script) (auto simp: script_ok_def)
    moreover have "join (CHR '' '') argv \<noteq> []" using assms(2) calculation by (intro join_not_Nil) (auto simp: script_ok_def)
    ultimately show ?thesis by (cases rest) (simp_all add: line_def)
  qed
  then show ?thesis
    using assms(3) run_tokens_script [OF assms(2), folded line_def]
    by (simp add: run_body_def Let_def)
qed

lemma run_script_calls:
  assumes "script_ok script \<or> script = []" "calls_only sh script" "run_rc r \<le> 0" "run_calls sh (run_flag r) script (run_state r) = Inr (ok, s)"
  shows "\<exists>rc. run_script run sh script r = Inr (rc, s) \<and> (0 < rc \<longleftrightarrow> ok \<and> run_rc r = 0 \<and> run_repeatable r)"
  using assms
proof (induction script arbitrary: r ok s)
  case Nil
  then show ?case by (auto simp: run_result_def)
next
  case (Cons argv script)
  have ok: "argv \<noteq> []" "script_ok script \<or> script = []" "calls_only sh script"
    using Cons.prems(1,2) by (auto simp: script_ok_def calls_only_def)
  have fail: "\<exists>rc. run_script run sh script (r\<lparr>run_rc := - 1\<rparr>) = Inr (rc, s) \<and> \<not> 0 < rc"
    if "run_calls sh (run_flag r) script (run_state r) = Inr (ok', s)" for ok'
    using Cons.IH [OF ok(2,3), of "r\<lparr>run_rc := - 1\<rparr>" ok' s] that by simp
  show ?case
  proof (cases "find_cmd (sh_table sh) (hd argv)")
    case None
    then show ?thesis using Cons.prems(4) fail ok(1) by (auto simp: run_argv_def res_simps)
  next
    case (Some t)
    then have o: "cmd_fn t = Do_Other" using Cons.prems(2) by (simp add: calls_only_def)
    show ?thesis
    proof (cases "length argv > cmd_maxargs t")
      case True
      then show ?thesis using Cons.prems(4) fail ok(1) Some by (auto simp: run_argv_def res_simps)
    next
      case False
      obtain rc s1 where c: "sh_call sh t (run_flag r) argv (run_state r) = Inr (rc, s1)"
        using Cons.prems(4) Some False by (auto simp: res_simps)
      define r1 where "r1 = r\<lparr>run_rc := (if rc \<noteq> 0 then - 1 else run_rc r),
        run_repeatable := (run_repeatable r \<and> cmd_repeatable t), run_state := s1\<rparr>"
      have v: "run_argv run sh argv r = Inr (sh_had_ctrlc sh s1, r1)"
        using ok(1) Some False o c by (simp add: run_argv_def call_cmd_def Let_def r1_def)
      show ?thesis
      proof (cases "sh_had_ctrlc sh s1")
        case True
        then show ?thesis using Cons.prems(4) Some False c v by (simp add: r1_def)
      next
        case nc: False
        then obtain ok1 where "run_calls sh (run_flag r1) script (run_state r1) = Inr (ok1, s)" "ok = (ok1 \<and> rc = 0 \<and> cmd_repeatable t)"
          using Cons.prems(4) Some False c by (auto simp: res_simps r1_def)
        moreover have "run_rc r1 \<le> 0" using Cons.prems(3) by (simp add: r1_def)
        ultimately obtain rc' where "run_script run sh script r1 = Inr (rc', s)" "0 < rc' \<longleftrightarrow> ok1 \<and> run_rc r1 = 0 \<and> run_repeatable r1"
          using Cons.IH [OF ok(2,3)] by blast
        then show ?thesis using v nc \<open>ok = _\<close> Cons.prems(3) by (auto simp: r1_def)
      qed
    qed
  qed
qed

text \<open>
  C11: \<open>run_command\<close> implements scripts: the text of a list of commands, words separated by blanks
  and commands by semicolons, runs these commands with these arguments in order, each once, and
  returns their joint result.
\<close>
theorem run_command_script:
  fixes script
  defines "line \<equiv> join (CHR '';'') (map (join (CHR '' '')) script)"
  assumes "script_ok script" "length line < CFG_CBSIZE"
  shows "run_command (Suc depth) before sh (Some line) flag s =
    run_script (run_command depth before sh) sh script
      \<lparr>run_rc = 0, run_repeatable = True, run_flag = flag, run_state = sh_clear_ctrlc sh s\<rparr>"
  using assms(2,3) unfolding line_def by (rule run_command_text)

theorem run_command_script_witness:
  defines "sh \<equiv> \<lparr>sh_getenv = \<lambda>_ v. Some ''md'', sh_table = [], sh_call = \<lambda>t flag argv n. Inr (0, n),
      sh_had_ctrlc = \<lambda>_. False, sh_clear_ctrlc = id\<rparr>"
  shows "run_command 1 NUL sh (Some ''run boot;md 80 4'') 0 0 =
    run_script (run_command 0 NUL sh) sh [[''run'', ''boot''], [''md'', ''80'', ''4'']]
      \<lparr>run_rc = 0, run_repeatable = True, run_flag = 0, run_state = sh_clear_ctrlc sh (0 :: nat)\<rparr>"
proof -
  have "script_ok [[''run'', ''boot''], [''md'', ''80'', ''4'']]"
    by (simp add: script_ok_def plain_word_def plain_char_def is_blank_def key_defs)
  from run_command_script [OF this, of 0 NUL sh 0 0] show ?thesis by (simp add: sh_def)
qed

text \<open>
  A variable whose value runs the variable itself nests \<open>run_command\<close> without bound: every
  stack depth is exhausted.
\<close>
theorem run_recursion:
  assumes "sh_getenv sh = (\<lambda>s. env)" "env v = Some (''run '' @ v)" "plain_word v" "length v < 500"
    "find_cmd (sh_table sh) ''run'' = Some t" "cmd_fn t = Do_Run" "2 \<le> cmd_maxargs t"
  shows "run_command depth before sh (Some (''run '' @ v)) flag s = Inl Stack_Exhausted"
proof (induction depth arbitrary: flag s)
  case (Suc depth)
  let ?run = "run_command depth before sh"
  have ok: "script_ok [[''run'', v]]" using assms(3) by (simp add: script_ok_def plain_word_def plain_char_def is_blank_def key_defs)
  have l: "length (join (CHR '';'') (map (join (CHR '' '')) [[''run'', v]])) < CFG_CBSIZE" using assms(4) by simp
  have "run_argv ?run sh [''run'', v] r = Inl Stack_Exhausted" for r
    using assms Suc by (simp add: run_argv_def call_cmd_def do_run_def Let_def)
  then show ?case
    using assms(4) by (simp add: run_body_def Let_def run_tokens_script [OF ok l, simplified])
qed simp

theorem run_recursion_witness:
  defines "sh \<equiv> \<lparr>sh_getenv = \<lambda>_ v. if v = ''a'' then Some ''run a'' else None, sh_table = [\<lparr>cmd_name = ''run'', cmd_maxargs = 16,
      cmd_repeatable = True, cmd_fn = Do_Run, cmd_usage = []\<rparr>], sh_call = \<lambda>t flag argv n. Inr (0, n),
      sh_had_ctrlc = \<lambda>_. False, sh_clear_ctrlc = id\<rparr>"
  shows "run_command 1000 NUL sh (Some ''run a'') 0 (0 :: nat) = Inl Stack_Exhausted"
  using run_recursion [of sh "\<lambda>v. if v = ''a'' then Some ''run a'' else None" "''a''" "hd (sh_table sh)" 1000 NUL 0 0]
  by (simp add: sh_def plain_word_def plain_char_def is_blank_def key_defs find_cmd_def del: run_command.simps)

text \<open>
  The guard against \<open>bootd\<close> recursion outlives the command: in \<open>boot;boot\<close> the second command is
  refused although nothing is nested, and the line fails whatever the first returned.
\<close>
theorem second_bootd_refused:
  assumes "find_cmd (sh_table sh) ''boot'' = Some t" "cmd_fn t = Do_Bootd" "1 \<le> cmd_maxargs t"
    and "run_command depth before sh (sh_getenv sh (sh_clear_ctrlc sh s) ''bootcmd'') CMD_FLAG_BOOTD (sh_clear_ctrlc sh s) = Inr (rc, s')"
    and "\<not> sh_had_ctrlc sh s'"
  shows "run_command (Suc depth) before sh (Some ''boot;boot'') 0 s = Inr (- 1, s')"
proof -
  have ok: "script_ok [[''boot''], [''boot'']]" by (simp add: script_ok_def plain_word_def plain_char_def is_blank_def key_defs)
  have l: "length (join (CHR '';'') (map (join (CHR '' '')) [[''boot''], [''boot'']])) < CFG_CBSIZE" by simp
  let ?run = "run_command depth before sh"
  let ?r = "\<lparr>run_rc = 0, run_repeatable = True, run_flag = 0, run_state = sh_clear_ctrlc sh s\<rparr>"
  have "run_tokens ?run sh before ''boot;boot'' ?r = run_script ?run sh [[''boot''], [''boot'']] ?r"
    using run_tokens_script [OF ok l, of ?run sh before ?r] by (simp del: run_script.simps)
  then show ?thesis
    using assms by (simp add: run_body_def Let_def run_argv_def call_cmd_def do_bootd_def run_result_def)
qed

theorem second_bootd_refused_witness:
  fixes t :: cmd_tbl
  defines "t \<equiv> \<lparr>cmd_name = ''boot'', cmd_maxargs = 1, cmd_repeatable = True, cmd_fn = Do_Bootd, cmd_usage = []\<rparr>"
  defines "sh \<equiv> \<lparr>sh_getenv = \<lambda>_ v. None, sh_table = [t], sh_call = \<lambda>t flag argv n. Inr (0, n),
      sh_had_ctrlc = \<lambda>_. False, sh_clear_ctrlc = id\<rparr>"
  shows "run_command 2 NUL sh (Some ''boot;boot'') 0 (7 :: nat) = Inr (- 1, 7)"
proof -
  have "find_cmd (sh_table sh) ''boot'' = Some t" by (simp add: sh_def t_def find_cmd_def)
  from second_bootd_refused [OF this, of 1 NUL 7 "- 1" 7] show ?thesis
    by (simp add: sh_def t_def run_body_def numeral_2_eq_2)
qed

text \<open>
  \<open>find_cmd\<close> looks up the part of the word before a dot: the first command of exactly that name,
  or else the only command with that prefix; an ambiguous or unknown prefix finds nothing.
\<close>
theorem find_cmd_unique:
  "find_cmd table cmd =
    (let key = takeWhile (\<lambda>c. c \<noteq> CHR ''.'') cmd in
     case find (\<lambda>t. cmd_name t = key) table of
       Some t \<Rightarrow> Some t
     | None \<Rightarrow> (case filter (\<lambda>t. take (length key) (cmd_name t) = key) table of [t] \<Rightarrow> Some t | _ \<Rightarrow> None))"
proof -
  have "find_cmd_loop key ts found =
    (case find (\<lambda>t. cmd_name t = key) ts of Some t \<Rightarrow> Inl t
     | None \<Rightarrow> Inr (found @ filter (\<lambda>t. take (length key) (cmd_name t) = key) ts))" for key ts found
  proof (induction ts arbitrary: found)
    case (Cons t ts)
    then show ?case by (cases "cmd_name t = key") (auto split: option.split)
  qed simp
  then show ?thesis by (auto simp: find_cmd_def Let_def length_Suc_conv split: option.splits list.splits)
qed

end
