(* ===== verification/Boot.thy ===== *)
theory Boot
  imports Shell "HOL-Library.Sublist" "HOL-Library.Multiset"
begin

text \<open>
  Start-up and the command loop: \<open>abortboot\<close> in its keyed version, the firmware recovery and
  autoboot part of \<open>main_loop\<close> and its endless loop (\<open>common/main.c\<close>), and the commands \<open>echo\<close>,
  \<open>help\<close> of \<open>common/command.c\<close>.
\<close>

subsection \<open>The autoboot delay\<close>

abbreviation (input) MAX_DELAY_STOP_STR :: nat where "MAX_DELAY_STOP_STR \<equiv> 32"

text \<open>\<open>delaykey[i].len\<close>, 0 for a missing string.\<close>

definition key_len :: "string option \<Rightarrow> nat" where
  "key_len k = (case k of None \<Rightarrow> 0 | Some k \<Rightarrow> min (length k) MAX_DELAY_STOP_STR)"

definition presskey_max :: "string option list \<Rightarrow> nat" where
  "presskey_max keys = fold (\<lambda>k m. max m (key_len k)) keys 0"

definition key_matches :: "string \<Rightarrow> string option \<Rightarrow> bool" where
  "key_matches presskey k \<longleftrightarrow>
     key_len k > 0 \<and> length presskey \<ge> key_len k \<and>
     drop (length presskey - key_len k) presskey = take (key_len k) (the k)"

text \<open>
  The loop: each element of the list is a round begun before the delay is over, with the character
  that waits at the console, if any. \<open>presskey\<close> holds the valid part of the array. With no key at
  all, \<open>presskey_max - 1\<close> wraps around.
\<close>

fun abort_loop :: "string option list \<Rightarrow> string \<Rightarrow> char option list \<Rightarrow> sh_exit + bool" where
  "abort_loop keys presskey [] = Inr False"
| "abort_loop keys presskey (ev # evs) =
     (let abort = list_ex (key_matches presskey) keys; mx = presskey_max keys in
      case ev of
        None \<Rightarrow> if abort then Inr True else abort_loop keys presskey evs
      | Some c \<Rightarrow>
          if length presskey < mx
          then if abort then Inr True else abort_loop keys (presskey @ [c]) evs
          else if mx = 0 then Inl Shell_Fault
          else if abort then Inr True else abort_loop keys (tl presskey @ [c]) evs)"

text \<open>The keys: four variables, with the compiled-in \<open>CONFIG_AUTOBOOT_STOP_STR2\<close> for the last.\<close>

definition delaykeys :: "(string \<Rightarrow> string option) \<Rightarrow> string option list" where
  "delaykeys env =
     [env ''bootdelaykey'', env ''bootdelaykey2'', env ''bootstopkey'',
      (case env ''bootstopkey2'' of None \<Rightarrow> Some ''tpl'' | Some s \<Rightarrow> Some s)]"

definition abortboot :: "(string \<Rightarrow> string option) \<Rightarrow> char option list \<Rightarrow> sh_exit + bool" where
  "abortboot env evs = abort_loop (delaykeys env) [] evs"

subsection \<open>Recovery and autoboot\<close>

text \<open>
  The board as the recovery sees it: memory as read by \<open>memcpy\<close>, the flag \<open>fw_recovery\<close> and the
  reset button. \<open>dev\<close> is the build variable \<open>FW_RECOVERY_DEV\<close>; \<open>FLASH_SIZE\<close> is 4.
\<close>

record 's board =
  bd_mem :: "'s \<Rightarrow> u32 \<Rightarrow> byte"
  bd_set_recovery :: "'s \<Rightarrow> 's"
  bd_button :: bool
  bd_dev :: string

definition mem_word :: "'s board \<Rightarrow> 's \<Rightarrow> u32 \<Rightarrow> byte list" where
  "mem_word b s a = map (\<lambda>i. bd_mem b s (a + i)) [0, 1, 2, 3]"

definition flash_command :: "u32 \<Rightarrow> string option" where
  "flash_command fsize =
     (if fsize = 0x3c0000
      then Some ''erase 0x9f020000 +3c0000; cp.b 0x80800000 0x9f020000 3c0000''
      else if fsize = 0x3e0200
      then Some ''erase 0x9f020000 +3c0000; cp.b 0x80820200 0x9f020000 3c0000''
      else None)"

text \<open>The result says whether \<open>do_reset\<close> ends the program.\<close>

definition firmware_recovery :: "'s runner \<Rightarrow> 's shell \<Rightarrow> 's board \<Rightarrow> 's \<Rightarrow> sh_exit + bool \<times> 's" where
  "firmware_recovery run sh b s =
     (if \<not> bd_button b then Inr (False, s)
      else if 32 \<le> length (bd_dev b) + length ''_tp_recovery.bin'' then Inl Shell_Fault
      else
        rbind (run (Some ''setenv serverip 192.168.0.66'') 0 (bd_set_recovery b s)) (\<lambda>(_, s).
        rbind (run (Some ''setenv ipaddr 192.168.0.86'') 0 s) (\<lambda>(_, s).
        rbind (run (Some (''tftp 0x80800000 '' @ bd_dev b @ ''_tp_recovery.bin'')) 0 s) (\<lambda>(_, s).
          if mem_word b s 0x9F01FD00 = mem_word b s 0x80800040 \<and>
             mem_word b s 0x9F01FD04 = mem_word b s 0x80800044
          then
            let file_size = (case sh_getenv sh s ''filesize'' of
                               None \<Rightarrow> 0 | Some v \<Rightarrow> fst (simple_strtoul v 16)) in
            (case flash_command file_size of
               None \<Rightarrow> Inr (True, s)
             | Some cmd \<Rightarrow> rbind (run (Some cmd) 0 s) (\<lambda>(_, s). Inr (True, s)))
          else Inr (False, s)))))"

text \<open>From the boot delay to the call of \<open>bootcmd\<close>; \<open>setenv\<close> is a parameter.\<close>

definition autoboot ::
  "'s runner \<Rightarrow> 's shell \<Rightarrow> 's board \<Rightarrow> (string \<Rightarrow> string \<Rightarrow> 's \<Rightarrow> 's) \<Rightarrow> char option list \<Rightarrow> 's \<Rightarrow> sh_exit + bool \<times> 's" where
  "autoboot run sh b setenv evs s =
     (let bootdelay = (case sh_getenv sh s ''bootdelay'' of None \<Rightarrow> 1 | Some v \<Rightarrow> sint (fst (simple_strtol v 10)));
          s = (if sh_getenv sh s ''bootcmd'' = None
               then setenv ''bootcmd'' ''tftpboot 0x8022c090 uImage; bootm 0x8022c090'' s else s) in
      rbind (firmware_recovery run sh b s) (\<lambda>(reset, s).
        if reset then Inr (True, s)
        else case sh_getenv sh s ''bootcmd'' of
          None \<Rightarrow> Inr (False, s)
        | Some cmd \<Rightarrow>
            if bootdelay < 0 then Inr (False, s)
            else rbind (abortboot (sh_getenv sh s) evs) (\<lambda>abort.
              if abort then Inr (False, s)
              else rbind (run (Some cmd) 0 s) (\<lambda>(_, s). Inr (False, s)))))"

subsection \<open>The command loop\<close>

datatype main_exit = In_Line rl_exit | In_Command sh_exit

record 's main_st =
  lastcommand :: string
  main_rc :: int
  main_buf :: string
  main_inp :: string
  main_state :: 's

definition lift_exit :: "('e \<Rightarrow> main_exit) \<Rightarrow> 'e + 'a \<Rightarrow> main_exit + 'a" where
  "lift_exit f r = (case r of Inl e \<Rightarrow> Inl (f e) | Inr a \<Rightarrow> Inr a)"

text \<open>One round of the endless loop.\<close>

definition main_step :: "'s runner \<Rightarrow> string \<Rightarrow> 's main_st \<Rightarrow> main_exit + 's main_st" where
  "main_step run prompt m =
     rbind (lift_exit In_Line (readline prompt (main_buf m) (main_inp m))) (\<lambda>(len, rl, inp).
       let m = m\<lparr>main_buf := console_buffer rl, main_inp := inp\<rparr>;
           flag = (if len = 0 then CMD_FLAG_REPEAT else 0);
           m = (if len > 0 then m\<lparr>lastcommand := takeWhile (\<lambda>c. c \<noteq> NUL) (console_buffer rl)\<rparr> else m) in
       rbind (if len = - 1 then Inr m
              else rbind (lift_exit In_Command (run (Some (lastcommand m)) flag (main_state m))) (\<lambda>(rc, s).
                Inr (m\<lparr>main_rc := rc, main_state := s\<rparr>)))
         (\<lambda>m. Inr (if main_rc m \<le> 0 then m\<lparr>lastcommand := []\<rparr> else m)))"

fun main_loop :: "nat \<Rightarrow> 's runner \<Rightarrow> string \<Rightarrow> 's main_st \<Rightarrow> main_exit + 's main_st" where
  "main_loop 0 run prompt m = Inr m"
| "main_loop (Suc n) run prompt m = rbind (main_step run prompt m) (main_loop n run prompt)"

subsection \<open>\<open>echo\<close> and \<open>help\<close>\<close>

text \<open>The characters of one argument and whether the newline is still wanted.\<close>

fun echo_arg :: "string \<Rightarrow> bool \<Rightarrow> string \<times> bool" where
  "echo_arg [] putnl = ([], putnl)"
| "echo_arg (c # p) putnl =
     (if c = CHR 0x5C \<and> peek p = CHR ''c'' then echo_arg (tl p) False
      else apfst ((#) c) (echo_arg p putnl))"

fun echo_args :: "bool \<Rightarrow> string list \<Rightarrow> bool \<Rightarrow> string \<times> bool" where
  "echo_args first [] putnl = ([], putnl)"
| "echo_args first (a # as) putnl =
     (let (o1, putnl) = echo_arg a putnl; (o2, putnl) = echo_args False as putnl
      in ((if first then [] else '' '') @ o1 @ o2, putnl))"

definition do_echo :: "string list \<Rightarrow> string" where
  "do_echo argv = (let (out, putnl) = echo_args True (tl argv) True in if putnl then out @ [LF] else out)"

text \<open>\<open>strcmp\<close> on unsigned characters: the comparison that orders the command list.\<close>

fun str_greater :: "string \<Rightarrow> string \<Rightarrow> bool" where
  "str_greater [] t = False"
| "str_greater (c # s) [] = True"
| "str_greater (c # s) (d # t) =
     (if c = d then str_greater s t else (of_char d :: nat) < of_char c)"

text \<open>The inner loop over \<open>j < i\<close> on the array \<open>a\<close>, counting swaps.\<close>

fun bubble_pass :: "nat \<Rightarrow> nat \<Rightarrow> cmd_tbl list \<Rightarrow> nat \<Rightarrow> cmd_tbl list \<times> nat" where
  "bubble_pass 0 j a swaps = (a, swaps)"
| "bubble_pass (Suc k) j a swaps =
     (if str_greater (cmd_name (a ! j)) (cmd_name (a ! Suc j))
      then bubble_pass k (Suc j) (a[j := a ! Suc j, Suc j := a ! j]) (Suc swaps)
      else bubble_pass k (Suc j) a swaps)"

text \<open>The outer loop: \<open>i\<close> counts down from \<open>cmd_items - 1\<close>.\<close>

fun bubble_sort :: "nat \<Rightarrow> cmd_tbl list \<Rightarrow> cmd_tbl list" where
  "bubble_sort 0 a = a"
| "bubble_sort (Suc i) a =
     (let (a, swaps) = bubble_pass (Suc i) 0 a 0 in if swaps = 0 then a else bubble_sort i a)"

definition sort_commands :: "cmd_tbl list \<Rightarrow> cmd_tbl list" where
  "sort_commands cmds = bubble_sort (length cmds - 1) cmds"

text \<open>\<open>do_help\<close>: the output and return code; \<open>abort\<close> is the number of lines before control-C.\<close>

fun help_list :: "nat option \<Rightarrow> cmd_tbl list \<Rightarrow> int \<times> string" where
  "help_list abort [] = (0, [])"
| "help_list abort (t # ts) =
     (if abort = Some 0 then (1, [])
      else apsnd ((@) (cmd_usage t)) (help_list (map_option (\<lambda>n. n - 1) abort) ts))"

fun help_names :: "cmd_tbl list \<Rightarrow> (cmd_tbl \<Rightarrow> string option) \<Rightarrow> string list \<Rightarrow> int \<Rightarrow> int \<times> string" where
  "help_names table help [] rcode = (rcode, [])"
| "help_names table help (a # as) rcode =
     (case find_cmd table a of
        None \<Rightarrow> apsnd ((@) (''Unknown command '' @ [CHR 0x27] @ a @ [CHR 0x27] @ '' - try '' @ [CHR 0x27] @
                  ''help'' @ [CHR 0x27] @ '' without arguments for list of all known commands'' @ [LF, LF]))
                (help_names table help as 1)
      | Some t \<Rightarrow>
          (case help t of
             None \<Rightarrow> apsnd ((@) (cmd_name t @ '' '' @ ''- No help available.'' @ [LF, LF])) (help_names table help as 1)
           | Some h \<Rightarrow> apsnd ((@) (cmd_name t @ '' '' @ h @ [LF])) (help_names table help as rcode)))"

definition do_help :: "cmd_tbl list \<Rightarrow> (cmd_tbl \<Rightarrow> string option) \<Rightarrow> nat option \<Rightarrow> string list \<Rightarrow> int \<times> string" where
  "do_help table help abort argv =
     (if length argv = 1 then help_list abort (sort_commands table) else help_names table help (tl argv) 0)"

subsection \<open>Specifications\<close>

definition typed :: "char option list \<Rightarrow> string" where
  "typed evs = map the (filter (\<lambda>e. e \<noteq> None) evs)"

text \<open>A key is complete when it ends what was typed before some round.\<close>

definition key_ends :: "string \<Rightarrow> string option \<Rightarrow> bool" where
  "key_ends t k \<longleftrightarrow> (\<exists>s. k = Some s \<and> s \<noteq> [] \<and> suffix (take MAX_DELAY_STOP_STR s) t)"

definition key_typed :: "string option \<Rightarrow> char option list \<Rightarrow> bool" where
  "key_typed k evs \<longleftrightarrow> (\<exists>n < length evs. key_ends (typed (take n evs)) k)"

definition cmd_le :: "cmd_tbl \<Rightarrow> cmd_tbl \<Rightarrow> bool" where
  "cmd_le a b \<longleftrightarrow> \<not> str_greater (cmd_name a) (cmd_name b)"

subsection \<open>Lemmas\<close>

text \<open>\<open>presskey\<close> holds the last \<open>presskey_max\<close> of the characters typed so far, enough for every key.\<close>

definition last_n :: "nat \<Rightarrow> 'a list \<Rightarrow> 'a list" where
  "last_n n xs = drop (length xs - n) xs"

lemma last_n_snoc: "length xs < n \<Longrightarrow> last_n n xs @ [x] = last_n n (xs @ [x])"
  by (simp add: last_n_def)

lemma tl_last_n_snoc:
  assumes "0 < n" "n \<le> length xs"
  shows "tl (last_n n xs) @ [x] = last_n n (xs @ [x])"
proof -
  have "tl (last_n n xs) = drop (Suc (length xs - n)) xs" by (simp add: last_n_def drop_Suc tl_drop)
  moreover have "Suc (length xs) - n = Suc (length xs - n)" "Suc (length xs - n) \<le> length xs"
    using assms by simp_all
  ultimately show ?thesis by (simp add: last_n_def)
qed

lemma suffix_drop_iff: "suffix s t \<longleftrightarrow> length s \<le> length t \<and> drop (length t - length s) t = s"
  by (auto simp: suffix_def) (metis append_take_drop_id)

lemma suffix_last_n: "length s \<le> n \<Longrightarrow> suffix s (last_n n t) \<longleftrightarrow> suffix s t"
  by (cases "length s \<le> length t") (auto simp: suffix_drop_iff last_n_def min_def)

lemma take_min_length: "take (min (length s) n) s = take n s"
  by (simp add: min_def)

lemma presskey_max_ge: "k \<in> set keys \<Longrightarrow> key_len k \<le> presskey_max keys"
proof -
  have g: "m \<le> fold (\<lambda>k m. max m (key_len k)) ks m \<and> (\<forall>k \<in> set ks. key_len k \<le> fold (\<lambda>k m. max m (key_len k)) ks m)"
    for ks m
  proof (induction ks arbitrary: m)
    case (Cons a ks)
    from Cons [of "max m (key_len a)"] show ?case by auto
  qed simp
  then show "k \<in> set keys \<Longrightarrow> ?thesis" by (simp add: presskey_max_def)
qed

lemma key_matches_iff:
  assumes "key_len k \<le> mx"
  shows "key_matches (last_n mx t) k \<longleftrightarrow> key_ends t k"
proof (cases k)
  case (Some s)
  have "key_matches (last_n mx t) k \<longleftrightarrow> s \<noteq> [] \<and> suffix (take 32 s) (last_n mx t)"
    by (auto simp: key_matches_def key_len_def Some suffix_drop_iff take_min_length)
  also have "\<dots> \<longleftrightarrow> s \<noteq> [] \<and> suffix (take 32 s) t"
    using assms by (subst suffix_last_n) (auto simp: key_len_def Some min.commute)
  finally show ?thesis by (simp add: key_ends_def Some)
qed (simp add: key_matches_def key_len_def key_ends_def)

lemma typed_simps [simp]: "typed [] = []" "typed (None # evs) = typed evs" "typed (Some c # evs) = c # typed evs"
  by (simp_all add: typed_def)

lemma abort_loop_spec:
  assumes mx: "0 < presskey_max keys"
  shows "abort_loop keys (last_n (presskey_max keys) t) evs =
    Inr (\<exists>k \<in> set keys. \<exists>n < length evs. key_ends (t @ typed (take n evs)) k)"
proof (induction evs arbitrary: t)
  case (Cons ev evs)
  have m: "list_ex (key_matches (last_n (presskey_max keys) t)) keys \<longleftrightarrow> (\<exists>k \<in> set keys. key_ends t k)"
    by (auto simp: list_ex_iff key_matches_iff presskey_max_ge)
  have ex: "(\<exists>n < length (ev # evs). P n) \<longleftrightarrow> P 0 \<or> (\<exists>n < length evs. P (Suc n))" for P
    by (auto simp: less_Suc_eq_0_disj)
  show ?case
  proof (cases ev)
    case None
    have "(\<exists>k \<in> set keys. \<exists>n < length (ev # evs). key_ends (t @ typed (take n (ev # evs))) k) \<longleftrightarrow>
      (\<exists>k \<in> set keys. key_ends t k) \<or> (\<exists>k \<in> set keys. \<exists>n < length evs. key_ends (t @ typed (take n evs)) k)"
      unfolding ex by (auto simp: None)
    then show ?thesis using Cons [of t] by (simp add: m None Let_def)
  next
    case (Some c)
    have x: "(\<exists>k \<in> set keys. \<exists>n < length (ev # evs). key_ends (t @ typed (take n (ev # evs))) k) \<longleftrightarrow>
      (\<exists>k \<in> set keys. key_ends t k) \<or>
      (\<exists>k \<in> set keys. \<exists>n < length evs. key_ends ((t @ [c]) @ typed (take n evs)) k)"
      unfolding ex by (auto simp: Some)
    have l: "length (last_n (presskey_max keys) t) = min (presskey_max keys) (length t)"
      by (simp add: last_n_def)
    show ?thesis
    proof (cases "length t < presskey_max keys")
      case True
      then show ?thesis unfolding x using Cons [of "t @ [c]"] by (simp add: m Some l last_n_snoc Let_def)
    next
      case False
      then have e: "tl (last_n (presskey_max keys) t) @ [c] = last_n (presskey_max keys) (t @ [c])"
        using mx by (intro tl_last_n_snoc) simp_all
      show ?thesis unfolding x using Cons [of "t @ [c]"] False mx by (simp add: m Some l e Let_def)
    qed
  qed
qed simp

text \<open>
  C27: The boot delay is aborted exactly if, at the beginning of some round of the waiting loop, the
  characters typed so far end with one of the configured keys (its first 32 characters): the
  shifting buffer of key presses forgets nothing that matters.
\<close>
theorem abortboot_iff_key_typed:
  assumes "\<exists>k \<in> set (delaykeys env). 0 < key_len k"
  shows "abortboot env evs = Inr (\<exists>k \<in> set (delaykeys env). key_typed k evs)"
proof -
  have "0 < presskey_max (delaykeys env)" using assms presskey_max_ge order_less_le_trans by blast
  from abort_loop_spec [OF this, of "[]"] show ?thesis
    by (simp add: abortboot_def key_typed_def last_n_def)
qed

theorem abortboot_iff_key_typed_witness:
  "abortboot (\<lambda>_. None) [Some CHR ''x'', Some CHR ''t'', None, Some CHR ''p'', Some CHR ''l'', None] = Inr True"
proof -
  have k: "\<exists>k \<in> set (delaykeys (\<lambda>_. None)). 0 < key_len k" by (simp add: delaykeys_def key_len_def)
  have "key_typed (Some ''tpl'') [Some CHR ''x'', Some CHR ''t'', None, Some CHR ''p'', Some CHR ''l'', None]"
    unfolding key_typed_def by (rule exI [of _ 5]) (simp add: key_ends_def suffix_def)
  then show ?thesis
    unfolding abortboot_iff_key_typed [OF k] by (simp add: delaykeys_def)
qed

text \<open>Lines read by the command loop.\<close>

lemma main_step_line:
  assumes "length (main_buf m) = CFG_CBSIZE" "keys_ok keys" "prompt_ok prompt" "main_inp m = keys @ CR # rest"
  defines "line \<equiv> fold edit keys []"
  defines "cmd \<equiv> if line = [] then lastcommand m else line"
  assumes "run (Some cmd) (if line = [] then CMD_FLAG_REPEAT else 0) (main_state m) = Inr (rc, s)"
  shows "\<exists>b. length b = CFG_CBSIZE \<and> main_step run prompt m =
    Inr \<lparr>lastcommand = (if rc \<le> 0 then [] else cmd), main_rc = rc, main_buf = b, main_inp = rest, main_state = s\<rparr>"
proof -
  obtain rl out where r: "readline prompt (main_buf m) (main_inp m) = Inr (int (length line), rl, rest)"
    and b: "length (console_buffer rl) = CFG_CBSIZE" "take (length line + 1) (console_buffer rl) = line @ [NUL]"
    using readline_line [of "main_buf m" keys prompt rest] assms by (auto simp: keys_ok_def prompt_ok_def)
  have t: "takeWhile (\<lambda>c. c \<noteq> NUL) (console_buffer rl) = line"
    using takeWhile_line [OF b(2)] edits_no_NUL [of "[]" keys] by (simp add: line_def)
  show ?thesis
    using assms(7) b(1)
    by (intro exI [of _ "console_buffer rl"]) (auto simp: main_step_def r lift_exit_def t cmd_def Let_def)
qed

text \<open>
  C19: What an empty line does after a line of commands in plain words (none of them \<open>run\<close> or \<open>bootd\<close>). If every command of the line
  was known, had not too many arguments, returned 0, is marked repeatable in the table and was not interrupted by control-C,
  then the commands are called once more, with the same arguments and the flag \<open>CMD_FLAG_REPEAT\<close>, and they stay
  remembered if all of this holds of the repetition too. Otherwise the line was forgotten: no command is called, the code is -1
  and the state is left alone but for the control-C flag.
\<close>
theorem empty_line_repeats:
  fixes script
  defines "line \<equiv> join (CHR '';'') (map (join (CHR '' '')) script)"
  assumes "length (main_buf m) = CFG_CBSIZE" "keys_ok keys" "prompt_ok prompt" "main_inp m = keys @ CR # CR # rest"
    and "fold edit keys [] = line" "script_ok script" "length line < CFG_CBSIZE" "calls_only sh script"
    and "run_calls sh 0 script (sh_clear_ctrlc sh (main_state m)) = Inr (ok, s)"
    and "ok \<longrightarrow> run_calls sh CMD_FLAG_REPEAT script (sh_clear_ctrlc sh s) = Inr (ok', s')"
  shows "\<exists>m'. main_loop 2 (run_command (Suc depth) before sh) prompt m = Inr m' \<and> main_inp m' = rest \<and>
    (if ok then main_state m' = s' \<and> lastcommand m' = (if ok' then line else [])
     else main_rc m' = - 1 \<and> main_state m' = sh_clear_ctrlc sh s \<and> lastcommand m' = [])"
proof -
  let ?run = "run_command (Suc depth) before sh"
  have c: "\<exists>rc. ?run (Some line) flag st = Inr (rc, st') \<and> (0 < rc \<longleftrightarrow> k)"
    if "run_calls sh flag script (sh_clear_ctrlc sh st) = Inr (k, st')" for flag st k st'
    using run_command_text [OF assms(7,8) [unfolded line_def], of depth before sh flag st, folded line_def] assms(7)
      run_script_calls [OF _ assms(9), of "\<lparr>run_rc = 0, run_repeatable = True, run_flag = flag, run_state = sh_clear_ctrlc sh st\<rparr>" k st'] that
    by (auto simp del: run_command.simps)
  have ne: "line \<noteq> []" using assms(7) join_not_Nil
    by (cases "(CHR '';'', map (join (CHR '' '')) script)" rule: join.cases) (auto simp: line_def script_ok_def)
  obtain rc where rc: "?run (Some line) 0 (main_state m) = Inr (rc, s)" "0 < rc \<longleftrightarrow> ok" using c [OF assms(10)] by blast
  let ?m = "\<lambda>b. \<lparr>lastcommand = (if rc \<le> 0 then [] else line), main_rc = rc, main_buf = b, main_inp = CR # rest, main_state = s\<rparr>"
  obtain b where b: "length b = CFG_CBSIZE" and 1: "main_step ?run prompt m = Inr (?m b)"
    using main_step_line [of m keys prompt "CR # rest" ?run rc s] assms(2-6) rc(1) ne by auto
  obtain q where q: "?run (Some (lastcommand (?m b))) CMD_FLAG_REPEAT s = Inr q"
    "if ok then snd q = s' \<and> (0 < fst q \<longleftrightarrow> ok') else q = (- 1, sh_clear_ctrlc sh s)"
  proof (cases ok)
    case True
    then obtain rc' where "?run (Some line) CMD_FLAG_REPEAT s = Inr (rc', s')" "0 < rc' \<longleftrightarrow> ok'" using c assms(11) by blast
    then show ?thesis using that [of "(rc', s')"] True rc(2) by (simp del: run_command.simps)
  next
    case False
    then show ?thesis using that [of "(- 1, sh_clear_ctrlc sh s)"] rc(2) by (simp add: run_body_def)
  qed
  then obtain b' where "main_step ?run prompt (?m b) =
    Inr \<lparr>lastcommand = (if fst q \<le> 0 then [] else lastcommand (?m b)), main_rc = fst q, main_buf = b',
      main_inp = rest, main_state = snd q\<rparr>"
    using main_step_line [of "?m b" "[]" prompt rest ?run "fst q" "snd q"] assms(4) b by (auto simp: keys_ok_def)
  then show ?thesis using q(2) rc(2)
    by (cases ok) (auto simp add: numeral_2_eq_2 1 simp del: run_command.simps)
qed

text \<open>A repeatable command, and one that is not.\<close>

theorem empty_line_repeats_witness:
  defines "sh \<equiv> \<lparr>sh_getenv = \<lambda>_ _. None, sh_table = [\<lparr>cmd_name = ''md'', cmd_maxargs = 4, cmd_repeatable = True,
      cmd_fn = Do_Other, cmd_usage = []\<rparr>, \<lparr>cmd_name = ''cp'', cmd_maxargs = 4, cmd_repeatable = False,
      cmd_fn = Do_Other, cmd_usage = []\<rparr>], sh_call = \<lambda>t flag argv n. Inr (0, n + 1 :: nat),
      sh_had_ctrlc = \<lambda>_. False, sh_clear_ctrlc = id\<rparr>"
  shows "(\<exists>m'. main_loop 2 (run_command 1 NUL sh) ''> ''
      \<lparr>lastcommand = [], main_rc = 0, main_buf = replicate 512 NUL, main_inp = ''md'' @ [CR, CR], main_state = 0\<rparr> = Inr m' \<and>
      main_state m' = 2 \<and> lastcommand m' = ''md'') \<and>
    (\<exists>m'. main_loop 2 (run_command 1 NUL sh) ''> ''
      \<lparr>lastcommand = [], main_rc = 0, main_buf = replicate 512 NUL, main_inp = ''cp'' @ [CR, CR], main_state = 0\<rparr> = Inr m' \<and>
      main_state m' = 1 \<and> lastcommand m' = [])"
proof -
  have e: "edit CHR ''d'' (edit CHR ''m'' []) = ''md''" "edit CHR ''p'' (edit CHR ''c'' []) = ''cp''" by (simp_all add: edit_def key_defs)
  have k: "script_ok [[w]]" if "w \<in> {''md'', ''cp''}" for w
    using that by (auto simp: script_ok_def plain_word_def plain_char_def is_blank_def key_defs)
  have f: "find_cmd (sh_table sh) ''md'' = Some \<lparr>cmd_name = ''md'', cmd_maxargs = 4, cmd_repeatable = True, cmd_fn = Do_Other, cmd_usage = []\<rparr>"
    "find_cmd (sh_table sh) ''cp'' = Some \<lparr>cmd_name = ''cp'', cmd_maxargs = 4, cmd_repeatable = False, cmd_fn = Do_Other, cmd_usage = []\<rparr>"
    by (simp_all add: sh_def find_cmd_def)
  have r: "run_calls sh flag [[''md'']] n = Inr (True, Suc n)" "run_calls sh flag [[''cp'']] n = Inr (False, Suc n)" for flag n
    using f by (simp_all, simp_all add: sh_def)
  have c: "calls_only sh [[''md'']]" "calls_only sh [[''cp'']]" using f by (simp_all add: calls_only_def)
  have s: "sh_clear_ctrlc sh n = n" for n by (simp add: sh_def)
  note q = keys_ok_def prompt_ok_def line_end_def key_defs
  show ?thesis
  proof
    show "\<exists>m'. main_loop 2 (run_command 1 NUL sh) ''> ''
      \<lparr>lastcommand = [], main_rc = 0, main_buf = replicate 512 NUL, main_inp = ''md'' @ [CR, CR], main_state = 0\<rparr> = Inr m' \<and>
      main_state m' = 2 \<and> lastcommand m' = ''md''"
      using empty_line_repeats [of "\<lparr>lastcommand = [], main_rc = 0, main_buf = replicate 512 NUL,
        main_inp = ''md'' @ [CR, CR], main_state = 0\<rparr>" "''md''" "''> ''" "[]" "[[''md'']]" sh True 1 True 2 0 NUL] k [of "''md''"]
      by (auto simp: e r s c q simp del: run_command.simps run_calls.simps)
    show "\<exists>m'. main_loop 2 (run_command 1 NUL sh) ''> ''
      \<lparr>lastcommand = [], main_rc = 0, main_buf = replicate 512 NUL, main_inp = ''cp'' @ [CR, CR], main_state = 0\<rparr> = Inr m' \<and>
      main_state m' = 1 \<and> lastcommand m' = []"
      using empty_line_repeats [of "\<lparr>lastcommand = [], main_rc = 0, main_buf = replicate 512 NUL,
        main_inp = ''cp'' @ [CR, CR], main_state = 0\<rparr>" "''cp''" "''> ''" "[]" "[[''cp'']]" sh False 1 True 2 0 NUL] k [of "''cp''"]
      by (auto simp: e r s c q simp del: run_command.simps run_calls.simps)
  qed
qed

lemma str_greater_asym: "str_greater s t \<Longrightarrow> \<not> str_greater t s"
  by (induction s t rule: str_greater.induct) (auto split: if_splits)

lemma str_le_trans: "\<not> str_greater s t \<Longrightarrow> \<not> str_greater t u \<Longrightarrow> \<not> str_greater s u"
proof (induction s t arbitrary: u rule: str_greater.induct)
  case (3 c s d t)
  then show ?case by (cases u) (auto split: if_splits)
qed simp_all

lemma cmd_le_trans: "cmd_le a b \<Longrightarrow> cmd_le b c \<Longrightarrow> cmd_le a c"
  unfolding cmd_le_def by (rule str_le_trans)

lemma cmd_le_total: "\<not> cmd_le a b \<Longrightarrow> cmd_le b a"
  using str_greater_asym by (auto simp: cmd_le_def)

lemma cmd_le_refl [simp]: "cmd_le a a"
  using str_greater_asym by (auto simp: cmd_le_def)

text \<open>One pass carries a greatest element of the front to its end.\<close>

lemma bubble_pass_spec:
  assumes "bubble_pass k j a swaps = (a', swaps')" "j + k < length a" "\<forall>p < j. cmd_le (a ! p) (a ! j)"
  shows "length a' = length a \<and> mset (take (Suc (j + k)) a') = mset (take (Suc (j + k)) a) \<and>
    drop (Suc (j + k)) a' = drop (Suc (j + k)) a \<and> (\<forall>p \<le> j + k. cmd_le (a' ! p) (a' ! (j + k))) \<and>
    swaps \<le> swaps' \<and> (swaps' = swaps \<longrightarrow> a' = a \<and> (\<forall>p. j \<le> p \<and> p < j + k \<longrightarrow> cmd_le (a ! p) (a ! Suc p)))"
  using assms
proof (induction k j a swaps arbitrary: a' swaps' rule: bubble_pass.induct)
  case (1 j a swaps)
  then show ?case by (auto simp: le_less)
next
  case (2 k j a swaps)
  show ?case
  proof (cases "str_greater (cmd_name (a ! j)) (cmd_name (a ! Suc j))")
    case True
    define b where "b = a[j := a ! Suc j, Suc j := a ! j]"
    have l: "length b = length a" by (simp add: b_def)
    have le: "\<forall>p < Suc j. cmd_le (b ! p) (b ! Suc j)"
      using 2(4,5) str_greater_asym [OF True] by (auto simp: b_def nth_list_update cmd_le_def less_Suc_eq)
    have "bubble_pass k (Suc j) b (Suc swaps) = (a', swaps')" using 2(3) True by (simp add: b_def)
    from 2(1) [OF True this [unfolded b_def]] 2(4) le
    have ih: "length a' = length b \<and> mset (take (Suc (Suc j + k)) a') = mset (take (Suc (Suc j + k)) b) \<and>
      drop (Suc (Suc j + k)) a' = drop (Suc (Suc j + k)) b \<and> (\<forall>p \<le> Suc j + k. cmd_le (a' ! p) (a' ! (Suc j + k))) \<and>
      Suc swaps \<le> swaps'"
      by (simp add: b_def)
    have e: "take (Suc (Suc j + k)) b = (take (Suc (Suc j + k)) a)[j := take (Suc (Suc j + k)) a ! Suc j,
        Suc j := take (Suc (Suc j + k)) a ! j]"
      by (simp add: b_def take_update_swap)
    have "mset (take (Suc (Suc j + k)) b) = mset (take (Suc (Suc j + k)) a)"
      unfolding e using 2(4) by (intro mset_swap) simp_all
    moreover have "drop (Suc (Suc j + k)) b = drop (Suc (Suc j + k)) a" by (simp add: b_def)
    ultimately show ?thesis using ih l by simp
  next
    case False
    then have "\<forall>p < Suc j. cmd_le (a ! p) (a ! Suc j)"
      using 2(5) cmd_le_trans [of _ "a ! j" "a ! Suc j"] by (auto simp: less_Suc_eq cmd_le_def)
    with 2(2) [OF False] 2(3,4) False show ?thesis
      by (auto simp: cmd_le_def le_eq_less_or_eq [of j])
  qed
qed

text \<open>Everything behind index \<open>i\<close> is in its place.\<close>

definition tail_sorted :: "nat \<Rightarrow> cmd_tbl list \<Rightarrow> bool" where
  "tail_sorted i a \<longleftrightarrow> (\<forall>p q. p < q \<and> i < q \<and> q < length a \<longrightarrow> cmd_le (a ! p) (a ! q))"

lemma ascending_le:
  "p \<le> q \<Longrightarrow> (\<And>k. p \<le> k \<Longrightarrow> k < q \<Longrightarrow> cmd_le (a ! k) (a ! Suc k)) \<Longrightarrow> cmd_le (a ! p) (a ! q)"
proof (induction q)
  case (Suc q)
  show ?case
  proof (cases "p = Suc q")
    case False
    then have "cmd_le (a ! p) (a ! q)" using Suc by simp
    moreover have "cmd_le (a ! q) (a ! Suc q)" using Suc.prems False by simp
    ultimately show ?thesis by (rule cmd_le_trans)
  qed simp
qed simp

lemma bubble_sort_spec:
  "tail_sorted i a \<Longrightarrow> i < length a \<Longrightarrow>
   mset (bubble_sort i a) = mset a \<and> sorted_wrt cmd_le (bubble_sort i a)"
proof (induction i a rule: bubble_sort.induct)
  case (1 a)
  then show ?case by (auto simp: tail_sorted_def sorted_wrt_iff_nth_less)
next
  case (2 i a)
  obtain b sw where b: "bubble_pass (Suc i) 0 a 0 = (b, sw)" by fastforce
  from bubble_pass_spec [OF b] 2(3)
  have s: "length b = length a" "mset (take (Suc (Suc i)) b) = mset (take (Suc (Suc i)) a)"
    "drop (Suc (Suc i)) b = drop (Suc (Suc i)) a" "\<forall>p \<le> Suc i. cmd_le (b ! p) (b ! Suc i)"
    "sw = 0 \<longrightarrow> b = a \<and> (\<forall>p < Suc i. cmd_le (a ! p) (a ! Suc p))" by simp_all
  have m: "mset b = mset a"
    using arg_cong2 [of _ _ _ _ "(+)", OF s(2) arg_cong [of _ _ mset, OF s(3)]]
    by (simp only: mset_append [symmetric] append_take_drop_id)
  show ?case
  proof (cases "sw = 0")
    case True
    then have ba: "b = a" and asc: "\<And>k. k < Suc i \<Longrightarrow> cmd_le (a ! k) (a ! Suc k)" using s(5) by blast+
    have "cmd_le (a ! p) (a ! q)" if "p < q" "q < length a" for p q
    proof (cases "q \<le> Suc i")
      case True
      show ?thesis by (rule ascending_le [OF less_imp_le [OF that(1)] asc]) (use True in simp)
    next
      case False
      then show ?thesis using that 2(2) by (simp add: tail_sorted_def)
    qed
    then show ?thesis using True b ba by (simp add: sorted_wrt_iff_nth_less)
  next
    case False
    have "tail_sorted i b"
      unfolding tail_sorted_def
    proof (intro allI impI, elim conjE)
      fix p q assume q: "p < q" "i < q" "q < length b"
      show "cmd_le (b ! p) (b ! q)"
      proof (cases "q = Suc i")
        case True
        then show ?thesis using s(4) q by simp
      next
        case qi: False
        have bq: "b ! r = a ! r" if "Suc i < r" "r < length b" for r
        proof -
          from that obtain k where k: "r = Suc (Suc i) + k" using less_iff_Suc_add [of "Suc i" r] by auto
          have "drop (Suc (Suc i)) b ! k = drop (Suc (Suc i)) a ! k" by (simp only: s(3))
          then show ?thesis using that s(1) k by simp
        qed
        show ?thesis
        proof (cases "p \<le> Suc i")
          case True
          have "b ! p \<in> set (take (Suc (Suc i)) b)" using True q by (auto simp: in_set_conv_nth intro!: exI [of _ p])
          then have "b ! p \<in> set (take (Suc (Suc i)) a)" using s(2) by (metis mset_eq_setD)
          then obtain p' where "p' < Suc (Suc i)" "b ! p = a ! p'" by (auto simp: set_conv_nth)
          then show ?thesis using bq [of q] q qi 2(2) s(1) by (simp add: tail_sorted_def)
        next
          case False
          then show ?thesis using bq [of q] bq [of p] q 2(2) s(1) by (simp add: tail_sorted_def)
        qed
      qed
    qed
    from 2(1) [OF b [symmetric] refl False this] m s(1) 2(3) b False show ?thesis by simp
  qed
qed

text \<open>
  \<open>help\<close> lists every command once, in ascending order of the names: the bubble sort with its
  early exit permutes the command table and leaves it sorted.
\<close>
theorem help_sorts_commands:
  "mset (sort_commands cmds) = mset cmds \<and> sorted_wrt cmd_le (sort_commands cmds)"
proof (cases cmds)
  case (Cons c cs)
  then show ?thesis
    using bubble_sort_spec [of "length cmds - 1" cmds] by (simp add: sort_commands_def tail_sorted_def)
qed (simp add: sort_commands_def)

end
