(* ===== verification/SpiFlash.thy ===== *)
theory SpiFlash
  imports Prelude
begin

text \<open>
  The driver of the serial NOR flash: the bit-banging macros of \<open>board/atheros/common/ath_flash.h\<close>,
  the erase, program and poll routines of \<open>board/atheros/common/ath_flash.c\<close> and the geometry of
  \<open>board/atheros/board953x/flash.c\<close>. The driver is modelled down to its register writes; the chip
  behind the pins is not part of the sources: what the driver relies on is the predicate
  \<open>nor_flash\<close> over the byte sequences that the pins transfer.
\<close>

subsection \<open>Registers\<close>

abbreviation (input) ATH_SPI_FS :: u32 where "ATH_SPI_FS \<equiv> 0x1f000000"
abbreviation (input) ATH_SPI_WRITE :: u32 where "ATH_SPI_WRITE \<equiv> 0x1f000008"
abbreviation (input) ATH_SPI_RD_STATUS :: u32 where "ATH_SPI_RD_STATUS \<equiv> 0x1f00000c"
abbreviation (input) ATH_SPI_CS_DIS :: u32 where "ATH_SPI_CS_DIS \<equiv> 0x70000"
abbreviation (input) ATH_SPI_CE_LOW :: u32 where "ATH_SPI_CE_LOW \<equiv> 0x60000"
abbreviation (input) ATH_SPI_CE_HIGH :: u32 where "ATH_SPI_CE_HIGH \<equiv> 0x60100"
abbreviation (input) ATH_SPI_CMD_WREN :: u32 where "ATH_SPI_CMD_WREN \<equiv> 0x06"
abbreviation (input) ATH_SPI_CMD_RD_STATUS :: u32 where "ATH_SPI_CMD_RD_STATUS \<equiv> 0x05"
abbreviation (input) ATH_SPI_CMD_PAGE_PROG :: u32 where "ATH_SPI_CMD_PAGE_PROG \<equiv> 0x02"
abbreviation (input) ATH_SPI_CMD_SECTOR_ERASE :: u32 where "ATH_SPI_CMD_SECTOR_ERASE \<equiv> 0xd8"
abbreviation (input) ATH_SPI_PAGE_SIZE :: u32 where "ATH_SPI_PAGE_SIZE \<equiv> 256"

type_synonym reg_log = "(u32 \<times> u32) list"

datatype fl_exit =
    Flash_Busy      \<comment> \<open>more status reads than allowed\<close>
  | Bad_Source      \<comment> \<open>a source byte that cannot be read\<close>
  | Bad_Access      \<comment> \<open>a misaligned access, or a store to the flash\<close>

text \<open>
  The hardware: the register writes so far, what a register read returns after them, and how often
  the status is polled at most before the model gives up.
\<close>

record spi_hw =
  hw_log :: reg_log
  hw_rd :: "reg_log \<Rightarrow> u32 \<Rightarrow> u32"
  hw_polls :: nat

definition reg_wrs :: "reg_log \<Rightarrow> spi_hw \<Rightarrow> spi_hw" where
  "reg_wrs ws hw = hw\<lparr>hw_log := hw_log hw @ ws\<rparr>"

definition ath_be_msb :: "u32 \<Rightarrow> nat \<Rightarrow> u32" where
  "ath_be_msb v i = drop_bit (7 - i) (v AND push_bit (7 - i) 1)"

definition ath_spi_bit_banger :: "u32 \<Rightarrow> reg_log" where
  "ath_spi_bit_banger b =
     concat (map (\<lambda>i. [(ATH_SPI_WRITE, ATH_SPI_CE_LOW OR ath_be_msb b i),
                       (ATH_SPI_WRITE, ATH_SPI_CE_HIGH OR ath_be_msb b i)]) [0..<8])"

definition ath_spi_go :: reg_log where
  "ath_spi_go = [(ATH_SPI_WRITE, ATH_SPI_CE_LOW), (ATH_SPI_WRITE, ATH_SPI_CS_DIS)]"

definition ath_spi_send_addr :: "u32 \<Rightarrow> reg_log" where
  "ath_spi_send_addr a =
     ath_spi_bit_banger (drop_bit 16 (a AND 0xff0000)) @
     ath_spi_bit_banger (drop_bit 8 (a AND 0x00ff00)) @
     ath_spi_bit_banger (a AND 0x0000ff)"

definition ath_spi_delay_8 :: reg_log where
  "ath_spi_delay_8 = ath_spi_bit_banger 0"

definition ath_spi_done :: "spi_hw \<Rightarrow> spi_hw" where
  "ath_spi_done = reg_wrs [(ATH_SPI_FS, 0)]"

subsection \<open>Commands\<close>

definition ath_spi_write_enable :: "spi_hw \<Rightarrow> spi_hw" where
  "ath_spi_write_enable =
     reg_wrs ([(ATH_SPI_FS, 1), (ATH_SPI_WRITE, ATH_SPI_CS_DIS)] @ ath_spi_bit_banger ATH_SPI_CMD_WREN @ ath_spi_go)"

fun spi_poll_loop :: "nat \<Rightarrow> spi_hw \<Rightarrow> fl_exit + spi_hw" where
  "spi_poll_loop 0 hw = Inl Flash_Busy"
| "spi_poll_loop (Suc n) hw =
     (let hw = reg_wrs ([(ATH_SPI_WRITE, ATH_SPI_CS_DIS)] @ ath_spi_bit_banger ATH_SPI_CMD_RD_STATUS @ ath_spi_delay_8) hw;
          rd = hw_rd hw (hw_log hw) ATH_SPI_RD_STATUS AND 1
      in if rd \<noteq> 0 then spi_poll_loop n hw else Inr hw)"

definition ath_spi_poll :: "spi_hw \<Rightarrow> fl_exit + spi_hw" where
  "ath_spi_poll hw = spi_poll_loop (hw_polls hw) hw"

text \<open>The data loop of \<open>ath_spi_write_page\<close>; \<open>mem\<close> reads the source.\<close>

fun spi_send_data :: "(u32 \<Rightarrow> byte option) \<Rightarrow> u32 \<Rightarrow> nat \<Rightarrow> spi_hw \<Rightarrow> fl_exit + spi_hw" where
  "spi_send_data mem data 0 hw = Inr hw"
| "spi_send_data mem data (Suc n) hw =
     (case mem data of
        None \<Rightarrow> Inl Bad_Source
      | Some ch \<Rightarrow> spi_send_data mem (data + 1) n (reg_wrs (ath_spi_bit_banger (ucast ch)) hw))"

definition ath_spi_write_page :: "(u32 \<Rightarrow> byte option) \<Rightarrow> u32 \<Rightarrow> u32 \<Rightarrow> nat \<Rightarrow> spi_hw \<Rightarrow> fl_exit + spi_hw" where
  "ath_spi_write_page mem addr data len hw =
     rbind (spi_send_data mem data len
              (reg_wrs (ath_spi_bit_banger ATH_SPI_CMD_PAGE_PROG @ ath_spi_send_addr addr) (ath_spi_write_enable hw)))
       (\<lambda>hw. ath_spi_poll (reg_wrs ath_spi_go hw))"

definition ath_spi_sector_erase :: "u32 \<Rightarrow> spi_hw \<Rightarrow> fl_exit + spi_hw" where
  "ath_spi_sector_erase addr hw =
     ath_spi_poll (reg_wrs (ath_spi_bit_banger ATH_SPI_CMD_SECTOR_ERASE @ ath_spi_send_addr addr @ ath_spi_go)
       (ath_spi_write_enable hw))"

subsection \<open>Erasing and writing\<close>

record flash_info_t =
  fi_size :: u32
  fi_sector_count :: u16
  fi_flash_id :: u32
  fi_start :: "u32 list"
  fi_protect :: "byte list"

abbreviation (input) CFG_FLASH_BASE :: u32 where "CFG_FLASH_BASE \<equiv> 0x9f000000"
abbreviation (input) CFG_FLASH_SIZE :: u32 where "CFG_FLASH_SIZE \<equiv> 0x00400000"
abbreviation (input) CFG_FLASH_SECTOR_SIZE :: u32 where "CFG_FLASH_SECTOR_SIZE \<equiv> 0x10000"
abbreviation (input) FLASH_M25P64 :: u32 where "FLASH_M25P64 \<equiv> 0x00F2"

definition flash_get_geom :: flash_info_t where
  "flash_get_geom =
     (let n = ucast (CFG_FLASH_SIZE div CFG_FLASH_SECTOR_SIZE) :: u16 in
      \<lparr>fi_size = CFG_FLASH_SIZE, fi_sector_count = n, fi_flash_id = FLASH_M25P64,
       fi_start = map (\<lambda>i. CFG_FLASH_BASE + of_nat i * CFG_FLASH_SECTOR_SIZE) [0..<unat n],
       fi_protect = replicate (unat n) 0\<rparr>)"

text \<open>The loops take the operation on one sector or page as an argument.\<close>

function erase_loop :: "(u32 \<Rightarrow> 'd \<Rightarrow> 'e + 'd) \<Rightarrow> int \<Rightarrow> int \<Rightarrow> int \<Rightarrow> 'd \<Rightarrow> 'e + 'd" where
  "erase_loop erase sector_size i s_last d =
     (if i \<le> s_last
      then rbind (erase (word_of_int (i * sector_size)) d) (erase_loop erase sector_size (i + 1) s_last)
      else Inr d)"
  by pat_completeness auto
termination
  by (relation "measure (\<lambda>(erase, sector_size, i, s_last, d). nat (s_last + 1 - i))") auto

declare erase_loop.simps [simp del]

definition flash_erase :: "flash_info_t \<Rightarrow> int \<Rightarrow> int \<Rightarrow> spi_hw \<Rightarrow> fl_exit + spi_hw" where
  "flash_erase info s_first s_last hw =
     rbind (erase_loop ath_spi_sector_erase (uint (fi_size info div ucast (fi_sector_count info))) s_first s_last hw)
       (\<lambda>hw. Inr (ath_spi_done hw))"

definition len_this_lp :: "u32 \<Rightarrow> u32 \<Rightarrow> u32 \<Rightarrow> u32" where
  "len_this_lp addr len tot =
     (let bytes_this_page = ATH_SPI_PAGE_SIZE - addr mod ATH_SPI_PAGE_SIZE in
      if len - tot > bytes_this_page then bytes_this_page else len - tot)"

function write_loop ::
  "(u32 \<Rightarrow> u32 \<Rightarrow> nat \<Rightarrow> 'd \<Rightarrow> 'e + 'd) \<Rightarrow> u32 \<Rightarrow> u32 \<Rightarrow> u32 \<Rightarrow> u32 \<Rightarrow> 'd \<Rightarrow> 'e + 'd" where
  "write_loop page source addr len tot d =
     (if tot < len
      then rbind (page (addr + tot) (source + tot) (unat (len_this_lp addr len tot)) d)
             (write_loop page source addr len (tot + len_this_lp addr len tot))
      else Inr d)"
  by pat_completeness auto

lemma len_this_lp_bounds:
  assumes "tot < len"
  shows "0 < unat (len_this_lp addr len tot)" "unat tot + unat (len_this_lp addr len tot) \<le> unat len"
    "unat (tot + len_this_lp addr len tot) = unat tot + unat (len_this_lp addr len tot)"
proof -
  let ?b = "ATH_SPI_PAGE_SIZE - addr mod ATH_SPI_PAGE_SIZE"
  have m: "unat (addr mod 256) < 256" by (simp add: unat_mod)
  then have b: "unat ?b = 256 - unat (addr mod 256)" by (subst unat_sub) (simp_all add: word_le_nat_alt)
  have l: "unat (len - tot) = unat len - unat tot"
    using assms by (intro unat_sub) (simp add: word_less_nat_alt word_le_nat_alt)
  have lt: "unat tot < unat len" using assms by (simp add: word_less_nat_alt)
  show p: "0 < unat (len_this_lp addr len tot)"
    using m b l lt by (simp add: len_this_lp_def Let_def)
  show q: "unat tot + unat (len_this_lp addr len tot) \<le> unat len"
    using l lt by (auto simp: len_this_lp_def Let_def word_less_nat_alt)
  show "unat (tot + len_this_lp addr len tot) = unat tot + unat (len_this_lp addr len tot)"
    using le_less_trans [OF q unat_u32_less] by (intro unat_add_lem [THEN iffD1]) simp
qed

termination write_loop
proof (relation "measure (\<lambda>(page, source, addr, len, tot, d). unat len - unat tot)")
  fix tot len addr :: u32
  assume "tot < len"
  from len_this_lp_bounds [OF this, of addr]
  show "\<And>page source d a. ((page, source, addr, len, tot + len_this_lp addr len tot, a), page, source, addr, len, tot, d)
    \<in> measure (\<lambda>(page, source, addr, len, tot, d). unat len - unat tot)" by simp
qed simp

declare write_loop.simps [simp del]

definition write_buff :: "(u32 \<Rightarrow> byte option) \<Rightarrow> u32 \<Rightarrow> u32 \<Rightarrow> u32 \<Rightarrow> spi_hw \<Rightarrow> fl_exit + spi_hw" where
  "write_buff mem source addr len hw =
     rbind (write_loop (ath_spi_write_page mem) source (addr - CFG_FLASH_BASE) len 0 hw)
       (\<lambda>hw. Inr (ath_spi_done hw))"

subsection \<open>The bus\<close>

text \<open>
  What the pins carry: with the function select on, bit 16 of the write register is the (active low)
  chip select, bit 8 the clock and bit 0 the data line, sampled on the rising edge. A deselected chip
  has received a command, the bytes shifted in since it was selected.
\<close>

record spi_pins =
  pn_fs :: bool
  pn_clk :: bool
  pn_bits :: "bool list"
  pn_done :: "bool list list"

definition pin_deselect :: "spi_pins \<Rightarrow> spi_pins" where
  "pin_deselect p = (if pn_bits p = [] then p else p\<lparr>pn_bits := [], pn_done := pn_done p @ [pn_bits p]\<rparr>)"

definition pin_write :: "u32 \<times> u32 \<Rightarrow> spi_pins \<Rightarrow> spi_pins" where
  "pin_write w p =
     (case w of (a, v) \<Rightarrow>
        if a = ATH_SPI_FS then if v = 0 then (pin_deselect p)\<lparr>pn_fs := False\<rparr> else p\<lparr>pn_fs := True\<rparr>
        else if a = ATH_SPI_WRITE \<and> pn_fs p then
          if bit v 16 then (pin_deselect p)\<lparr>pn_clk := bit v 8\<rparr>
          else p\<lparr>pn_bits := pn_bits p @ (if bit v 8 \<and> \<not> pn_clk p then [bit v 0] else []), pn_clk := bit v 8\<rparr>
        else p)"

definition pins :: "reg_log \<Rightarrow> spi_pins" where
  "pins ws = fold pin_write ws \<lparr>pn_fs = False, pn_clk = False, pn_bits = [], pn_done = []\<rparr>"

definition byte_bits :: "byte \<Rightarrow> bool list" where
  "byte_bits b = map (\<lambda>i. bit b (7 - i)) [0..<8]"

definition cmd_bits :: "byte list \<Rightarrow> bool list" where
  "cmd_bits bs = concat (map byte_bits bs)"

subsection \<open>The chip\<close>

text \<open>
  Its documented behaviour, as a function of the commands received: \<open>wip\<close> is the busy bit a status
  read would deliver, \<open>cells\<close> the contents once idle. Within a limit of status reads every operation ends.
\<close>

record nor_chip =
  nc_wip :: "bool list list \<Rightarrow> bool"
  nc_cells :: "bool list list \<Rightarrow> nat \<Rightarrow> byte"

abbreviation (input) flash_size :: nat where "flash_size \<equiv> 0x400000"

definition addr3 :: "u32 \<Rightarrow> byte list" where
  "addr3 a = [ucast (drop_bit 16 a), ucast (drop_bit 8 a), ucast a]"

definition wren_cmd :: "bool list" where "wren_cmd = cmd_bits [0x06]"
definition status_cmd :: "bool list" where "status_cmd = cmd_bits [0x05, 0]"
definition erase_cmd :: "u32 \<Rightarrow> bool list" where "erase_cmd a = cmd_bits (0xd8 # addr3 a)"
definition program_cmd :: "u32 \<Rightarrow> byte list \<Rightarrow> bool list" where "program_cmd a ds = cmd_bits (0x02 # addr3 a @ ds)"

definition erased :: "nat \<Rightarrow> (nat \<Rightarrow> byte) \<Rightarrow> nat \<Rightarrow> byte" where
  "erased a v = (\<lambda>p. if p div 0x10000 = a div 0x10000 then 0xFF else v p)"

definition programmed :: "nat \<Rightarrow> byte list \<Rightarrow> (nat \<Rightarrow> byte) \<Rightarrow> nat \<Rightarrow> byte" where
  "programmed a ds v = (\<lambda>p. if a \<le> p \<and> p < a + length ds then v p AND ds ! (p - a) else v p)"

definition nor_flash :: "nor_chip \<Rightarrow> (reg_log \<Rightarrow> u32 \<Rightarrow> u32) \<Rightarrow> nat \<Rightarrow> bool" where
  "nor_flash c rd polls \<longleftrightarrow>
     (\<forall>ws. pn_bits (pins ws) = status_cmd \<longrightarrow>
        rd ws ATH_SPI_RD_STATUS AND 1 = (if nc_wip c (pn_done (pins ws)) then 1 else 0)) \<and>
     (\<forall>ts. \<exists>n < polls. \<not> nc_wip c (ts @ replicate n status_cmd)) \<and>
     (\<forall>ts. nc_cells c (ts @ [status_cmd]) = nc_cells c ts) \<and>
     (\<forall>ts. \<not> nc_wip c ts \<longrightarrow> \<not> nc_wip c (ts @ [status_cmd])) \<and>
     (\<forall>ts a. \<not> nc_wip c ts \<longrightarrow> unat a < flash_size \<longrightarrow>
        nc_cells c (ts @ [wren_cmd, erase_cmd a]) = erased (unat a) (nc_cells c ts)) \<and>
     (\<forall>ts a ds. \<not> nc_wip c ts \<longrightarrow> unat a < flash_size \<longrightarrow> ds \<noteq> [] \<longrightarrow> unat a mod 256 + length ds \<le> 256 \<longrightarrow>
        nc_cells c (ts @ [wren_cmd, program_cmd a ds]) = programmed (unat a) ds (nc_cells c ts))"

text \<open>The chip is idle, at most the last status read is still on the bus.\<close>

definition nor_idle :: "nor_chip \<Rightarrow> spi_hw \<Rightarrow> bool" where
  "nor_idle c hw \<longleftrightarrow> nor_flash c (hw_rd hw) (hw_polls hw) \<and> \<not> nc_wip c (pn_done (pins (hw_log hw))) \<and>
     (pn_bits (pins (hw_log hw)) = [] \<or> pn_bits (pins (hw_log hw)) = status_cmd)"

definition nor_view :: "nor_chip \<Rightarrow> spi_hw \<Rightarrow> nat \<Rightarrow> byte" where
  "nor_view c hw = nc_cells c (pn_done (pins (hw_log hw)))"

subsection \<open>A device that erases and programs\<close>

lemma programmed_Nil [simp]: "programmed a [] v = v"
  by (auto simp: programmed_def fun_eq_iff)

lemma programmed_append: "programmed (a + length xs) ys (programmed a xs v) = programmed a (xs @ ys) v"
  by (auto simp: programmed_def nth_append fun_eq_iff)

lemma unat_add_small: "unat a + unat b < 2 ^ 32 \<Longrightarrow> unat (a + b) = unat a + unat b" for a b :: u32
  by (rule unat_add_lem [THEN iffD1]) simp

lemma len_this_lp_aligned:
  assumes "tot < len" "unat addr mod 256 = 0"
  shows "unat (len_this_lp addr len tot) = min 256 (unat len - unat tot)"
proof -
  have "unat (addr mod 256) = unat (0 :: u32)" using assms(2) by (simp add: unat_mod)
  then have "addr mod 256 = 0" by (simp only: word_unat_eq_iff)
  moreover have "unat (len - tot) = unat len - unat tot"
    using assms(1) by (intro unat_sub) (simp add: word_less_nat_alt word_le_nat_alt)
  ultimately show ?thesis by (auto simp: len_this_lp_def word_less_nat_alt)
qed

text \<open>The contract between the driver and its clients.\<close>

locale nor_device =
  fixes idle :: "'d \<Rightarrow> bool"
    and view :: "'d \<Rightarrow> nat \<Rightarrow> byte"
    and erase :: "u32 \<Rightarrow> 'd \<Rightarrow> 'e + 'd"
    and page :: "(u32 \<Rightarrow> byte option) \<Rightarrow> u32 \<Rightarrow> u32 \<Rightarrow> nat \<Rightarrow> 'd \<Rightarrow> 'e + 'd"
  assumes erase: "idle d \<Longrightarrow> unat a < flash_size \<Longrightarrow>
      \<exists>d'. erase a d = Inr d' \<and> idle d' \<and> view d' = erased (unat a) (view d)"
    and page: "idle d \<Longrightarrow> unat a < flash_size \<Longrightarrow> ds \<noteq> [] \<Longrightarrow> unat a mod 256 + length ds \<le> 256 \<Longrightarrow>
      (\<And>i. i < length ds \<Longrightarrow> mem (src + of_nat i) = Some (ds ! i)) \<Longrightarrow>
      \<exists>d'. page mem a src (length ds) d = Inr d' \<and> idle d' \<and> view d' = programmed (unat a) ds (view d)"
begin

lemma erase_loop_sectors:
  assumes "idle d" "0 \<le> i" "s_last < 64"
  shows "\<exists>d'. erase_loop erase 0x10000 i s_last d = Inr d' \<and> idle d' \<and>
    view d' = (\<lambda>p. if i \<le> int (p div 0x10000) \<and> int (p div 0x10000) \<le> s_last then 0xFF else view d p)"
  using assms
proof (induction "nat (s_last + 1 - i)" arbitrary: i d)
  case 0
  then show ?case by (auto simp: erase_loop.simps [of erase _ i] fun_eq_iff)
next
  case (Suc n)
  then have le: "i \<le> s_last" by simp
  have a: "unat (word_of_int (i * 0x10000) :: u32) = nat i * 0x10000"
  proof -
    have "i * 0x10000 = int (nat i * 0x10000)" using Suc.prems(2) by simp
    then have "word_of_int (i * 0x10000) = (of_nat (nat i * 0x10000) :: u32)" by (simp only: of_int_of_nat_eq)
    then show ?thesis using Suc.prems le by (simp only:) (subst unat_of_nat_small, simp_all)
  qed
  moreover have "nat i * 0x10000 < flash_size" using Suc.prems le by simp
  ultimately obtain d1 where d1: "erase (word_of_int (i * 0x10000)) d = Inr d1" "idle d1"
    "view d1 = erased (nat i * 0x10000) (view d)"
    using erase [OF Suc.prems(1), of "word_of_int (i * 0x10000)"] by auto
  have "n = nat (s_last + 1 - (i + 1))" using Suc.hyps(2) by simp
  from Suc.hyps(1) [OF this d1(2)] Suc.prems obtain d' where
    "erase_loop erase 0x10000 (i + 1) s_last d1 = Inr d'" "idle d'"
    "view d' = (\<lambda>p. if i + 1 \<le> int (p div 0x10000) \<and> int (p div 0x10000) \<le> s_last then 0xFF else view d1 p)"
    by auto
  moreover have "view d' p = (if i \<le> int (p div 0x10000) \<and> int (p div 0x10000) \<le> s_last then 0xFF else view d p)" for p
  proof -
    have "p div 0x10000 = nat i \<longleftrightarrow> int (p div 0x10000) = i" using Suc.prems(2) by linarith
    then show ?thesis using calculation(3) le by (auto simp: d1(3) erased_def simp del: of_nat_div)
  qed
  ultimately show ?case
    using le d1(1) by (simp add: erase_loop.simps [of erase _ i] fun_eq_iff del: of_nat_div)
qed

lemma write_loop_aligned:
  assumes "idle d" "unat addr mod 256 = 0" "unat addr + unat len \<le> flash_size" "length ds = unat len"
    "\<And>i. i < unat len \<Longrightarrow> mem (source + of_nat i) = Some (ds ! i)"
    "tot \<le> len" "tot = len \<or> unat tot mod 256 = 0"
  shows "\<exists>d'. write_loop (page mem) source addr len tot d = Inr d' \<and> idle d' \<and>
    view d' = programmed (unat addr + unat tot) (drop (unat tot) ds) (view d)"
  using assms(1,6,7)
proof (induction "unat len - unat tot" arbitrary: tot d rule: less_induct)
  case less
  show ?case
  proof (cases "tot < len")
    case False
    then show ?thesis using less.prems assms(4) by (auto simp: write_loop.simps [of _ _ _ _ tot] not_less)
  next
    case True
    define k where "k = unat (len_this_lp addr len tot)"
    define a where "a = addr + tot"
    note lp = len_this_lp_bounds [OF True, of addr, folded k_def]
    have k: "k = min 256 (unat len - unat tot)" using len_this_lp_aligned [OF True assms(2)] by (simp add: k_def)
    have t: "unat tot mod 256 = 0" using less.prems(3) True by auto
    have lt: "unat tot < unat len" using True by (simp add: word_less_nat_alt)
    have a: "unat a = unat addr + unat tot" unfolding a_def using assms(3) lt by (intro unat_add_small) simp
    let ?xs = "take k (drop (unat tot) ds)"
    have xs: "length ?xs = k" "?xs \<noteq> []" using lp assms(4) lt by auto
    have am: "unat a mod 256 = 0" using a assms(2) t by (simp add: mod_add_eq [of "unat addr", symmetric])
    have "mem (source + tot + of_nat i) = Some (?xs ! i)" if "i < k" for i
      using assms(5) [of "unat tot + i"] that lp(2) assms(4) by (simp add: add.assoc)
    then obtain d1 where d1: "page mem a (source + tot) k d = Inr d1" "idle d1"
      "view d1 = programmed (unat a) ?xs (view d)"
      using page [OF less.prems(1), of a ?xs mem "source + tot"] xs am a assms(3) lt k by auto
    define tot' where "tot' = tot + len_this_lp addr len tot"
    have t': "unat tot' = unat tot + k" using lp(3) by (simp add: tot'_def)
    have "unat len - unat tot' < unat len - unat tot" using t' lp lt by simp
    moreover have "tot' \<le> len" using t' lp by (simp add: word_le_nat_alt)
    moreover have "tot' = len \<or> unat tot' mod 256 = 0"
      using k t t' lt by (auto simp: word_unat_eq_iff min_def split: if_splits)
    ultimately obtain d' where d': "write_loop (page mem) source addr len tot' d1 = Inr d'" "idle d'"
      "view d' = programmed (unat addr + unat tot') (drop (unat tot') ds) (view d1)"
      using less.hyps [of tot' d1] d1(2) by auto
    have "view d' = programmed (unat addr + unat tot) (?xs @ drop (unat tot') ds) (view d)"
      using programmed_append [of "unat a" ?xs "drop (unat tot') ds" "view d"] a t' d1(3) d'(3) xs(1)
      by (simp add: add.assoc)
    moreover have "?xs @ drop (unat tot') ds = drop (unat tot) ds"
      using append_take_drop_id [of k "drop (unat tot) ds"] by (simp only: t' drop_drop add.commute)
    ultimately show ?thesis
      using True d1(1) d'(1,2) by (simp add: write_loop.simps [of _ _ _ _ tot] k_def a_def tot'_def)
  qed
qed

end

subsection \<open>The driver on the bus\<close>

lemma pins_append: "pins (ws @ vs) = fold pin_write vs (pins ws)"
  by (simp add: pins_def)

lemma ath_be_msb_bit: "i < 8 \<Longrightarrow> ath_be_msb v i = of_bool (bit v (7 - i))"
  by (rule bit_word_eqI) (auto simp: ath_be_msb_def bit_simps)

lemma pin_write_bit:
  assumes "pn_fs p"
  shows "fold pin_write [(ATH_SPI_WRITE, ATH_SPI_CE_LOW OR of_bool x), (ATH_SPI_WRITE, ATH_SPI_CE_HIGH OR of_bool x)] p =
    p\<lparr>pn_bits := pn_bits p @ [x], pn_clk := True\<rparr>"
  using assms by (cases x) (simp_all add: pin_write_def)

lemma pin_write_bits:
  assumes "pn_fs p" "\<forall>i \<in> set is. i < 8" "is \<noteq> []"
  shows "fold pin_write (concat (map (\<lambda>i. [(ATH_SPI_WRITE, ATH_SPI_CE_LOW OR ath_be_msb b i),
      (ATH_SPI_WRITE, ATH_SPI_CE_HIGH OR ath_be_msb b i)]) is)) p =
    p\<lparr>pn_bits := pn_bits p @ map (\<lambda>i. bit b (7 - i)) is, pn_clk := True\<rparr>"
  using assms
proof (induction "is" arbitrary: p)
  case (Cons i js)
  have i: "i < 8" using Cons.prems by simp
  have e: "fold pin_write (concat (map (\<lambda>i. [(ATH_SPI_WRITE, ATH_SPI_CE_LOW OR ath_be_msb b i),
      (ATH_SPI_WRITE, ATH_SPI_CE_HIGH OR ath_be_msb b i)]) (i # js))) p =
    fold pin_write (concat (map (\<lambda>i. [(ATH_SPI_WRITE, ATH_SPI_CE_LOW OR ath_be_msb b i),
      (ATH_SPI_WRITE, ATH_SPI_CE_HIGH OR ath_be_msb b i)]) js))
      (fold pin_write [(ATH_SPI_WRITE, ATH_SPI_CE_LOW OR of_bool (bit b (7 - i))),
        (ATH_SPI_WRITE, ATH_SPI_CE_HIGH OR of_bool (bit b (7 - i)))] p)"
    by (simp add: ath_be_msb_bit [OF i])
  show ?case
  proof (cases "js = []")
    case True
    then show ?thesis unfolding e pin_write_bit [OF Cons.prems(1)] by simp
  next
    case False
    then show ?thesis
      unfolding e pin_write_bit [OF Cons.prems(1)] using Cons.prems
      by (subst Cons.IH) simp_all
  qed
qed simp

lemma pin_write_byte:
  assumes "pn_fs p"
  shows "fold pin_write (ath_spi_bit_banger b) p =
    p\<lparr>pn_bits := pn_bits p @ byte_bits (ucast b), pn_clk := True\<rparr>"
proof -
  have "map (\<lambda>i. bit b (7 - i)) [0..<8] = byte_bits (ucast b)" by (auto simp: byte_bits_def bit_simps)
  then show ?thesis
    unfolding ath_spi_bit_banger_def using pin_write_bits [OF assms, of "[0..<8]" b] by simp
qed

lemma byte_bits_addr:
  "byte_bits (ucast (drop_bit 16 (a AND 0xff0000))) = byte_bits (ucast (drop_bit 16 a))"
  "byte_bits (ucast (drop_bit 8 (a AND 0x00ff00))) = byte_bits (ucast (drop_bit 8 a))"
  "byte_bits (ucast (a AND 0x0000ff)) = byte_bits (ucast a)" for a :: u32
proof -
  have m: "(0xff0000 :: u32) = push_bit 16 (mask 8)" "(0x00ff00 :: u32) = push_bit 8 (mask 8)" "(0xff :: u32) = mask 8"
    by (simp_all add: mask_eq_exp_minus_1 push_bit_eq_mult)
  show "byte_bits (ucast (drop_bit 16 (a AND 0xff0000))) = byte_bits (ucast (drop_bit 16 a))"
    "byte_bits (ucast (drop_bit 8 (a AND 0x00ff00))) = byte_bits (ucast (drop_bit 8 a))"
    "byte_bits (ucast (a AND 0x0000ff)) = byte_bits (ucast a)"
    unfolding m by (auto simp: byte_bits_def bit_simps)
qed

lemma byte_u32_byte [simp]: "ucast (ucast b :: u32) = b" for b :: byte
  by (rule bit_word_eqI) (auto simp: bit_simps)

lemma pin_write_addr:
  assumes "pn_fs p"
  shows "fold pin_write (ath_spi_send_addr a) p =
    p\<lparr>pn_bits := pn_bits p @ cmd_bits (addr3 a), pn_clk := True\<rparr>"
  using assms by (simp add: ath_spi_send_addr_def pin_write_byte byte_bits_addr cmd_bits_def addr3_def)

lemma pin_write_go:
  "pn_fs p \<Longrightarrow> fold pin_write ath_spi_go p = (pin_deselect p)\<lparr>pn_clk := False\<rparr>"
  by (simp add: ath_spi_go_def pin_write_def pin_deselect_def)

text \<open>
  Bit-banging sends bytes: selecting the chip, clocking out the bytes of a command and
  deselecting it delivers exactly these bytes, most significant bit first, as one command.
\<close>
theorem bit_banger_sends:
  assumes "bs \<noteq> []" "pn_bits (pins ws) = []"
  shows "pn_done (pins (ws @ [(ATH_SPI_FS, 1), (ATH_SPI_WRITE, ATH_SPI_CS_DIS)] @
      concat (map (\<lambda>b. ath_spi_bit_banger (ucast (b :: byte))) bs) @ ath_spi_go)) =
    pn_done (pins ws) @ [cmd_bits bs]"
proof -
  have e: "fold pin_write (concat (map (\<lambda>b. ath_spi_bit_banger (ucast (b :: byte))) bs)) p =
    p\<lparr>pn_bits := pn_bits p @ cmd_bits bs, pn_clk := pn_clk p \<or> bs \<noteq> []\<rparr>" if "pn_fs p" for p
    using that by (induction bs arbitrary: p) (simp_all add: pin_write_byte cmd_bits_def)
  have "cmd_bits bs \<noteq> []" using assms(1) by (cases bs) (simp_all add: cmd_bits_def byte_bits_def)
  then show ?thesis
    using assms(2) by (simp add: pins_append pin_write_def [of "(ATH_SPI_FS, 1)"] pin_write_def [of "(ATH_SPI_WRITE, ATH_SPI_CS_DIS)"]
      e pin_write_go pin_deselect_def)
qed

theorem bit_banger_sends_witness:
  "pn_done (pins ([] @ [(ATH_SPI_FS, 1), (ATH_SPI_WRITE, ATH_SPI_CS_DIS)] @
      concat (map (\<lambda>b. ath_spi_bit_banger (ucast (b :: byte))) [0x9f]) @ ath_spi_go)) =
    [[True, False, False, True, True, True, True, True]]"
  using bit_banger_sends [of "[0x9f]" "[]"]
  by (simp add: pins_def cmd_bits_def byte_bits_def upt_rec)

text \<open>The commands received once the chip is deselected.\<close>

definition received :: "spi_hw \<Rightarrow> bool list list" where
  "received hw = pn_done (pin_deselect (pins (hw_log hw)))"

lemma reg_wrs_simps [simp]:
  "hw_log (reg_wrs ws hw) = hw_log hw @ ws" "hw_rd (reg_wrs ws hw) = hw_rd hw" "hw_polls (reg_wrs ws hw) = hw_polls hw"
  by (simp_all add: reg_wrs_def)

lemma cmd_bits_simps [simp]: "cmd_bits [] = []" "cmd_bits (b # bs) = byte_bits b @ cmd_bits bs"
  by (simp_all add: cmd_bits_def)

lemma byte_bits_not_Nil [simp]: "byte_bits b \<noteq> []"
  by (simp add: byte_bits_def)

lemma pin_deselect_simps [simp]:
  "pn_bits (pin_deselect p) = []" "pn_fs (pin_deselect p) = pn_fs p" "pn_clk (pin_deselect p) = pn_clk p"
  "pn_done (pin_deselect p) = pn_done p @ (if pn_bits p = [] then [] else [pn_bits p])"
  by (simp_all add: pin_deselect_def)

lemma pin_write_select: "pn_fs p \<Longrightarrow> pin_write (ATH_SPI_WRITE, ATH_SPI_CS_DIS) p = (pin_deselect p)\<lparr>pn_clk := False\<rparr>"
  by (simp add: pin_write_def)

lemma write_enable_pins:
  "pn_fs (pins (hw_log (ath_spi_write_enable hw)))" "pn_bits (pins (hw_log (ath_spi_write_enable hw))) = []"
  "pn_done (pins (hw_log (ath_spi_write_enable hw))) = received hw @ [wren_cmd]"
  by (simp_all add: ath_spi_write_enable_def pins_append pin_write_def [of "(ATH_SPI_FS, 1)"] pin_write_select
    pin_write_byte pin_write_go wren_cmd_def received_def pin_deselect_def)

lemma write_enable_simps [simp]:
  "hw_rd (ath_spi_write_enable hw) = hw_rd hw" "hw_polls (ath_spi_write_enable hw) = hw_polls hw"
  by (simp_all add: ath_spi_write_enable_def)

text \<open>Polling ends, and leaves the last status read on the bus.\<close>

lemma poll_loop_ends:
  assumes "nor_flash c (hw_rd hw) polls" "pn_fs (pins (hw_log hw))"
    "\<exists>n < fuel. \<not> nc_wip c (received hw @ replicate n status_cmd)"
  shows "\<exists>hw'. spi_poll_loop fuel hw = Inr hw' \<and> hw_rd hw' = hw_rd hw \<and> hw_polls hw' = hw_polls hw \<and>
    pn_bits (pins (hw_log hw')) = status_cmd \<and> \<not> nc_wip c (pn_done (pins (hw_log hw'))) \<and>
    nc_cells c (pn_done (pins (hw_log hw'))) = nc_cells c (received hw)"
  using assms
proof (induction fuel arbitrary: hw)
  case (Suc fuel)
  define hw1 where "hw1 = reg_wrs ([(ATH_SPI_WRITE, ATH_SPI_CS_DIS)] @ ath_spi_bit_banger ATH_SPI_CMD_RD_STATUS @ ath_spi_delay_8) hw"
  have p: "pn_fs (pins (hw_log hw1))" "pn_bits (pins (hw_log hw1)) = status_cmd" "pn_done (pins (hw_log hw1)) = received hw"
    using Suc.prems(2)
    by (simp_all add: hw1_def pins_append pin_write_select ath_spi_delay_8_def pin_write_byte status_cmd_def received_def)
  have sim: "hw_rd hw1 = hw_rd hw" "hw_polls hw1 = hw_polls hw" by (simp_all add: hw1_def)
  have st: "status_cmd \<noteq> []" by (simp add: status_cmd_def)
  have r: "received hw1 = received hw @ [status_cmd]" using p st by (simp add: received_def)
  have rd: "(hw_rd hw (hw_log hw1) ATH_SPI_RD_STATUS AND 1 \<noteq> 0) = nc_wip c (received hw)"
    using Suc.prems(1) p by (simp add: nor_flash_def)
  have same: "nc_cells c (ts @ [status_cmd]) = nc_cells c ts" for ts using Suc.prems(1) by (simp add: nor_flash_def)
  have step: "spi_poll_loop (Suc fuel) hw = (if nc_wip c (received hw) then spi_poll_loop fuel hw1 else Inr hw1)"
    using rd by (simp add: Let_def hw1_def)
  show ?case
  proof (cases "nc_wip c (received hw)")
    case False
    then show ?thesis unfolding step using p sim by simp
  next
    case True
    obtain n where n: "n < Suc fuel" "\<not> nc_wip c (received hw @ replicate n status_cmd)" using Suc.prems(3) by blast
    with True obtain m where "n = Suc m" by (cases n) auto
    with n have "\<exists>n < fuel. \<not> nc_wip c (received hw1 @ replicate n status_cmd)"
      by (intro exI [of _ m]) (simp add: r)
    from Suc.IH [OF _ p(1) this] Suc.prems(1) True show ?thesis unfolding step r same by (simp add: sim)
  qed
qed simp

lemma poll_ends:
  assumes "nor_flash c (hw_rd hw) (hw_polls hw)" "pn_fs (pins (hw_log hw))"
  shows "\<exists>hw'. ath_spi_poll hw = Inr hw' \<and> nor_idle c hw' \<and> nor_view c hw' = nc_cells c (received hw)"
proof -
  have "\<exists>n < hw_polls hw. \<not> nc_wip c (received hw @ replicate n status_cmd)" using assms(1) by (simp add: nor_flash_def)
  from poll_loop_ends [OF assms this] show ?thesis
    using assms(1) by (auto simp: ath_spi_poll_def nor_idle_def nor_view_def)
qed

lemma nor_idle_received:
  assumes "nor_idle c hw"
  shows "\<not> nc_wip c (received hw)" "nc_cells c (received hw) = nor_view c hw"
  using assms by (auto simp: nor_idle_def nor_flash_def received_def nor_view_def)

lemma sector_erase_erases:
  assumes "nor_idle c hw" "unat a < flash_size"
  shows "\<exists>hw'. ath_spi_sector_erase a hw = Inr hw' \<and> nor_idle c hw' \<and> nor_view c hw' = erased (unat a) (nor_view c hw)"
proof -
  let ?hw = "reg_wrs (ath_spi_bit_banger ATH_SPI_CMD_SECTOR_ERASE @ ath_spi_send_addr a @ ath_spi_go) (ath_spi_write_enable hw)"
  have f: "nor_flash c (hw_rd ?hw) (hw_polls ?hw)" using assms(1) by (simp add: nor_idle_def)
  have p: "pn_fs (pins (hw_log ?hw))" "received ?hw = received hw @ [wren_cmd, erase_cmd a]"
    by (simp_all add: pins_append write_enable_pins pin_write_byte pin_write_addr pin_write_go received_def erase_cmd_def)
  have "nc_cells c (received ?hw) = erased (unat a) (nor_view c hw)"
    using assms nor_idle_received [OF assms(1)] unfolding p(2) by (simp add: nor_idle_def nor_flash_def)
  with poll_ends [OF f p(1)] show ?thesis by (simp add: ath_spi_sector_erase_def)
qed

lemma send_data_pins:
  assumes "\<And>i. i < length ds \<Longrightarrow> mem (src + of_nat i) = Some (ds ! i)" "pn_fs (pins (hw_log hw))"
  shows "\<exists>hw'. spi_send_data mem src (length ds) hw = Inr hw' \<and> hw_rd hw' = hw_rd hw \<and> hw_polls hw' = hw_polls hw \<and>
    pn_fs (pins (hw_log hw')) \<and> pn_bits (pins (hw_log hw')) = pn_bits (pins (hw_log hw)) @ cmd_bits ds \<and>
    pn_done (pins (hw_log hw')) = pn_done (pins (hw_log hw))"
  using assms
proof (induction ds arbitrary: src hw)
  case (Cons d ds)
  let ?hw = "reg_wrs (ath_spi_bit_banger (ucast d)) hw"
  have m: "mem src = Some d" using Cons.prems(1) [of 0] by simp
  have p: "pn_fs (pins (hw_log ?hw))" "pn_bits (pins (hw_log ?hw)) = pn_bits (pins (hw_log hw)) @ byte_bits d"
    "pn_done (pins (hw_log ?hw)) = pn_done (pins (hw_log hw))"
    using Cons.prems(2) by (simp_all add: pins_append pin_write_byte)
  have "mem (src + 1 + of_nat i) = Some (ds ! i)" if "i < length ds" for i
    using Cons.prems(1) [of "Suc i"] that by (simp add: algebra_simps)
  from Cons.IH [OF this p(1)] show ?case using p m by (auto simp: m)
qed simp

lemma write_page_programs:
  assumes "nor_idle c hw" "unat a < flash_size" "ds \<noteq> []" "unat a mod 256 + length ds \<le> 256"
    "\<And>i. i < length ds \<Longrightarrow> mem (src + of_nat i) = Some (ds ! i)"
  shows "\<exists>hw'. ath_spi_write_page mem a src (length ds) hw = Inr hw' \<and> nor_idle c hw' \<and>
    nor_view c hw' = programmed (unat a) ds (nor_view c hw)"
proof -
  let ?hw = "reg_wrs (ath_spi_bit_banger ATH_SPI_CMD_PAGE_PROG @ ath_spi_send_addr a) (ath_spi_write_enable hw)"
  have p: "pn_fs (pins (hw_log ?hw))" "pn_bits (pins (hw_log ?hw)) = cmd_bits (0x02 # addr3 a)"
    "pn_done (pins (hw_log ?hw)) = received hw @ [wren_cmd]"
    by (simp_all add: pins_append write_enable_pins pin_write_byte pin_write_addr)
  obtain hw1 where hw1: "spi_send_data mem src (length ds) ?hw = Inr hw1" "hw_rd hw1 = hw_rd hw" "hw_polls hw1 = hw_polls hw"
    "pn_fs (pins (hw_log hw1))" "pn_bits (pins (hw_log hw1)) = cmd_bits (0x02 # addr3 a) @ cmd_bits ds"
    "pn_done (pins (hw_log hw1)) = received hw @ [wren_cmd]"
    using send_data_pins [OF assms(5) p(1)] unfolding p(2,3) by auto
  let ?hw2 = "reg_wrs ath_spi_go hw1"
  have f: "nor_flash c (hw_rd ?hw2) (hw_polls ?hw2)" using assms(1) hw1 by (simp add: nor_idle_def)
  have q: "pn_fs (pins (hw_log ?hw2))" "received ?hw2 = received hw @ [wren_cmd, program_cmd a ds]"
    using hw1(4-6) by (simp_all add: pins_append pin_write_go received_def program_cmd_def cmd_bits_def)
  have "nc_cells c (received ?hw2) = programmed (unat a) ds (nor_view c hw)"
    using assms(1-4) nor_idle_received [OF assms(1)] unfolding q(2) by (simp add: nor_idle_def nor_flash_def)
  with poll_ends [OF f q(1)] hw1(1) show ?thesis by (simp add: ath_spi_write_page_def)
qed

interpretation nor: nor_device "nor_idle c" "nor_view c" ath_spi_sector_erase ath_spi_write_page for c
  by unfold_locales (simp_all add: sector_erase_erases write_page_programs)

subsection \<open>Erasing and writing on the device\<close>

lemma pin_write_done: "pin_write (ATH_SPI_FS, 0) p = (pin_deselect p)\<lparr>pn_fs := False\<rparr>"
  by (simp add: pin_write_def)

lemma done_idle:
  assumes "nor_idle c hw"
  shows "nor_idle c (ath_spi_done hw)" "nor_view c (ath_spi_done hw) = nor_view c hw"
proof -
  have d: "pn_done (pins (hw_log (ath_spi_done hw))) = received hw" "pn_bits (pins (hw_log (ath_spi_done hw))) = []"
    by (simp_all add: ath_spi_done_def pins_append pin_write_done received_def)
  show "nor_idle c (ath_spi_done hw)"
    using assms nor_idle_received [OF assms] by (simp add: nor_idle_def d) (simp add: ath_spi_done_def)
  show "nor_view c (ath_spi_done hw) = nor_view c hw"
    using nor_idle_received [OF assms] by (simp add: nor_view_def d)
qed

lemma geom_simps [simp]:
  "fi_size flash_get_geom = 0x400000" "fi_sector_count flash_get_geom = 64" "fi_flash_id flash_get_geom = FLASH_M25P64"
  "fi_start flash_get_geom = map (\<lambda>i. 0x9f000000 + of_nat i * 0x10000) [0..<64]"
  "fi_protect flash_get_geom = replicate 64 0"
  by (simp_all add: flash_get_geom_def)

lemma flash_erase_sectors:
  assumes "nor_idle c hw" "0 \<le> s_first" "s_last < 64"
  shows "\<exists>hw'. flash_erase flash_get_geom s_first s_last hw = Inr hw' \<and> nor_idle c hw' \<and>
    nor_view c hw' = (\<lambda>p. if s_first \<le> int (p div 0x10000) \<and> int (p div 0x10000) \<le> s_last then 0xFF else nor_view c hw p)"
  using nor.erase_loop_sectors [OF assms] by (auto simp: flash_erase_def done_idle simp del: of_nat_div)

lemma write_buff_aligned:
  assumes "nor_idle c hw" "unat (addr - CFG_FLASH_BASE) mod 256 = 0"
    "unat (addr - CFG_FLASH_BASE) + unat len \<le> flash_size" "length ds = unat len"
    "\<And>i. i < unat len \<Longrightarrow> mem (source + of_nat i) = Some (ds ! i)"
  shows "\<exists>hw'. write_buff mem source addr len hw = Inr hw' \<and> nor_idle c hw' \<and>
    nor_view c hw' = programmed (unat (addr - CFG_FLASH_BASE)) ds (nor_view c hw)"
proof -
  have t: "(0 :: u32) \<le> len" "(0 :: u32) = len \<or> unat (0 :: u32) mod 256 = 0" by simp_all
  show ?thesis
    using nor.write_loop_aligned [OF assms t]
    by (auto simp: write_buff_def done_idle)
qed

text \<open>
  C16: \<open>write_buff\<close> to a page-aligned address programs exactly the source bytes: each byte of the
  range becomes its old value AND the source byte, every other byte stays, and the chip ends idle.
\<close>
theorem write_buff_programs:
  assumes "nor_idle c hw" "unat (addr - CFG_FLASH_BASE) mod 256 = 0"
    "unat (addr - CFG_FLASH_BASE) + unat len \<le> flash_size" "length ds = unat len"
    "\<forall>i < unat len. mem (source + of_nat i) = Some (ds ! i)"
  shows "\<exists>hw'. write_buff mem source addr len hw = Inr hw' \<and> nor_idle c hw' \<and>
    nor_view c hw' = programmed (unat (addr - CFG_FLASH_BASE)) ds (nor_view c hw)"
  using assms by (intro write_buff_aligned) simp_all

text \<open>A chip with the documented behaviour, which is never busy.\<close>

fun bits_bytes :: "bool list \<Rightarrow> byte list" where
  "bits_bytes (a # b # c # d # e # f # g # h # bs) =
     horner_sum of_bool 2 [h, g, f, e, d, c, b, a] # bits_bytes bs"
| "bits_bytes _ = []"

definition sim_addr :: "byte list \<Rightarrow> nat" where
  "sim_addr bs = unat (bs ! 0) * 65536 + unat (bs ! 1) * 256 + unat (bs ! 2)"

definition sim_cmd :: "bool list \<Rightarrow> (nat \<Rightarrow> byte) \<Rightarrow> nat \<Rightarrow> byte" where
  "sim_cmd bits v =
     (case bits_bytes bits of
        [] \<Rightarrow> v
      | op # args \<Rightarrow>
          if op = 0xd8 then erased (sim_addr args) v
          else if op = 0x02 then programmed (sim_addr args) (drop 3 args) v
          else v)"

definition sim_chip :: "(nat \<Rightarrow> byte) \<Rightarrow> nor_chip" where
  "sim_chip v0 = \<lparr>nc_wip = \<lambda>ts. False, nc_cells = \<lambda>ts. fold sim_cmd ts v0\<rparr>"

lemma bits_bytes_cmd: "bits_bytes (cmd_bits bs) = bs"
proof (induction bs)
  case (Cons b bs)
  have u: "[0..<8] = [0, 1, 2, 3, 4, 5, 6, 7]" by (simp add: upt_rec)
  have t: "take_bit 8 b = b" by (rule bit_word_eqI) (auto simp: bit_simps dest: bit_byteD)
  have "map (bit b) [0..<8] = [bit b 0, bit b 1, bit b 2, bit b 3, bit b 4, bit b 5, bit b 6, bit b 7]" by (simp only: u list.map)
  then have "horner_sum of_bool 2 [bit b 0, bit b 1, bit b 2, bit b 3, bit b 4, bit b 5, bit b 6, bit b 7] = take_bit 8 b"
    by (simp only: horner_sum_bit_eq_take_bit [symmetric])
  then have "horner_sum of_bool 2 [bit b 0, bit b 1, bit b 2, bit b 3, bit b 4, bit b 5, bit b 6, bit b 7] = b" by (simp only: t)
  then show ?case by (simp add: byte_bits_def u Cons.IH del: horner_sum_simps)
qed simp

lemma sim_addr_addr3: "unat a < flash_size \<Longrightarrow> sim_addr (addr3 a @ ds) = unat a"
proof -
  assume "unat a < flash_size"
  then have 1: "unat a div 65536 mod 256 = unat a div 65536" by simp
  have u: "unat (ucast (drop_bit n a) :: byte) = unat a div 2 ^ n mod 256" for n
    by (simp add: unsigned_ucast_eq take_bit_eq_mod unat_drop_bit del: unsigned_drop_bit_eq)
  have "sim_addr (addr3 a @ ds) = unat a div 65536 * 65536 + unat a div 256 mod 256 * 256 + unat a mod 256"
    using u [of 16] u [of 8] u [of 0] 1 by (simp add: sim_addr_def addr3_def)
  moreover have "unat a div 65536 * 256 + unat a div 256 mod 256 = unat a div 256"
    using div_mult_mod_eq [of "unat a div 256" 256] by (simp add: div_mult2_eq [symmetric])
  ultimately show ?thesis using div_mult_mod_eq [of "unat a" 256] by linarith
qed

lemma sim_chip_nor: "nor_flash (sim_chip v0) (\<lambda>_ _. 0) 1"
  by (simp add: nor_flash_def sim_chip_def wren_cmd_def erase_cmd_def program_cmd_def status_cmd_def
    sim_cmd_def bits_bytes_cmd sim_addr_addr3 sim_addr_addr3 [where ds = "[]", simplified] del: cmd_bits_simps)
    (simp add: addr3_def)

definition sim_hw :: spi_hw where
  "sim_hw = \<lparr>hw_log = [], hw_rd = \<lambda>_ _. 0, hw_polls = 1\<rparr>"

lemma sim_hw_idle: "nor_idle (sim_chip v0) sim_hw" and sim_hw_view: "nor_view (sim_chip v0) sim_hw = v0"
  using sim_chip_nor [of v0] by (simp_all add: nor_idle_def nor_view_def sim_hw_def pins_def) (simp_all add: sim_chip_def)

theorem write_buff_programs_witness:
  "\<exists>hw'. write_buff (\<lambda>a. Some (if a = 0x80800000 then 0xF7 else 0x12)) 0x80800000 0x9f000100 2 sim_hw = Inr hw' \<and>
     nor_view (sim_chip (\<lambda>_. 0x7F)) hw' 0x100 = 0x77 \<and> nor_view (sim_chip (\<lambda>_. 0x7F)) hw' 0x102 = 0x7F"
proof -
  have "\<forall>i < unat (2 :: u32). Some (if 0x80800000 + of_nat i = (0x80800000 :: u32) then 0xF7 else 0x12) = Some ([0xF7, 0x12 :: byte] ! i)"
  proof (intro allI impI)
    fix i assume "i < unat (2 :: u32)"
    then have "i = 0 \<or> i = 1" by auto
    then show "Some (if 0x80800000 + of_nat i = (0x80800000 :: u32) then 0xF7 else 0x12) = Some ([0xF7, 0x12 :: byte] ! i)"
      by auto
  qed
  from write_buff_programs [where addr = "0x9f000100", OF sim_hw_idle [of "\<lambda>_. 0x7F"] _ _ _ this] show ?thesis
    by (auto simp: sim_hw_view programmed_def)
qed

text \<open>
  C36: The number of bytes per page is computed from the start address only. A write of three chunks
  to an address whose page offset \<open>r\<close> is neither 0 nor at least 128 issues a third page program that
  crosses the end of its page, where the chip wraps around to the beginning of the page.
\<close>
theorem write_buff_crosses_page:
  fixes addr :: u32
  defines "a \<equiv> addr - CFG_FLASH_BASE"
  defines "b \<equiv> 256 - a mod 256"
  assumes "0 < a mod 256" "a mod 256 < 128"
  shows "write_buff mem source addr (3 * b) hw =
      rbind (ath_spi_write_page mem a source (unat b) hw) (\<lambda>hw.
      rbind (ath_spi_write_page mem (a + b) (source + b) (unat b) hw) (\<lambda>hw.
      rbind (ath_spi_write_page mem (a + 2 * b) (source + 2 * b) (unat b) hw) (\<lambda>hw. Inr (ath_spi_done hw)))) \<and>
    256 < unat ((a + 2 * b) mod 256) + unat b"
proof -
  define r where "r = unat (a mod 256)"
  define n where "n = 256 - r"
  have r: "0 < r" "r < 128" using assms(3,4) by (simp_all add: r_def word_less_nat_alt)
  have ub: "unat b = n"
    unfolding b_def n_def r_def using assms(4) by (subst unat_sub) (simp_all add: word_le_nat_alt word_less_nat_alt)
  then have b: "b = of_nat n" using unat_of_nat_small [of n, where 'a = 32] by (simp add: word_unat_eq_iff n_def)
  have n: "n < 256" "128 < n" using r by (simp_all add: n_def)
  have u: "unat (3 * b) = 3 * n" "unat (2 * b) = 2 * n" "unat (of_nat n :: u32) = n"
    using n unat_of_nat_small [of "3 * n", where 'a = 32] unat_of_nat_small [of "2 * n", where 'a = 32]
      unat_of_nat_small [of n, where 'a = 32] by (simp_all add: b)
  have l: "len_this_lp a (3 * b) 0 = b" "len_this_lp a (3 * b) b = b" "len_this_lp a (3 * b) (2 * b) = b"
    using n u ub by (simp_all add: len_this_lp_def b_def [symmetric] word_less_nat_alt Let_def)
  have t: "0 < 3 * b" "b < 3 * b" "2 * b < 3 * b" using n u ub by (simp_all add: word_less_nat_alt)
  have "write_loop f source a (3 * b) 0 hw = rbind (f a source (unat b) hw) (\<lambda>hw.
      rbind (f (a + b) (source + b) (unat b) hw) (\<lambda>hw. f (a + 2 * b) (source + 2 * b) (unat b) hw))"
    for f :: "u32 \<Rightarrow> u32 \<Rightarrow> nat \<Rightarrow> spi_hw \<Rightarrow> fl_exit + spi_hw"
    using t by (simp add: write_loop.simps [of f source a "3 * b"] l rbind_def_cases split: sum.split)
  moreover have "unat ((a + 2 * b) mod 256) = n"
  proof -
    have "unat (a + 2 * b) mod 256 = (unat a + 2 * n) mod 256"
      using mod_mod_cancel [of 256 "2 ^ 32" "unat a + 2 * n"] by (simp add: unat_word_ariths(1) [of a "2 * b"] u(2))
    also have "\<dots> = (r + 2 * n) mod 256" by (simp add: r_def unat_mod mod_add_left_eq)
    also have "r + 2 * n = 256 + n" using r by (simp add: n_def)
    finally show ?thesis using n by (simp add: unat_mod)
  qed
  ultimately show ?thesis
    using n ub by (simp add: write_buff_def a_def [symmetric] rbind_assoc)
qed

theorem write_buff_crosses_page_witness:
  "256 < unat ((0x64 + 2 * 156 :: u32) mod 256) + unat (156 :: u32)"
  using write_buff_crosses_page [of 0x9f000064] by simp

end
