(* ===== verification/FlashCmd.thy ===== *)
theory FlashCmd
  imports SpiFlash Vsprintf
begin

text \<open>
  The flash layer above the driver and its commands: \<open>flash_protect\<close>, \<open>addr2info\<close> and \<open>flash_write\<close>
  (\<open>common/flash.c\<close>), the range arguments and \<open>erase\<close> (\<open>common/cmd_flash.c\<close>) and \<open>cp\<close>
  (\<open>common/cmd_mem.c\<close>). The table \<open>flash_info\<close> is the list \<open>infos\<close>; messages are left out.
\<close>

subsection \<open>\<open>common/flash.c\<close>\<close>

abbreviation (input) FLASH_UNKNOWN :: u32 where "FLASH_UNKNOWN \<equiv> 0xFFFF"
abbreviation (input) FLAG_PROTECT_SET :: u32 where "FLAG_PROTECT_SET \<equiv> 1"
abbreviation (input) FLAG_PROTECT_CLEAR :: u32 where "FLAG_PROTECT_CLEAR \<equiv> 2"
abbreviation (input) ERR_OK :: int where "ERR_OK \<equiv> 0"
abbreviation (input) ERR_PROTECTED :: int where "ERR_PROTECTED \<equiv> 4"
abbreviation (input) ERR_INVAL :: int where "ERR_INVAL \<equiv> 8"

definition bank_end :: "flash_info_t \<Rightarrow> u32" where
  "bank_end info = fi_start info ! 0 + fi_size info - 1"

text \<open>The last address of a sector, and the first address behind it.\<close>

definition sector_end :: "flash_info_t \<Rightarrow> nat \<Rightarrow> u32" where
  "sector_end info i =
     (if Suc i = unat (fi_sector_count info) then bank_end info else fi_start info ! Suc i - 1)"

definition sector_behind :: "flash_info_t \<Rightarrow> nat \<Rightarrow> u32" where
  "sector_behind info i =
     (if Suc i = unat (fi_sector_count info) then fi_start info ! 0 + fi_size info else fi_start info ! Suc i)"

definition flash_protect :: "u32 \<Rightarrow> u32 \<Rightarrow> u32 \<Rightarrow> flash_info_t \<Rightarrow> flash_info_t" where
  "flash_protect flag from to_addr info =
     (if fi_sector_count info = 0 \<or> fi_size info = 0 \<or> to_addr < from then info
      else if fi_flash_id info = FLASH_UNKNOWN \<or> to_addr < fi_start info ! 0 \<or> from > bank_end info then info
      else fold (\<lambda>i info.
             if from \<le> sector_end info i \<and> to_addr \<ge> fi_start info ! i
             then if flag AND FLAG_PROTECT_CLEAR \<noteq> 0 then info\<lparr>fi_protect := (fi_protect info)[i := 0]\<rparr>
                  else if flag AND FLAG_PROTECT_SET \<noteq> 0 then info\<lparr>fi_protect := (fi_protect info)[i := 1]\<rparr>
                  else info
             else info) [0..<unat (fi_sector_count info)] info)"

text \<open>The index of the bank, for the pointer the code returns.\<close>

fun addr2info_loop :: "nat \<Rightarrow> flash_info_t list \<Rightarrow> u32 \<Rightarrow> nat option" where
  "addr2info_loop i [] addr = None"
| "addr2info_loop i (info # infos) addr =
     (if fi_flash_id info \<noteq> FLASH_UNKNOWN \<and> addr \<ge> fi_start info ! 0 \<and> addr \<le> bank_end info then Some i
      else addr2info_loop (Suc i) infos addr)"

definition addr2info :: "flash_info_t list \<Rightarrow> u32 \<Rightarrow> nat option" where
  "addr2info infos addr = addr2info_loop 0 infos addr"

text \<open>A protected sector of the bank meets the range.\<close>

definition range_protected :: "u32 \<Rightarrow> u32 \<Rightarrow> flash_info_t \<Rightarrow> bool" where
  "range_protected addr fin info \<longleftrightarrow>
     list_ex (\<lambda>i. fin \<ge> fi_start info ! i \<and> addr < sector_behind info i \<and> fi_protect info ! i \<noteq> 0)
       [0..<unat (fi_sector_count info)]"

fun flash_write_loop ::
  "(u32 \<Rightarrow> byte option) \<Rightarrow> flash_info_t list \<Rightarrow> u32 \<Rightarrow> u32 \<Rightarrow> u32 \<Rightarrow> spi_hw \<Rightarrow> fl_exit + spi_hw" where
  "flash_write_loop mem [] src addr cnt hw = Inr hw"
| "flash_write_loop mem (info # infos) src addr cnt hw =
     (if cnt > 0
      then let len = fi_start info ! 0 + fi_size info - addr; len = (if len > cnt then cnt else len) in
        rbind (write_buff mem src addr len hw) (flash_write_loop mem infos (src + len) (addr + len) (cnt - len))
      else Inr hw)"

definition flash_write ::
  "flash_info_t list \<Rightarrow> (u32 \<Rightarrow> byte option) \<Rightarrow> u32 \<Rightarrow> u32 \<Rightarrow> u32 \<Rightarrow> spi_hw \<Rightarrow> fl_exit + int \<times> spi_hw" where
  "flash_write infos mem src addr cnt hw =
     (let fin = addr + cnt - 1 in
      if cnt = 0 then Inr (ERR_OK, hw)
      else case (addr2info infos addr, addr2info infos fin) of
        (Some i, Some j) \<Rightarrow>
          let banks = drop i (take (Suc j) infos) in
          if list_ex (range_protected addr fin) banks then Inr (ERR_PROTECTED, hw)
          else rbind (flash_write_loop mem banks src addr cnt hw) (\<lambda>hw. Inr (ERR_OK, hw))
      | _ \<Rightarrow> Inr (ERR_INVAL, hw))"

subsection \<open>Range arguments\<close>

datatype spec = No_Spec | Bad_Spec | Sectors nat int int

text \<open>\<open>strchr\<close> with the text before the character and behind it.\<close>

definition split_at :: "char \<Rightarrow> string \<Rightarrow> (string \<times> string) option" where
  "split_at c s =
     (if c \<in> set s then Some (takeWhile (\<lambda>x. x \<noteq> c) s, tl (dropWhile (\<lambda>x. x \<noteq> c) s)) else None)"

text \<open>A number with nothing behind it, in the \<open>int\<close> it is assigned to.\<close>

definition parse_number :: "string \<Rightarrow> u32 \<Rightarrow> u32 option" where
  "parse_number s base = (let (n, ep) = simple_strtoul s base in if ep = s \<or> ep \<noteq> [] then None else Some n)"

definition abbrev_spec :: "flash_info_t list \<Rightarrow> string \<Rightarrow> spec" where
  "abbrev_spec infos str =
     (case split_at (CHR '':'') str of
        None \<Rightarrow> No_Spec
      | Some (str, p) \<Rightarrow>
          (case parse_number str 10 of
             None \<Rightarrow> Bad_Spec
           | Some n \<Rightarrow>
               let bank = sint n in
               if bank < 1 \<or> bank > int (length infos) \<or> fi_flash_id (infos ! nat (bank - 1)) = FLASH_UNKNOWN then Bad_Spec
               else
                 let count = uint (fi_sector_count (infos ! nat (bank - 1)));
                     (str, rest) = (case split_at (CHR ''-'') p of None \<Rightarrow> (p, None) | Some (a, b) \<Rightarrow> (a, Some b)) in
                 (case parse_number str 10 of
                    None \<Rightarrow> Bad_Spec
                  | Some n \<Rightarrow>
                      let first = sint n in
                      if first \<ge> count then Bad_Spec
                      else case rest of
                        None \<Rightarrow> Sectors (nat (bank - 1)) first first
                      | Some p \<Rightarrow>
                          (case parse_number p 10 of
                             None \<Rightarrow> Bad_Spec
                           | Some n \<Rightarrow>
                               let last = sint n in
                               if last < first \<or> last \<ge> count then Bad_Spec
                               else Sectors (nat (bank - 1)) first last))))"

text \<open>The last address of the sector that contains an address.\<close>

definition round_up :: "flash_info_t list \<Rightarrow> u32 \<Rightarrow> u32 option" where
  "round_up infos a =
     map_option (\<lambda>(info, i). sector_end info i)
       (find (\<lambda>(info, i). a \<le> sector_end info i \<and> a \<ge> fi_start info ! i)
          (concat (map (\<lambda>info. map (Pair info) [0..<unat (fi_sector_count info)]) infos)))"

definition addr_spec :: "flash_info_t list \<Rightarrow> string \<Rightarrow> string \<Rightarrow> (u32 \<times> u32) option" where
  "addr_spec infos arg1 arg2 =
     (case parse_number arg1 16 of
        None \<Rightarrow> None
      | Some addr_first \<Rightarrow>
          let len_used = (peek arg2 = CHR ''+''); arg2 = (if len_used then tl arg2 else arg2) in
          (case parse_number arg2 16 of
             None \<Rightarrow> None
           | Some addr_last \<Rightarrow>
               if len_used then map_option (Pair addr_first) (round_up infos (addr_first + addr_last - 1))
               else Some (addr_first, addr_last)))"

text \<open>The sectors at the two ends of the range, -1 where an address is not on a boundary.\<close>

definition scan_sector :: "flash_info_t \<Rightarrow> u32 \<Rightarrow> u32 \<Rightarrow> nat \<Rightarrow> int \<times> int \<Rightarrow> int \<times> int" where
  "scan_sector info addr_first addr_last sect r =
     (if addr_first > sector_end info sect \<or> addr_last < fi_start info ! sect then r
      else (if addr_first = fi_start info ! sect then int sect else fst r,
            if addr_last = sector_end info sect then int sect else snd r))"

fun flash_fill_sect_ranges :: "flash_info_t list \<Rightarrow> u32 \<Rightarrow> u32 \<Rightarrow> (int \<times> int) list \<times> int \<times> int" where
  "flash_fill_sect_ranges [] addr_first addr_last = ([], 0, 0)"
| "flash_fill_sect_ranges (info # infos) addr_first addr_last =
     (let rest = replicate (length infos) (- 1, - 1) in
      if \<not> addr_first \<le> addr_last then ((- 1, - 1) # rest, 0, 0)
      else if fi_flash_id info = FLASH_UNKNOWN
      then apfst ((#) (- 1, - 1)) (flash_fill_sect_ranges infos addr_first addr_last)
      else
        let b_end = bank_end info; s_end = uint (fi_sector_count info) - 1;
            (s_first, s_last) = fold (scan_sector info addr_first addr_last) [0..<unat (fi_sector_count info)] (- 1, - 1) in
        if s_first \<ge> 0 then
          if s_last < 0 \<and> \<not> addr_last > b_end then ((s_first, s_last) # rest, 0, 1)
          else
            let s_last = (if s_last < 0 then s_end else s_last) in
            if s_last < s_first then ((s_first, s_last) # rest, 0, 1)
            else
              let addr_first = (if s_last = s_end then b_end + 1 else fi_start info ! nat (s_last + 1));
                  (ranges, count, rcode) = flash_fill_sect_ranges infos addr_first addr_last in
              ((s_first, s_last) # ranges, s_last - s_first + 1 + count, rcode)
        else if addr_first \<ge> fi_start info ! 0 \<and> addr_first < b_end then ((s_first, s_last) # rest, 0, 1)
        else if s_last \<ge> 0 then ((s_first, s_last) # rest, 0, 1)
        else apfst ((#) (s_first, s_last)) (flash_fill_sect_ranges infos addr_first addr_last))"

subsection \<open>\<open>erase\<close>\<close>

fun erase_banks :: "(flash_info_t \<times> int \<times> int) list \<Rightarrow> spi_hw \<Rightarrow> fl_exit + spi_hw" where
  "erase_banks [] hw = Inr hw"
| "erase_banks ((info, s_first, s_last) # bs) hw =
     (if s_first \<ge> 0 then rbind (flash_erase info s_first s_last hw) (erase_banks bs) else erase_banks bs hw)"

definition flash_sect_erase :: "flash_info_t list \<Rightarrow> u32 \<Rightarrow> u32 \<Rightarrow> spi_hw \<Rightarrow> fl_exit + int \<times> spi_hw" where
  "flash_sect_erase infos addr_first addr_last hw =
     (let (ranges, planned, rcode) = flash_fill_sect_ranges infos addr_first addr_last in
      if planned \<noteq> 0 \<and> rcode = 0
      then rbind (erase_banks (zip infos ranges) hw) (\<lambda>hw. Inr (0, hw))
      else if rcode = 0 then Inr (1, hw)
      else Inr (rcode, hw))"

definition erase_bank :: "flash_info_t \<Rightarrow> spi_hw \<Rightarrow> fl_exit + spi_hw" where
  "erase_bank info = flash_erase info 0 (uint (fi_sector_count info) - 1)"

fun erase_all :: "flash_info_t list \<Rightarrow> spi_hw \<Rightarrow> fl_exit + spi_hw" where
  "erase_all [] hw = Inr hw"
| "erase_all (info # infos) hw = rbind (erase_bank info hw) (erase_all infos)"

definition do_flerase :: "flash_info_t list \<Rightarrow> string list \<Rightarrow> spi_hw \<Rightarrow> fl_exit + int \<times> spi_hw" where
  "do_flerase infos argv hw =
     (if length argv < 2 then Inr (1, hw)
      else if argv ! 1 = ''all'' then rbind (erase_all infos hw) (\<lambda>hw. Inr (0, hw))
      else case abbrev_spec infos (argv ! 1) of
        Bad_Spec \<Rightarrow> Inr (1, hw)
      | Sectors bank sect_first sect_last \<Rightarrow>
          rbind (flash_erase (infos ! bank) sect_first sect_last hw) (\<lambda>hw. Inr (0, hw))
      | No_Spec \<Rightarrow>
          if length argv \<noteq> 3 then Inr (1, hw)
          else if argv ! 1 = ''bank'' then
            let bank = fst (simple_strtoul (argv ! 2) 16) in
            if bank < 1 \<or> bank > of_nat (length infos) then Inr (1, hw)
            else rbind (erase_bank (infos ! (unat bank - 1)) hw) (\<lambda>hw. Inr (0, hw))
          else case addr_spec infos (argv ! 1) (argv ! 2) of
            None \<Rightarrow> Inr (1, hw)
          | Some (addr_first, addr_last) \<Rightarrow>
              if addr_first \<ge> addr_last then Inr (1, hw)
              else flash_sect_erase infos addr_first addr_last hw)"

subsection \<open>\<open>cp\<close>\<close>

text \<open>
  Memory as the processor sees it: the flash appears in a window while the SPI controller is not in
  manual mode; \<open>m_window\<close> is what it reads there, \<open>m_ram\<close> the rest of the address space.
\<close>

record mach =
  m_ram :: "u32 \<Rightarrow> byte"
  m_hw :: spi_hw
  m_window :: "reg_log \<Rightarrow> u32 \<Rightarrow> byte"

definition flash_window :: "u32 \<Rightarrow> bool" where
  "flash_window a \<longleftrightarrow> 0x80000000 \<le> a \<and> a < 0xc0000000 \<and> a AND 0x1f000000 = 0x1f000000"

definition m_load :: "mach \<Rightarrow> u32 \<Rightarrow> byte" where
  "m_load m a = (if flash_window a then m_window m (hw_log (m_hw m)) a else m_ram m a)"

text \<open>In manual mode only the rest of memory can be read.\<close>

definition m_source :: "mach \<Rightarrow> u32 \<Rightarrow> byte option" where
  "m_source m a = (if flash_window a then None else Some (m_ram m a))"

definition copy_unit :: "u32 \<Rightarrow> u32 \<Rightarrow> u32 \<Rightarrow> mach \<Rightarrow> fl_exit + mach" where
  "copy_unit sz addr dest m =
     (if addr mod sz \<noteq> 0 \<or> dest mod sz \<noteq> 0 \<or> flash_window dest then Inl Bad_Access
      else Inr (m\<lparr>m_ram := (\<lambda>a. if a - dest < sz then m_load m (addr + (a - dest)) else m_ram m a)\<rparr>))"

fun copy_loop :: "u32 \<Rightarrow> nat \<Rightarrow> u32 \<Rightarrow> u32 \<Rightarrow> mach \<Rightarrow> fl_exit + mach" where
  "copy_loop sz 0 addr dest m = Inr m"
| "copy_loop sz (Suc n) addr dest m =
     rbind (copy_unit sz addr dest m) (copy_loop sz n (addr + sz) (dest + sz))"

definition cmd_get_data_size :: "string \<Rightarrow> int \<Rightarrow> int" where
  "cmd_get_data_size arg default_size =
     (let len = length arg in
      if len > 2 \<and> arg ! (len - 2) = CHR ''.'' then
        let c = arg ! (len - 1) in
        if c = CHR ''b'' then 1 else if c = CHR ''w'' then 2 else if c = CHR ''l'' then 4
        else if c = CHR ''s'' then - 2 else - 1
      else default_size)"

text \<open>\<open>base_address\<close> is never changed, as the command \<open>base\<close> is not compiled.\<close>

definition base_address :: u32 where "base_address = 0"

definition do_mem_cp :: "flash_info_t list \<Rightarrow> string list \<Rightarrow> mach \<Rightarrow> fl_exit + int \<times> mach" where
  "do_mem_cp infos argv m =
     (if length argv \<noteq> 4 then Inr (1, m)
      else
        let size = cmd_get_data_size (argv ! 0) 4 in
        if size < 0 then Inr (1, m)
        else
          let addr = fst (simple_strtoul (argv ! 1) 16) + base_address;
              dest = fst (simple_strtoul (argv ! 2) 16) + base_address;
              count = fst (simple_strtoul (argv ! 3) 16) in
          if count = 0 then Inr (1, m)
          else if addr2info infos dest \<noteq> None then
            rbind (flash_write infos (m_source m) addr dest (count * word_of_int size) (m_hw m)) (\<lambda>(rc, hw).
              Inr (if rc \<noteq> 0 then 1 else 0, m\<lparr>m_hw := hw\<rparr>))
          else rbind (copy_loop (word_of_int size) (unat count) addr dest m) (\<lambda>m. Inr (0, m)))"

subsection \<open>The geometry of the board\<close>

text \<open>The table of the board with any protection flags.\<close>

definition geom :: "byte list \<Rightarrow> flash_info_t" where
  "geom pr = flash_get_geom\<lparr>fi_protect := pr\<rparr>"

lemma geom_sel [simp]:
  "fi_size (geom pr) = 0x400000" "fi_sector_count (geom pr) = 64" "fi_flash_id (geom pr) = FLASH_M25P64"
  "fi_protect (geom pr) = pr" "fi_start (geom pr) = map (\<lambda>i. 0x9f000000 + of_nat i * 0x10000) [0..<64]"
  by (simp_all add: geom_def)

lemma geom_board: "geom (replicate 64 0) = flash_get_geom"
  by (simp add: geom_def flash_get_geom_def)

lemma unat_flash_addr: "n \<le> 0x400000 \<Longrightarrow> unat (0x9f000000 + of_nat n :: u32) = 0x9f000000 + n"
  by (subst unat_add_small) (simp_all add: unat_of_nat_small)

lemma of_nat_sector: "(of_nat i * 0x10000 :: u32) = of_nat (i * 0x10000)"
  by simp

lemma geom_start: "i < 64 \<Longrightarrow> fi_start (geom pr) ! i = 0x9f000000 + of_nat (i * 0x10000)"
  by simp

lemma unat_start: "i < 64 \<Longrightarrow> unat (fi_start (geom pr) ! i) = 0x9f000000 + i * 0x10000"
  unfolding geom_start by (rule unat_flash_addr) simp

lemma unat_bank_end: "unat (bank_end (geom pr)) = 0x9f3fffff"
  by (simp add: bank_end_def)

lemma unat_sector_end: "i < 64 \<Longrightarrow> unat (sector_end (geom pr) i) = 0x9f000000 + i * 0x10000 + 0xffff"
proof -
  assume i: "i < 64"
  show ?thesis
  proof (cases "Suc i = 64")
    case True
    then show ?thesis by (simp add: sector_end_def unat_bank_end)
  next
    case False
    then have s: "unat (fi_start (geom pr) ! Suc i) = 0x9f000000 + Suc i * 0x10000" using i by (intro unat_start) simp
    have "sector_end (geom pr) i = fi_start (geom pr) ! Suc i - 1" using False by (simp add: sector_end_def)
    moreover have "unat (fi_start (geom pr) ! Suc i - 1) = unat (fi_start (geom pr) ! Suc i) - unat (1 :: u32)"
      using s by (intro unat_sub) (simp add: word_le_nat_alt del: geom_sel)
    ultimately show ?thesis unfolding s by simp
  qed
qed

lemma unat_sector_behind: "i < 64 \<Longrightarrow> unat (sector_behind (geom pr) i) = 0x9f000000 + Suc i * 0x10000"
  using unat_start [of "Suc i" pr] by (cases "Suc i = 64") (simp_all add: sector_behind_def)

lemmas geom_unat = unat_start unat_sector_end unat_sector_behind unat_bank_end

text \<open>Addresses of the flash are offsets from its base.\<close>

definition flash_addr :: "nat \<Rightarrow> u32" where
  "flash_addr n = 0x9f000000 + of_nat n"

lemma unat_flash [simp]: "n < 0x400000 \<Longrightarrow> unat (flash_addr n) = 0x9f000000 + n"
  unfolding flash_addr_def by (rule unat_flash_addr) simp

lemma geom_cmp:
  assumes "n < 0x400000" "i < 64"
  shows "flash_addr n \<le> sector_end (geom pr) i \<longleftrightarrow> n div 0x10000 \<le> i"
    "sector_end (geom pr) i < flash_addr n \<longleftrightarrow> i < n div 0x10000"
    "fi_start (geom pr) ! i \<le> flash_addr n \<longleftrightarrow> i \<le> n div 0x10000"
    "flash_addr n < fi_start (geom pr) ! i \<longleftrightarrow> n div 0x10000 < i"
    "flash_addr n = fi_start (geom pr) ! i \<longleftrightarrow> i = n div 0x10000 \<and> n mod 0x10000 = 0"
    "flash_addr n = sector_end (geom pr) i \<longleftrightarrow> i = n div 0x10000 \<and> n mod 0x10000 = 0xffff"
    "flash_addr n < sector_behind (geom pr) i \<longleftrightarrow> n div 0x10000 \<le> i"
proof -
  define q r where "q = n div 0x10000" and "r = n mod 0x10000"
  have n: "n = q * 0x10000 + r" "r < 0x10000" by (simp_all add: q_def r_def)
  note u = unat_flash [OF assms(1)] geom_unat(1-3) [OF assms(2), of pr]
  show "flash_addr n \<le> sector_end (geom pr) i \<longleftrightarrow> n div 0x10000 \<le> i"
    "sector_end (geom pr) i < flash_addr n \<longleftrightarrow> i < n div 0x10000"
    "fi_start (geom pr) ! i \<le> flash_addr n \<longleftrightarrow> i \<le> n div 0x10000"
    "flash_addr n < fi_start (geom pr) ! i \<longleftrightarrow> n div 0x10000 < i"
    "flash_addr n < sector_behind (geom pr) i \<longleftrightarrow> n div 0x10000 \<le> i"
    unfolding word_le_nat_alt word_less_nat_alt u q_def [symmetric] mult_Suc using n by (rule_tac iffI; linarith)+
  have e: "x * 0x10000 + y = q * 0x10000 + r \<longleftrightarrow> x = q \<and> y = r" if "y < 0x10000" for x y :: nat
    using that n(2) by (cases x q rule: linorder_cases) linarith+
  show "flash_addr n = fi_start (geom pr) ! i \<longleftrightarrow> i = n div 0x10000 \<and> n mod 0x10000 = 0"
    "flash_addr n = sector_end (geom pr) i \<longleftrightarrow> i = n div 0x10000 \<and> n mod 0x10000 = 0xffff"
    unfolding word_unat_eq_iff u q_def [symmetric] r_def [symmetric] using e [where x = i and y = 0] e [where x = i and y = "0xffff"] n(1) by auto
qed

lemma scan_sectors:
  assumes "n1 \<le> n2" "n2 < 0x400000" "k \<le> 64"
  shows "fold (scan_sector (geom pr) (flash_addr n1) (flash_addr n2)) [0..<k] (- 1, - 1) =
    (if n1 mod 0x10000 = 0 \<and> n1 div 0x10000 < k then int (n1 div 0x10000) else - 1,
     if n2 mod 0x10000 = 0xffff \<and> n2 div 0x10000 < k then int (n2 div 0x10000) else - 1)"
  using assms(3)
proof (induction k)
  case (Suc k)
  have d: "n1 div 0x10000 \<le> n2 div 0x10000" using assms(1) by (rule div_le_mono)
  have n1: "n1 < 0x400000" using assms by simp
  have k: "k < 64" using Suc.prems by simp
  have s: "scan_sector (geom pr) (flash_addr n1) (flash_addr n2) k r =
    (if k < n1 div 0x10000 \<or> n2 div 0x10000 < k then r
     else (if k = n1 div 0x10000 \<and> n1 mod 0x10000 = 0 then int k else fst r,
           if k = n2 div 0x10000 \<and> n2 mod 0x10000 = 0xffff then int k else snd r))" for r
    by (simp only: scan_sector_def geom_cmp [OF n1 k] geom_cmp [OF assms(2) k])
  show ?case using Suc d by (auto simp: s less_Suc_eq)
qed simp

lemma flash_addr_le: "n1 < 0x400000 \<Longrightarrow> n2 < 0x400000 \<Longrightarrow> flash_addr n1 \<le> flash_addr n2 \<longleftrightarrow> n1 \<le> n2"
  by (simp add: word_le_nat_alt)

lemma fill_ranges_geom:
  fixes pr
  assumes "n1 \<le> n2" "n2 < 0x400000"
  defines "r \<equiv> flash_fill_sect_ranges [geom pr] (flash_addr n1) (flash_addr n2)"
  shows "if n1 mod 0x10000 = 0 \<and> n2 mod 0x10000 = 0xffff
    then r = ([(int (n1 div 0x10000), int (n2 div 0x10000))], int (n2 div 0x10000) - int (n1 div 0x10000) + 1, 0)
    else snd (snd r) = 1"
proof -
  have n1: "n1 < 0x400000" using assms by simp
  have d: "n1 div 0x10000 \<le> n2 div 0x10000" "n2 div 0x10000 < 64" using assms by (simp_all add: div_le_mono)
  have le: "flash_addr n1 \<le> flash_addr n2" using assms n1 by (simp add: flash_addr_le)
  have e: "flash_addr n2 > bank_end (geom pr) \<longleftrightarrow> False" "flash_addr n1 < bank_end (geom pr) \<longleftrightarrow> n1 \<noteq> 0x3fffff"
    "flash_addr n1 \<ge> fi_start (geom pr) ! 0"
    using assms n1 unat_bank_end [of pr] unat_start [of 0 pr]
    by (auto simp: word_less_nat_alt word_le_nat_alt simp del: geom_sel)
  have last: "n1 = 0x3fffff \<Longrightarrow> n2 = 0x3fffff" using assms by simp
  show ?thesis
    using le e last d scan_sectors [OF assms(1,2) order_refl, of pr]
    by (auto simp: r_def Let_def simp del: geom_sel(5))
qed

declare flash_fill_sect_ranges.simps [simp del]

subsection \<open>Erasing ranges\<close>

lemma flash_erase_geom: "flash_erase (geom pr) = flash_erase flash_get_geom"
  by (simp add: flash_erase_def [abs_def])

lemma sector_range:
  assumes "n1 mod 0x10000 = 0" "n2 mod 0x10000 = 0xffff"
  shows "int (n1 div 0x10000) \<le> int (p div 0x10000) \<and> int (p div 0x10000) \<le> int (n2 div 0x10000) \<longleftrightarrow> n1 \<le> p \<and> p \<le> n2"
proof -
  have "n1 = n1 div 0x10000 * 0x10000" "n2 = n2 div 0x10000 * 0x10000 + 0xffff" "p = p div 0x10000 * 0x10000 + p mod 0x10000"
    "p mod 0x10000 < 0x10000"
    using assms div_mult_mod_eq [of n1 "0x10000"] div_mult_mod_eq [of n2 "0x10000"] div_mult_mod_eq [of p "0x10000"] by simp_all
  then show ?thesis unfolding of_nat_le_iff by linarith
qed

lemma sect_erase_range:
  assumes "nor_idle c hw" "n1 \<le> n2" "n2 < 0x400000" "n1 mod 0x10000 = 0" "n2 mod 0x10000 = 0xffff"
  shows "\<exists>hw'. flash_sect_erase [geom pr] (flash_addr n1) (flash_addr n2) hw = Inr (0, hw') \<and> nor_idle c hw' \<and>
    nor_view c hw' = (\<lambda>p. if n1 \<le> p \<and> p \<le> n2 then 0xFF else nor_view c hw p)"
proof -
  have r: "flash_fill_sect_ranges [geom pr] (flash_addr n1) (flash_addr n2) =
    ([(int (n1 div 0x10000), int (n2 div 0x10000))], int (n2 div 0x10000) - int (n1 div 0x10000) + 1, 0)"
    using fill_ranges_geom [OF assms(2,3), of pr] assms(4,5) by simp
  have "0 \<le> int (n1 div 0x10000)" "int (n2 div 0x10000) < 64" using assms(3) by simp_all
  from flash_erase_sectors [OF assms(1) this] obtain hw' where
    "flash_erase flash_get_geom (int (n1 div 0x10000)) (int (n2 div 0x10000)) hw = Inr hw'" "nor_idle c hw'"
    "nor_view c hw' = (\<lambda>p. if n1 \<le> p \<and> p \<le> n2 then 0xFF else nor_view c hw p)"
    unfolding sector_range [OF assms(4,5)] by blast
  moreover have "int (n2 div 0x10000) - int (n1 div 0x10000) + 1 \<noteq> 0"
    using div_le_mono [OF assms(2), of "0x10000"] by simp
  ultimately show ?thesis
    by (simp add: flash_sect_erase_def r flash_erase_geom del: of_nat_div)
qed

lemma unat_flash_mod: "n < 0x400000 \<Longrightarrow> unat (flash_addr n) mod 0x10000 = n mod 0x10000"
  using mod_mult_self1 [of n "0x9f00" "0x10000"] by (simp add: add.commute)

text \<open>Ranges that are not inside the flash; \<open>a\<close> and \<open>b\<close> are the two ends.\<close>

lemma flash_addr_cases:
  obtains (below) "unat a < 0x9f000000" | (inside) n where "a = flash_addr n" "n < 0x400000" | (above) "0x9f400000 \<le> unat a"
proof -
  have "a = flash_addr (unat a - 0x9f000000)" if "0x9f000000 \<le> unat a"
  proof -
    have "(of_nat (unat a - 0x9f000000) :: u32) = a - 0x9f000000" using that by (simp add: of_nat_diff)
    then show ?thesis by (simp add: flash_addr_def)
  qed
  then show ?thesis using that by (cases "unat a < 0x9f000000"; cases "0x9f400000 \<le> unat a") auto
qed

lemma scan_first:
  assumes "\<And>i. i < k \<Longrightarrow> a \<noteq> fi_start info ! i" "fst r = - 1"
  shows "fst (fold (scan_sector info a b) [0..<k] r) = - 1"
  using assms by (induction k) (auto simp: scan_sector_def)

lemma scan_above:
  assumes "n < 0x400000" "0x9f400000 \<le> unat b" "k \<le> 64"
  shows "fold (scan_sector (geom pr) (flash_addr n) b) [0..<k] (- 1, - 1) =
    (if n mod 0x10000 = 0 \<and> n div 0x10000 < k then int (n div 0x10000) else - 1, - 1)"
  using assms(3)
proof (induction k)
  case (Suc k)
  then have k: "k < 64" by simp
  have "\<not> b < fi_start (geom pr) ! k" "b \<noteq> sector_end (geom pr) k"
    using assms(2) k unat_start [OF k, of pr] unat_sector_end [OF k, of pr] by (auto simp: word_less_nat_alt simp del: geom_sel)
  then have s: "scan_sector (geom pr) (flash_addr n) b k r =
    (if k < n div 0x10000 then r else (if k = n div 0x10000 \<and> n mod 0x10000 = 0 then int k else fst r, snd r))" for r
    by (simp add: scan_sector_def geom_cmp [OF assms(1) k] del: geom_sel)
  show ?case using Suc by (auto simp: s less_Suc_eq)
qed simp

lemma fill_ranges_outside:
  fixes pr b
  assumes "\<not> (0x9f000000 \<le> unat a \<and> unat a < 0x9f400000)"
  defines "r \<equiv> flash_fill_sect_ranges [geom pr] a b"
  shows "snd (snd r) = 1 \<or> fst (snd r) = 0 \<and> snd (snd r) = 0"
proof -
  define q where "q = fold (scan_sector (geom pr) a b) [0..<64] (- 1, - 1)"
  have "a \<noteq> fi_start (geom pr) ! i" if "i < 64" for i
    using unat_start [OF that, of pr] assms(1) that by (auto simp del: geom_sel)
  then have q: "fst q = - 1" unfolding q_def by (intro scan_first) simp_all
  have "\<not> (a \<ge> fi_start (geom pr) ! 0 \<and> a < bank_end (geom pr))"
    using assms(1) unat_start [of 0 pr] unat_bank_end [of pr] by (auto simp: word_less_nat_alt word_le_nat_alt simp del: geom_sel)
  then show ?thesis
    using q unfolding r_def flash_fill_sect_ranges.simps by (simp add: q_def [symmetric] split_def Let_def flash_fill_sect_ranges.simps del: geom_sel(5))
qed

lemma fill_ranges_above:
  fixes pr
  assumes "n < 0x400000" "0x9f400000 \<le> unat b"
  defines "r \<equiv> flash_fill_sect_ranges [geom pr] (flash_addr n) b"
  shows "if n mod 0x10000 = 0 then r = ([(int (n div 0x10000), 63)], 64 - int (n div 0x10000), 0)
    else snd (snd r) = 1 \<or> fst (snd r) = 0 \<and> snd (snd r) = 0"
proof -
  have d: "n div 0x10000 < 64" using assms(1) by simp
  have e: "flash_addr n \<le> b" "bank_end (geom pr) < b"
    using assms(1,2) unat_bank_end [of pr] by (simp_all add: word_le_nat_alt word_less_nat_alt)
  show ?thesis
    using e d scan_above [OF assms(1,2) order_refl, of pr]
    by (auto simp: r_def Let_def flash_fill_sect_ranges.simps simp del: geom_sel(5))
qed

lemma sect_erase_none:
  "fst (snd r) = 0 \<and> snd (snd r) = 0 \<or> snd (snd r) = 1 \<Longrightarrow> r = flash_fill_sect_ranges [geom pr] a b \<Longrightarrow>
   flash_sect_erase [geom pr] a b hw = Inr (1, hw)"
  by (auto simp: flash_sect_erase_def split_def)

lemma sect_erase_to_end:
  assumes "nor_idle c hw" "n < 0x400000" "n mod 0x10000 = 0" "0x9f400000 \<le> unat b"
  shows "\<exists>hw'. flash_sect_erase [geom pr] (flash_addr n) b hw = Inr (0, hw') \<and> nor_idle c hw' \<and>
    nor_view c hw' = (\<lambda>p. if n \<le> p \<and> p < 0x400000 then 0xFF else nor_view c hw p)"
proof -
  have r: "flash_fill_sect_ranges [geom pr] (flash_addr n) b = ([(int (n div 0x10000), 63)], 64 - int (n div 0x10000), 0)"
    using fill_ranges_above [OF assms(2,4), of pr] assms(3) by simp
  have i: "0 \<le> int (n div 0x10000)" "(63 :: int) < 64" by simp_all
  have "(0x3fffff :: nat) div 0x10000 = 63" "(0x3fffff :: nat) mod 0x10000 = 0xffff" by simp_all
  then have s: "int (n div 0x10000) \<le> int (p div 0x10000) \<and> int (p div 0x10000) \<le> 63 \<longleftrightarrow> n \<le> p \<and> p < 0x400000" for p
    using sector_range [OF assms(3), of "0x3fffff" p] by auto
  from flash_erase_sectors [OF assms(1) i] obtain hw' where
    "flash_erase flash_get_geom (int (n div 0x10000)) 63 hw = Inr hw'" "nor_idle c hw'"
    "nor_view c hw' = (\<lambda>p. if n \<le> p \<and> p < 0x400000 then 0xFF else nor_view c hw p)"
    unfolding s by blast
  moreover have "64 - int (n div 0x10000) \<noteq> 0" using assms(2) by linarith
  ultimately show ?thesis
    by (simp add: flash_sect_erase_def r flash_erase_geom del: of_nat_div)
qed

text \<open>
  C24: \<open>flash_sect_erase\<close> on any two addresses whatever. It erases exactly when the first address is the start of a sector and
  the last one is not before it and is the end of a sector or any address behind the flash; then it returns 0 and the bytes
  of the flash from the first address to the last, or to the end of the flash, are 0xFF and all others as before (so a range
  that runs past the end of the flash is cut off there, not refused). In all other cases it returns 1 and touches nothing.
\<close>
theorem flash_sect_erase_exact:
  fixes a b :: u32
  assumes "nor_idle c hw"
  shows "if 0x9f000000 \<le> unat a \<and> unat a < 0x9f400000 \<and> unat a mod 0x10000 = 0 \<and> a \<le> b \<and>
        (unat b mod 0x10000 = 0xffff \<or> 0x9f400000 \<le> unat b)
    then \<exists>hw'. flash_sect_erase [geom pr] a b hw = Inr (0, hw') \<and> nor_idle c hw' \<and>
      nor_view c hw' = (\<lambda>p. if unat a \<le> 0x9f000000 + p \<and> 0x9f000000 + p \<le> unat b \<and> p < 0x400000 then 0xFF else nor_view c hw p)
    else flash_sect_erase [geom pr] a b hw = Inr (1, hw)"
proof (cases "a \<le> b")
  case False
  then have "flash_sect_erase [geom pr] a b hw = Inr (1, hw)"
    by (simp add: flash_sect_erase_def flash_fill_sect_ranges.simps)
  with False show ?thesis by simp
next
  case le: True
  have out: "flash_sect_erase [geom pr] a b hw = Inr (1, hw)" if "\<not> (0x9f000000 \<le> unat a \<and> unat a < 0x9f400000)"
    using fill_ranges_outside [OF that, of pr b] by (intro sect_erase_none [OF _ refl]) auto
  show ?thesis
  proof (cases a rule: flash_addr_cases)
    case (inside n)
    note n = inside
    have m: "unat a mod 0x10000 = n mod 0x10000" unfolding n(1) by (rule unat_flash_mod [OF n(2)])
    show ?thesis
    proof (cases b rule: flash_addr_cases)
      case (inside n2)
      have m2: "unat b mod 0x10000 = n2 mod 0x10000" unfolding inside(1) by (rule unat_flash_mod [OF inside(2)])
      have l: "n \<le> n2" using le n inside by (simp add: flash_addr_le)
      have p: "unat a \<le> 0x9f000000 + p \<and> 0x9f000000 + p \<le> unat b \<and> p < 0x400000 \<longleftrightarrow> n \<le> p \<and> p \<le> n2" for p
        using n inside by auto
      have x: "0x9f000000 \<le> unat a \<and> unat a < 0x9f400000 \<and> unat a mod 0x10000 = 0 \<and> a \<le> b \<and>
          (unat b mod 0x10000 = 0xffff \<or> 0x9f400000 \<le> unat b) \<longleftrightarrow> n mod 0x10000 = 0 \<and> n2 mod 0x10000 = 0xffff"
        unfolding m m2 using n inside le by simp
      show ?thesis
        unfolding x p using sect_erase_range [OF assms l inside(2), of pr] fill_ranges_geom [OF l inside(2), of pr] n(1) inside(1)
        by (auto intro!: sect_erase_none [OF _ refl])
    next
      case above
      have p: "unat a \<le> 0x9f000000 + p \<and> 0x9f000000 + p \<le> unat b \<and> p < 0x400000 \<longleftrightarrow> n \<le> p \<and> p < 0x400000" for p
        using n above by auto
      have x: "0x9f000000 \<le> unat a \<and> unat a < 0x9f400000 \<and> unat a mod 0x10000 = 0 \<and> a \<le> b \<and>
          (unat b mod 0x10000 = 0xffff \<or> 0x9f400000 \<le> unat b) \<longleftrightarrow> n mod 0x10000 = 0"
        unfolding m using n above le by simp
      show ?thesis
        unfolding x p using sect_erase_to_end [OF assms n(2) _ above, of pr] fill_ranges_above [OF n(2) above, of pr] n(1)
        by (auto intro!: sect_erase_none [OF _ refl])
    next
      case below
      then have False using le n by (simp add: word_le_nat_alt)
      then show ?thesis ..
    qed
  qed (use out in simp_all)
qed

theorem flash_sect_erase_exact_witness:
  "(\<exists>hw'. flash_sect_erase [flash_get_geom] 0x9f020000 0x9f02ffff sim_hw = Inr (0, hw') \<and>
     nor_view (sim_chip (\<lambda>_. 0)) hw' 0x2abcd = 0xFF \<and> nor_view (sim_chip (\<lambda>_. 0)) hw' 0x30000 = 0) \<and>
   (\<exists>hw'. flash_sect_erase [flash_get_geom] 0x9f3f0000 0xffffffff sim_hw = Inr (0, hw') \<and>
     nor_view (sim_chip (\<lambda>_. 0)) hw' 0x3fffff = 0xFF) \<and>
   flash_sect_erase [flash_get_geom] 0x9f020001 0x9f02ffff sim_hw = Inr (1, sim_hw)"
  unfolding geom_board [symmetric]
  using flash_sect_erase_exact [OF sim_hw_idle [of "\<lambda>_. 0"], of "0x9f020000" "0x9f02ffff" "replicate 64 0"]
    flash_sect_erase_exact [OF sim_hw_idle [of "\<lambda>_. 0"], of "0x9f3f0000" "0xffffffff" "replicate 64 0"]
    flash_sect_erase_exact [OF sim_hw_idle [of "\<lambda>_. 0"], of "0x9f020001" "0x9f02ffff" "replicate 64 0"]
  by (auto simp: sim_hw_view)

lemma find_upt:
  assumes "k < n" "P k" "\<And>j. j < k \<Longrightarrow> \<not> P j"
  shows "find P [0..<n] = Some k"
  using assms by (auto simp: find_Some_iff intro!: exI [of _ k])

lemma find_map: "find P (map f xs) = map_option f (find (P \<circ> f) xs)"
  by (induction xs) auto

lemma round_up_geom:
  assumes "n < 0x400000"
  shows "round_up [geom pr] (flash_addr n) = Some (flash_addr (n div 0x10000 * 0x10000 + 0xffff))"
proof -
  let ?k = "n div 0x10000"
  have k: "?k < 64" using assms by simp
  have "find ((\<lambda>(info, i). flash_addr n \<le> sector_end info i \<and> flash_addr n \<ge> fi_start info ! i) \<circ> Pair (geom pr)) [0..<64] = Some ?k"
  proof (rule find_upt [OF k])
    show "((\<lambda>(info, i). flash_addr n \<le> sector_end info i \<and> flash_addr n \<ge> fi_start info ! i) \<circ> Pair (geom pr)) ?k"
      using geom_cmp(1,3) [OF assms k, of pr] by simp
    show "\<not> ((\<lambda>(info, i). flash_addr n \<le> sector_end info i \<and> flash_addr n \<ge> fi_start info ! i) \<circ> Pair (geom pr)) j" if "j < ?k" for j
      using geom_cmp(1) [OF assms, of j pr] that k by simp
  qed
  moreover have "sector_end (geom pr) ?k = flash_addr (?k * 0x10000 + 0xffff)"
  proof -
    have "?k * 0x10000 + 0xffff < 0x400000" using k by simp
    then show ?thesis using unat_sector_end [OF k, of pr] by (simp add: word_unat_eq_iff)
  qed
  ultimately show ?thesis by (simp add: round_up_def find_map)
qed

lemma flash_addr_add: "flash_addr n + of_nat k = flash_addr (n + k)"
  by (simp add: flash_addr_def)

lemma parse_all_bank: "parse_number ''all'' 16 = None" "parse_number ''bank'' 16 = None"
  by (simp_all add: parse_number_def simple_strtoul_def peek_def isxdigit_iff isdigit_iff digit_value_def Let_def)

lemma flerase_start_length:
  assumes "nor_idle c hw" "parse_number arg1 16 = Some (flash_addr n)" "n mod 0x10000 = 0" "CHR '':'' \<notin> set arg1"
    "parse_number arg2 16 = Some len" "0 < unat len" "n + unat len \<le> 0x400000"
  shows "\<exists>hw'. do_flerase [geom pr] [cmd, arg1, CHR ''+'' # arg2] hw = Inr (0, hw') \<and> nor_idle c hw' \<and>
    nor_view c hw' = (\<lambda>p. if n \<le> p \<and> p < ((n + unat len - 1) div 0x10000 + 1) * 0x10000 then 0xFF else nor_view c hw p)"
proof -
  define e where "e = (n + unat len - 1) div 0x10000 * 0x10000 + 0xffff"
  have l: "n + unat len - 1 < 0x400000" using assms(6,7) by simp
  then have "(n + unat len - 1) div 0x10000 < 64" by simp
  then have e: "e < 0x400000" unfolding e_def by linarith
  have le: "n \<le> n + unat len - 1" using assms(6) by simp
  have ne: "n < e"
  proof -
    have "n div 0x10000 \<le> (n + unat len - 1) div 0x10000" using le by (rule div_le_mono)
    moreover have "n = n div 0x10000 * 0x10000" using assms(3) div_mult_mod_eq [of n "0x10000"] by simp
    ultimately show ?thesis unfolding e_def by linarith
  qed
  have "flash_addr n + len - 1 = flash_addr (n + unat len - 1)"
  proof -
    have "of_nat (unat len - 1) = len - 1" using assms(6) by (simp add: of_nat_diff)
    then have "flash_addr n + (len - 1) = flash_addr (n + (unat len - 1))" by (simp add: flash_addr_add [symmetric])
    then show ?thesis using assms(6) by (simp add: algebra_simps)
  qed
  then have spec: "addr_spec [geom pr] arg1 (CHR ''+'' # arg2) = Some (flash_addr n, flash_addr e)"
    using assms(2,5) round_up_geom [OF l, of pr] by (simp add: addr_spec_def peek_def e_def)
  have "arg1 \<noteq> ''all''" "arg1 \<noteq> ''bank''" using assms(2) parse_all_bank by auto
  moreover have "abbrev_spec [geom pr] arg1 = No_Spec" using assms(4) by (simp add: abbrev_spec_def split_at_def)
  moreover have "\<not> flash_addr n \<ge> flash_addr e" using ne e by (simp add: flash_addr_le)
  ultimately have "do_flerase [geom pr] [cmd, arg1, CHR ''+'' # arg2] hw = flash_sect_erase [geom pr] (flash_addr n) (flash_addr e) hw"
    using spec by (simp add: do_flerase_def)
  moreover have "e mod 0x10000 = 0xffff" by (simp add: e_def)
  moreover have "p \<le> e \<longleftrightarrow> p < ((n + unat len - 1) div 0x10000 + 1) * 0x10000" for p by (auto simp: e_def)
  ultimately show ?thesis using sect_erase_range [OF assms(1) less_imp_le [OF ne] e assms(3), of pr] by simp
qed

text \<open>
  \<open>erase start +len\<close> with a start on a sector boundary erases the flash from the start to the end of
  the sector that contains the last byte of the range, and nothing else.
\<close>
theorem do_flerase_start_length:
  assumes "nor_idle c hw" "parse_number arg1 16 = Some (flash_addr n)" "n mod 0x10000 = 0" "CHR '':'' \<notin> set arg1"
    "parse_number arg2 16 = Some len" "0 < unat len" "n + unat len \<le> 0x400000"
  shows "\<exists>hw'. do_flerase [geom pr] [cmd, arg1, CHR ''+'' # arg2] hw = Inr (0, hw') \<and> nor_idle c hw' \<and>
    nor_view c hw' = (\<lambda>p. if n \<le> p \<and> p < ((n + unat len - 1) div 0x10000 + 1) * 0x10000 then 0xFF else nor_view c hw p)"
  using assms by (rule flerase_start_length)

lemmas parse_eval = parse_number_def simple_strtoul_def peek_def isxdigit_iff isdigit_iff digit_value_def Let_def

lemma parse_recovery:
  "parse_number ''0x9f020000'' 16 = Some 0x9f020000" "parse_number ''3c0000'' 16 = Some 0x3c0000"
  by (simp_all add: parse_eval islower_iff of_char_toupper)

lemma flash_addr_20000: "flash_addr 0x20000 = 0x9f020000"
  by (simp add: flash_addr_def)

theorem do_flerase_start_length_witness:
  "\<exists>hw'. do_flerase [flash_get_geom] [''erase'', ''0x9f020000'', ''+3c0000''] sim_hw = Inr (0, hw') \<and>
     nor_view (sim_chip (\<lambda>_. 0)) hw' 0x3dffff = 0xFF \<and> nor_view (sim_chip (\<lambda>_. 0)) hw' 0x3e0000 = 0"
  unfolding geom_board [symmetric]
  using do_flerase_start_length [OF sim_hw_idle [of "\<lambda>_. 0"], of "''0x9f020000''" "0x20000" "''3c0000''" "0x3c0000"
    "replicate 64 0" "''erase''"]
  by (auto simp: parse_recovery flash_addr_20000 sim_hw_view)

text \<open>
  Sector numbers are compared as \<open>int\<close>, without a test for negative values: the abbreviation
  \<open>1:4294967295\<close> is accepted as sector -1, and \<open>erase\<close> sends the erase command for the address
  \<open>0xff0000\<close> behind the end of the chip.
\<close>
theorem abbrev_spec_negative_sector:
  "abbrev_spec [flash_get_geom] ''1:4294967295'' = Sectors 0 (- 1) (- 1) \<and>
   do_flerase [flash_get_geom] [''erase'', ''1:4294967295''] hw =
     rbind (ath_spi_sector_erase (- 0x10000) hw) (\<lambda>hw. Inr (0, ath_spi_done hw)) \<and>
   ath_spi_send_addr (- 0x10000) = ath_spi_send_addr 0xff0000"
proof -
  have "parse_number ''4294967295'' 10 = Some 0xffffffff" "parse_number ''1'' 10 = Some 1"
    by (simp_all add: parse_eval)
  then have a: "abbrev_spec [flash_get_geom] ''1:4294967295'' = Sectors 0 (- 1) (- 1)"
    by (simp add: abbrev_spec_def split_at_def Let_def)
  have "do_flerase [flash_get_geom] [''erase'', ''1:4294967295''] hw =
     rbind (ath_spi_sector_erase (- 0x10000) hw) (\<lambda>hw. Inr (0, ath_spi_done hw))"
    by (simp add: do_flerase_def a flash_erase_def erase_loop.simps [of _ _ "- 1"] erase_loop.simps [of _ _ 0] rbind_assoc)
  with a show ?thesis by (simp add: ath_spi_send_addr_def)
qed

subsection \<open>Writing\<close>

lemma addr2info_geom: "addr2info [geom pr] a = (if 0x9f000000 \<le> unat a \<and> unat a < 0x9f400000 then Some 0 else None)"
  using unat_bank_end [of pr] unat_start [of 0 pr]
  by (auto simp: addr2info_def word_le_nat_alt simp del: geom_sel(5))

text \<open>The sectors a range of offsets meets.\<close>

definition meets :: "nat \<Rightarrow> nat \<Rightarrow> nat \<Rightarrow> bool" where
  "meets n cnt i \<longleftrightarrow> n div 0x10000 \<le> i \<and> i \<le> (n + cnt - 1) div 0x10000"

lemma range_protected_geom:
  assumes "n1 < 0x400000" "n2 < 0x400000"
  shows "range_protected (flash_addr n1) (flash_addr n2) (geom pr) \<longleftrightarrow>
    (\<exists>i < 64. n1 div 0x10000 \<le> i \<and> i \<le> n2 div 0x10000 \<and> pr ! i \<noteq> 0)"
  using geom_cmp(3) [OF assms(2), of _ pr] geom_cmp(7) [OF assms(1), of _ pr]
  by (auto simp: range_protected_def list_ex_iff simp del: geom_sel(5))

lemma flash_addr_last: "0 < unat cnt \<Longrightarrow> flash_addr n + cnt - 1 = flash_addr (n + unat cnt - 1)"
proof -
  assume c: "0 < unat cnt"
  have "of_nat (unat cnt - 1) = cnt - 1" using c by (simp add: of_nat_diff)
  then have "flash_addr n + (cnt - 1) = flash_addr (n + (unat cnt - 1))" by (simp add: flash_addr_add [symmetric])
  then show ?thesis using c by (simp add: algebra_simps)
qed

lemma flash_write_geom:
  assumes "n + unat cnt \<le> 0x400000" "0 < unat cnt"
  shows "flash_write [geom pr] mem src (flash_addr n) cnt hw =
    (if \<exists>i < 64. meets n (unat cnt) i \<and> pr ! i \<noteq> 0 then Inr (4, hw)
     else rbind (write_buff mem src (flash_addr n) cnt hw) (\<lambda>hw. Inr (0, hw)))"
proof -
  have n: "n < 0x400000" "n + unat cnt - 1 < 0x400000" using assms by simp_all
  have a: "addr2info [geom pr] (flash_addr n) = Some 0" "addr2info [geom pr] (flash_addr (n + unat cnt - 1)) = Some 0"
    using n by (simp_all add: addr2info_geom)
  have c: "cnt \<noteq> 0" using assms(2) by auto
  have l: "fi_start (geom pr) ! 0 + fi_size (geom pr) - flash_addr n = flash_addr 0x400000 - flash_addr n"
    by (simp add: flash_addr_def)
  have "unat (flash_addr 0x400000 - flash_addr n) = 0x400000 - n"
  proof -
    have "unat (flash_addr 0x400000) = 0x9f400000" by (simp add: flash_addr_def)
    then show ?thesis using n by (subst unat_sub) (simp_all add: word_le_nat_alt)
  qed
  then have "\<not> fi_start (geom pr) ! 0 + fi_size (geom pr) - flash_addr n > cnt \<Longrightarrow>
      fi_start (geom pr) ! 0 + fi_size (geom pr) - flash_addr n = cnt"
    using assms(1) unfolding l by (simp add: word_less_nat_alt word_unat_eq_iff)
  then have len: "(if fi_start (geom pr) ! 0 + fi_size (geom pr) - flash_addr n > cnt then cnt
      else fi_start (geom pr) ! 0 + fi_size (geom pr) - flash_addr n) = cnt" by argo
  have w: "flash_write_loop mem [geom pr] src (flash_addr n) cnt hw = write_buff mem src (flash_addr n) cnt hw"
    unfolding flash_write_loop.simps Let_def len using c
    by (cases "write_buff mem src (flash_addr n) cnt hw") (simp_all add: word_neq_0_conv)
  have p: "range_protected (flash_addr n) (flash_addr (n + unat cnt - 1)) (geom pr) \<longleftrightarrow>
    (\<exists>i < 64. meets n (unat cnt) i \<and> pr ! i \<noteq> 0)"
    using range_protected_geom [OF n, of pr] by (auto simp: meets_def)
  show ?thesis
    using a c p w by (auto simp: flash_write_def flash_addr_last [OF assms(2)] Let_def simp del: flash_write_loop.simps)
qed

lemma flash_base_offset: "flash_addr n - CFG_FLASH_BASE = of_nat n"
  by (simp add: flash_addr_def)

lemma flash_write_programs:
  assumes "nor_idle c hw" "n mod 256 = 0" "n + unat cnt \<le> 0x400000" "0 < unat cnt" "length ds = unat cnt"
    "\<And>i. i < unat cnt \<Longrightarrow> mem (src + of_nat i) = Some (ds ! i)"
    "\<And>i. i < 64 \<Longrightarrow> meets n (unat cnt) i \<Longrightarrow> pr ! i = 0"
  shows "\<exists>hw'. flash_write [geom pr] mem src (flash_addr n) cnt hw = Inr (0, hw') \<and> nor_idle c hw' \<and>
    nor_view c hw' = programmed n ds (nor_view c hw)"
proof -
  have "unat (flash_addr n - CFG_FLASH_BASE) = n"
    unfolding flash_base_offset using assms(3) by (simp add: unat_of_nat_small)
  then obtain hw' where "write_buff mem src (flash_addr n) cnt hw = Inr hw'" "nor_idle c hw'"
    "nor_view c hw' = programmed n ds (nor_view c hw)"
    using write_buff_aligned [OF assms(1), of "flash_addr n" cnt ds mem src] assms by auto
  then show ?thesis using assms(7) by (auto simp: flash_write_geom [OF assms(3,4)])
qed

text \<open>Protection.\<close>

lemma flash_protect_set:
  assumes "from \<le> n2" "n2 < 0x400000" "length pr = 64"
  shows "flash_protect FLAG_PROTECT_SET (flash_addr from) (flash_addr n2) (geom pr) =
    geom (map (\<lambda>i. if from div 0x10000 \<le> i \<and> i \<le> n2 div 0x10000 then 1 else pr ! i) [0..<64])"
proof -
  have f: "from < 0x400000" using assms by simp
  define step where "step = (\<lambda>i info. if flash_addr from \<le> sector_end info i \<and> flash_addr n2 \<ge> fi_start info ! i
             then if FLAG_PROTECT_SET AND FLAG_PROTECT_CLEAR \<noteq> 0 then info\<lparr>fi_protect := (fi_protect info)[i := 0]\<rparr>
                  else if FLAG_PROTECT_SET AND FLAG_PROTECT_SET \<noteq> 0 then info\<lparr>fi_protect := (fi_protect info)[i := 1]\<rparr>
                  else info
             else info)"
  define in_range where "in_range i \<longleftrightarrow> from div 0x10000 \<le> i \<and> i \<le> n2 div 0x10000" for i
  have upd: "(geom pr)\<lparr>fi_protect := pr'\<rparr> = geom pr'" for pr pr' by (simp add: geom_def)
  have step: "step i (geom q) = geom (if in_range i then q[i := 1] else q)" if "i < 64" for i q
    using geom_cmp(1) [OF f that, of q] geom_cmp(3) [OF assms(2) that, of q]
    by (simp add: step_def in_range_def upd del: geom_sel(5))
  have "fold step [0..<k] (geom pr) = geom (map (\<lambda>i. if i < k \<and> in_range i then 1 else pr ! i) [0..<64])" if "k \<le> 64" for k
    using that
  proof (induction k)
    case 0
    have "map ((!) pr) [0..<64] = pr" using map_nth [of pr] assms(3) by simp
    then show ?case by simp
  next
    case (Suc k)
    let ?q = "map (\<lambda>i. if i < k \<and> in_range i then 1 else pr ! i) [0..<64]"
    have "(if in_range k then ?q[k := 1] else ?q) = map (\<lambda>i. if i < Suc k \<and> in_range i then 1 else pr ! i) [0..<64]"
      using Suc.prems by (auto intro!: nth_equalityI simp: nth_list_update less_Suc_eq simp del: upt_rec_numeral)
    then show ?case using Suc step [of k ?q] by (simp del: upt_rec_numeral)
  qed
  from this [OF order_refl] have "fold step [0..<64] (geom pr) = geom (map (\<lambda>i. if in_range i then 1 else pr ! i) [0..<64])"
    by (simp cong: map_cong del: upt_rec_numeral)
  moreover have "\<not> flash_addr n2 < flash_addr from" "\<not> flash_addr n2 < fi_start (geom pr) ! 0" "\<not> flash_addr from > bank_end (geom pr)"
    using assms f unat_bank_end [of pr] unat_start [of 0 pr] by (simp_all add: word_less_nat_alt del: geom_sel(5))
  ultimately show ?thesis
    by (simp add: flash_protect_def step_def [symmetric] in_range_def [symmetric] del: geom_sel(5) upt_rec_numeral)
qed

lemma flash_write_outside:
  assumes "cnt \<noteq> 0" "unat addr + unat cnt \<le> 0x100000000" "\<not> (0x9f000000 \<le> unat addr \<and> unat addr + unat cnt \<le> 0x9f400000)"
  shows "flash_write [geom pr] mem src addr cnt hw = Inr (ERR_INVAL, hw)"
proof -
  have c: "0 < unat cnt" using assms(1) by (simp add: unat_gt_0)
  have "addr + cnt - 1 = of_nat (unat addr + unat cnt - 1)" using c by (simp add: of_nat_diff)
  then have "unat (addr + cnt - 1) = unat addr + unat cnt - 1"
    using assms(2) c by (simp only:) (rule unat_of_nat_small, simp)
  then have "addr2info [geom pr] addr = None \<or> addr2info [geom pr] (addr + cnt - 1) = None"
    using assms(3) c by (auto simp: addr2info_geom)
  then show ?thesis
    using assms(1) by (auto simp: flash_write_def Let_def split: option.splits)
qed

text \<open>
  C28: What \<open>flash_write\<close> does with any range of at least one byte that does not wrap around the address space, after
  \<open>flash_protect\<close> of some range of the flash: a range with any byte outside the flash is refused (\<open>ERR_INVAL\<close>), and so is one that
  meets a sector which is protected, now or before (\<open>ERR_PROTECTED\<close>), both without touching the hardware; every other
  range is written by the driver.
\<close>
theorem protected_not_written:
  assumes "from \<le> n2" "n2 < 0x400000" "length pr = 64"
    and "cnt \<noteq> 0" "unat addr + unat cnt \<le> 0x100000000"
  shows "flash_write [flash_protect FLAG_PROTECT_SET (flash_addr from) (flash_addr n2) (geom pr)] mem src addr cnt hw =
    (if \<not> (0x9f000000 \<le> unat addr \<and> unat addr + unat cnt \<le> 0x9f400000) then Inr (ERR_INVAL, hw)
     else if \<exists>i < 64. meets (unat addr - 0x9f000000) (unat cnt) i \<and> (from div 0x10000 \<le> i \<and> i \<le> n2 div 0x10000 \<or> pr ! i \<noteq> 0)
     then Inr (ERR_PROTECTED, hw)
     else rbind (write_buff mem src addr cnt hw) (\<lambda>hw. Inr (ERR_OK, hw)))"
proof (cases "0x9f000000 \<le> unat addr \<and> unat addr + unat cnt \<le> 0x9f400000")
  case True
  have c: "0 < unat cnt" using assms(4) by (simp add: unat_gt_0)
  obtain n where n: "addr = flash_addr n" "n < 0x400000" using True c by (cases addr rule: flash_addr_cases) auto
  then have u: "unat addr - 0x9f000000 = n" "n + unat cnt \<le> 0x400000" using True by simp_all
  have e: "(\<exists>i < 64. meets n (unat cnt) i \<and> map (\<lambda>i. if from div 0x10000 \<le> i \<and> i \<le> n2 div 0x10000 then 1 else pr ! i) [0..<64] ! i \<noteq> 0) \<longleftrightarrow>
      (\<exists>i < 64. meets n (unat cnt) i \<and> (from div 0x10000 \<le> i \<and> i \<le> n2 div 0x10000 \<or> pr ! i \<noteq> 0))"
    by (intro ex_cong1 conj_cong refl) (auto simp del: upt_rec_numeral)
  show ?thesis
    using True unfolding flash_protect_set [OF assms(1-3)] u(1) unfolding n(1) flash_write_geom [OF u(2) c] e by simp
next
  case False
  then show ?thesis
    using flash_write_outside [OF assms(4,5)] by (simp add: flash_protect_set [OF assms(1-3)] del: upt_rec_numeral)
qed

theorem protected_not_written_witness:
  "flash_write [flash_protect 1 (flash_addr 0) (flash_addr 0x1ffff) flash_get_geom] (\<lambda>_. None) 0 0x9f01ff00 0x200 sim_hw = Inr (4, sim_hw) \<and>
   flash_write [flash_protect 1 (flash_addr 0) (flash_addr 0x1ffff) flash_get_geom] (\<lambda>_. None) 0 0x9f3fff00 0x200 sim_hw = Inr (8, sim_hw) \<and>
   flash_write [flash_protect 1 (flash_addr 0) (flash_addr 0x1ffff) flash_get_geom] (\<lambda>_. None) 0 0x80000000 1 sim_hw = Inr (8, sim_hw)"
proof -
  note p = protected_not_written [of 0 "0x1ffff" "replicate 64 0", unfolded geom_board]
  have "\<exists>i < 64. meets (unat (0x9f01ff00 :: u32) - 0x9f000000) (unat (0x200 :: u32)) i \<and> ((0 :: nat) div 0x10000 \<le> i \<and> i \<le> 0x1ffff div 0x10000 \<or> replicate 64 (0 :: byte) ! i \<noteq> 0)"
    by (intro exI [of _ 1]) (simp add: meets_def)
  then have "flash_write [flash_protect 1 (flash_addr 0) (flash_addr 0x1ffff) flash_get_geom] (\<lambda>_. None) 0 0x9f01ff00 0x200 sim_hw = Inr (4, sim_hw)"
    by (subst p) simp_all
  then show ?thesis by (simp add: p)
qed

lemma cp_to_flash:
  assumes "nor_idle c (m_hw m)" "fst (simple_strtoul src 16) = s" "fst (simple_strtoul dst 16) = flash_addr n"
    "fst (simple_strtoul len 16) = cnt" "n mod 256 = 0" "n + unat cnt \<le> 0x400000" "0 < unat cnt"
    "\<And>i. i < unat cnt \<Longrightarrow> \<not> flash_window (s + of_nat i)"
    "\<And>i. i < 64 \<Longrightarrow> meets n (unat cnt) i \<Longrightarrow> pr ! i = 0"
  shows "\<exists>hw'. do_mem_cp [geom pr] [''cp.b'', src, dst, len] m = Inr (0, m\<lparr>m_hw := hw'\<rparr>) \<and> nor_idle c hw' \<and>
    nor_view c hw' = programmed n (map (\<lambda>i. m_ram m (s + of_nat i)) [0..<unat cnt]) (nor_view c (m_hw m))"
proof -
  let ?ds = "map (\<lambda>i. m_ram m (s + of_nat i)) [0..<unat cnt]"
  have "m_source m (s + of_nat i) = Some (?ds ! i)" if "i < unat cnt" for i
    using assms(8) [OF that] that by (simp add: m_source_def)
  then obtain hw' where w: "flash_write [geom pr] (m_source m) s (flash_addr n) cnt (m_hw m) = Inr (0, hw')" "nor_idle c hw'"
    "nor_view c hw' = programmed n ?ds (nor_view c (m_hw m))"
    using flash_write_programs [OF assms(1,5,6,7), of ?ds "m_source m" s pr] assms(9) by auto
  have "n < 0x400000" using assms(6,7) by simp
  then have "addr2info [geom pr] (flash_addr n) \<noteq> None" by (simp add: addr2info_geom)
  moreover have "cnt \<noteq> 0" using assms(7) by auto
  ultimately have "do_mem_cp [geom pr] [''cp.b'', src, dst, len] m = Inr (0, m\<lparr>m_hw := hw'\<rparr>)"
    using assms(2-4) w(1) by (simp add: do_mem_cp_def cmd_get_data_size_def base_address_def Let_def)
  with w(2,3) show ?thesis by blast
qed

end
