(* ===== verification/Net.thy ===== *)
theory Net
  imports Vsprintf
begin

text \<open>
  The network layer of \<open>net/net.c\<close> and \<open>net/eth.c\<close>: Ethernet devices, checksums, packet headers,
  ARP resolution, timers, and the transmission of UDP packets. The global and static variables of
  \<open>net.c\<close>, \<open>eth.c\<close> and \<open>tftp.c\<close> are the record \<open>net_st\<close>. The CPU is big-endian, so \<open>htons\<close>,
  \<open>ntohs\<close> and the copies of addresses are the identity on the fields of \<open>Prelude\<close>.

  Sending a frame appends it to \<open>sent\<close>; \<open>get_timer(0)\<close> reads \<open>clock\<close>. The driver functions of a
  device (its \<open>init\<close>) are the field \<open>dev_up\<close>. The environment is the map \<open>nenv\<close>, which theory \<open>Env\<close>
  implements. Access outside a packet buffer is the exit \<open>Buffer_Fault\<close>.
\<close>

subsection \<open>State\<close>

datatype net_exit = Buffer_Fault | Null_Handler | Null_Device

datatype net_state = NETLOOP_CONTINUE | NETLOOP_RESTART | NETLOOP_SUCCESS | NETLOOP_FAIL

datatype rxhand = StartAgainHandler | PingHandler | TftpHandler

datatype thand = StartAgainTimeout | PingTimeout | TftpTimeout

text \<open>What \<open>NetArpWaitPacketMAC\<close> can point to.\<close>

datatype macref = ServerEther | PingMac | BcastAddr

datatype tftp_state = STATE_RRQ | STATE_DATA | STATE_TOO_LARGE | STATE_BAD_MAGIC | STATE_OACK

record net_st =
  NetOurIP :: u32
  NetServerIP :: u32
  NetOurGatewayIP :: u32
  NetOurSubnetMask :: u32
  NetOurEther :: "byte list"
  NetServerEther :: "byte list"
  NetOurVLAN :: u16
  NetOurNativeVLAN :: u16
  NetState :: net_state
  NetIPID :: u32
  NetTxPacket :: "byte list"
  NetArpWaitPacketIP :: u32
  NetArpWaitReplyIP :: u32
  NetArpWaitPacketMAC :: "macref option"
  NetArpWaitTxPacket :: "byte list"
  NetArpWaitTxPacketSize :: nat
  NetArpWaitTimerStart :: u32
  NetArpWaitTry :: nat
  packetHandler :: "rxhand option"
  timeHandler :: "thand option"
  timeStart :: u32
  timeDelta :: u32
  NetRestartWrap :: bool
  NetRestarted :: bool
  NetDevExists :: bool
  NetPingIP :: u32
  PingSeqNo :: u16
  ping_mac :: "byte list"
  NetBootFileXferSize :: u32
  TftpServerPort :: int
  TftpOurPort :: int
  TftpTimeoutCount :: nat
  TftpBlock :: u32
  TftpLastBlock :: u32
  TftpBlockWrap :: u32
  TftpBlockWrapOffset :: u32
  TftpState :: tftp_state
  tftp_filename :: string
  tftp_bootfile :: string
  net_load_addr :: u32
  bd_ip_addr :: u32
  ram :: "u32 \<Rightarrow> byte"
  fw_recovery :: bool
  bootm_calls :: "u32 list"
  eth_names :: "string list"
  eth_macs :: "byte list list"
  eth_current :: "nat option"
  first_failed :: "nat option"
  dev_up :: "nat \<Rightarrow> bool"
  nenv :: "string \<Rightarrow> string option"
  sent :: "byte list list"
  clock :: u32
  CFG_HZ :: u32

abbreviation (input) ETHER_HDR_SIZE :: nat where "ETHER_HDR_SIZE \<equiv> 14"
abbreviation (input) VLAN_ETHER_HDR_SIZE :: nat where "VLAN_ETHER_HDR_SIZE \<equiv> 18"
abbreviation (input) E802_HDR_SIZE :: nat where "E802_HDR_SIZE \<equiv> 22"
abbreviation (input) IP_HDR_SIZE :: nat where "IP_HDR_SIZE \<equiv> 28"
abbreviation (input) IP_HDR_SIZE_NO_UDP :: nat where "IP_HDR_SIZE_NO_UDP \<equiv> 20"
abbreviation (input) ARP_HDR_SIZE :: nat where "ARP_HDR_SIZE \<equiv> 28"
abbreviation (input) PROT_IP :: u16 where "PROT_IP \<equiv> 0x0800"
abbreviation (input) PROT_ARP :: u16 where "PROT_ARP \<equiv> 0x0806"
abbreviation (input) PROT_RARP :: u16 where "PROT_RARP \<equiv> 0x8035"
abbreviation (input) PROT_VLAN :: u16 where "PROT_VLAN \<equiv> 0x8100"
abbreviation (input) VLAN_NONE :: u16 where "VLAN_NONE \<equiv> 4095"
abbreviation (input) VLAN_IDMASK :: u16 where "VLAN_IDMASK \<equiv> 0x0fff"
abbreviation (input) PKTSIZE_ALIGN :: nat where "PKTSIZE_ALIGN \<equiv> 1536"

definition NetBcastAddr :: "byte list" where
  "NetBcastAddr = [0xff, 0xff, 0xff, 0xff, 0xff, 0xff]"

definition NetEtherNullAddr :: "byte list" where
  "NetEtherNullAddr = [0, 0, 0, 0, 0, 0]"

subsection \<open>Ethernet devices\<close>

text \<open>
  The ring of devices is the list \<open>eth_names\<close>; \<open>eth_current\<close> is an index into it. Its successor in
  the ring:
\<close>

definition eth_next :: "net_st \<Rightarrow> nat \<Rightarrow> nat" where
  "eth_next st k = (if Suc k < length (eth_names st) then Suc k else 0)"

definition set_ethact :: "nat \<Rightarrow> net_st \<Rightarrow> net_st" where
  "set_ethact k st = st\<lparr>nenv := (nenv st)(''ethact'' \<mapsto> eth_names st ! k)\<rparr>"

definition eth_try_another :: "bool \<Rightarrow> net_st \<Rightarrow> net_st" where
  "eth_try_another first_restart st =
     (case eth_current st of
        None \<Rightarrow> st
      | Some cur \<Rightarrow>
          (let st = (if first_restart then st\<lparr>first_failed := Some cur\<rparr> else st);
               nxt = eth_next st cur;
               st = st\<lparr>eth_current := Some nxt\<rparr>;
               st = (if nenv st ''ethact'' = Some (eth_names st ! nxt) then st else set_ethact nxt st)
           in if first_failed st = Some nxt then st\<lparr>NetRestartWrap := True\<rparr> else st))"

text \<open>The loop of \<open>eth_init\<close>; once around the ring is \<open>length (eth_names st)\<close> turns.\<close>

fun eth_init_loop :: "nat \<Rightarrow> nat \<Rightarrow> net_st \<Rightarrow> int \<times> net_st" where
  "eth_init_loop 0 old st = (0, st)"
| "eth_init_loop (Suc n) old st =
     (case eth_current st of
        None \<Rightarrow> (0, st)
      | Some cur \<Rightarrow>
          if dev_up st cur then (1, st)
          else (let st = eth_try_another False st in
                if eth_current st \<noteq> Some old then eth_init_loop n old st else (0, st)))"

definition eth_init :: "net_st \<Rightarrow> int \<times> net_st" where
  "eth_init st =
     (case eth_current st of
        None \<Rightarrow> (0, st)
      | Some cur \<Rightarrow> eth_init_loop (length (eth_names st)) cur st)"

definition eth_get_dev_index :: "net_st \<Rightarrow> int" where
  "eth_get_dev_index st =
     (if eth_names st = [] then - 1
      else case eth_current st of None \<Rightarrow> 0 | Some k \<Rightarrow> int k)"

text \<open>\<open>eth_set_current\<close>: the search for the device named by \<open>ethact\<close>, once around the ring.\<close>

fun eth_set_loop :: "nat \<Rightarrow> string \<Rightarrow> nat \<Rightarrow> nat \<Rightarrow> net_st \<Rightarrow> bool \<times> nat" where
  "eth_set_loop 0 act old cur st = (False, cur)"
| "eth_set_loop (Suc n) act old cur st =
     (if eth_names st ! cur = act then (True, cur)
      else (let nxt = eth_next st cur in
            if nxt = old then (False, nxt) else eth_set_loop n act old nxt st))"

definition eth_set_current :: "net_st \<Rightarrow> net_st" where
  "eth_set_current st =
     (case eth_current st of
        None \<Rightarrow> st
      | Some cur \<Rightarrow>
          (case nenv st ''ethact'' of
             None \<Rightarrow> set_ethact cur st
           | Some act \<Rightarrow>
               (let (found, k) = eth_set_loop (length (eth_names st)) act cur cur st;
                    st = st\<lparr>eth_current := Some k\<rparr>
                in if found then st else set_ethact k st)))"

definition eth_send :: "byte list \<Rightarrow> net_st \<Rightarrow> net_st" where
  "eth_send pkt st = (if eth_current st = None then st else st\<lparr>sent := sent st @ [pkt]\<rparr>)"

subsection \<open>Checksums\<close>

text \<open>\<open>len\<close> halfwords are added up in an \<open>unsigned long\<close>.\<close>

fun cksum_loop :: "byte list \<Rightarrow> nat \<Rightarrow> nat \<Rightarrow> u32 \<Rightarrow> u32" where
  "cksum_loop ptr i 0 xsum = xsum"
| "cksum_loop ptr i (Suc len) xsum = cksum_loop ptr (i + 2) len (xsum + ucast (get16 ptr i))"

definition cksum_fold :: "u32 \<Rightarrow> u32" where
  "cksum_fold xsum = (xsum AND 0xffff) + drop_bit 16 xsum"

definition NetCksum :: "byte list \<Rightarrow> nat \<Rightarrow> u32" where
  "NetCksum ptr len = cksum_fold (cksum_fold (cksum_loop ptr 0 len 0)) AND 0xffff"

definition NetCksumOk :: "byte list \<Rightarrow> nat \<Rightarrow> bool" where
  "NetCksumOk ptr len \<longleftrightarrow> (NetCksum ptr len + 1) AND 0xfffe = 0"

subsection \<open>Headers\<close>

definition my_vlan :: "net_st \<Rightarrow> u16" where
  "my_vlan st = (if NetOurVLAN st = - 1 then VLAN_NONE else NetOurVLAN st)"

definition NetEthHdrSize :: "net_st \<Rightarrow> nat" where
  "NetEthHdrSize st =
     (if my_vlan st AND VLAN_IDMASK = VLAN_NONE then ETHER_HDR_SIZE else VLAN_ETHER_HDR_SIZE)"

text \<open>\<open>NetSetEther\<close> writes the header to the front of \<open>xet\<close> and returns its size.\<close>

definition NetSetEther :: "net_st \<Rightarrow> byte list \<Rightarrow> byte list \<Rightarrow> u16 \<Rightarrow> byte list \<times> nat" where
  "NetSetEther st xet addr prot =
     (let et = put_bytes (put_bytes xet 0 addr) 6 (NetOurEther st) in
      if my_vlan st AND VLAN_IDMASK = VLAN_NONE
      then (put_bytes et 12 (be16 prot), ETHER_HDR_SIZE)
      else (put_bytes (put_bytes (put_bytes et 12 (be16 PROT_VLAN))
              14 (be16 (my_vlan st AND VLAN_IDMASK))) 16 (be16 prot), VLAN_ETHER_HDR_SIZE))"

text \<open>The 20 bytes of an IP header with the given checksum field.\<close>

definition ip_bytes :: "u16 \<Rightarrow> u16 \<Rightarrow> byte \<Rightarrow> u16 \<Rightarrow> u32 \<Rightarrow> u32 \<Rightarrow> byte list" where
  "ip_bytes tot ipid prot sm src dst =
     [0x45, 0] @ be16 tot @ be16 ipid @ be16 0x4000 @ [255, prot] @ be16 sm @ be32 src @ be32 dst"

text \<open>
  \<open>NetSetIP\<close> on the buffer \<open>buf\<close> with the header at offset \<open>o\<close>: the IP header is written with a
  zero checksum and the checksum filled in last; \<open>NetIPID\<close> counts up.
\<close>

definition NetSetIP ::
  "net_st \<Rightarrow> byte list \<Rightarrow> nat \<Rightarrow> u32 \<Rightarrow> int \<Rightarrow> int \<Rightarrow> nat \<Rightarrow> byte list \<times> net_st" where
  "NetSetIP st buf off dest dport sport len =
     (let buf = (if odd len then put_bytes buf (off + IP_HDR_SIZE + len) [0] else buf);
          ipid = ucast (NetIPID st) :: u16;
          st = st\<lparr>NetIPID := NetIPID st + 1\<rparr>;
          tot = of_nat (IP_HDR_SIZE + len);
          buf = put_bytes buf off (ip_bytes tot ipid 17 0 (NetOurIP st) dest);
          buf = put_bytes buf (off + 20) (be16 (word_of_int sport));
          buf = put_bytes buf (off + 22) (be16 (word_of_int dport));
          buf = put_bytes buf (off + 24) (be16 (of_nat (8 + len)));
          buf = put_bytes buf (off + 26) (be16 0);
          sm = ucast (NOT (NetCksum (get_bytes buf off 20) (IP_HDR_SIZE_NO_UDP div 2))) :: u16
      in (put_bytes buf (off + 10) (be16 sm), st))"

subsection \<open>Timers and handlers\<close>

definition NetSetHandler :: "rxhand \<Rightarrow> net_st \<Rightarrow> net_st" where
  "NetSetHandler f st = st\<lparr>packetHandler := Some f\<rparr>"

definition NetSetTimeout :: "u32 \<Rightarrow> thand \<Rightarrow> net_st \<Rightarrow> net_st" where
  "NetSetTimeout iv f st =
     (if iv = 0 then st\<lparr>timeHandler := None\<rparr>
      else st\<lparr>timeHandler := Some f, timeStart := clock st, timeDelta := iv\<rparr>)"

text \<open>\<open>NetStartAgain\<close>: during firmware recovery it returns at once.\<close>

definition NetStartAgain :: "net_st \<Rightarrow> net_st" where
  "NetStartAgain st =
     (if fw_recovery st then st
      else
        let noretry = (nenv st ''netretry'' = Some ''no'');
            once = (nenv st ''netretry'' = Some ''once'') in
        if noretry then st\<lparr>NetState := NETLOOP_FAIL\<rparr>
        else
          let st = eth_try_another (\<not> NetRestarted st) st;
              st = snd (eth_init st) in
          if NetRestartWrap st then
            let st = st\<lparr>NetRestartWrap := False\<rparr> in
            if NetDevExists st \<and> \<not> once
            then NetSetHandler StartAgainHandler (NetSetTimeout (10 * CFG_HZ st) StartAgainTimeout st)
            else st\<lparr>NetState := NETLOOP_FAIL\<rparr>
          else st\<lparr>NetState := NETLOOP_RESTART\<rparr>)"

subsection \<open>ARP\<close>

definition arp_bytes :: "u16 \<Rightarrow> byte list \<Rightarrow> u32 \<Rightarrow> byte list \<Rightarrow> u32 \<Rightarrow> byte list" where
  "arp_bytes op sha spa tha tpa =
     be16 1 @ be16 PROT_IP @ [6, 4] @ be16 op @ sha @ be32 spa @ tha @ be32 tpa"

definition ArpRequest :: "net_st \<Rightarrow> net_st" where
  "ArpRequest st =
     (let (buf, n) = NetSetEther st (NetTxPacket st) NetBcastAddr PROT_ARP;
          reply = (if NetArpWaitPacketIP st AND NetOurSubnetMask st \<noteq>
                      NetOurIP st AND NetOurSubnetMask st
                   then if NetOurGatewayIP st = 0 then NetArpWaitPacketIP st else NetOurGatewayIP st
                   else NetArpWaitPacketIP st);
          st = st\<lparr>NetArpWaitReplyIP := reply\<rparr>;
          buf = put_bytes buf n (arp_bytes 1 (NetOurEther st) (NetOurIP st) NetEtherNullAddr reply)
      in eth_send (get_bytes buf 0 (n + ARP_HDR_SIZE)) (st\<lparr>NetTxPacket := buf\<rparr>))"

definition ARP_TIMEOUT :: u32 where "ARP_TIMEOUT = 5"
definition ARP_TIMEOUT_COUNT :: nat where "ARP_TIMEOUT_COUNT = 5"

definition ArpTimeoutCheck :: "net_st \<Rightarrow> net_st" where
  "ArpTimeoutCheck st =
     (if NetArpWaitPacketIP st = 0 then st
      else
        let t = clock st in
        if t - NetArpWaitTimerStart st > ARP_TIMEOUT * CFG_HZ st then
          let st = st\<lparr>NetArpWaitTry := Suc (NetArpWaitTry st)\<rparr> in
          if NetArpWaitTry st \<ge> ARP_TIMEOUT_COUNT
          then NetStartAgain (st\<lparr>NetArpWaitTry := 0\<rparr>)
          else ArpRequest (st\<lparr>NetArpWaitTimerStart := t\<rparr>)
        else st)"

definition mac_of :: "macref \<Rightarrow> net_st \<Rightarrow> byte list" where
  "mac_of m st = (case m of ServerEther \<Rightarrow> NetServerEther st | PingMac \<Rightarrow> ping_mac st
                  | BcastAddr \<Rightarrow> NetBcastAddr)"

definition set_mac :: "macref \<Rightarrow> byte list \<Rightarrow> net_st \<Rightarrow> net_st" where
  "set_mac m a st = (case m of ServerEther \<Rightarrow> st\<lparr>NetServerEther := a\<rparr> | PingMac \<Rightarrow> st\<lparr>ping_mac := a\<rparr>
                     | BcastAddr \<Rightarrow> st)"

subsection \<open>Sending UDP\<close>

text \<open>
  \<open>NetSendUDPPacket\<close>: the payload of \<open>len\<close> bytes stands in \<open>NetTxPacket\<close> behind the headers. With
  the destination's address unknown, the frame is parked in \<open>NetArpWaitTxPacket\<close> and an ARP
  request is sent instead. The result is 1 for a parked and 0 for a sent frame.
\<close>

definition NetSendUDPPacket ::
  "macref \<Rightarrow> u32 \<Rightarrow> int \<Rightarrow> int \<Rightarrow> nat \<Rightarrow> net_st \<Rightarrow> int \<times> net_st" where
  "NetSendUDPPacket ether dest dport sport len st =
     (let dest = (if dest = 0 then 0xFFFFFFFF else dest);
          ether = (if dest = 0xFFFFFFFF then BcastAddr else ether) in
      if mac_of ether st = NetEtherNullAddr then
        let st = st\<lparr>NetArpWaitPacketIP := dest, NetArpWaitPacketMAC := Some ether\<rparr>;
            (buf, n) = NetSetEther st (NetArpWaitTxPacket st) (mac_of ether st) PROT_IP;
            (buf, st) = NetSetIP st buf n dest dport sport len;
            buf = put_bytes buf (n + IP_HDR_SIZE) (get_bytes (NetTxPacket st) (n + IP_HDR_SIZE) len);
            st = st\<lparr>NetArpWaitTxPacket := buf, NetArpWaitTxPacketSize := n + IP_HDR_SIZE + len,
                    NetArpWaitTry := 1, NetArpWaitTimerStart := clock st\<rparr>
        in (1, ArpRequest st)
      else
        let (buf, n) = NetSetEther st (NetTxPacket st) (mac_of ether st) PROT_IP;
            (buf, st) = NetSetIP st buf n dest dport sport len;
            st = st\<lparr>NetTxPacket := buf\<rparr>
        in (0, eth_send (get_bytes buf 0 (n + IP_HDR_SIZE + len)) st))"

subsection \<open>Ping\<close>

definition PingSend :: "net_st \<Rightarrow> net_st" where
  "PingSend st =
     (let st = st\<lparr>ping_mac := NetEtherNullAddr, NetArpWaitPacketIP := NetPingIP st,
                  NetArpWaitPacketMAC := Some PingMac\<rparr>;
          (buf, n) = NetSetEther st (NetArpWaitTxPacket st) (ping_mac st) PROT_IP;
          ipid = ucast (NetIPID st) :: u16;
          st = st\<lparr>NetIPID := NetIPID st + 1\<rparr>;
          buf = put_bytes buf n (ip_bytes 28 ipid 1 0 (NetOurIP st) (NetPingIP st));
          sm = ucast (NOT (NetCksum (get_bytes buf n 20) 10)) :: u16;
          buf = put_bytes buf (n + 10) (be16 sm);
          icmp = be16 0x0800 @ be16 0 @ be16 0 @ be16 (PingSeqNo st);
          st = st\<lparr>PingSeqNo := PingSeqNo st + 1\<rparr>;
          buf = put_bytes buf (n + 20) icmp;
          buf = put_bytes buf (n + 22) (be16 (ucast (NOT (NetCksum icmp 4))));
          st = st\<lparr>NetArpWaitTxPacket := buf, NetArpWaitTxPacketSize := n + IP_HDR_SIZE_NO_UDP + 8,
                  NetArpWaitTry := 1, NetArpWaitTimerStart := clock st\<rparr>
      in ArpRequest st)"

definition do_PingTimeout :: "net_st \<Rightarrow> net_st" where
  "do_PingTimeout st = st\<lparr>NetState := NETLOOP_FAIL\<rparr>"

definition do_PingHandler :: "byte list \<Rightarrow> net_st \<Rightarrow> net_st" where
  "do_PingHandler pkt st =
     (if get32 pkt 12 \<noteq> NetPingIP st then st else st\<lparr>NetState := NETLOOP_SUCCESS\<rparr>)"

definition PingStart :: "net_st \<Rightarrow> net_st" where
  "PingStart st =
     PingSend (NetSetHandler PingHandler (NetSetTimeout (10 * CFG_HZ st) PingTimeout st))"

subsection \<open>Address strings\<close>

text \<open>The dotted-quad conversions; the separators are not checked.\<close>

fun ip_parts :: "nat \<Rightarrow> u32 \<Rightarrow> string \<Rightarrow> u32" where
  "ip_parts 0 addr s = addr"
| "ip_parts (Suc n) addr s =
     (let (val, e) = simple_strtoul s 10;
          addr = push_bit 8 addr OR (val AND 0xFF)
      in ip_parts n addr (if e = [] then e else tl e))"

definition string_to_ip :: "string option \<Rightarrow> u32" where
  "string_to_ip s = (case s of None \<Rightarrow> 0 | Some s \<Rightarrow> ip_parts 4 0 s)"

definition ip_to_string :: "u32 \<Rightarrow> string" where
  "ip_to_string x =
     (case vsprintf ''%d.%d.%d.%d''
        [VInt (drop_bit 24 x AND 0xff), VInt (drop_bit 16 x AND 0xff),
         VInt (drop_bit 8 x AND 0xff), VInt (x AND 0xff)] of
        None \<Rightarrow> [] | Some (_, s, _) \<Rightarrow> s)"

definition VLAN_to_string :: "u16 \<Rightarrow> string" where
  "VLAN_to_string x =
     (let x = (if x = - 1 then VLAN_NONE else x) in
      if x = VLAN_NONE then ''none''
      else case vsprintf ''%d'' [VInt (ucast (x AND VLAN_IDMASK))] of None \<Rightarrow> [] | Some (_, s, _) \<Rightarrow> s)"

definition string_to_VLAN :: "string option \<Rightarrow> u16" where
  "string_to_VLAN s =
     (case s of None \<Rightarrow> VLAN_NONE
      | Some s \<Rightarrow>
          if (of_char (peek s) :: nat) < 48 \<or> 57 < (of_char (peek s) :: nat) then VLAN_NONE
          else ucast (fst (simple_strtoul s 10)))"

definition getenv_IPaddr :: "string \<Rightarrow> net_st \<Rightarrow> u32" where
  "getenv_IPaddr var st = string_to_ip (nenv st var)"

definition getenv_VLAN :: "string \<Rightarrow> net_st \<Rightarrow> u16" where
  "getenv_VLAN var st = string_to_VLAN (nenv st var)"

subsection \<open>Specifications\<close>

definition dec :: "u32 \<Rightarrow> string" where
  "dec w = (if w = 0 then ''0'' else rev (num_digits digits_lower 10 (unat w)))"

text \<open>One's complement sums as numbers.\<close>

definition fold16 :: "nat \<Rightarrow> nat" where
  "fold16 n = n mod 65536 + n div 65536"

fun wsum :: "byte list \<Rightarrow> nat \<Rightarrow> nat \<Rightarrow> nat" where
  "wsum ptr i 0 = 0"
| "wsum ptr i (Suc n) = unat (get16 ptr i) + wsum ptr (i + 2) n"

definition ip_header_sum :: "u16 \<Rightarrow> u16 \<Rightarrow> byte \<Rightarrow> u32 \<Rightarrow> u32 \<Rightarrow> u16" where
  "ip_header_sum t i p s d = ucast (NOT (NetCksum (ip_bytes t i p 0 s d) 10))"

definition udp_bytes :: "int \<Rightarrow> int \<Rightarrow> nat \<Rightarrow> byte list" where
  "udp_bytes sport dport len =
     be16 (word_of_int sport) @ be16 (word_of_int dport) @ be16 (of_nat (8 + len)) @ be16 0"

definition ip_udp_header :: "net_st \<Rightarrow> u32 \<Rightarrow> int \<Rightarrow> int \<Rightarrow> nat \<Rightarrow> byte list" where
  "ip_udp_header st dest dport sport len =
     (let tot = of_nat (28 + len); ipid = ucast (NetIPID st) in
      ip_bytes tot ipid 17 (ip_header_sum tot ipid 17 (NetOurIP st) dest) (NetOurIP st) dest @
      udp_bytes sport dport len)"

text \<open>For an odd length, a zero byte pads the payload.\<close>

definition udp_pad :: "nat \<Rightarrow> nat \<Rightarrow> byte list \<Rightarrow> byte list" where
  "udp_pad off len buf = (if odd len then put_bytes buf (off + 28 + len) [0] else buf)"

definition untagged :: "net_st \<Rightarrow> bool" where
  "untagged st \<longleftrightarrow> my_vlan st AND VLAN_IDMASK = VLAN_NONE"

definition eth_header :: "net_st \<Rightarrow> byte list \<Rightarrow> u16 \<Rightarrow> byte list" where
  "eth_header st addr prot = addr @ NetOurEther st @
     (if untagged st then be16 prot
      else be16 PROT_VLAN @ be16 (my_vlan st AND VLAN_IDMASK) @ be16 prot)"

text \<open>The buffers have their static size and all addresses six bytes.\<close>

definition net_wf :: "net_st \<Rightarrow> bool" where
  "net_wf st \<longleftrightarrow> length (NetTxPacket st) = PKTSIZE_ALIGN \<and> length (NetArpWaitTxPacket st) = PKTSIZE_ALIGN \<and>
     length (NetOurEther st) = 6 \<and> length (NetServerEther st) = 6 \<and> length (ping_mac st) = 6 \<and>
     (\<forall>m \<in> set (eth_macs st). length m = 6) \<and>
     (\<exists>k < length (eth_macs st). eth_current st = Some k) \<and>
     length (eth_names st) = length (eth_macs st) \<and>
     length (tftp_filename st) < 128 \<and> length (tftp_bootfile st) < 128"

text \<open>The frame that carries a UDP datagram.\<close>

definition udp_frame :: "net_st \<Rightarrow> byte list \<Rightarrow> u32 \<Rightarrow> int \<Rightarrow> int \<Rightarrow> byte list \<Rightarrow> byte list" where
  "udp_frame st mac dest dport sport data =
     eth_header st mac PROT_IP @ ip_udp_header st dest dport sport (length data) @ data"

text \<open>The station an address is resolved through: itself, or the gateway outside the subnet.\<close>

definition next_hop :: "net_st \<Rightarrow> u32 \<Rightarrow> u32" where
  "next_hop st dest =
     (if dest AND NetOurSubnetMask st \<noteq> NetOurIP st AND NetOurSubnetMask st \<and> NetOurGatewayIP st \<noteq> 0
      then NetOurGatewayIP st else dest)"

definition arp_request_frame :: "net_st \<Rightarrow> u32 \<Rightarrow> byte list" where
  "arp_request_frame st dest =
     eth_header st NetBcastAddr PROT_ARP @
     arp_bytes 1 (NetOurEther st) (NetOurIP st) NetEtherNullAddr (next_hop st dest)"

definition arp_reply_frame :: "byte list \<Rightarrow> byte list \<Rightarrow> u32 \<Rightarrow> u32 \<Rightarrow> byte list \<Rightarrow> byte list" where
  "arp_reply_frame dst mac spa tpa rest =
     dst @ mac @ be16 PROT_ARP @ arp_bytes 2 mac spa dst tpa @ rest"

text \<open>What reception keeps: well-formedness and a handler to call.\<close>

definition net_inv :: "net_st \<Rightarrow> bool" where
  "net_inv st \<longleftrightarrow> net_wf st \<and> packetHandler st \<noteq> None"

definition sample_net :: net_st where
  "sample_net = \<lparr>NetOurIP = 0xC0A80102, NetServerIP = 0xC0A80101, NetOurGatewayIP = 0, NetOurSubnetMask = 0xFFFFFF00,
     NetOurEther = [2, 0, 0, 0, 0, 1], NetServerEther = [2, 0, 0, 0, 0, 2], NetOurVLAN = 4095, NetOurNativeVLAN = 4095,
     NetState = NETLOOP_CONTINUE, NetIPID = 0, NetTxPacket = replicate 1536 0, NetArpWaitPacketIP = 0,
     NetArpWaitReplyIP = 0, NetArpWaitPacketMAC = None, NetArpWaitTxPacket = replicate 1536 0,
     NetArpWaitTxPacketSize = 0, NetArpWaitTimerStart = 0, NetArpWaitTry = 0, packetHandler = Some TftpHandler,
     timeHandler = None, timeStart = 0, timeDelta = 0, NetRestartWrap = False, NetRestarted = False,
     NetDevExists = True, NetPingIP = 0, PingSeqNo = 0, ping_mac = [0, 0, 0, 0, 0, 0], NetBootFileXferSize = 0,
     TftpServerPort = 69, TftpOurPort = 1024, TftpTimeoutCount = 0, TftpBlock = 0, TftpLastBlock = 0,
     TftpBlockWrap = 0, TftpBlockWrapOffset = 0, TftpState = STATE_RRQ, tftp_filename = ''f'', tftp_bootfile = ''f'',
     net_load_addr = 0x81000000, bd_ip_addr = 0xC0A80102, ram = (\<lambda>_. 0), fw_recovery = True, bootm_calls = [],
     eth_names = [''eth0'', ''eth1''], eth_macs = [[2, 0, 0, 0, 0, 3], [2, 0, 0, 0, 0, 1]], eth_current = Some 1,
     first_failed = None, dev_up = (\<lambda>_. True), nenv = Map.empty, sent = [], clock = 0, CFG_HZ = 1000\<rparr>"

subsection \<open>Lemmas\<close>

lemma put_bytes_append [simp]:
  "off + length a + length b \<le> length buf \<Longrightarrow>
   put_bytes (put_bytes buf off a) (off + length a) b = put_bytes buf off (a @ b)"
  by (intro nth_equalityI) (auto simp: nth_put_bytes nth_append)

lemma put_bytes_within:
  "off + length a \<le> length buf \<Longrightarrow> k + length b \<le> length a \<Longrightarrow>
   put_bytes (put_bytes buf off a) (off + k) b = put_bytes buf off (put_bytes a k b)"
  by (intro nth_equalityI) (auto simp: nth_put_bytes add.assoc)

lemma get_bytes_put_prefix:
  "off + length a \<le> length buf \<Longrightarrow> n \<le> length a \<Longrightarrow> get_bytes (put_bytes buf off a) off n = take n a"
  by (simp add: get_bytes_def put_bytes_def)

lemma put_bytes_append':
  "o2 = off + length a \<Longrightarrow> o2 + length b \<le> length buf \<Longrightarrow>
   put_bytes (put_bytes buf off a) o2 b = put_bytes buf off (a @ b)"
  by simp

lemma get16_append: "length a \<le> i \<Longrightarrow> get16 (a @ b) i = get16 b (i - length a)"
  by (simp add: get16_def nth_append Suc_diff_le)

lemma get32_append: "length a \<le> i \<Longrightarrow> get32 (a @ b) i = get32 b (i - length a)"
  by (simp add: get32_def get16_append) (simp add: Suc_diff_le)

lemma get16_Cons: "0 < i \<Longrightarrow> get16 (x # b) i = get16 b (i - 1)"
  using get16_append [of "[x]" i b] by simp

lemma get32_Cons: "0 < i \<Longrightarrow> get32 (x # b) i = get32 b (i - 1)"
  using get32_append [of "[x]" i b] by simp

lemma get_bytes_Cons: "0 < i \<Longrightarrow> get_bytes (x # b) i n = get_bytes b (i - 1) n"
  by (cases i) (simp_all add: get_bytes_def)

lemma get_bytes_append: "length a \<le> i \<Longrightarrow> get_bytes (a @ b) i n = get_bytes b (i - length a) n"
  by (simp add: get_bytes_def)

lemma get16_be16 [simp]: "get16 (be16 v @ r) 0 = v"
  by (simp add: get16_def be16_def)

lemma get32_be32 [simp]: "get32 (be32 v @ r) 0 = v"
  by (simp add: get32_def get16_def be32_def word_cat_split32)

lemma get_bytes_front [simp]: "length a = n \<Longrightarrow> get_bytes (a @ r) 0 n = a"
  by (simp add: get_bytes_def)

lemma drop_be16 [simp]: "drop 2 (be16 v @ r) = r" "drop (Suc (Suc 0)) (be16 v @ r) = r"
  by (simp_all add: be16_def)

lemma unat_minus2: "2 \<le> unat w \<Longrightarrow> unat (w - 2 :: u32) = unat w - 2"
  by (subst unat_sub) (simp_all add: word_le_nat_alt)

lemma get16_drop: "get16 (drop n xs) k = get16 xs (n + k)" if "n \<le> length xs"
  using that by (simp add: get16_def)

lemma vs_number_dec:
  assumes "0 \<le> sint w"
  shows "vs_number NUL w 10 (- 1) (- 1) (no_flags\<lparr>SIGN := True\<rparr>) = dec w"
  using number_plain [of 10 "no_flags\<lparr>SIGN := True\<rparr>" w] assms
  by (simp add: vs_number_def dec_def no_flags_def)

lemma octet_nonneg: "0 \<le> sint (w AND 0xff :: u32)"
proof -
  have "\<not> bit (w AND 0xff :: u32) 31"
    unfolding byte_mask by (simp add: bit_and_iff bit_mask_iff)
  then show ?thesis
    using bit_last_iff [of "w AND 0xff :: u32"] by (simp add: not_less)
qed

lemma ip_to_string_dec:
  "ip_to_string x = dec (drop_bit 24 x AND 0xff) @ ''.'' @ dec (drop_bit 16 x AND 0xff) @ ''.'' @
     dec (drop_bit 8 x AND 0xff) @ ''.'' @ dec (x AND 0xff)"
  using vs_number_dec [OF octet_nonneg]
  by (simp add: ip_to_string_def vsprintf_def vs_directive_def vs_width_def vs_precision_def
      vs_qualifier_def vs_convert_def peek_def is_digit_def no_flags_def Let_def)

lemma dec_octet: "length (dec (w AND 0xff)) \<le> 3" "NUL \<notin> set (dec w)"
proof -
  have "unat (w AND 0xff) < 10 ^ 3"
    using word_and_le1 [of w "0xff"] by (simp add: word_le_nat_alt)
  then show "length (dec (w AND 0xff)) \<le> 3" unfolding dec_def using length_num_digits [of _ 10 3] by auto
  show "NUL \<notin> set (dec w)"
    unfolding dec_def using set_num_digits [of 10 digits_lower "unat w"] digits_no_nul by (auto simp: digits_lower_def)
qed

lemma ip_to_string_chars: "length (ip_to_string x) \<le> 15" "NUL \<notin> set (ip_to_string x)"
  using dec_octet(1) [of "drop_bit 24 x"] dec_octet(1) [of "drop_bit 16 x"] dec_octet(1) [of "drop_bit 8 x"] dec_octet(1) [of x]
  by (simp_all add: ip_to_string_dec dec_octet(2))

lemma strtoul_dec:
  "rest = [] \<or> hd rest = CHR ''.'' \<Longrightarrow> simple_strtoul (dec w @ rest) 10 = (w, rest)"
  unfolding dec_def
  using simple_strtoul_digits_rest [of 10 rest w] by (auto simp: isxdigit_iff)

lemma ip_parts_step:
  "ip_parts (Suc n) addr (dec w @ CHR ''.'' # rest) = ip_parts n (push_bit 8 addr OR (w AND 0xFF)) rest"
  "ip_parts (Suc n) addr (dec w) = ip_parts n (push_bit 8 addr OR (w AND 0xFF)) []"
  using strtoul_dec [of "CHR ''.'' # rest" w] strtoul_dec [of "[]" w] by simp_all

lemma octets_join:
  "push_bit 8 (push_bit 8 (push_bit 8 (drop_bit 24 x AND 0xff) OR (drop_bit 16 x AND 0xff)) OR
     (drop_bit 8 x AND 0xff)) OR (x AND 0xff) = x" for x :: u32
proof (rule bit_word_eqI)
  fix n assume n: "n < LENGTH(32)"
  then have "n < 8 \<or> 8 \<le> n \<and> n < 16 \<or> 16 \<le> n \<and> n < 24 \<or> 24 \<le> n \<and> n < 32" by auto
  then show "bit (push_bit 8 (push_bit 8 (push_bit 8 (drop_bit 24 x AND 0xff) OR (drop_bit 16 x AND 0xff)) OR
     (drop_bit 8 x AND 0xff)) OR (x AND 0xff)) n = bit x n"
    unfolding byte_mask by (elim disjE conjE) (auto simp: bit_simps)
qed

text \<open>
  Printing an address and parsing it gives the address back: \<open>string_to_ip\<close> is a left inverse of
  \<open>ip_to_string\<close> on all of IPv4.
\<close>

theorem string_to_ip_roundtrip: "string_to_ip (Some (ip_to_string x)) = x"
proof -
  have 4: "ip_parts 4 0 s = ip_parts (Suc (Suc (Suc (Suc 0)))) 0 s" for s
    by (simp add: numeral_eq_Suc)
  show ?thesis
    unfolding string_to_ip_def ip_to_string_dec option.case 4
    using octets_join [of x] by (simp add: ip_parts_step and.assoc del: ip_parts.simps(2))
qed

lemma unat_cksum_fold: "unat (cksum_fold x) = fold16 (unat x)"
proof -
  have "unat (x AND 0xffff) = unat x mod 65536"
    unfolding half_mask by (simp add: unat_and_mask)
  moreover have "unat (drop_bit 16 x) = unat x div 65536" by (simp add: unat_drop_bit)
  moreover have "unat x mod 65536 + unat x div 65536 < 4294967296"
    using unat_u32_less [of x] by linarith
  ultimately show ?thesis
    by (simp add: cksum_fold_def fold16_def unat_word_ariths)
qed

lemma wsum_bound: "wsum ptr i n \<le> n * 65535"
proof (induction n arbitrary: i)
  case (Suc n)
  have "unat (get16 ptr i) < 65536" using unsigned_less [of "get16 ptr i"] by simp
  with Suc.IH [of "i + 2"] show ?case by simp
qed simp

lemma cksum_loop_sum: "cksum_loop ptr i n x = x + of_nat (wsum ptr i n)"
  by (induction ptr i n x rule: cksum_loop.induct) (simp_all add: add.assoc)

lemma NetCksum_sum:
  assumes "n \<le> 1000"
  shows "unat (NetCksum ptr n) = fold16 (fold16 (wsum ptr 0 n)) mod 65536"
proof -
  have "wsum ptr 0 n < 2 ^ 32" using wsum_bound [of ptr 0 n] assms by simp
  then have "unat (cksum_loop ptr 0 n 0) = wsum ptr 0 n"
    by (simp add: cksum_loop_sum unat_of_nat_small)
  then show ?thesis
    unfolding NetCksum_def half_mask by (simp add: unat_and_mask unat_cksum_fold)
qed

lemma fold16_twice:
  assumes "n < 65536 * 65535"
  shows "fold16 (fold16 n) < 65536" "fold16 (fold16 n) mod 65535 = n mod 65535" "fold16 (fold16 n) = 0 \<longleftrightarrow> n = 0"
proof -
  have f: "fold16 m mod 65535 = m mod 65535" for m
  proof -
    have "m = 65536 * (m div 65536) + m mod 65536" by simp
    then have "m = 65535 * (m div 65536) + fold16 m" unfolding fold16_def by linarith
    then show ?thesis by (metis mod_mult_self3 mult.commute)
  qed
  show "fold16 (fold16 n) mod 65535 = n mod 65535" by (simp add: f)
  have "fold16 m = 0 \<longleftrightarrow> m = 0" for m
    unfolding fold16_def using div_mult_mod_eq [of m 65536] by auto
  then show "fold16 (fold16 n) = 0 \<longleftrightarrow> n = 0" by simp
  have "n div 65536 < 65535" using assms by (simp add: less_mult_imp_div_less mult.commute)
  moreover have "n mod 65536 < 65536" by simp
  ultimately have "fold16 n \<le> 131069" unfolding fold16_def by linarith
  then show "fold16 (fold16 n) < 65536"
    unfolding fold16_def [of "fold16 n"]
    by (cases "fold16 n < 65536") (auto simp: le_mod_geq le_div_geq)
qed

lemma even_mask16: "(w :: u32) AND 0xfffe = 0 \<longleftrightarrow> unat w mod 65536 < 2"
proof -
  have e: "(0xfffe :: u32) = push_bit 1 (mask 15)" by (simp add: mask_eq_exp_minus_1)
  have b: "bit (0xfffe :: u32) n \<longleftrightarrow> 1 \<le> n \<and> n < 16" for n
    by (simp only: e bit_push_bit_iff bit_mask_iff) auto
  have l: "n < 32" if "n < 16" for n :: nat using that by simp
  have "w AND 0xfffe = 0 \<longleftrightarrow> (\<forall>n. \<not> (bit w n \<and> 1 \<le> n \<and> n < 16))"
    by (simp only: bit_eq_iff [of "w AND 0xfffe"] bit_and_iff b)
      (auto dest: l)
  also have "\<dots> \<longleftrightarrow> (\<forall>n. \<not> (bit w (1 + n) \<and> 1 + n < 16))"
    by (metis le_add1 le_iff_add)
  also have "\<dots> \<longleftrightarrow> drop_bit 1 (w AND mask 16) = 0"
  proof
    assume "\<forall>n. \<not> (bit w (1 + n) \<and> 1 + n < 16)"
    then show "drop_bit 1 (w AND mask 16) = 0"
      by (intro bit_word_eqI) (simp add: bit_drop_bit_eq bit_and_iff bit_mask_iff)
  next
    assume z: "drop_bit 1 (w AND mask 16) = 0"
    show "\<forall>n. \<not> (bit w (1 + n) \<and> 1 + n < 16)"
    proof
      fix n
      have "\<not> bit (drop_bit 1 (w AND mask 16)) n" by (simp only: z) simp
      then show "\<not> (bit w (1 + n) \<and> 1 + n < 16)"
        by (auto simp: bit_drop_bit_eq bit_and_iff bit_mask_iff)
    qed
  qed
  also have "\<dots> \<longleftrightarrow> unat (drop_bit 1 (w AND mask 16)) = 0" by (simp only: unat_eq_0)
  also have "unat (drop_bit 1 (w AND mask 16)) = unat w mod 65536 div 2"
    by (simp only: unat_drop_bit unat_and_mask) simp
  finally show ?thesis by (simp add: div_eq_0_iff)
qed

lemma NetCksumOk_iff:
  assumes "n \<le> 1000"
  shows "NetCksumOk ptr n \<longleftrightarrow> wsum ptr 0 n mod 65535 = 0"
proof -
  define c where "c = NetCksum ptr n"
  define f where "f = fold16 (fold16 (wsum ptr 0 n))"
  have s: "wsum ptr 0 n < 65536 * 65535" using wsum_bound [of ptr 0 n] assms by simp
  note F = fold16_twice [OF s, folded f_def]
  have c: "unat c = f" using F(1) by (simp add: c_def NetCksum_sum [OF assms] f_def)
  then have "unat (c + 1) = f + 1" using F(1) by (simp add: unat_word_ariths)
  then have "(c + 1) AND 0xfffe = 0 \<longleftrightarrow> (f + 1) mod 65536 < 2"
    by (simp add: even_mask16)
  also have "\<dots> \<longleftrightarrow> f = 0 \<or> f = 65535"
    using F(1) by (cases "f = 65535") auto
  also have "\<dots> \<longleftrightarrow> f mod 65535 = 0"
    using F(1) by (cases "f < 65535") (auto simp: le_mod_geq)
  finally show ?thesis by (simp add: F(2) NetCksumOk_def c_def)
qed

lemma length_ip_bytes [simp]: "length (ip_bytes t i p c s d) = 20"
  by (simp add: ip_bytes_def)

lemma put_ip_checksum: "put_bytes (ip_bytes t i p 0 s d @ r) 10 (be16 c) = ip_bytes t i p c s d @ r"
  by (simp add: ip_bytes_def put_bytes_def be16_def be32_def)

lemma wsum_ip_bytes:
  "wsum (ip_bytes t i p c s d @ r) 0 10 = wsum (ip_bytes t i p 0 s d) 0 10 + unat c"
proof -
  have "(10 :: nat) = Suc (Suc (Suc (Suc (Suc (Suc (Suc (Suc (Suc (Suc 0)))))))))" by simp
  then show ?thesis
    by (simp only: wsum.simps) (simp add: ip_bytes_def be16_def be32_def get16_def)
qed

lemma unat_not_cksum:
  assumes "unat c < 65536"
  shows "unat (ucast (NOT c :: u32) :: u16) = 65535 - unat c"
proof -
  have "c AND mask 16 = c" using assms
    by (simp add: word_unat_eq_iff unat_and_mask)
  then have "(ucast (NOT c) :: u16) = NOT (ucast c)"
    by (intro bit_word_eqI) (auto simp: bit_simps)
  moreover have "unat (ucast c :: u16) = unat c"
    using assms by (simp add: unsigned_ucast_eq take_bit_nat_eq_self)
  moreover have "unat (NOT x) = 65535 - unat x" for x :: u16
  proof -
    have "NOT x = - 1 - x" by (simp add: not_eq_complement)
    moreover have "unat (- 1 - x) = unat (- 1 :: u16) - unat x" by (rule unat_sub) simp
    moreover have "unat (- 1 :: u16) = 65535" by (simp add: unsigned_minus_1_eq_mask mask_eq_exp_minus_1)
    ultimately show ?thesis by simp
  qed
  ultimately show ?thesis by simp
qed

lemma ip_header_sum_ok: "NetCksumOk (ip_bytes t i p (ip_header_sum t i p s d) s d @ r) 10"
proof -
  let ?h = "ip_bytes t i p 0 s d"
  define S where "S = wsum ?h 0 10"
  define c where "c = NetCksum ?h 10"
  have "S < 65536 * 65535" using wsum_bound [of ?h 0 10] by (simp add: S_def)
  note F = fold16_twice [OF this]
  have c: "unat c = fold16 (fold16 S)"
    using F(1) NetCksum_sum [of 10 ?h] by (simp add: c_def S_def)
  have u: "unat (ip_header_sum t i p s d) = 65535 - unat c"
    unfolding ip_header_sum_def c_def [symmetric] using F(1) by (intro unat_not_cksum) (simp add: c)
  have "(S + (65535 - unat c)) mod 65535 = 0"
  proof -
    have "unat c mod 65535 = S mod 65535" using F(2) by (simp add: c)
    then have "(S + (65535 - unat c)) mod 65535 = (unat c + (65535 - unat c)) mod 65535"
      by (metis mod_add_left_eq)
    then show ?thesis using F(1) by (simp add: c)
  qed
  then show ?thesis
    by (simp add: NetCksumOk_iff wsum_ip_bytes [of t i p "ip_header_sum t i p s d" s d r] u S_def)
qed

lemma NetSetIP_buffer:
  assumes "off + 29 + len \<le> length buf"
  shows "NetSetIP st buf off dest dport sport len =
    (put_bytes (udp_pad off len buf) off (ip_udp_header st dest dport sport len),
     st\<lparr>NetIPID := NetIPID st + 1\<rparr>)"
proof -
  define b where "b = udp_pad off len buf"
  have l: "off + 28 \<le> length b" using assms by (simp add: b_def udp_pad_def)
  let ?tot = "of_nat (28 + len) :: u16"
  let ?id = "ucast (NetIPID st) :: u16"
  let ?h = "ip_bytes ?tot ?id 17 0 (NetOurIP st) dest"
  let ?u = "udp_bytes sport dport len"
  have 1: "put_bytes (put_bytes (put_bytes (put_bytes (put_bytes b off ?h)
      (off + 20) (be16 (word_of_int sport)))
      (off + 22) (be16 (word_of_int dport)))
      (off + 24) (be16 (of_nat (8 + len)))) (off + 26) (be16 0) = put_bytes b off (?h @ ?u)"
    using put_bytes_append [of off ?h "be16 (word_of_int sport)" b] 
      put_bytes_append [of off "?h @ be16 (word_of_int sport)" "be16 (word_of_int dport)" b] 
      put_bytes_append [of off "?h @ be16 (word_of_int sport) @ be16 (word_of_int dport)" "be16 (of_nat (8 + len))" b] 
      put_bytes_append [of off "?h @ be16 (word_of_int sport) @ be16 (word_of_int dport) @ be16 (of_nat (8 + len))" "be16 0" b] l
    by (simp add: udp_bytes_def del: put_bytes_append of_nat_add)
  have lu: "length ?u = 8" by (simp add: udp_bytes_def)
  have 2: "get_bytes (put_bytes b off (?h @ ?u)) off 20 = ?h"
    using l lu by (subst get_bytes_put_prefix) auto
  have 3: "put_bytes (put_bytes b off (?h @ ?u)) (off + 10) (be16 c) =
      put_bytes b off (ip_bytes ?tot ?id 17 c (NetOurIP st) dest @ ?u)" for c
    using l lu by (subst put_bytes_within) (simp_all add: put_ip_checksum)
  show ?thesis
    unfolding NetSetIP_def Let_def udp_pad_def [symmetric] b_def [symmetric]
    by (simp add: ip_udp_header_def ip_header_sum_def Let_def 1 2 3 del: of_nat_add of_nat_Suc)
qed

lemma NetEthHdrSize_untagged: "NetEthHdrSize st = (if untagged st then 14 else 18)"
  by (simp add: NetEthHdrSize_def untagged_def)

lemma NetEthHdrSize_le: "NetEthHdrSize st \<le> 18" "14 \<le> NetEthHdrSize st"
  by (simp_all add: NetEthHdrSize_untagged)

lemma length_eth_header [simp]:
  "length addr = 6 \<Longrightarrow> length (NetOurEther st) = 6 \<Longrightarrow> length (eth_header st addr prot) = NetEthHdrSize st"
  by (simp add: eth_header_def NetEthHdrSize_untagged)

lemma length_ip_udp_header [simp]: "length (ip_udp_header st dest dport sport len) = 28"
  by (simp add: ip_udp_header_def udp_bytes_def Let_def)

lemma NetSetEther_buffer:
  assumes "length addr = 6" "length (NetOurEther st) = 6" "18 \<le> length xet"
  shows "NetSetEther st xet addr prot = (put_bytes xet 0 (eth_header st addr prot), NetEthHdrSize st)"
  using assms
  by (simp add: NetSetEther_def NetEthHdrSize_def eth_header_def untagged_def put_bytes_append' Let_def)

lemma get_bytes_append_after:
  "get_bytes (put_bytes buf off bs) off (length bs + n) =
   bs @ get_bytes buf (off + length bs) n" if "off + length bs + n \<le> length buf"
  using that by (intro nth_equalityI) (auto simp: get_bytes_def nth_put_bytes nth_append)

lemma NetSendUDPPacket_sends:
  assumes wf: "net_wf st" and n: "NetEthHdrSize st + 29 + len \<le> 1536"
    and d: "dest \<noteq> 0" "dest \<noteq> 0xFFFFFFFF" and m: "mac_of m st \<noteq> NetEtherNullAddr" "length (mac_of m st) = 6"
    and e: "eth_current st \<noteq> None"
  shows "\<exists>buf. length buf = PKTSIZE_ALIGN \<and> NetSendUDPPacket m dest dport sport len st =
    (0, st\<lparr>NetIPID := NetIPID st + 1, NetTxPacket := buf,
           sent := sent st @ [udp_frame st (mac_of m st) dest dport sport
             (get_bytes (NetTxPacket st) (NetEthHdrSize st + 28) len)]\<rparr>)"
proof -
  let ?n = "NetEthHdrSize st"
  let ?h = "eth_header st (mac_of m st) PROT_IP"
  let ?i = "ip_udp_header st dest dport sport len"
  have l: "length (NetTxPacket st) = 1536" "length (NetOurEther st) = 6" using wf by (simp_all add: net_wf_def)
  have h: "length ?h = ?n" using m l by simp
  have s: "NetSetEther st (NetTxPacket st) (mac_of m st) PROT_IP = (put_bytes (NetTxPacket st) 0 ?h, ?n)"
    using m l by (simp add: NetSetEther_buffer)
  define b where "b = udp_pad ?n len (put_bytes (NetTxPacket st) 0 ?h)"
  have lb: "length b = 1536" using l h n by (simp add: b_def udp_pad_def)
  have i: "NetSetIP st (put_bytes (NetTxPacket st) 0 ?h) ?n dest dport sport len =
      (put_bytes b ?n ?i, st\<lparr>NetIPID := NetIPID st + 1\<rparr>)"
    unfolding b_def using l h n by (intro NetSetIP_buffer) simp
  have "get_bytes (put_bytes b ?n ?i) 0 (?n + 28 + len) =
      udp_frame st (mac_of m st) dest dport sport (get_bytes (NetTxPacket st) (?n + 28) len)"
    (is "?l = ?r")
  proof (rule nth_equalityI)
    show "length ?l = length ?r" using l lb n h by (simp add: udp_frame_def)
    fix k assume "k < length ?l"
    then have k: "k < ?n + 28 + len" using lb n by (simp add: get_bytes_def)
    then show "?l ! k = ?r ! k"
      using l lb n h by (auto simp: get_bytes_def nth_put_bytes nth_append udp_frame_def b_def udp_pad_def)
  qed
  then show ?thesis
    using d m e s i lb n
    by (intro exI [of _ "put_bytes b ?n ?i"]) (simp add: NetSendUDPPacket_def eth_send_def Let_def)
qed

lemma length_consts [simp]: "length NetBcastAddr = 6" "length NetEtherNullAddr = 6"
  by (simp_all add: NetBcastAddr_def NetEtherNullAddr_def)

lemma length_arp_bytes [simp]:
  "length sha = 6 \<Longrightarrow> length tha = 6 \<Longrightarrow> length (arp_bytes op sha spa tha tpa) = 28"
  by (simp add: arp_bytes_def)

lemma ArpRequest_sends:
  assumes "length (NetTxPacket st) = PKTSIZE_ALIGN" "length (NetOurEther st) = 6" "eth_current st \<noteq> None"
  shows "\<exists>buf. length buf = PKTSIZE_ALIGN \<and> ArpRequest st =
    st\<lparr>NetArpWaitReplyIP := next_hop st (NetArpWaitPacketIP st), NetTxPacket := buf,
       sent := sent st @ [arp_request_frame st (NetArpWaitPacketIP st)]\<rparr>"
proof -
  let ?n = "NetEthHdrSize st"
  let ?h = "eth_header st NetBcastAddr PROT_ARP"
  let ?r = "next_hop st (NetArpWaitPacketIP st)"
  let ?a = "arp_bytes 1 (NetOurEther st) (NetOurIP st) NetEtherNullAddr ?r"
  have h: "length ?h = ?n" using assms by simp
  have a: "length ?a = 28" using assms by simp
  have s: "NetSetEther st (NetTxPacket st) NetBcastAddr PROT_ARP = (put_bytes (NetTxPacket st) 0 ?h, ?n)"
    using assms by (simp add: NetSetEther_buffer)
  have r: "(if NetArpWaitPacketIP st AND NetOurSubnetMask st \<noteq> NetOurIP st AND NetOurSubnetMask st
     then if NetOurGatewayIP st = 0 then NetArpWaitPacketIP st else NetOurGatewayIP st
     else NetArpWaitPacketIP st) = ?r" by (simp add: next_hop_def)
  define b where "b = put_bytes (NetTxPacket st) 0 (?h @ ?a)"
  have p: "put_bytes (put_bytes (NetTxPacket st) 0 ?h) ?n ?a = b"
    unfolding b_def using assms h a NetEthHdrSize_le [of st] by (intro put_bytes_append') simp_all
  have lb: "length b = 1536" using assms h a NetEthHdrSize_le [of st] by (simp add: b_def)
  have g: "get_bytes b 0 (?n + 28) = ?h @ ?a"
    unfolding b_def using assms h a NetEthHdrSize_le [of st] by (intro get_bytes_put_same) simp_all
  show ?thesis
    using assms lb
    by (intro exI [of _ b]) (simp add: ArpRequest_def Let_def s r p g eth_send_def arp_request_frame_def)
qed

lemma NetSendUDPPacket_parks:
  assumes wf: "net_wf st" and n: "NetEthHdrSize st + 29 + len \<le> 1536"
    and d: "dest \<noteq> 0" "dest \<noteq> 0xFFFFFFFF" and m: "mac_of m st = NetEtherNullAddr"
    and e: "eth_current st \<noteq> None"
  shows "\<exists>wait tx. length wait = PKTSIZE_ALIGN \<and> length tx = PKTSIZE_ALIGN \<and>
    get_bytes wait 0 (NetEthHdrSize st + 28 + len) =
      udp_frame st NetEtherNullAddr dest dport sport (get_bytes (NetTxPacket st) (NetEthHdrSize st + 28) len) \<and>
    NetSendUDPPacket m dest dport sport len st =
    (1, st\<lparr>NetArpWaitPacketIP := dest, NetArpWaitPacketMAC := Some m, NetIPID := NetIPID st + 1,
           NetArpWaitTxPacket := wait, NetArpWaitTxPacketSize := NetEthHdrSize st + 28 + len,
           NetArpWaitTry := 1, NetArpWaitTimerStart := clock st,
           NetArpWaitReplyIP := next_hop st dest, NetTxPacket := tx,
           sent := sent st @ [arp_request_frame st dest]\<rparr>)"
proof -
  let ?n = "NetEthHdrSize st"
  let ?h = "eth_header st NetEtherNullAddr PROT_IP"
  let ?i = "ip_udp_header st dest dport sport len"
  let ?d = "get_bytes (NetTxPacket st) (?n + 28) len"
  let ?s1 = "st\<lparr>NetArpWaitPacketIP := dest, NetArpWaitPacketMAC := Some m\<rparr>"
  have l: "length (NetTxPacket st) = 1536" "length (NetArpWaitTxPacket st) = 1536" "length (NetOurEther st) = 6"
    using wf by (simp_all add: net_wf_def)
  have h: "length ?h = ?n" and dl: "length ?d = len" using l n by simp_all
  have eqs: "NetEthHdrSize ?s1 = ?n" "eth_header ?s1 a p = eth_header st a p"
    "ip_udp_header ?s1 dest dport sport len = ?i" "mac_of m ?s1 = NetEtherNullAddr" for a p
    using m by (simp_all add: NetEthHdrSize_def my_vlan_def eth_header_def untagged_def ip_udp_header_def
        mac_of_def split: macref.splits)
  have s: "NetSetEther ?s1 (NetArpWaitTxPacket st) NetEtherNullAddr PROT_IP =
      (put_bytes (NetArpWaitTxPacket st) 0 ?h, ?n)"
    using l by (simp add: NetSetEther_buffer eqs)
  define b where "b = udp_pad ?n len (put_bytes (NetArpWaitTxPacket st) 0 ?h)"
  have lb: "length b = 1536" using l h n by (simp add: b_def udp_pad_def)
  have i: "NetSetIP ?s1 (put_bytes (NetArpWaitTxPacket st) 0 ?h) ?n dest dport sport len =
      (put_bytes b ?n ?i, ?s1\<lparr>NetIPID := NetIPID st + 1\<rparr>)"
    unfolding b_def using l h n
    by (subst NetSetIP_buffer) (simp_all add: eqs)
  define w where "w = put_bytes (put_bytes b ?n ?i) (?n + 28) ?d"
  have lw: "length w = 1536" using lb dl n by (simp add: w_def)
  have g: "get_bytes w 0 (?n + 28 + len) = udp_frame st NetEtherNullAddr dest dport sport ?d" (is "?l = ?r")
  proof (rule nth_equalityI)
    show "length ?l = length ?r" using l lw n h dl by (simp add: udp_frame_def)
    fix k assume "k < length ?l"
    then have k: "k < ?n + 28 + len" using lw n by (simp add: get_bytes_def)
    then show "?l ! k = ?r ! k"
      using l lb n h dl
      by (auto simp: get_bytes_def nth_put_bytes nth_append udp_frame_def w_def b_def udp_pad_def)
  qed
  let ?s2 = "?s1\<lparr>NetIPID := NetIPID st + 1, NetArpWaitTxPacket := w,
      NetArpWaitTxPacketSize := ?n + 28 + len, NetArpWaitTry := 1, NetArpWaitTimerStart := clock st\<rparr>"
  have r: "NetSendUDPPacket m dest dport sport len st = (1, ArpRequest ?s2)"
    using d m eqs(4) by (simp add: NetSendUDPPacket_def Let_def s i w_def)
  have a: "next_hop ?s2 dest = next_hop st dest" "arp_request_frame ?s2 dest = arp_request_frame st dest"
    by (simp_all add: next_hop_def arp_request_frame_def eth_header_def untagged_def my_vlan_def)
  obtain tx where "length tx = PKTSIZE_ALIGN" "ArpRequest ?s2 =
    ?s2\<lparr>NetArpWaitReplyIP := next_hop st dest, NetTxPacket := tx, sent := sent st @ [arp_request_frame st dest]\<rparr>"
    using ArpRequest_sends [of ?s2] l e a by auto
  then show ?thesis using r g lw by (intro exI [of _ w] exI [of _ tx]) simp
qed

lemma arp_fields:
  assumes "length sha = 6" "length tha = 6"
  shows "get16 (arp_bytes op sha spa tha tpa @ r) 0 = 1" "get16 (arp_bytes op sha spa tha tpa @ r) 2 = PROT_IP"
    "(arp_bytes op sha spa tha tpa @ r) ! 4 = 6" "(arp_bytes op sha spa tha tpa @ r) ! 5 = 4"
    "get16 (arp_bytes op sha spa tha tpa @ r) 6 = op" "get_bytes (arp_bytes op sha spa tha tpa @ r) 8 6 = sha"
    "get32 (arp_bytes op sha spa tha tpa @ r) 14 = spa" "get_bytes (arp_bytes op sha spa tha tpa @ r) 18 6 = tha"
    "get32 (arp_bytes op sha spa tha tpa @ r) 24 = tpa"
  using assms
  by (simp_all add: arp_bytes_def get16_append get32_append get_bytes_append nth_append
      get16_Cons get32_Cons get_bytes_Cons)

lemma set_mac_simps [simp]:
  "NetArpWaitTxPacket (set_mac m a st) = NetArpWaitTxPacket st"
  "NetArpWaitTxPacketSize (set_mac m a st) = NetArpWaitTxPacketSize st"
  "eth_current (set_mac m a st) = eth_current st" "sent (set_mac m a st) = sent st"
  by (cases m; simp add: set_mac_def)+

lemma mac_of_set_mac: "m \<noteq> BcastAddr \<Longrightarrow> mac_of m (set_mac m a st) = a"
  by (cases m) (simp_all add: mac_of_def set_mac_def)

lemma untagged_cong: "NetOurVLAN s = NetOurVLAN t \<Longrightarrow> untagged s = untagged t"
  by (simp add: untagged_def my_vlan_def)

text \<open>Sending only touches the transmit buffers, the ARP state, the packet counter and what was sent.\<close>

lemma NetSetIP_state: "snd (NetSetIP st buf off dest dport sport len) = st\<lparr>NetIPID := NetIPID st + 1\<rparr>"
  by (simp add: NetSetIP_def Let_def)

lemma eth_send_frame: "eth_send p st = st\<lparr>sent := (if eth_current st = None then sent st else sent st @ [p])\<rparr>"
  by (simp add: eth_send_def)

lemma ArpRequest_frame:
  "\<exists>r tx s. ArpRequest st = st\<lparr>NetArpWaitReplyIP := r, NetTxPacket := tx, sent := s\<rparr>"
proof -
  obtain buf n where e: "NetSetEther st (NetTxPacket st) NetBcastAddr PROT_ARP = (buf, n)" by fastforce
  have c: "\<exists>r tx s. st\<lparr>NetArpWaitReplyIP := r0, NetTxPacket := tx0, sent := s0\<rparr> =
     st\<lparr>NetArpWaitReplyIP := r, NetTxPacket := tx, sent := s\<rparr>" for r0 tx0 s0 by blast
  show ?thesis
    unfolding ArpRequest_def e Let_def prod.case eth_send_frame net_st.simps by (rule c)
qed

lemma NetSendUDPPacket_frame:
  "\<exists>id ip m w ws wt wts r tx s. snd (NetSendUDPPacket ether dest dport sport len st) =
     st\<lparr>NetArpWaitPacketIP := ip, NetArpWaitPacketMAC := m, NetIPID := id, NetArpWaitTxPacket := w,
        NetArpWaitTxPacketSize := ws, NetArpWaitTry := wt, NetArpWaitTimerStart := wts,
        NetArpWaitReplyIP := r, NetTxPacket := tx, sent := s\<rparr>"
proof -
  define d where "d = (if dest = 0 then 0xFFFFFFFF else dest)"
  define e where "e = (if d = 0xFFFFFFFF then BcastAddr else ether)"
  define s1 where "s1 = st\<lparr>NetArpWaitPacketIP := d, NetArpWaitPacketMAC := Some e\<rparr>"
  show ?thesis
  proof (cases "mac_of e st = NetEtherNullAddr")
    case True
    obtain b n where 1: "NetSetEther s1 (NetArpWaitTxPacket s1) (mac_of e s1) PROT_IP = (b, n)" by fastforce
    obtain b2 where 2: "NetSetIP s1 b n d dport sport len = (b2, s1\<lparr>NetIPID := NetIPID st + 1\<rparr>)"
      using NetSetIP_state [of s1 b n d dport sport len]
      by (cases "NetSetIP s1 b n d dport sport len") (simp add: s1_def)
    define s2 where "s2 = s1\<lparr>NetIPID := NetIPID st + 1,
      NetArpWaitTxPacket := put_bytes b2 (n + IP_HDR_SIZE) (get_bytes (NetTxPacket st) (n + IP_HDR_SIZE) len),
      NetArpWaitTxPacketSize := n + IP_HDR_SIZE + len, NetArpWaitTry := 1, NetArpWaitTimerStart := clock st\<rparr>"
    have "snd (NetSendUDPPacket ether dest dport sport len st) = ArpRequest s2"
      using True 1 2
      by (simp add: NetSendUDPPacket_def d_def [symmetric] e_def [symmetric] s1_def [symmetric] Let_def s2_def)
        (simp add: s1_def)
    moreover obtain r tx s where "ArpRequest s2 = s2\<lparr>NetArpWaitReplyIP := r, NetTxPacket := tx, sent := s\<rparr>"
      using ArpRequest_frame by blast
    ultimately show ?thesis unfolding s2_def s1_def net_st.simps by (auto intro!: exI)
  next
    case False
    obtain b n where 1: "NetSetEther st (NetTxPacket st) (mac_of e st) PROT_IP = (b, n)" by fastforce
    obtain b2 where 2: "NetSetIP st b n d dport sport len = (b2, st\<lparr>NetIPID := NetIPID st + 1\<rparr>)"
      using NetSetIP_state [of st b n d dport sport len]
      by (cases "NetSetIP st b n d dport sport len") simp
    obtain s where "snd (NetSendUDPPacket ether dest dport sport len st) =
        st\<lparr>NetIPID := NetIPID st + 1, NetTxPacket := b2, sent := s\<rparr>"
      using False 1 2
      by (simp add: NetSendUDPPacket_def d_def [symmetric] e_def [symmetric] Let_def eth_send_frame)
    then show ?thesis
      by - (rule exI [of _ "NetIPID st + 1"],
        rule exI [of _ "NetArpWaitPacketIP st"],
        rule exI [of _ "NetArpWaitPacketMAC st"],
        rule exI [of _ "NetArpWaitTxPacket st"],
        rule exI [of _ "NetArpWaitTxPacketSize st"],
        rule exI [of _ "NetArpWaitTry st"],
        rule exI [of _ "NetArpWaitTimerStart st"],
        rule exI [of _ "NetArpWaitReplyIP st"],
        rule exI [of _ "b2"],
        rule exI [of _ "s"], simp)
  qed
qed

lemma NetSetTimeout_keeps [simp]:
  "ram (NetSetTimeout t h st) = ram st" "TftpState (NetSetTimeout t h st) = TftpState st"
  "TftpBlock (NetSetTimeout t h st) = TftpBlock st" "TftpLastBlock (NetSetTimeout t h st) = TftpLastBlock st"
  "TftpServerPort (NetSetTimeout t h st) = TftpServerPort st" "TftpOurPort (NetSetTimeout t h st) = TftpOurPort st"
  "TftpBlockWrapOffset (NetSetTimeout t h st) = TftpBlockWrapOffset st"
  "net_load_addr (NetSetTimeout t h st) = net_load_addr st"
  "NetBootFileXferSize (NetSetTimeout t h st) = NetBootFileXferSize st" "NetState (NetSetTimeout t h st) = NetState st"
  "bootm_calls (NetSetTimeout t h st) = bootm_calls st" "fw_recovery (NetSetTimeout t h st) = fw_recovery st"
  "TftpTimeoutCount (NetSetTimeout t h st) = TftpTimeoutCount st"
  "packetHandler (NetSetTimeout t h st) = packetHandler st"
  "clock (NetSetTimeout t h st) = clock st" "CFG_HZ (NetSetTimeout t h st) = CFG_HZ st"
  by (simp_all add: NetSetTimeout_def)

lemma length_NetSetEther:
  assumes "length addr = 6" "length (NetOurEther st) = 6" "18 \<le> length xet"
  shows "length (fst (NetSetEther st xet addr prot)) = length xet" "snd (NetSetEther st xet addr prot) = NetEthHdrSize st"
  using assms NetEthHdrSize_le [of st] by (simp_all add: NetSetEther_buffer)

lemma length_NetSetIP:
  assumes "off + 29 + len \<le> length buf"
  shows "length (fst (NetSetIP st buf off dest dport sport len)) = length buf"
  using assms by (simp add: NetSetIP_buffer udp_pad_def)

lemma net_wf_ArpRequest: "net_wf st \<Longrightarrow> net_wf (ArpRequest st)"
  using length_NetSetEther [of NetBcastAddr st "NetTxPacket st" PROT_ARP] NetEthHdrSize_le [of st]
  by (simp add: ArpRequest_def Let_def split_def eth_send_frame net_wf_def)

lemma net_wf_NetSendUDPPacket:
  assumes "net_wf st" "len \<le> 1400"
  shows "net_wf (snd (NetSendUDPPacket ether dest dport sport len st))"
proof -
  define d where "d = (if dest = 0 then 0xFFFFFFFF else dest)"
  define e where "e = (if d = 0xFFFFFFFF then BcastAddr else ether)"
  have me: "length (mac_of e st) = 6" using assms(1) by (cases e) (simp_all add: net_wf_def mac_of_def)
  have n: "NetEthHdrSize s + 29 + len \<le> 1536" for s using NetEthHdrSize_le [of s] assms(2) by simp
  show ?thesis
  proof (cases "mac_of e st = NetEtherNullAddr")
    case True
    define s1 where "s1 = st\<lparr>NetArpWaitPacketIP := d, NetArpWaitPacketMAC := Some e\<rparr>"
    have w1: "net_wf s1" using assms(1) by (simp add: s1_def net_wf_def)
    have ms: "mac_of e s1 = NetEtherNullAddr" using True by (simp add: s1_def mac_of_def split: macref.splits)
    obtain b k where b: "NetSetEther s1 (NetArpWaitTxPacket st) (mac_of e s1) PROT_IP = (b, k)" by fastforce
    have b1: "length b = 1536" "k = NetEthHdrSize s1"
      using length_NetSetEther [of "mac_of e s1" s1 "NetArpWaitTxPacket st" PROT_IP] w1 assms(1)
      by (simp_all add: ms b [unfolded ms] net_wf_def)
    obtain c where c: "NetSetIP s1 b k d dport sport len = (c, s1\<lparr>NetIPID := NetIPID st + 1\<rparr>)"
      using NetSetIP_state [of s1 b k d dport sport len]
      by (cases "NetSetIP s1 b k d dport sport len") (simp add: s1_def)
    have c1: "length c = 1536" using length_NetSetIP [of k len b s1 d dport sport] b1(1) n [of s1] c unfolding b1(2) by simp
    have "snd (NetSendUDPPacket ether dest dport sport len st) = ArpRequest (s1\<lparr>NetIPID := NetIPID st + 1,
      NetArpWaitTxPacket := put_bytes c (k + 28) (get_bytes (NetTxPacket st) (k + 28) len),
      NetArpWaitTxPacketSize := k + 28 + len, NetArpWaitTry := 1, NetArpWaitTimerStart := clock st\<rparr>)"
      using True b c
      by (simp add: NetSendUDPPacket_def d_def [symmetric] e_def [symmetric] s1_def [symmetric] Let_def)
        (simp add: s1_def)
    moreover have "net_wf (s1\<lparr>NetIPID := NetIPID st + 1,
      NetArpWaitTxPacket := put_bytes c (k + 28) (get_bytes (NetTxPacket st) (k + 28) len),
      NetArpWaitTxPacketSize := k + 28 + len, NetArpWaitTry := 1, NetArpWaitTimerStart := clock st\<rparr>)"
      using w1 c1 b1 n [of s1] assms(1) by (simp add: net_wf_def)
    ultimately show ?thesis by (simp add: net_wf_ArpRequest)
  next
    case False
    obtain b k where b: "NetSetEther st (NetTxPacket st) (mac_of e st) PROT_IP = (b, k)" by fastforce
    have b1: "length b = 1536" "k = NetEthHdrSize st"
      using length_NetSetEther [of "mac_of e st" st "NetTxPacket st" PROT_IP] me assms(1)
      by (simp_all add: b net_wf_def)
    obtain c where c: "NetSetIP st b k d dport sport len = (c, st\<lparr>NetIPID := NetIPID st + 1\<rparr>)"
      using NetSetIP_state [of st b k d dport sport len]
      by (cases "NetSetIP st b k d dport sport len") simp
    have c1: "length c = 1536" using length_NetSetIP [of k len b st d dport sport] b1(1) n [of st] c unfolding b1(2) by simp
    show ?thesis
      using False b c c1 assms(1)
      by (simp add: NetSendUDPPacket_def d_def [symmetric] e_def [symmetric] Let_def eth_send_frame net_wf_def)
  qed
qed

lemma net_wf_eth_try_another: "net_wf st \<Longrightarrow> net_wf (eth_try_another b st)"
  by (auto simp: eth_try_another_def net_wf_def Let_def eth_next_def set_ethact_def split: option.split)

lemma net_wf_eth_init_loop: "net_wf st \<Longrightarrow> net_wf (snd (eth_init_loop n old st))"
  by (induction n old st rule: eth_init_loop.induct)
    (auto simp: Let_def net_wf_eth_try_another split: option.split)

lemma net_wf_eth_init: "net_wf st \<Longrightarrow> net_wf (snd (eth_init st))"
  by (simp add: eth_init_def net_wf_eth_init_loop split: option.split)

lemma net_wf_simps [simp]:
  "net_wf (st\<lparr>NetState := a\<rparr>) = net_wf st" "net_wf (st\<lparr>NetRestartWrap := b\<rparr>) = net_wf st"
  "net_wf (st\<lparr>packetHandler := c\<rparr>) = net_wf st" "net_wf (st\<lparr>timeHandler := d\<rparr>) = net_wf st"
  "net_wf (NetSetTimeout i h st) = net_wf st" "net_wf (NetSetHandler g st) = net_wf st"
  by (simp_all add: net_wf_def NetSetTimeout_def NetSetHandler_def)

lemma net_wf_NetStartAgain: "net_wf st \<Longrightarrow> net_wf (NetStartAgain st)"
  by (simp add: NetStartAgain_def Let_def net_wf_eth_init net_wf_eth_try_another)

lemma packetHandler_eth [simp]:
  "packetHandler (eth_try_another b st) = packetHandler st"
  by (auto simp: eth_try_another_def Let_def set_ethact_def split: option.split)

lemma packetHandler_eth_init_loop [simp]: "packetHandler (snd (eth_init_loop n old st)) = packetHandler st"
  by (induction n old st rule: eth_init_loop.induct) (auto simp: Let_def split: option.split)

lemma net_inv_NetStartAgain: "net_inv st \<Longrightarrow> net_inv (NetStartAgain st)"
  unfolding net_inv_def
  by (auto simp: net_wf_NetStartAgain)
    (auto simp: NetStartAgain_def Let_def NetSetHandler_def eth_init_def split: if_splits option.splits)

lemma net_inv_cong:
  "net_inv st \<Longrightarrow> NetTxPacket st' = NetTxPacket st \<Longrightarrow> NetArpWaitTxPacket st' = NetArpWaitTxPacket st \<Longrightarrow>
   NetOurEther st' = NetOurEther st \<Longrightarrow> NetServerEther st' = NetServerEther st \<Longrightarrow> ping_mac st' = ping_mac st \<Longrightarrow>
   eth_macs st' = eth_macs st \<Longrightarrow> eth_names st' = eth_names st \<Longrightarrow> eth_current st' = eth_current st \<Longrightarrow>
   tftp_filename st' = tftp_filename st \<Longrightarrow> tftp_bootfile st' = tftp_bootfile st \<Longrightarrow>
   packetHandler st' = packetHandler st \<Longrightarrow> net_inv st'"
  by (simp add: net_inv_def net_wf_def)

lemma net_wf_set_mac: "net_wf st \<Longrightarrow> length a = 6 \<Longrightarrow> net_wf (set_mac m a st)"
  by (cases m) (simp_all add: set_mac_def net_wf_def)

lemma ip_fields:
  "(ip_bytes t i p c s d @ r) ! 0 = 0x45" "get16 (ip_bytes t i p c s d @ r) 2 = t"
  "get16 (ip_bytes t i p c s d @ r) 6 = 0x4000" "(ip_bytes t i p c s d @ r) ! 9 = p"
  "get32 (ip_bytes t i p c s d @ r) 12 = s" "get32 (ip_bytes t i p c s d @ r) 16 = d"
  "20 \<le> k \<Longrightarrow> get16 (ip_bytes t i p c s d @ r) k = get16 r (k - 20)"
  "drop 28 (ip_bytes t i p c s d @ r) = drop 8 r"
  by (simp_all add: ip_bytes_def get16_append get32_append get16_Cons get32_Cons nth_append)

lemma eth_init_loop_flag: "fst (eth_init_loop n old st) = 0 \<or> fst (eth_init_loop n old st) = 1"
  by (induction n old st rule: eth_init_loop.induct) (auto simp: Let_def split: option.split)

text \<open>\<open>NetLoop\<close> without the check of \<open>eth_init\<close>'s result.\<close>

lemma eth_init_flag: "\<not> fst (eth_init st) < 0"
  using eth_init_loop_flag by (auto simp: eth_init_def split: option.split) (metis not_one_less_zero order_less_irrefl)+

text \<open>
  C33: \<open>NetSetIP\<close> writes a header that the code's own \<open>NetCksumOk\<close> accepts, whose length, address,
  protocol and port fields read back as given, and touches neither what precedes the header nor the payload.
\<close>

theorem NetSetIP_header:
  assumes "off + 29 + len \<le> length buf"
    and "NetSetIP st buf off dest dport sport len = (buf', st')"
  shows "NetCksumOk (drop off buf') 10 \<and> get16 buf' (off + 2) = of_nat (28 + len) \<and>
    get32 buf' (off + 12) = NetOurIP st \<and> get32 buf' (off + 16) = dest \<and> buf' ! (off + 9) = 17 \<and>
    get16 buf' (off + 20) = word_of_int sport \<and> get16 buf' (off + 22) = word_of_int dport \<and>
    get16 buf' (off + 24) = of_nat (8 + len) \<and> length buf' = length buf \<and>
    (\<forall>i < off. buf' ! i = buf ! i) \<and> (\<forall>i \<in> {off + 28..<off + 28 + len}. buf' ! i = buf ! i) \<and>
    st' = st\<lparr>NetIPID := NetIPID st + 1\<rparr>"
proof -
  let ?h = "ip_udp_header st dest dport sport len"
  let ?p = "udp_pad off len buf"
  have lp: "length ?p = length buf" using assms(1) by (simp add: udp_pad_def)
  have b: "buf' = put_bytes ?p off ?h" and s: "st' = st\<lparr>NetIPID := NetIPID st + 1\<rparr>"
    using assms by (simp_all add: NetSetIP_buffer)
  have d: "drop off buf' = ?h @ drop (off + 28) ?p"
    using lp assms(1) by (simp add: b put_bytes_def)
  let ?t = "of_nat (28 + len) :: u16"
  let ?i = "ucast (NetIPID st) :: u16"
  let ?u = "be16 (word_of_int sport) @ be16 (word_of_int dport) @ be16 (of_nat (8 + len)) @ be16 0 @ drop (off + 28) ?p"
  have e: "drop off buf' = ip_bytes ?t ?i 17 (ip_header_sum ?t ?i 17 (NetOurIP st) dest) (NetOurIP st) dest @ ?u"
    unfolding d by (simp add: ip_udp_header_def udp_bytes_def Let_def)
  have lb: "length buf' = length buf" using lp assms(1) by (simp add: b)
  have g: "get16 buf' (off + k) = get16 (drop off buf') k" "get32 buf' (off + k) = get32 (drop off buf') k"
    "buf' ! (off + k) = drop off buf' ! k" for k
    using assms(1) lb by (simp_all add: get16_drop get32_def add.assoc)
  have x: "buf' ! i = buf ! i" if "i < off \<or> i \<in> {off + 28..<off + 28 + len}" for i
    using that assms(1) lp unfolding b by (subst nth_put_bytes) (auto simp: udp_pad_def nth_put_bytes)
  show ?thesis
    unfolding g unfolding e using ip_header_sum_ok x lb s
    by (simp add: ip_fields get16_append)
qed

lemma sample_net_facts:
  "net_inv sample_net" "net_wf sample_net" "untagged sample_net" "NetEthHdrSize sample_net = 14"
  by (simp_all add: net_inv_def net_wf_def sample_net_def untagged_def my_vlan_def NetEthHdrSize_def All_less_Suc)

theorem NetSetIP_header_witness:
  "let (buf', st') = NetSetIP sample_net (replicate 64 0) 14 0xC0A80101 69 1024 4 in
   NetCksumOk (drop 14 buf') 10 \<and> get16 buf' 16 = 32 \<and> get32 buf' 30 = 0xC0A80101 \<and> get16 buf' 36 = 69"
  using NetSetIP_header [where off = 14 and len = 4 and buf = "replicate 64 0" and st = sample_net and
      dest = "0xC0A80101" and dport = 69 and sport = 1024]
  by (auto split: prod.split)

end
