(* ===== verification/Tftp.thy ===== *)
theory Tftp
  imports Net
begin

text \<open>
  The TFTP client of \<open>net/tftp.c\<close>, a state machine driven by packets and timeouts. It downloads
  into RAM at \<open>load_addr\<close> (\<open>CFG_DIRECT_FLASH_TFTP\<close> is not defined), acknowledges every block, and
  restarts through \<open>NetStartAgain\<close>. A handler gets the datagram as the rest of the receive buffer
  from the payload on, and its length as the caller computed it; reading past the buffer is
  \<open>Buffer_Fault\<close>.
\<close>

subsection \<open>Operations\<close>

abbreviation (input) WELL_KNOWN_PORT :: int where "WELL_KNOWN_PORT \<equiv> 69"
abbreviation (input) TIMEOUT :: u32 where "TIMEOUT \<equiv> 2"
abbreviation (input) TIMEOUT_COUNT :: nat where "TIMEOUT_COUNT \<equiv> 3"
abbreviation (input) TFTP_RRQ :: u16 where "TFTP_RRQ \<equiv> 1"
abbreviation (input) TFTP_DATA :: u16 where "TFTP_DATA \<equiv> 3"
abbreviation (input) TFTP_ACK :: u16 where "TFTP_ACK \<equiv> 4"
abbreviation (input) TFTP_ERROR :: u16 where "TFTP_ERROR \<equiv> 5"
abbreviation (input) TFTP_OACK :: u16 where "TFTP_OACK \<equiv> 6"
abbreviation (input) TFTP_BLOCK_SIZE :: u32 where "TFTP_BLOCK_SIZE \<equiv> 512"
abbreviation (input) TFTP_SEQUENCE_SIZE :: u32 where "TFTP_SEQUENCE_SIZE \<equiv> 0x10000"

text \<open>\<open>memcpy\<close> of \<open>bs\<close> to the address \<open>a\<close>, which wraps at 32 bits.\<close>

definition ram_write :: "(u32 \<Rightarrow> byte) \<Rightarrow> u32 \<Rightarrow> byte list \<Rightarrow> u32 \<Rightarrow> byte" where
  "ram_write m a bs = (\<lambda>x. if unat (x - a) < length bs then bs ! unat (x - a) else m x)"

text \<open>
  \<open>store_block\<close>; \<open>src\<close> is the receive buffer from the data on and \<open>len\<close> the unsigned length of the
  data.
\<close>

definition store_block :: "u32 \<Rightarrow> byte list \<Rightarrow> u32 \<Rightarrow> net_st \<Rightarrow> net_exit + net_st" where
  "store_block block src len st =
     (let offset = block * TFTP_BLOCK_SIZE + TftpBlockWrapOffset st;
          newsize = offset + len in
      if length src < unat len then Inl Buffer_Fault
      else
        let st = st\<lparr>ram := ram_write (ram st) (net_load_addr st + offset) (take (unat len) src)\<rparr> in
        Inr (if NetBootFileXferSize st < newsize then st\<lparr>NetBootFileXferSize := newsize\<rparr> else st))"

definition ascii :: "string \<Rightarrow> byte list" where
  "ascii s = map (\<lambda>c. of_nat (of_char c)) s"

definition cstring :: "string \<Rightarrow> byte list" where
  "cstring s = ascii s @ [0]"

text \<open>The payload \<open>TftpSend\<close> writes in each state.\<close>

definition tftp_payload :: "net_st \<Rightarrow> byte list" where
  "tftp_payload st =
     (case TftpState st of
        STATE_RRQ \<Rightarrow> be16 TFTP_RRQ @ cstring (tftp_filename st) @ cstring ''octet'' @
                     cstring ''timeout'' @ cstring ''2''
      | STATE_DATA \<Rightarrow> be16 TFTP_ACK @ be16 (ucast (TftpBlock st))
      | STATE_OACK \<Rightarrow> be16 TFTP_ACK @ be16 (ucast (TftpBlock st))
      | STATE_TOO_LARGE \<Rightarrow> be16 TFTP_ERROR @ be16 3 @ cstring ''File too large''
      | STATE_BAD_MAGIC \<Rightarrow> be16 TFTP_ERROR @ be16 2 @ cstring ''File has bad magic'')"

definition TftpSend :: "net_st \<Rightarrow> net_st" where
  "TftpSend st =
     (let p = tftp_payload st;
          st = st\<lparr>NetTxPacket := put_bytes (NetTxPacket st) (NetEthHdrSize st + IP_HDR_SIZE) p\<rparr>
      in snd (NetSendUDPPacket ServerEther (NetServerIP st) (TftpServerPort st) (TftpOurPort st)
                (length p) st))"

text \<open>\<open>TFTP_DATA\<close>: \<open>pkt\<close> starts at the block number and \<open>len\<close> counts from there.\<close>

definition tftp_count_block :: "u32 \<Rightarrow> net_st \<Rightarrow> net_st" where
  "tftp_count_block b st =
     (let st = st\<lparr>TftpBlock := b\<rparr> in
      if b = 0
      then st\<lparr>TftpBlockWrap := TftpBlockWrap st + 1,
              TftpBlockWrapOffset := TftpBlockWrapOffset st + TFTP_BLOCK_SIZE * TFTP_SEQUENCE_SIZE\<rparr>
      else st)"

definition tftp_first_block :: "int \<Rightarrow> net_st \<Rightarrow> net_st" where
  "tftp_first_block src st =
     st\<lparr>TftpState := STATE_DATA, TftpServerPort := src, TftpLastBlock := 0,
        TftpBlockWrap := 0, TftpBlockWrapOffset := 0\<rparr>"

definition tftp_accept :: "byte list \<Rightarrow> u32 \<Rightarrow> net_st \<Rightarrow> net_exit + net_st" where
  "tftp_accept pkt len st =
     (let st = st\<lparr>TftpLastBlock := TftpBlock st\<rparr>;
          st = NetSetTimeout (TIMEOUT * CFG_HZ st) TftpTimeout st;
          st = st\<lparr>TftpTimeoutCount := 0\<rparr> in
      rbind (store_block (TftpBlock st - 1) (drop 2 pkt) len st) (\<lambda>st.
        let st = TftpSend st in
        Inr (if len < TFTP_BLOCK_SIZE then st\<lparr>NetState := NETLOOP_SUCCESS\<rparr> else st)))"

definition tftp_data :: "byte list \<Rightarrow> int \<Rightarrow> u32 \<Rightarrow> net_st \<Rightarrow> net_exit + net_st" where
  "tftp_data pkt src len st =
     (if len < 2 then Inr st
      else if length pkt < 2 then Inl Buffer_Fault
      else
        let len = len - 2;
            st = tftp_count_block (ucast (get16 pkt 0)) st in
        if TftpState st = STATE_RRQ \<or> TftpState st = STATE_OACK then
          let st = tftp_first_block src st in
          if TftpBlock st \<noteq> 1 then Inr (NetStartAgain st)
          else if TftpBlock st = TftpLastBlock st then Inr st
          else tftp_accept pkt len st
        else if TftpBlock st = TftpLastBlock st then Inr st
        else tftp_accept pkt len st)"

definition do_TftpHandler :: "byte list \<Rightarrow> int \<Rightarrow> int \<Rightarrow> u32 \<Rightarrow> net_st \<Rightarrow> net_exit + net_st" where
  "do_TftpHandler pkt dest src len st =
     (if dest \<noteq> TftpOurPort st then Inr st
      else if TftpState st \<noteq> STATE_RRQ \<and> src \<noteq> TftpServerPort st then Inr st
      else if len < 2 then Inr st
      else if length pkt < 2 then Inl Buffer_Fault
      else
        let len = len - 2; proto = get16 pkt 0; pkt = drop 2 pkt in
        if proto = TFTP_OACK then
          Inr (TftpSend (st\<lparr>TftpState := STATE_OACK, TftpServerPort := src\<rparr>))
        else if proto = TFTP_DATA then tftp_data pkt src len st
        else if proto = TFTP_ERROR then Inr (NetStartAgain st)
        else Inr st)"

text \<open>
  \<open>TftpTimeout\<close>: in recovery mode, giving up means booting what is in flash; \<open>bootm_calls\<close> records
  the address.
\<close>

definition do_TftpTimeout :: "net_st \<Rightarrow> net_st" where
  "do_TftpTimeout st =
     (let st = st\<lparr>TftpTimeoutCount := Suc (TftpTimeoutCount st)\<rparr> in
      if TftpTimeoutCount st > TIMEOUT_COUNT then
        let st = (if fw_recovery st then
                    let a = fst (simple_strtoul ''9f020000'' 16) in
                    st\<lparr>net_load_addr := a, bootm_calls := bootm_calls st @ [a]\<rparr>
                  else st)
        in NetStartAgain st
      else TftpSend (NetSetTimeout (TIMEOUT * CFG_HZ st) TftpTimeout st))"

definition hex2 :: "u32 \<Rightarrow> string" where
  "hex2 w = (case vsprintf ''%02lX'' [VInt w] of None \<Rightarrow> [] | Some (_, s, _) \<Rightarrow> s)"

definition default_filename :: "u32 \<Rightarrow> string" where
  "default_filename ip =
     hex2 (ip AND 0xFF) @ hex2 (drop_bit 8 ip AND 0xFF) @ hex2 (drop_bit 16 ip AND 0xFF) @
     hex2 (drop_bit 24 ip AND 0xFF) @ ''.img''"

definition TftpStart :: "net_st \<Rightarrow> net_st" where
  "TftpStart st =
     (let st = st\<lparr>tftp_filename := (if tftp_bootfile st = [] then default_filename (NetOurIP st)
                                    else tftp_bootfile st)\<rparr>;
          st = NetSetTimeout (TIMEOUT * CFG_HZ st) TftpTimeout st;
          st = NetSetHandler TftpHandler st;
          st = st\<lparr>TftpServerPort := WELL_KNOWN_PORT, TftpTimeoutCount := 0, TftpState := STATE_RRQ,
                  TftpOurPort := 1024 + int (unat (clock st mod 3072)), TftpBlock := 0,
                  NetServerEther := NetEtherNullAddr\<rparr>
      in TftpSend st)"

subsection \<open>Specifications\<close>

text \<open>The datagram of block \<open>b\<close> of the file \<open>f\<close>, blocks counting from one.\<close>

definition file_block :: "byte list \<Rightarrow> nat \<Rightarrow> byte list" where
  "file_block f b = take 512 (drop (512 * (b - 1)) f)"

definition data_packet :: "byte list \<Rightarrow> nat \<Rightarrow> byte list" where
  "data_packet f b = be16 TFTP_DATA @ be16 (of_nat b) @ file_block f b"

definition last_block :: "byte list \<Rightarrow> nat" where
  "last_block f = length f div 512 + 1"

text \<open>What arrives from a lock-step server: each datagram is the next block or the last one again.\<close>

fun lockstep :: "nat \<Rightarrow> nat list \<Rightarrow> nat option" where
  "lockstep k [] = Some k"
| "lockstep k (b # bs) = (if b = Suc k \<or> b = k \<and> 0 < k then lockstep b bs else None)"

fun tftp_feed :: "byte list \<Rightarrow> int \<Rightarrow> byte list \<Rightarrow> nat list \<Rightarrow> net_st \<Rightarrow> net_exit + net_st" where
  "tftp_feed f sport junk [] st = Inr st"
| "tftp_feed f sport junk (b # bs) st =
     rbind (do_TftpHandler (data_packet f b @ junk) (TftpOurPort st) sport (of_nat (length (data_packet f b))) st)
       (tftp_feed f sport junk bs)"

definition transferred :: "byte list \<Rightarrow> int \<Rightarrow> net_st \<Rightarrow> nat \<Rightarrow> net_st \<Rightarrow> bool" where
  "transferred f sport s0 k st \<longleftrightarrow>
     (if k = 0 then TftpState st = STATE_RRQ
      else TftpState st = STATE_DATA \<and> TftpServerPort st = sport \<and> TftpLastBlock st = of_nat k \<and>
           TftpBlockWrapOffset st = 0) \<and>
     net_load_addr st = net_load_addr s0 \<and>
     ram st = ram_write (ram s0) (net_load_addr s0) (take (512 * k) f) \<and>
     NetBootFileXferSize st = of_nat (min (512 * k) (length f)) \<and>
     NetState st = (if last_block f \<le> k then NETLOOP_SUCCESS else NetState s0)"

subsection \<open>Lemmas\<close>

lemma TftpSend_frame:
  obtains id ip m w ws wt wts r tx s where "TftpSend st =
     st\<lparr>NetArpWaitPacketIP := ip, NetArpWaitPacketMAC := m, NetIPID := id, NetArpWaitTxPacket := w,
        NetArpWaitTxPacketSize := ws, NetArpWaitTry := wt, NetArpWaitTimerStart := wts,
        NetArpWaitReplyIP := r, NetTxPacket := tx, sent := s\<rparr>"
proof -
  define s1 where "s1 = st\<lparr>NetTxPacket := put_bytes (NetTxPacket st) (NetEthHdrSize st + 28) (tftp_payload st)\<rparr>"
  have "TftpSend st = snd (NetSendUDPPacket ServerEther (NetServerIP s1) (TftpServerPort s1) (TftpOurPort s1)
                (length (tftp_payload st)) s1)"
    by (simp add: TftpSend_def Let_def s1_def)
  with NetSendUDPPacket_frame [of ServerEther "NetServerIP s1" "TftpServerPort s1" "TftpOurPort s1"
      "length (tftp_payload st)" s1] that show ?thesis
    by (auto simp: s1_def)
qed

lemma TftpSend_keeps [simp]:
  "ram (TftpSend st) = ram st" "TftpState (TftpSend st) = TftpState st" "TftpBlock (TftpSend st) = TftpBlock st"
  "TftpLastBlock (TftpSend st) = TftpLastBlock st" "TftpServerPort (TftpSend st) = TftpServerPort st"
  "TftpOurPort (TftpSend st) = TftpOurPort st" "TftpBlockWrapOffset (TftpSend st) = TftpBlockWrapOffset st"
  "TftpTimeoutCount (TftpSend st) = TftpTimeoutCount st" "net_load_addr (TftpSend st) = net_load_addr st"
  "NetBootFileXferSize (TftpSend st) = NetBootFileXferSize st" "NetState (TftpSend st) = NetState st"
  "bootm_calls (TftpSend st) = bootm_calls st" "fw_recovery (TftpSend st) = fw_recovery st"
  "timeHandler (TftpSend st) = timeHandler st" "packetHandler (TftpSend st) = packetHandler st"
  "timeStart (TftpSend st) = timeStart st" "timeDelta (TftpSend st) = timeDelta st"
  "clock (TftpSend st) = clock st" "CFG_HZ (TftpSend st) = CFG_HZ st"
  by (rule TftpSend_frame [of st], simp)+

lemma ram_write_append:
  assumes "length a + length b < 2 ^ 32"
  shows "ram_write (ram_write m x a) (x + of_nat (length a)) b = ram_write m x (a @ b)"
proof
  fix y
  let ?k = "unat (y - x)"
  have u: "unat (of_nat (length a) :: u32) = length a" using assms by (simp add: unat_of_nat_small)
  have k: "unat (y - (x + of_nat (length a))) = 
     (if length a \<le> ?k then ?k - length a else ?k + 2 ^ 32 - length a)"
    unfolding diff_diff_eq [symmetric] unat_sub_if' [of "y - x" "of_nat (length a)"] u by simp
  show "ram_write (ram_write m x a) (x + of_nat (length a)) b y = ram_write m x (a @ b) y"
  proof (cases "length a \<le> ?k")
    case True
    then show ?thesis using k by (auto simp: ram_write_def nth_append)
  next
    case False
    then have "\<not> unat (y - (x + of_nat (length a))) < length b" using k assms by simp
    with False show ?thesis by (simp add: ram_write_def nth_append)
  qed
qed

lemma get16_data_packet: "get16 (data_packet f b @ j) 0 = TFTP_DATA"
  "drop 2 (data_packet f b @ j) = be16 (of_nat b) @ file_block f b @ j"
  by (simp_all add: data_packet_def get16_def be16_def)

lemma take_blocks: "take (512 * k) f @ file_block f (Suc k) = take (512 * Suc k) f"
  by (simp add: file_block_def take_add [symmetric] add.commute)

lemma length_file_block: "length (file_block f (Suc k)) = min 512 (length f - 512 * k)"
  by (simp add: file_block_def)

lemma store_block_ok:
  assumes "unat len \<le> length src"
  shows "store_block b src len st =
    Inr (st\<lparr>ram := ram_write (ram st) (net_load_addr st + (b * 512 + TftpBlockWrapOffset st)) (take (unat len) src),
            NetBootFileXferSize := (if NetBootFileXferSize st < b * 512 + TftpBlockWrapOffset st + len
              then b * 512 + TftpBlockWrapOffset st + len else NetBootFileXferSize st)\<rparr>)"
  using assms by (simp add: store_block_def Let_def)

lemma tftp_accept_next:
  assumes k: "k < last_block f" "length f < 512 * 65535"
    and st: "TftpBlock st = of_nat (Suc k)" "TftpBlockWrapOffset st = 0" "net_load_addr st = net_load_addr s0"
      "ram st = ram_write (ram s0) (net_load_addr s0) (take (512 * k) f)" "TftpState st = STATE_DATA"
      "TftpServerPort st = sport"
      "NetBootFileXferSize st = of_nat (min (512 * k) (length f))" "NetState st = NetState s0"
  shows "\<exists>st'. tftp_accept (be16 (of_nat (Suc k)) @ file_block f (Suc k) @ junk)
      (of_nat (length (file_block f (Suc k)))) st = Inr st' \<and> transferred f sport s0 (Suc k) st' \<and>
      TftpOurPort st' = TftpOurPort st"
proof -
  let ?d = "file_block f (Suc k)"
  have kl: "512 * k \<le> length f" and kb: "k < 65536"
    using k div_times_less_eq_dividend [of "length f" 512] by (simp_all add: last_block_def)
  have dl: "length ?d = min 512 (length f - 512 * k)" by (rule length_file_block)
  have ul: "unat (of_nat (length ?d) :: u32) = length ?d"
    using dl by (intro unat_of_nat_small) simp
  have off: "(TftpBlock st - 1) * 512 = (of_nat (512 * k) :: u32)" by (simp add: st)
  have tl: "length (take (512 * k) f) = 512 * k" using kl by simp
  have w: "ram_write (ram st) (net_load_addr s0 + of_nat (512 * k)) ?d =
      ram_write (ram s0) (net_load_addr s0) (take (512 * Suc k) f)"
    using ram_write_append [of "take (512 * k) f" ?d "ram s0" "net_load_addr s0"] k(2) kl dl
    by (simp add: st take_blocks tl del: of_nat_mult length_take)
  have sz: "of_nat (512 * k) + of_nat (length ?d) = (of_nat (min (512 * Suc k) (length f)) :: u32)"
    unfolding of_nat_add [symmetric] using kl dl by (intro arg_cong [of _ _ of_nat]) (auto simp: min_def)
  have lt: "(if NetBootFileXferSize st < of_nat (min (512 * Suc k) (length f))
      then of_nat (min (512 * Suc k) (length f)) else NetBootFileXferSize st) =
      (of_nat (min (512 * Suc k) (length f)) :: u32)"
  proof -
    have "unat (of_nat (min (512 * j) (length f)) :: u32) = min (512 * j) (length f)" for j
      using k(2) by (intro unat_of_nat_small) (simp add: min_def)
    from this [of k] this [of "Suc k"] show ?thesis
      using kl by (auto simp: st word_less_nat_alt min_def simp del: of_nat_mult)
  qed
  have fin: "(of_nat (length ?d) :: u32) < 512 \<longleftrightarrow> last_block f \<le> Suc k"
    using ul dl kl k by (auto simp: word_less_nat_alt last_block_def)
  define s3 where "s3 = (NetSetTimeout (TIMEOUT * CFG_HZ st) TftpTimeout (st\<lparr>TftpLastBlock := TftpBlock st\<rparr>))
    \<lparr>TftpTimeoutCount := 0\<rparr>"
  define s4 where "s4 = s3\<lparr>ram := ram_write (ram s0) (net_load_addr s0) (take (512 * Suc k) f),
    NetBootFileXferSize := of_nat (min (512 * Suc k) (length f))\<rparr>"
  have s3: "TftpBlock s3 = of_nat (Suc k)" "TftpLastBlock s3 = of_nat (Suc k)" "TftpBlockWrapOffset s3 = 0"
    "net_load_addr s3 = net_load_addr s0" "ram s3 = ram st" "TftpState s3 = STATE_DATA"
    "TftpServerPort s3 = sport" "TftpOurPort s3 = TftpOurPort st"
    "NetBootFileXferSize s3 = NetBootFileXferSize st" "NetState s3 = NetState s0"
    by (simp_all add: s3_def st)
  have "store_block (TftpBlock s3 - 1) (?d @ junk) (of_nat (length ?d)) s3 = Inr s4"
  proof -
    have o: "(TftpBlock s3 - 1) * 512 + TftpBlockWrapOffset s3 = of_nat (512 * k)"
      using off by (simp add: s3 st)
    have le: "unat (of_nat (length ?d) :: u32) \<le> length (?d @ junk)" by (simp only: ul) simp
    have x: "(if NetBootFileXferSize s3 < of_nat (min (512 * Suc k) (length f))
      then of_nat (min (512 * Suc k) (length f)) else NetBootFileXferSize s3) =
      (of_nat (min (512 * Suc k) (length f)) :: u32)" unfolding s3(9) by (rule lt)
    have t: "take (length ?d) (?d @ junk) = ?d" by simp
    show ?thesis
      unfolding store_block_ok [OF le] o sz ul t s3(4,5) w x s4_def ..
  qed
  then have a: "tftp_accept (be16 (of_nat (Suc k)) @ ?d @ junk) (of_nat (length ?d)) st = 
      Inr (if (of_nat (length ?d) :: u32) < 512 then (TftpSend s4)\<lparr>NetState := NETLOOP_SUCCESS\<rparr> else TftpSend s4)"
    unfolding tftp_accept_def Let_def s3_def [symmetric] NetSetTimeout_keeps by (simp add: s3_def [symmetric])
  show ?thesis
    unfolding a using fin by (simp add: transferred_def s4_def s3)
qed

lemma last_block_bound: "length f < 512 * 65535 \<Longrightarrow> b \<le> last_block f \<Longrightarrow> b < 65536"
  unfolding last_block_def by (drule less_mult_imp_div_less [of _ 65535 512, unfolded mult.commute [of 65535]]) simp

lemma tftp_packet:
  assumes "b < 65536" "0 < b" "TftpState st = STATE_RRQ \<or> TftpServerPort st = sport"
  shows "do_TftpHandler (data_packet f b @ junk) (TftpOurPort st) sport (of_nat (length (data_packet f b))) st =
    (let st = st\<lparr>TftpBlock := of_nat b\<rparr>;
         pkt = be16 (of_nat b) @ file_block f b @ junk; len = of_nat (length (file_block f b)) in
     if TftpState st = STATE_RRQ \<or> TftpState st = STATE_OACK then
       let st = tftp_first_block sport st in
       if b \<noteq> 1 then Inr (NetStartAgain st)
       else tftp_accept pkt len st
     else if of_nat b = TftpLastBlock st then Inr st
     else tftp_accept pkt len st)"
proof -
  let ?d = "file_block f b"
  have dl: "length ?d \<le> 512" by (simp add: file_block_def)
  have l: "(of_nat (length (data_packet f b)) :: u32) = of_nat (length ?d) + 4"
    by (simp add: data_packet_def)
  have un: "unat (of_nat (length ?d) + of_nat n :: u32) = length ?d + n" if "n < 100" for n
    unfolding of_nat_add [symmetric] using dl that by (intro unat_of_nat_small) simp
  have u: "unat (of_nat (length ?d) + 4 :: u32) = length ?d + 4" using un [of 4] by simp
  have u2: "unat (of_nat (length ?d) + 2 :: u32) = length ?d + 2" using un [of 2] by simp
  have nl: "\<not> (of_nat (length ?d) + 4 :: u32) < 2" "\<not> (of_nat (length ?d) + 2 :: u32) < 2"
    by (simp_all only: word_less_nat_alt u u2) simp_all
  have b: "(ucast (of_nat b :: u16) :: u32) = of_nat b"
    using assms(1) by (intro word_unat_eq_iff [THEN iffD2]) (simp add: unat_ucast_le unat_of_nat_small)
  have b0: "(of_nat b :: u32) \<noteq> 0"
    using assms(1,2) by (simp add: word_unat_eq_iff unat_of_nat_small)
  have b1: "(of_nat b :: u32) = 1 \<longleftrightarrow> b = 1"
    using assms(1,2) by (simp add: word_unat_eq_iff unat_of_nat_small)
  have s: "\<not> (TftpState st \<noteq> STATE_RRQ \<and> sport \<noteq> TftpServerPort st)" using assms(3) by auto
  have e: "do_TftpHandler (data_packet f b @ junk) (TftpOurPort st) sport (of_nat (length (data_packet f b))) st =
     tftp_data (be16 (of_nat b) @ ?d @ junk) sport (of_nat (length ?d) + 2) st"
    unfolding do_TftpHandler_def l using s nl
    by (simp add: get16_data_packet Let_def) (auto simp: data_packet_def add.commute)
  show ?thesis
    unfolding e tftp_data_def using nl b0 b1
    by (simp add: Let_def tftp_count_block_def b tftp_first_block_def)
qed

lemma transferred_step:
  assumes t: "transferred f sport s0 k st" and b: "b = Suc k \<or> b = k \<and> 0 < k" "b \<le> last_block f"
    and f: "length f < 512 * 65535"
  shows "\<exists>st'. do_TftpHandler (data_packet f b @ junk) (TftpOurPort st) sport
      (of_nat (length (data_packet f b))) st = Inr st' \<and> transferred f sport s0 b st' \<and>
      TftpOurPort st' = TftpOurPort st"
proof -
  have b16: "b < 65536" "0 < b" using last_block_bound [OF f b(2)] b(1) by auto
  have p: "TftpState st = STATE_RRQ \<or> TftpServerPort st = sport"
    using t by (auto simp: transferred_def split: if_splits)
  note h = tftp_packet [OF b16 p, of f junk]
  show ?thesis
  proof (cases "b = Suc k")
    case True
    have ns: "\<not> last_block f \<le> k" using b True by simp
    define s1 where "s1 = (let s = st\<lparr>TftpBlock := of_nat b\<rparr> in
      if k = 0 then tftp_first_block sport s else s)"
    have s1: "TftpBlock s1 = of_nat (Suc k)" "TftpBlockWrapOffset s1 = 0" "net_load_addr s1 = net_load_addr s0"
      "ram s1 = ram_write (ram s0) (net_load_addr s0) (take (512 * k) f)" "TftpState s1 = STATE_DATA"
      "TftpServerPort s1 = sport" "NetBootFileXferSize s1 = of_nat (min (512 * k) (length f))"
      "NetState s1 = NetState s0" "TftpOurPort s1 = TftpOurPort st"
      using t True ns by (auto simp: s1_def transferred_def tftp_first_block_def Let_def)
    have ne: "(of_nat (Suc k) :: u32) \<noteq> of_nat k"
      using True b16 by (simp del: of_nat_Suc add: word_unat_eq_iff unat_of_nat_small)
    have "do_TftpHandler (data_packet f b @ junk) (TftpOurPort st) sport (of_nat (length (data_packet f b))) st =
      tftp_accept (be16 (of_nat b) @ file_block f b @ junk) (of_nat (length (file_block f b))) s1"
      using t True ne unfolding h
      by (auto simp: Let_def s1_def transferred_def)
    then show ?thesis
      using tftp_accept_next [of k f s1 s0 sport junk] ns f s1 True by auto
  next
    case False
    then have k: "b = k" "0 < k" using b by auto
    have "do_TftpHandler (data_packet f b @ junk) (TftpOurPort st) sport (of_nat (length (data_packet f b))) st =
      Inr (st\<lparr>TftpBlock := of_nat b\<rparr>)"
      using t k unfolding h by (simp add: Let_def transferred_def)
    then show ?thesis using t k by (simp add: transferred_def)
  qed
qed

lemma lockstep_mono: "lockstep k bs = Some n \<Longrightarrow> k \<le> n"
  by (induction bs arbitrary: k) (force split: if_splits)+

lemma transferred_feed:
  assumes "transferred f sport s0 k st" "lockstep k bs = Some n" "n \<le> last_block f" "length f < 512 * 65535"
  shows "\<exists>st'. tftp_feed f sport junk bs st = Inr st' \<and> transferred f sport s0 n st'"
  using assms
proof (induction bs arbitrary: k st)
  case (Cons b bs)
  from Cons.prems have b: "b = Suc k \<or> b = k \<and> 0 < k" and l: "lockstep b bs = Some n"
    by (simp_all split: if_splits)
  have "b \<le> last_block f" using lockstep_mono [OF l] Cons.prems by simp
  from transferred_step [OF Cons.prems(1) b this Cons.prems(4)] obtain st' where
    "do_TftpHandler (data_packet f b @ junk) (TftpOurPort st) sport (of_nat (length (data_packet f b))) st = Inr st'"
    "transferred f sport s0 b st'" by blast
  with Cons.IH [of b st'] l Cons.prems show ?case by simp
qed simp

text \<open>
  C9: A TFTP download is correct. If a lock-step server sends the blocks of a file in order, each possibly
  repeated, the client ends in success with exactly the file at the load address, nothing else of the memory
  changed, and its size recorded. The bound is the 65535 blocks before the block number wraps.
\<close>

theorem tftp_transfer:
  assumes "length f < 512 * 65535" "TftpState st = STATE_RRQ" "NetBootFileXferSize st = 0"
    "lockstep 0 bs = Some (last_block f)"
  shows "\<exists>st'. tftp_feed f sport junk bs st = Inr st' \<and>
    ram st' = ram_write (ram st) (net_load_addr st) f \<and>
    NetBootFileXferSize st' = of_nat (length f) \<and> NetState st' = NETLOOP_SUCCESS"
proof -
  have "ram_write m x [] = m" for m x by (simp add: ram_write_def)
  then have 0: "transferred f sport st 0 st" 
    using assms by (simp add: transferred_def last_block_def)
  have "length f < 512 * last_block f" by (simp add: last_block_def dividend_less_times_div)
  with transferred_feed [OF 0 assms(4) order.refl assms(1), of junk] show ?thesis
    by (auto simp: transferred_def min_def not_le split: if_splits)
qed

lemma tftp_payload_length: "net_wf st \<Longrightarrow> length (tftp_payload st) \<le> 160"
  by (simp add: tftp_payload_def net_wf_def cstring_def ascii_def split: tftp_state.split)

lemma net_wf_TftpSend:
  assumes "net_wf st"
  shows "net_wf (TftpSend st)"
proof -
  have "net_wf (st\<lparr>NetTxPacket := put_bytes (NetTxPacket st) (NetEthHdrSize st + 28) (tftp_payload st)\<rparr>)"
    using assms tftp_payload_length [OF assms] NetEthHdrSize_le [of st] by (simp add: net_wf_def)
  then show ?thesis
    using tftp_payload_length [OF assms] by (simp add: TftpSend_def Let_def net_wf_NetSendUDPPacket)
qed

lemma net_inv_TftpSend: "net_inv st \<Longrightarrow> net_inv (TftpSend st)"
  by (simp add: net_inv_def net_wf_TftpSend)

lemma tftp_accept_safe:
  assumes "net_inv st" "unat len \<le> length (drop 2 pkt)"
  shows "ensures {} net_inv (tftp_accept pkt len st)"
proof -
  let ?s = "NetSetTimeout (TIMEOUT * CFG_HZ st) TftpTimeout (st\<lparr>TftpLastBlock := TftpBlock st\<rparr>)\<lparr>TftpTimeoutCount := 0\<rparr>"
  have i: "net_inv (?s\<lparr>ram := r, NetBootFileXferSize := x\<rparr>)" for r x
    using assms(1) by (rule net_inv_cong) (simp_all add: NetSetTimeout_def)
  have "net_inv (TftpSend (?s\<lparr>ram := r, NetBootFileXferSize := x\<rparr>))" for r x
    using i by (rule net_inv_TftpSend)
  moreover have "net_inv s \<Longrightarrow> net_inv (s\<lparr>NetState := a\<rparr>)" for s a by (simp add: net_inv_def)
  ultimately show ?thesis
    unfolding tftp_accept_def Let_def using store_block_ok [OF assms(2)] by simp
qed

lemma tftp_data_safe:
  assumes i: "net_inv st" and l: "unat len \<le> length pkt"
  shows "ensures {} net_inv (tftp_data pkt src len st)"
proof (cases "len < 2")
  case True
  then show ?thesis using i by (simp add: tftp_data_def)
next
  case False
  then have 2: "2 \<le> unat len" by (simp add: word_less_nat_alt)
  let ?b = "ucast (get16 pkt 0)"
  let ?s = "tftp_count_block ?b st"
  have a: "unat (len - 2) \<le> length (drop 2 pkt)" using l 2 by (simp add: unat_minus2)
  have s: "net_inv ?s" using i by (rule net_inv_cong) (simp_all add: tftp_count_block_def Let_def)
  then have f: "net_inv (tftp_first_block src ?s)"
    by (rule net_inv_cong) (simp_all add: tftp_first_block_def)
  show ?thesis
    using False l 2 s f tftp_accept_safe [OF s a] tftp_accept_safe [OF f a] net_inv_NetStartAgain [OF f]
    by (simp add: tftp_data_def Let_def)
qed

lemma do_TftpHandler_safe:
  assumes i: "net_inv st" and l: "unat len \<le> length pkt"
  shows "ensures {} net_inv (do_TftpHandler pkt dest src len st)"
proof (cases "len < 2")
  case True
  then show ?thesis using i by (simp add: do_TftpHandler_def)
next
  case False
  then have 2: "2 \<le> unat len" by (simp add: word_less_nat_alt)
  have d: "ensures {} net_inv (tftp_data (drop 2 pkt) src (len - 2) st)"
    using l 2 by (intro tftp_data_safe i) (simp add: unat_minus2)
  have o: "net_inv (st\<lparr>TftpState := STATE_OACK, TftpServerPort := src\<rparr>)"
    using i by (rule net_inv_cong) simp_all
  note s = net_inv_TftpSend [OF o] net_inv_NetStartAgain [OF i]
  have "length pkt \<ge> 2" using l 2 by simp
  then show ?thesis
    unfolding do_TftpHandler_def Let_def using False i d s
    by (auto simp del: net_st.simps)
qed

text \<open>
  When the block number has wrapped to 0, a repetition of that block moves the offset of everything
  after it by another 32 MiB: the wrap is counted before the test for a duplicate. The repetition is not acknowledged.
\<close>

theorem tftp_block0_repeated:
  assumes "TftpState st = STATE_DATA" "TftpServerPort st = sport" "TftpLastBlock st = 0"
    "4 \<le> unat len" "4 \<le> length pkt" "get16 pkt 0 = TFTP_DATA" "get16 pkt 2 = 0"
  shows "\<exists>st'. do_TftpHandler pkt (TftpOurPort st) sport len st = Inr st' \<and>
    TftpBlockWrapOffset st' = TftpBlockWrapOffset st + 0x2000000 \<and>
    sent st' = sent st \<and> TftpLastBlock st' = 0 \<and> TftpState st' = STATE_DATA"
proof -
  have l: "\<not> len < 2" "\<not> len - 2 < 2" "\<not> length pkt < 2" "\<not> length (drop 2 pkt) < 2"
    using assms(4,5) unat_minus2 [of len] by (simp_all add: word_less_nat_alt)
  have g: "get16 (drop 2 pkt) 0 = 0" using assms(5,7) by (simp add: get16_drop)
  show ?thesis
    unfolding do_TftpHandler_def Let_def tftp_data_def tftp_count_block_def g
    using l assms by simp
qed

text \<open>
  C35: During firmware recovery, the fourth timeout in a row gives up and boots the image at
  0x9f020000; the first three only resend.
\<close>

theorem tftp_timeouts_boot_flash:
  assumes "fw_recovery st" "TftpTimeoutCount st = 0"
  shows "(do_TftpTimeout ^^ 4) st = (do_TftpTimeout ^^ 3) st
      \<lparr>TftpTimeoutCount := 4, net_load_addr := 0x9f020000, bootm_calls := bootm_calls st @ [0x9f020000]\<rparr> \<and>
    bootm_calls ((do_TftpTimeout ^^ 3) st) = bootm_calls st"
proof -
  have u: "fst (simple_strtoul ''9f020000'' 16) = 0x9f020000"
    by (simp add: simple_strtoul_def of_char_toupper isxdigit_iff isdigit_iff islower_iff digit_value_def peek_def Let_def)
  have s: "do_TftpTimeout s = TftpSend (NetSetTimeout (TIMEOUT * CFG_HZ s) TftpTimeout
      (s\<lparr>TftpTimeoutCount := Suc (TftpTimeoutCount s)\<rparr>))" if "TftpTimeoutCount s < 3" for s
    using that by (simp add: do_TftpTimeout_def Let_def)
  have k: "fw_recovery ((do_TftpTimeout ^^ n) st) \<and> TftpTimeoutCount ((do_TftpTimeout ^^ n) st) = n \<and>
    bootm_calls ((do_TftpTimeout ^^ n) st) = bootm_calls st" if "n \<le> 3" for n
    using that by (induction n) (simp_all add: assms s)
  have "do_TftpTimeout s = s\<lparr>TftpTimeoutCount := 4, net_load_addr := 0x9f020000,
     bootm_calls := bootm_calls s @ [0x9f020000]\<rparr>" if "fw_recovery s" "TftpTimeoutCount s = 3" for s
    using that by (simp add: do_TftpTimeout_def u Let_def NetStartAgain_def)
  from this [of "(do_TftpTimeout ^^ 3) st"] k [of 3]
  show ?thesis by (simp add: numeral_eq_Suc)
qed

text \<open>
  What \<open>NetReceive\<close> relies on when it calls a handler: on a datagram that lies within the buffer
  the handler returns and keeps the invariant. A sequence of datagrams then does, too.
\<close>

fun handle_all :: "('p \<Rightarrow> 's \<Rightarrow> 'e + 's) \<Rightarrow> 'p list \<Rightarrow> 's \<Rightarrow> 'e + 's" where
  "handle_all h [] st = Inr st"
| "handle_all h (p # ps) st = rbind (h p st) (handle_all h ps)"

locale rx_handler =
  fixes h :: "byte list \<Rightarrow> int \<Rightarrow> int \<Rightarrow> u32 \<Rightarrow> 's \<Rightarrow> 'e + 's"
    and inv :: "'s \<Rightarrow> bool"
  assumes safe: "inv st \<Longrightarrow> unat len \<le> length pkt \<Longrightarrow> ensures {} inv (h pkt dest src len st)"
begin

lemma all_safe:
  "inv st \<Longrightarrow> \<forall>(pkt, dest, src, len) \<in> set ps. unat len \<le> length pkt \<Longrightarrow>
   ensures {} inv (handle_all (\<lambda>(pkt, dest, src, len). h pkt dest src len) ps st)"
proof (induction ps arbitrary: st)
  case (Cons p ps)
  obtain pkt dest src len where p: "p = (pkt, dest, src, len)" by (cases p)
  have "ensures {} inv (h pkt dest src len st)" using Cons.prems p by (intro safe) auto
  then show ?case using Cons p by (auto intro: ensures_rbind)
qed simp

end

interpretation tftp: rx_handler do_TftpHandler net_inv
  by unfold_locales (rule do_TftpHandler_safe)

interpretation ping: rx_handler "\<lambda>pkt dest src len st. Inr (do_PingHandler pkt st)" net_inv
  by unfold_locales (simp add: do_PingHandler_def net_inv_def)

text \<open>
  The TFTP client survives any sequence of datagrams, in any order and with any content, as long
  as each lies within its buffer: no access leaves a buffer, and the invariant of the network state holds after it.
\<close>

theorem tftp_handler_total:
  assumes "net_inv st" "\<forall>(pkt, dest, src, len) \<in> set ps. unat len \<le> length pkt"
  shows "\<exists>st'. handle_all (\<lambda>(pkt, dest, src, len). do_TftpHandler pkt dest src len) ps st = Inr st' \<and> net_inv st'"
  using tftp.all_safe [OF assms]
  by (cases "handle_all (\<lambda>(pkt, dest, src, len). do_TftpHandler pkt dest src len) ps st") auto

theorem tftp_handler_total_witness:
  "\<exists>st'. handle_all (\<lambda>(pkt, dest, src, len). do_TftpHandler pkt dest src len)
     [([0, 3, 0, 9, 7], 1024, 69, 5), ([0, 5], 1024, 69, 2)] sample_net = Inr st' \<and> net_inv st'"
  by (rule tftp_handler_total) (simp_all add: sample_net_facts)

text \<open>
  With the server's MAC known, \<open>TftpSend\<close> puts exactly one frame on the wire: the payload of the
  client's state in a UDP datagram from our port to the server's.
\<close>

theorem tftp_send_frame:
  assumes wf: "net_wf st" and e: "eth_current st \<noteq> None"
    and d: "NetServerIP st \<noteq> 0" "NetServerIP st \<noteq> 0xFFFFFFFF" and m: "NetServerEther st \<noteq> NetEtherNullAddr"
  shows "sent (TftpSend st) = sent st @
    [udp_frame st (NetServerEther st) (NetServerIP st) (TftpServerPort st) (TftpOurPort st) (tftp_payload st)]"
proof -
  let ?p = "tftp_payload st"
  let ?n = "NetEthHdrSize st + 28"
  define s where "s = st\<lparr>NetTxPacket := put_bytes (NetTxPacket st) ?n ?p\<rparr>"
  have l: "length ?p \<le> 160" "NetEthHdrSize st \<le> 18"
    using tftp_payload_length [OF wf] NetEthHdrSize_le [of st] by simp_all
  have "untagged s = untagged st" by (rule untagged_cong) (simp add: s_def)
  then have w: "net_wf s" "NetEthHdrSize s = NetEthHdrSize st" using wf l
    by (simp_all add: s_def net_wf_def NetEthHdrSize_untagged)
  have g: "get_bytes (NetTxPacket s) ?n (length ?p) = ?p" using wf l by (simp add: s_def net_wf_def)
  have f: "udp_frame s mac dst dp sp data = udp_frame st mac dst dp sp data" for mac dst dp sp data
    by (simp add: udp_frame_def eth_header_def ip_udp_header_def s_def untagged_def my_vlan_def)
  have t: "TftpSend st = snd (NetSendUDPPacket ServerEther (NetServerIP st) (TftpServerPort st) (TftpOurPort st)
      (length ?p) s)"
    by (simp add: TftpSend_def s_def Let_def)
  have ms: "mac_of ServerEther s = NetServerEther st" by (simp add: mac_of_def s_def)
  have "\<exists>buf. NetSendUDPPacket ServerEther (NetServerIP st) (TftpServerPort st) (TftpOurPort st) (length ?p) s =
    (0, s\<lparr>NetIPID := NetIPID s + 1, NetTxPacket := buf, sent := sent s @ [udp_frame s (mac_of ServerEther s)
      (NetServerIP st) (TftpServerPort st) (TftpOurPort st) (get_bytes (NetTxPacket s) (NetEthHdrSize s + 28) (length ?p))]\<rparr>)"
    using NetSendUDPPacket_sends [OF w(1), of "length ?p" "NetServerIP st" ServerEther "TftpServerPort st" "TftpOurPort st"]
      w(2) l d e m ms wf by (auto simp: s_def net_wf_def)
  then show ?thesis using g w(2) ms f by (auto simp: t s_def)
qed

theorem tftp_send_frame_witness:
  "length (sent (TftpSend sample_net)) = 1 \<and> take 6 (hd (sent (TftpSend sample_net))) = [2, 0, 0, 0, 0, 2]"
  using tftp_send_frame [OF sample_net_facts(2)]
  by (simp add: sample_net_def NetEtherNullAddr_def udp_frame_def eth_header_def)

theorem tftp_transfer_witness:
  "\<exists>st'. tftp_feed [7, 8, 9] 5000 [] [1, 1] sample_net = Inr st' \<and> ram st' 0x81000002 = 9 \<and>
     NetBootFileXferSize st' = 3 \<and> NetState st' = NETLOOP_SUCCESS"
  using tftp_transfer [of "[7, 8, 9]" sample_net "[1, 1]" 5000 "[]"]
  by (auto simp: sample_net_def last_block_def ram_write_def)

theorem tftp_block0_repeated_witness:
  "\<exists>st'. do_TftpHandler [0, 3, 0, 0, 5] 1024 69 5 (sample_net\<lparr>TftpState := STATE_DATA\<rparr>) = Inr st' \<and>
    TftpBlockWrapOffset st' = 0x2000000"
  using tftp_block0_repeated [of "sample_net\<lparr>TftpState := STATE_DATA\<rparr>" 69 5 "[0, 3, 0, 0, 5]"]
  by (auto simp: sample_net_def get16_def)

theorem tftp_timeouts_boot_flash_witness:
  "bootm_calls ((do_TftpTimeout ^^ 4) sample_net) = [0x9f020000]"
  using tftp_timeouts_boot_flash [of sample_net] by (simp add: sample_net_def)

end
