(* ===== verification/NetLoop.thy ===== *)
theory NetLoop
  imports Tftp
begin

text \<open>
  Reception and the main loop of \<open>net/net.c\<close>: \<open>NetReceive\<close> takes one frame apart and calls the
  current handler, and \<open>NetLoop\<close> runs the protocol's state machine until \<open>NetState\<close> says so. A
  received frame is the whole receive buffer of \<open>PKTSIZE_ALIGN\<close> bytes together with the length the
  driver reports.
\<close>

subsection \<open>Dispatch\<close>

text \<open>\<open>(*packetHandler)(pkt, dest, src, len)\<close>; \<open>None\<close> is a \<open>NULL\<close> packet.\<close>

definition dispatch ::
  "byte list option \<Rightarrow> int \<Rightarrow> int \<Rightarrow> u32 \<Rightarrow> net_st \<Rightarrow> net_exit + net_st" where
  "dispatch pkt dest src len st =
     (case packetHandler st of
        None \<Rightarrow> Inl Null_Handler
      | Some StartAgainHandler \<Rightarrow> Inr st
      | Some PingHandler \<Rightarrow>
          (case pkt of None \<Rightarrow> Inl Buffer_Fault | Some p \<Rightarrow> Inr (do_PingHandler p st))
      | Some TftpHandler \<Rightarrow>
          do_TftpHandler (case pkt of None \<Rightarrow> [] | Some p \<Rightarrow> p) dest src len st)"

text \<open>\<open>timeHandler\<close> is cleared before it runs.\<close>

definition run_timeout :: "thand \<Rightarrow> net_st \<Rightarrow> net_st" where
  "run_timeout h st =
     (case h of
        StartAgainTimeout \<Rightarrow> st\<lparr>NetState := NETLOOP_RESTART\<rparr>
      | PingTimeout \<Rightarrow> do_PingTimeout st
      | TftpTimeout \<Rightarrow> do_TftpTimeout st)"

subsection \<open>Reception\<close>

text \<open>
  The classification at the top of \<open>NetReceive\<close>: protocol, VLAN id, offset of the payload and the
  length left; \<open>None\<close> drops the frame.
\<close>

definition net_classify :: "byte list \<Rightarrow> int \<Rightarrow> net_st \<Rightarrow> (u16 \<times> u16 \<times> nat \<times> int) option" where
  "net_classify inpkt len st =
     (if len < int ETHER_HDR_SIZE then None
      else
        let x = get16 inpkt 12 in
        if x < 1514 then Some (get16 inpkt 20, VLAN_NONE, E802_HDR_SIZE, len - int E802_HDR_SIZE)
        else if x \<noteq> PROT_VLAN then Some (x, VLAN_NONE, ETHER_HDR_SIZE, len - int ETHER_HDR_SIZE)
        else if len < int VLAN_ETHER_HDR_SIZE then None
        else if NetOurVLAN st AND VLAN_IDMASK = VLAN_NONE then None
        else Some (get16 inpkt 16, get16 inpkt 14 AND VLAN_IDMASK, VLAN_ETHER_HDR_SIZE,
                   len - int VLAN_ETHER_HDR_SIZE))"

definition vlan_accepts :: "u16 \<Rightarrow> net_st \<Rightarrow> bool" where
  "vlan_accepts vlanid st =
     (let mine = my_vlan st AND VLAN_IDMASK;
          native = (if NetOurNativeVLAN st = - 1 then VLAN_NONE else NetOurNativeVLAN st) in
      mine = VLAN_NONE \<or>
      (if vlanid = VLAN_NONE then native AND VLAN_IDMASK else vlanid) = mine)"

text \<open>The answer to an ARP request is built in the receive buffer.\<close>

definition arp_reply :: "byte list \<Rightarrow> nat \<Rightarrow> net_st \<Rightarrow> net_st" where
  "arp_reply inpkt off st =
     (let (buf, n) = NetSetEther st inpkt (get_bytes inpkt 6 6) PROT_ARP;
          d = off + 8;
          buf = put_bytes buf (off + 6) (be16 2);
          buf = put_bytes buf (d + 10) (get_bytes buf d 6);
          buf = put_bytes buf (d + 16) (get_bytes buf (d + 6) 4);
          buf = put_bytes buf d (NetOurEther st);
          buf = put_bytes buf (d + 6) (be32 (NetOurIP st))
      in eth_send (get_bytes buf 0 (n + ARP_HDR_SIZE)) st)"

definition arp_answer :: "byte list \<Rightarrow> nat \<Rightarrow> net_st \<Rightarrow> net_st" where
  "arp_answer inpkt off st =
     (case NetArpWaitPacketMAC st of
        None \<Rightarrow> st
      | Some m \<Rightarrow>
          if NetArpWaitPacketIP st = 0 then st
          else if get32 inpkt (off + 14) = NetArpWaitReplyIP st then
            let st = set_mac m (get_bytes inpkt (off + 8) 6) st;
                buf = put_bytes (NetArpWaitTxPacket st) 0 (mac_of m st);
                st = eth_send (get_bytes buf 0 (NetArpWaitTxPacketSize st)) (st\<lparr>NetArpWaitTxPacket := buf\<rparr>)
            in st\<lparr>NetArpWaitPacketIP := 0, NetArpWaitTxPacketSize := 0, NetArpWaitPacketMAC := None\<rparr>
          else st)"

definition receive_arp :: "byte list \<Rightarrow> nat \<Rightarrow> int \<Rightarrow> net_st \<Rightarrow> net_st" where
  "receive_arp inpkt off len st =
     (if len < int ARP_HDR_SIZE then st
      else if get16 inpkt off \<noteq> 1 then st
      else if get16 inpkt (off + 2) \<noteq> PROT_IP then st
      else if inpkt ! (off + 4) \<noteq> 6 then st
      else if inpkt ! (off + 5) \<noteq> 4 then st
      else if NetOurIP st = 0 then st
      else if get32 inpkt (off + 24) \<noteq> NetOurIP st then st
      else if get16 inpkt (off + 6) = 1 then arp_reply inpkt off st
      else if get16 inpkt (off + 6) = 2 then arp_answer inpkt off st
      else st)"

definition receive_rarp :: "byte list \<Rightarrow> nat \<Rightarrow> int \<Rightarrow> net_st \<Rightarrow> net_exit + net_st" where
  "receive_rarp inpkt off len st =
     (if len < int ARP_HDR_SIZE then Inr st
      else if get16 inpkt (off + 6) \<noteq> 4 \<or> get16 inpkt off \<noteq> 1 \<or> get16 inpkt (off + 2) \<noteq> PROT_IP \<or>
              inpkt ! (off + 4) \<noteq> 6 \<or> inpkt ! (off + 5) \<noteq> 4
      then Inr st
      else
        let st = st\<lparr>NetOurIP := get32 inpkt (off + 24)\<rparr>;
            st = (if NetServerIP st = 0 then st\<lparr>NetServerIP := get32 inpkt (off + 14)\<rparr> else st);
            st = st\<lparr>NetServerEther := get_bytes inpkt (off + 8) 6\<rparr>
        in dispatch None 0 0 0 st)"

text \<open>
  \<open>len < IP_HDR_SIZE\<close> compares with a \<open>size_t\<close>, so a negative \<open>len\<close> passes; the comparison with
  \<open>ip_len\<close> is one of \<open>int\<close>s.
\<close>

definition receive_ip :: "byte list \<Rightarrow> nat \<Rightarrow> int \<Rightarrow> net_st \<Rightarrow> net_exit + net_st" where
  "receive_ip inpkt off len st =
     (let ip = drop off inpkt; dst = get32 ip 16 in
      if (word_of_int len :: u32) < of_nat IP_HDR_SIZE then Inr st
      else if len < int (unat (get16 ip 2)) then Inr st
      else if ip ! 0 AND 0xf0 \<noteq> 0x40 then Inr st
      else if get16 ip 6 AND 0x1fff \<noteq> 0 then Inr st
      else if \<not> NetCksumOk ip (IP_HDR_SIZE_NO_UDP div 2) then Inr st
      else if NetOurIP st \<noteq> 0 \<and> dst \<noteq> NetOurIP st \<and> dst \<noteq> 0xFFFFFFFF then Inr st
      else if ip ! 9 = 1 then
        if ip ! 20 = 0 then dispatch (Some ip) 0 0 0 st else Inr st
      else if ip ! 9 \<noteq> 17 then Inr st
      else dispatch (Some (drop IP_HDR_SIZE ip)) (int (unat (get16 ip 22))) (int (unat (get16 ip 20)))
             (ucast (get16 ip 24) - 8) st)"

definition NetReceive :: "byte list \<Rightarrow> int \<Rightarrow> net_st \<Rightarrow> net_exit + net_st" where
  "NetReceive inpkt len st =
     (case net_classify inpkt len st of
        None \<Rightarrow> Inr st
      | Some (x, vlanid, off, len) \<Rightarrow>
          if \<not> vlan_accepts vlanid st then Inr st
          else if x = PROT_ARP then Inr (receive_arp inpkt off len st)
          else if x = PROT_RARP then receive_rarp inpkt off len st
          else if x = PROT_IP then receive_ip inpkt off len st
          else Inr st)"

subsection \<open>The loop\<close>

datatype proto_t = TFTP | PING | NETCONS

text \<open>\<open>net_check_prereq\<close>: 0 to go on, 1 for a missing address, 2 for a device without one.\<close>

definition check_ether :: "net_st \<Rightarrow> int \<times> net_st" where
  "check_ether st =
     (if NetOurEther st = NetEtherNullAddr
      then if eth_get_dev_index st = - 1 then (1, st) else (2, NetStartAgain st)
      else (0, st))"

definition net_check_prereq :: "proto_t \<Rightarrow> net_st \<Rightarrow> int \<times> net_st" where
  "net_check_prereq protocol st =
     (if protocol = PING \<and> NetPingIP st = 0 then (1, st)
      else if protocol \<noteq> PING \<and> NetServerIP st = 0 then (1, st)
      else if NetOurIP st = 0 then (1, st)
      else check_ether st)"

text \<open>From the label \<open>restart\<close> to the reception loop; \<open>None\<close> is the return of -1.\<close>

definition net_restart :: "proto_t \<Rightarrow> net_st \<Rightarrow> net_exit + net_st option" where
  "net_restart protocol st =
     (case eth_current st of
        None \<Rightarrow> Inl Null_Device
      | Some cur \<Rightarrow>
          (let st = st\<lparr>NetOurEther := eth_macs st ! cur, NetState := NETLOOP_CONTINUE\<rparr>;
               st = st\<lparr>NetOurIP := bd_ip_addr st\<rparr>;
               st = st\<lparr>NetOurGatewayIP := getenv_IPaddr ''gatewayip'' st,
                       NetOurSubnetMask := getenv_IPaddr ''netmask'' st,
                       NetOurVLAN := getenv_VLAN ''vlan'' st,
                       NetOurNativeVLAN := getenv_VLAN ''nvlan'' st\<rparr>;
               st = (if protocol = PING then st
                     else st\<lparr>NetServerIP := getenv_IPaddr ''serverip'' st\<rparr>);
               (rc, st) = net_check_prereq protocol st
           in if rc = 1 then Inr None
              else if rc = 2 then Inr (Some st)
              else
                let st = st\<lparr>NetDevExists := True\<rparr>;
                    st = (case protocol of TFTP \<Rightarrow> TftpStart st | PING \<Rightarrow> PingStart st | NETCONS \<Rightarrow> st)
                in Inr (Some (st\<lparr>NetBootFileXferSize := 0\<rparr>))))"

text \<open>
  One turn of the loop: the frames \<open>eth_rx\<close> delivers, the abort key, the ARP and protocol timers,
  and the switch on \<open>NetState\<close>. \<open>None\<close> stays in the loop.
\<close>

fun receive_all :: "(byte list \<times> int) list \<Rightarrow> net_st \<Rightarrow> net_exit + net_st" where
  "receive_all [] st = Inr st"
| "receive_all ((pkt, len) # rx) st = rbind (NetReceive pkt len st) (receive_all rx)"

definition check_timeout :: "net_st \<Rightarrow> net_st" where
  "check_timeout st =
     (case timeHandler st of
        None \<Rightarrow> st
      | Some x \<Rightarrow>
          if clock st - timeStart st > timeDelta st then run_timeout x (st\<lparr>timeHandler := None\<rparr>)
          else st)"

definition loop_success :: "net_st \<Rightarrow> net_st" where
  "loop_success st =
     (if NetBootFileXferSize st > 0 then
        let hex = (\<lambda>f w. case vsprintf f [VInt w] of None \<Rightarrow> [] | Some (_, s, _) \<Rightarrow> s) in
        st\<lparr>nenv := (nenv st)(''filesize'' \<mapsto> hex ''%lx'' (NetBootFileXferSize st),
                             ''fileaddr'' \<mapsto> hex ''%lX'' (net_load_addr st))\<rparr>
      else st)"

definition net_turn ::
  "proto_t \<Rightarrow> (byte list \<times> int) list \<Rightarrow> bool \<Rightarrow> net_st \<Rightarrow> net_exit + (int option \<times> net_st)" where
  "net_turn protocol rx ctrlc st =
     rbind (receive_all rx st) (\<lambda>st.
       if ctrlc then Inr (Some (- 1), st)
       else
         let st = check_timeout (ArpTimeoutCheck st) in
         (case NetState st of
            NETLOOP_RESTART \<Rightarrow>
              rbind (net_restart protocol (st\<lparr>NetRestarted := True\<rparr>)) (\<lambda>r. case r of
                None \<Rightarrow> Inr (Some (- 1), st)
              | Some st \<Rightarrow> Inr (None, st))
          | NETLOOP_SUCCESS \<Rightarrow> Inr (Some (sint (NetBootFileXferSize st)), loop_success st)
          | NETLOOP_FAIL \<Rightarrow> Inr (Some (- 1), st)
          | NETLOOP_CONTINUE \<Rightarrow> Inr (None, st)))"

record net_event =
  ev_clock :: u32
  ev_rx :: "(byte list \<times> int) list"
  ev_ctrlc :: bool

text \<open>The loop over a finite sequence of turns; \<open>None\<close> when it still runs after them.\<close>

fun net_run ::
  "proto_t \<Rightarrow> net_event list \<Rightarrow> net_st \<Rightarrow> net_exit + (int option \<times> net_st)" where
  "net_run protocol [] st = Inr (None, st)"
| "net_run protocol (ev # evs) st =
     rbind (net_turn protocol (ev_rx ev) (ev_ctrlc ev) (st\<lparr>clock := ev_clock ev\<rparr>)) (\<lambda>(rc, st).
       case rc of Some r \<Rightarrow> Inr (Some r, st) | None \<Rightarrow> net_run protocol evs st)"

text \<open>
  \<open>NetLoop\<close>: the board selects \<open>eth1\<close>; the result of \<open>eth_init\<close> is compared with 0 by \<open><\<close>, which it
  never is.
\<close>

definition NetLoop :: "proto_t \<Rightarrow> net_event list \<Rightarrow> net_st \<Rightarrow> net_exit + (int option \<times> net_st)" where
  "NetLoop protocol evs st =
     (let st = st\<lparr>NetRestarted := False, NetDevExists := False, NetArpWaitPacketMAC := None,
                  NetArpWaitPacketIP := 0, NetArpWaitReplyIP := 0, NetArpWaitTxPacketSize := 0\<rparr>;
          st = st\<lparr>nenv := (nenv st)(''ethact'' \<mapsto> ''eth1'')\<rparr>;
          st = eth_set_current st;
          (rc, st) = eth_init st
      in if rc < 0 then Inr (Some (- 1), st)
         else rbind (net_restart protocol st) (\<lambda>r. case r of
           None \<Rightarrow> Inr (Some (- 1), st)
         | Some st \<Rightarrow> net_run protocol evs st))"

subsection \<open>Specifications\<close>

text \<open>
  The lengths a frame states: the UDP length covers its header and lies within the IP packet. The
  code checks neither.
\<close>

definition honest_udp :: "byte list \<Rightarrow> int \<Rightarrow> net_st \<Rightarrow> bool" where
  "honest_udp inpkt len st =
     (case net_classify inpkt len st of
        None \<Rightarrow> True
      | Some (x, vlanid, off, l) \<Rightarrow>
          x = PROT_IP \<and> inpkt ! (off + 9) = 17 \<longrightarrow>
          8 \<le> unat (get16 inpkt (off + 24)) \<and> 20 + unat (get16 inpkt (off + 24)) \<le> unat (get16 inpkt (off + 2)))"

text \<open>A RARP reply that is accepted.\<close>

definition rarp_reply :: "byte list \<Rightarrow> int \<Rightarrow> net_st \<Rightarrow> bool" where
  "rarp_reply inpkt len st =
     (case net_classify inpkt len st of
        None \<Rightarrow> False
      | Some (x, vlanid, off, l) \<Rightarrow>
          vlan_accepts vlanid st \<and> x = PROT_RARP \<and> int ARP_HDR_SIZE \<le> l \<and> get16 inpkt (off + 6) = 4 \<and>
          get16 inpkt off = 1 \<and> get16 inpkt (off + 2) = PROT_IP \<and> inpkt ! (off + 4) = 6 \<and> inpkt ! (off + 5) = 4)"

definition is_rarp :: "byte list \<Rightarrow> int \<Rightarrow> net_st \<Rightarrow> bool" where
  "is_rarp inpkt len st =
     (case net_classify inpkt len st of None \<Rightarrow> False | Some (x, _) \<Rightarrow> x = PROT_RARP)"

text \<open>A UDP datagram to our address, with the given length fields, and one from the server's port to ours.\<close>

definition datagram_frame ::
  "byte list \<Rightarrow> byte list \<Rightarrow> u32 \<Rightarrow> u32 \<Rightarrow> u16 \<Rightarrow> u16 \<Rightarrow> int \<Rightarrow> int \<Rightarrow> byte list \<Rightarrow> byte list" where
  "datagram_frame dst src spa dpa tot ulen sport dport payload =
     dst @ src @ be16 PROT_IP @ ip_bytes tot 0 17 (ip_header_sum tot 0 17 spa dpa) spa dpa @
     be16 (word_of_int sport) @ be16 (word_of_int dport) @ be16 ulen @ be16 0 @ payload"

definition udp_from_server :: "net_st \<Rightarrow> byte list \<Rightarrow> byte list \<Rightarrow> u32 \<Rightarrow> u16 \<Rightarrow> u16 \<Rightarrow> byte list \<Rightarrow> byte list" where
  "udp_from_server st dst src spa tot ulen payload =
     datagram_frame dst src spa (NetOurIP st) tot ulen (TftpServerPort st) (TftpOurPort st) payload"

subsection \<open>Lemmas\<close>

lemma NetReceive_arp_reply:
  fixes inpkt st dst mac spa rest len
  defines "inpkt \<equiv> arp_reply_frame dst mac spa (NetOurIP st) rest"
  assumes "untagged st" "length dst = 6" "length mac = 6" "42 \<le> len"
    "NetOurIP st \<noteq> 0" "NetArpWaitPacketMAC st = Some m" "NetArpWaitPacketIP st \<noteq> 0" "spa = NetArpWaitReplyIP st"
  shows "NetReceive inpkt len st = Inr
    (let st1 = set_mac m mac st;
         buf = put_bytes (NetArpWaitTxPacket st) 0 (mac_of m st1);
         st2 = eth_send (get_bytes buf 0 (NetArpWaitTxPacketSize st)) (st1\<lparr>NetArpWaitTxPacket := buf\<rparr>)
     in st2\<lparr>NetArpWaitPacketIP := 0, NetArpWaitTxPacketSize := 0, NetArpWaitPacketMAC := None\<rparr>)"
proof -
  let ?t = "arp_bytes 2 mac spa dst (NetOurIP st) @ rest"
  have i: "inpkt = (dst @ mac @ be16 PROT_ARP) @ ?t" by (simp add: inpkt_def arp_reply_frame_def)
  have l: "length (dst @ mac @ be16 PROT_ARP) = 14" using assms by simp
  have g: "get16 inpkt (14 + k) = get16 ?t k" "get32 inpkt (14 + k) = get32 ?t k"
    "get_bytes inpkt (14 + k) n = get_bytes ?t k n" "inpkt ! (14 + k) = ?t ! k" for k n
    unfolding i using l by (simp_all only: get16_append get32_append get_bytes_append nth_append) simp_all
  have f: "get16 inpkt 14 = 1" "get16 inpkt 16 = PROT_IP" "inpkt ! 18 = 6" "inpkt ! 19 = 4" "get16 inpkt 20 = 2"
    "get_bytes inpkt 22 6 = mac" "get32 inpkt 28 = spa" "get32 inpkt 38 = NetOurIP st"
    using g(1) [of 0] g(1) [of 2] g(1) [of 6] g(2) [of 14] g(2) [of 24] g(3) [of 8 6] g(4) [of 4] g(4) [of 5]
      arp_fields [OF assms(4,3), of 2 spa "NetOurIP st" rest] by simp_all
  have p: "get16 inpkt 12 = PROT_ARP"
    using assms(3,4) by (simp add: i get16_append)
  have c: "net_classify inpkt len st = Some (PROT_ARP, VLAN_NONE, 14, len - 14)"
    using assms(5) by (simp add: net_classify_def p)
  have v: "vlan_accepts VLAN_NONE st"
    using assms(2) by (simp add: vlan_accepts_def untagged_def Let_def)
  show ?thesis
    using assms(5-) c v by (simp add: NetReceive_def receive_arp_def f arp_answer_def Let_def)
qed

text \<open>
  C17: Address resolution delivers the deferred frame. Sending to a station whose MAC address is unknown
  sends only an ARP request for the next hop and parks the datagram; when the reply arrives, exactly the frame
  that a direct transmission would have produced, addressed to the learned MAC, is sent, and the wait is over.
\<close>

theorem arp_resolution:
  fixes st
  defines "n \<equiv> NetEthHdrSize st"
  assumes wf: "net_wf st" and u: "untagged st" and e: "eth_current st \<noteq> None" and ip: "NetOurIP st \<noteq> 0"
    and d: "dest \<noteq> 0" "dest \<noteq> 0xFFFFFFFF" and len: "n + 29 + len \<le> PKTSIZE_ALIGN"
    and m: "m \<noteq> BcastAddr" "mac_of m st = NetEtherNullAddr"
    and mac: "length dst = 6" "length mac = 6" and rl: "42 \<le> rlen"
  shows "\<exists>st1 st2. NetSendUDPPacket m dest dport sport len st = (1, st1) \<and>
    sent st1 = sent st @ [arp_request_frame st dest] \<and>
    NetReceive (arp_reply_frame dst mac (next_hop st dest) (NetOurIP st) rest) rlen st1 = Inr st2 \<and>
    sent st2 = sent st1 @
      [udp_frame st mac dest dport sport (get_bytes (NetTxPacket st) (n + IP_HDR_SIZE) len)] \<and>
    mac_of m st2 = mac \<and> NetArpWaitPacketIP st2 = 0"
proof -
  let ?data = "get_bytes (NetTxPacket st) (n + 28) len"
  obtain wait tx where w: "length wait = PKTSIZE_ALIGN"
    "get_bytes wait 0 (n + 28 + len) = udp_frame st NetEtherNullAddr dest dport sport ?data"
    and s: "NetSendUDPPacket m dest dport sport len st =
      (1, st\<lparr>NetArpWaitPacketIP := dest, NetArpWaitPacketMAC := Some m, NetIPID := NetIPID st + 1,
           NetArpWaitTxPacket := wait, NetArpWaitTxPacketSize := n + 28 + len,
           NetArpWaitTry := 1, NetArpWaitTimerStart := clock st,
           NetArpWaitReplyIP := next_hop st dest, NetTxPacket := tx,
           sent := sent st @ [arp_request_frame st dest]\<rparr>)" (is "_ = (1, ?st1)")
    using NetSendUDPPacket_parks [OF wf _ d m(2) e, of len dport sport] len by (auto simp: n_def)
  have l: "length (NetTxPacket st) = 1536" "length (NetOurEther st) = 6" using wf by (simp_all add: net_wf_def)
  have r: "NetReceive (arp_reply_frame dst mac (next_hop st dest) (NetOurIP st) rest) rlen ?st1 = Inr
    (let st1 = set_mac m mac ?st1;
         buf = put_bytes wait 0 (mac_of m st1);
         st2 = eth_send (get_bytes buf 0 (n + 28 + len)) (st1\<lparr>NetArpWaitTxPacket := buf\<rparr>)
     in st2\<lparr>NetArpWaitPacketIP := 0, NetArpWaitTxPacketSize := 0, NetArpWaitPacketMAC := None\<rparr>)"
    (is "_ = Inr ?st2")
    using NetReceive_arp_reply [of ?st1 dst mac rlen m "next_hop st dest" rest] u mac rl ip d
      untagged_cong [of ?st1 st]
    by simp
  have mm: "mac_of m (set_mac m mac ?st1) = mac"
    using m(1) by (rule mac_of_set_mac)
  have c: "eth_current (set_mac m mac ?st1) \<noteq> None" "sent (set_mac m mac ?st1) = sent ?st1"
    using e by simp_all
  have b: "get_bytes (put_bytes wait 0 mac) 0 (n + 28 + len) = udp_frame st mac dest dport sport ?data" (is "?l = ?r")
  proof -
    have "?l = mac @ drop 6 (get_bytes wait 0 (n + 28 + len))"
      using w(1) mac len by (simp add: put_bytes_def get_bytes_def drop_take n_def NetEthHdrSize_untagged)
    also have "\<dots> = ?r" by (simp add: w(2) udp_frame_def eth_header_def)
    finally show ?thesis .
  qed
  have "mac_of m ?st2 = mac" 
    using mm c by (cases m) (simp_all add: Let_def eth_send_def mac_of_def set_mac_def)
  moreover have "sent ?st2 = sent ?st1 @ [udp_frame st mac dest dport sport ?data]"
    using c m(1) by (simp add: Let_def mac_of_set_mac eth_send_def b)
  moreover have "NetArpWaitPacketIP ?st2 = 0" by (simp add: Let_def)
  ultimately show ?thesis using s r by (intro exI [of _ ?st1] exI [of _ ?st2]) simp
qed

lemma dispatch_safe:
  assumes "net_inv st" "case pkt of None \<Rightarrow> len = 0 \<and> packetHandler st \<noteq> Some PingHandler | Some p \<Rightarrow>
     packetHandler st = Some TftpHandler \<longrightarrow> unat len \<le> length p"
  shows "ensures {} net_inv (dispatch pkt dest src len st)"
proof -
  have p: "net_inv (do_PingHandler p st)" for p
    using assms(1) by (simp add: do_PingHandler_def net_inv_def)
  obtain h where "packetHandler st = Some h" using assms(1) by (auto simp: net_inv_def)
  then show ?thesis
    using assms p do_TftpHandler_safe [of st len "case pkt of None \<Rightarrow> [] | Some p \<Rightarrow> p" dest src]
    by (cases h) (auto simp: dispatch_def split: option.splits)
qed

lemma net_classify_cases:
  assumes "net_classify inpkt len st = Some (x, v, off, l)" "len \<le> 1536"
  shows "14 \<le> off" "off \<le> 22" "l = len - int off"
  using assms by (auto simp: net_classify_def Let_def split: if_splits)

lemma receive_ip_safe:
  assumes i: "net_inv st" and l: "length inpkt = 1536" "off \<le> 22" "len \<le> 1536 - int off"
    and h: "inpkt ! (off + 9) = 17 \<Longrightarrow>
      8 \<le> unat (get16 inpkt (off + 24)) \<and> 20 + unat (get16 inpkt (off + 24)) \<le> unat (get16 inpkt (off + 2))"
  shows "ensures {} net_inv (receive_ip inpkt off len st)"
proof -
  let ?ip = "drop off inpkt"
  let ?u = "get16 inpkt (off + 24)"
  have g: "get16 ?ip 24 = ?u" "get16 ?ip 2 = get16 inpkt (off + 2)" "?ip ! 9 = inpkt ! (off + 9)"
    using l by (simp_all add: get16_drop)
  have u: "ensures {} net_inv (dispatch (Some (drop 28 ?ip)) d s (ucast ?u - 8) st)"
    if "inpkt ! (off + 9) = 17" "\<not> len < int (unat (get16 inpkt (off + 2)))" for d s
  proof (rule dispatch_safe [OF i])
    have uu: "unat (ucast ?u :: u32) = unat ?u" by (simp add: unat_ucast_le)
    have "unat (ucast ?u - 8 :: u32) = unat ?u - 8"
      using h [OF that(1)] uu by (subst unat_sub) (simp_all add: word_le_nat_alt)
    then show "case Some (drop 28 ?ip) of None \<Rightarrow> ucast ?u - 8 = (0 :: u32) \<and> packetHandler st \<noteq> Some PingHandler
      | Some p \<Rightarrow> packetHandler st = Some TftpHandler \<longrightarrow> unat (ucast ?u - 8 :: u32) \<le> length p"
    proof -
      have "int (20 + unat ?u) \<le> len" using h [OF that(1)] that(2) by linarith
      then have "unat ?u - 8 \<le> 1508 - off" using l by linarith
      moreover have "length (drop 28 ?ip) = 1508 - off" using l by simp
      ultimately show ?thesis using \<open>unat (ucast ?u - 8 :: u32) = unat ?u - 8\<close> by simp
    qed
  qed
  have p: "ensures {} net_inv (dispatch (Some ?ip) 0 0 0 st)"
    by (rule dispatch_safe [OF i]) simp
  show ?thesis
    using i u p unfolding receive_ip_def Let_def g by simp
qed

lemma receive_arp_safe:
  assumes i: "net_inv st" and l: "length inpkt = 1536" "off \<le> 22"
  shows "net_inv (receive_arp inpkt off len st)"
proof -
  have "net_inv (arp_reply inpkt off st)"
    unfolding arp_reply_def Let_def split_def eth_send_frame
    using i by (rule net_inv_cong) simp_all
  moreover have "net_inv (arp_answer inpkt off st)"
  proof (cases "NetArpWaitPacketMAC st")
    case (Some m)
    let ?s = "set_mac m (get_bytes inpkt (off + 8) 6) st"
    have w: "net_wf ?s" using i l by (simp add: net_wf_set_mac net_inv_def)
    have ph: "packetHandler ?s = packetHandler st" by (cases m) (simp_all add: set_mac_def)
    have "length (mac_of m ?s) = 6" using w by (cases m) (simp_all add: mac_of_def net_wf_def)
    then have "net_wf (?s\<lparr>NetArpWaitTxPacket := put_bytes (NetArpWaitTxPacket st) 0 (mac_of m ?s)\<rparr>)"
      using w by (simp add: net_wf_def)
    then show ?thesis
      using i Some ph by (simp add: arp_answer_def Let_def eth_send_frame net_inv_def) (auto simp: net_wf_def)
  qed (simp add: arp_answer_def i)
  ultimately show ?thesis using i by (simp add: receive_arp_def)
qed

lemma receive_rarp_safe:
  assumes i: "net_inv st" and l: "length inpkt = 1536" "off \<le> 22" and p: "packetHandler st \<noteq> Some PingHandler"
  shows "ensures {} net_inv (receive_rarp inpkt off len st)"
proof -
  let ?s = "\<lambda>a. st\<lparr>NetOurIP := a, NetServerEther := get_bytes inpkt (off + 8) 6\<rparr>"
  let ?t = "\<lambda>a b. st\<lparr>NetOurIP := a, NetServerIP := b, NetServerEther := get_bytes inpkt (off + 8) 6\<rparr>"
  have n: "net_inv (?s a)" "net_inv (?t a b)" for a b
    using i l by (simp_all add: net_inv_def net_wf_def)
  have "ensures {} net_inv (dispatch None 0 0 0 (?s a))" for a
    using n(1) p by (intro dispatch_safe) simp_all
  moreover have "ensures {} net_inv (dispatch None 0 0 0 (?t a b))" for a b
    using n(2) p by (intro dispatch_safe) simp_all
  ultimately show ?thesis
    using i by (simp add: receive_rarp_def Let_def)
qed

lemma receive_rarp_ping:
  assumes "packetHandler st = Some PingHandler"
  shows "receive_rarp inpkt off len st =
    (if int ARP_HDR_SIZE \<le> len \<and> get16 inpkt (off + 6) = 4 \<and> get16 inpkt off = 1 \<and> get16 inpkt (off + 2) = PROT_IP \<and>
        inpkt ! (off + 4) = 6 \<and> inpkt ! (off + 5) = 4 then Inl Buffer_Fault else Inr st)"
  using assms by (auto simp: receive_rarp_def dispatch_def Let_def)

lemma NetReceive_exact:
  assumes "net_inv st" "length inpkt = PKTSIZE_ALIGN" "len \<le> int PKTSIZE_ALIGN" "honest_udp inpkt len st"
  shows "if packetHandler st = Some PingHandler \<and> rarp_reply inpkt len st then NetReceive inpkt len st = Inl Buffer_Fault
    else \<exists>st'. NetReceive inpkt len st = Inr st' \<and> net_inv st'"
proof (cases "net_classify inpkt len st")
  case (Some c)
  obtain x v off l where c: "c = (x, v, off, l)" by (cases c)
  note b = net_classify_cases [OF Some [unfolded c] assms(3)[simplified]]
  have e: "ensures {} net_inv r \<Longrightarrow> \<exists>st'. r = Inr st' \<and> net_inv st'" for r :: "net_exit + net_st" by (cases r) auto
  have i: "x = PROT_IP \<Longrightarrow> ensures {} net_inv (receive_ip inpkt off l st)"
    using assms(4) b assms(3) by (intro receive_ip_safe assms(1,2)) (simp_all add: honest_udp_def Some c)
  then have "x = PROT_IP \<Longrightarrow> ensures {} net_inv (receive_ip inpkt off l st)" .
  moreover have "packetHandler st \<noteq> Some PingHandler \<Longrightarrow> ensures {} net_inv (receive_rarp inpkt off l st)"
    using b by (intro receive_rarp_safe assms(1,2)) simp_all
  moreover note a = receive_arp_safe [OF assms(1,2) b(2), of l]
  ultimately have n: "ensures {} net_inv (NetReceive inpkt len st)" if "packetHandler st \<noteq> Some PingHandler"
    using that assms(1) by (simp add: NetReceive_def Some c)
  show ?thesis
  proof (cases "packetHandler st = Some PingHandler")
    case True
    show ?thesis
      using True e [OF i] a assms(1)
      by (simp add: NetReceive_def rarp_reply_def Some c receive_rarp_ping [OF True])
  next
    case False
    show ?thesis using e [OF n [OF False]] False by simp
  qed
qed (simp add: NetReceive_def rarp_reply_def assms(1))

text \<open>
  C14: What reception does with any frame of at most a buffer's size whose UDP length covers its header and lies within
  the IP packet, malformed Ethernet, ARP, IP and TFTP content included. Unless a ping runs and the frame is an accepted RARP
  reply, \<open>NetReceive\<close> returns, with all buffers at their size and a handler installed; in that one case, always, the ping handler is
  called without a packet and reads through the \<open>NULL\<close> pointer.
\<close>

theorem NetReceive_safe:
  assumes "net_inv st" "length inpkt = PKTSIZE_ALIGN" "len \<le> int PKTSIZE_ALIGN" "honest_udp inpkt len st"
  shows "if packetHandler st = Some PingHandler \<and> rarp_reply inpkt len st then NetReceive inpkt len st = Inl Buffer_Fault
    else \<exists>st'. NetReceive inpkt len st = Inr st' \<and> net_inv st'"
  using assms by (rule NetReceive_exact)

lemma NetReceive_datagram:
  fixes st dst src spa tot ulen sport dport payload
  defines "inpkt \<equiv> datagram_frame dst src spa (NetOurIP st) tot ulen sport dport payload"
  assumes "untagged st" "length dst = 6" "length src = 6" "42 \<le> len" "len \<le> 1536" "unat tot \<le> nat (len - 14)"
    "NetOurIP st \<noteq> 0"
  shows "NetReceive inpkt len st =
    dispatch (Some payload) (int (unat (word_of_int dport :: u16)))
      (int (unat (word_of_int sport :: u16))) (ucast ulen - 8) st"
proof -
  let ?r = "be16 (word_of_int sport) @ be16 (word_of_int dport) @ be16 ulen @ be16 0 @ payload"
  let ?c = "ip_header_sum tot 0 17 spa (NetOurIP st)"
  let ?ip = "ip_bytes tot 0 17 ?c spa (NetOurIP st) @ ?r"
  have i: "inpkt = (dst @ src @ be16 PROT_IP) @ ?ip" by (simp add: inpkt_def datagram_frame_def)
  have l: "length (dst @ src @ be16 PROT_IP) = 14" using assms by simp
  have d: "drop 14 inpkt = ?ip" unfolding i using l by simp
  have p: "get16 inpkt 12 = PROT_IP" using assms(3,4) by (simp add: i get16_append)
  have c: "net_classify inpkt len st = Some (PROT_IP, VLAN_NONE, 14, len - 14)"
    using assms(5) by (simp add: net_classify_def p)
  have v: "vlan_accepts VLAN_NONE st" using assms(2) by (simp add: vlan_accepts_def untagged_def Let_def)
  have f: "get16 ?ip 20 = word_of_int sport" "get16 ?ip 22 = word_of_int dport"
    "get16 ?ip 24 = ulen" "drop 28 ?ip = payload"
    by (simp_all add: ip_fields get16_append)
  have k: "NetCksumOk ?ip 10" by (rule ip_header_sum_ok)
  have w: "\<not> (word_of_int (len - 14) :: u32) < 28"
  proof -
    have "(word_of_int (len - 14) :: u32) = of_nat (nat (len - 14))" using assms(5) by simp
    moreover have "unat (of_nat (nat (len - 14)) :: u32) = nat (len - 14)"
      using assms(5,6) by (intro unat_of_nat_small) simp
    ultimately show ?thesis using assms(5) by (simp add: word_less_nat_alt)
  qed
  have t: "\<not> len - 14 < int (unat tot)" using assms(5,7) by linarith
  have "receive_ip inpkt 14 (len - 14) st =
    dispatch (Some payload) (int (unat (word_of_int dport :: u16)))
      (int (unat (word_of_int sport :: u16))) (ucast ulen - 8) st"
    unfolding receive_ip_def Let_def d using w t k
    by (simp add: ip_fields(1-6) f)
  then show ?thesis by (simp add: NetReceive_def c v)
qed

text \<open>
  C34: The UDP length is not checked. A data packet that states a UDP length below 8 makes \<open>len - 8\<close>
  wrap around, and the TFTP handler copies beyond the receive buffer.
\<close>

theorem udp_length_underflow:
  fixes st dst src spa tot ulen b rest
  defines "inpkt \<equiv> udp_from_server st dst src spa tot ulen (be16 TFTP_DATA @ be16 b @ rest)"
  assumes "untagged st" "length dst = 6" "length src = 6" "42 \<le> len" "len \<le> 1536" "unat tot \<le> nat (len - 14)"
    "NetOurIP st \<noteq> 0" "packetHandler st = Some TftpHandler" "TftpState st = STATE_DATA"
    "0 \<le> TftpOurPort st" "TftpOurPort st < 65536" "0 \<le> TftpServerPort st" "TftpServerPort st < 65536"
    and b: "ucast b \<noteq> TftpLastBlock st" and u: "unat ulen < 8" "length rest \<le> 1536"
  shows "NetReceive inpkt len st = Inl Buffer_Fault"
proof -
  have p: "int (unat (word_of_int q :: u16)) = q" if "0 \<le> q" "q < 65536" for q
  proof -
    have "(word_of_int q :: u16) = of_nat (nat q)" using that by simp
    then show ?thesis using that unat_of_nat_small [of "nat q", where 'a = 16] by simp
  qed
  have ul: "(ucast ulen - 8 :: u32) = of_nat (2 ^ 32 - 8 + unat ulen)"
  proof -
    have "(ucast ulen :: u32) = of_nat (unat ulen)" by simp
    then show ?thesis by simp
  qed
  have un: "unat (ucast ulen - 8 - of_nat k :: u32) = 2 ^ 32 - 8 - k + unat ulen" if "k \<le> 4" for k
  proof -
    have "(ucast ulen - 8 - of_nat k :: u32) = of_nat (2 ^ 32 - 8 - k + unat ulen)"
      using that by (simp add: ul of_nat_diff)
    then show ?thesis using u(1) that by (simp only:) (intro unat_of_nat_small, simp)
  qed
  let ?l = "ucast ulen - 8 :: u32"
  have n: "\<not> ?l < 2" "\<not> ?l - 2 < 2" "length (be16 b @ rest) < unat (?l - 2)" "length rest < unat (?l - 2 - 2)"
    using un [of 0] un [of 2] un [of 4] u(2) by (simp_all add: word_less_nat_alt diff_diff_eq del: diff_diff_eq)
  have "tftp_data (be16 b @ rest) (TftpServerPort st) (?l - 2) st = Inl Buffer_Fault"
  proof -
    let ?s = "tftp_count_block (ucast b) st"
    have c: "TftpState ?s = STATE_DATA" "TftpBlock ?s = ucast b" "TftpLastBlock ?s = TftpLastBlock st"
      using assms(10) by (simp_all add: tftp_count_block_def Let_def)
    have "tftp_accept (be16 b @ rest) (?l - 2 - 2) ?s = Inl Buffer_Fault"
      using n(4) by (simp add: tftp_accept_def store_block_def Let_def)
    then show ?thesis using n(2) c b by (simp add: tftp_data_def Let_def)
  qed
  then show ?thesis
    using NetReceive_datagram [of st dst src len tot spa ulen "TftpServerPort st" "TftpOurPort st"] assms(2-) n(1)
    by (simp add: inpkt_def udp_from_server_def dispatch_def do_TftpHandler_def p [simplified] Let_def)
qed

text \<open>
  \<open>NetLoop\<close> never notices that no Ethernet device came up: \<open>eth_init\<close> returns 0 or 1, and the caller
  tests for a negative value, so the loop runs in either case.
\<close>

theorem NetLoop_ignores_eth_init:
  "NetLoop protocol evs st =
     (let st = st\<lparr>NetRestarted := False, NetDevExists := False, NetArpWaitPacketMAC := None,
                  NetArpWaitPacketIP := 0, NetArpWaitReplyIP := 0, NetArpWaitTxPacketSize := 0\<rparr>;
          st = st\<lparr>nenv := (nenv st)(''ethact'' \<mapsto> ''eth1'')\<rparr>
      in rbind (net_restart protocol (snd (eth_init (eth_set_current st)))) (\<lambda>r. case r of
           None \<Rightarrow> Inr (Some (- 1), snd (eth_init (eth_set_current st)))
         | Some st \<Rightarrow> net_run protocol evs st))"
  using eth_init_flag by (simp add: NetLoop_def Let_def split_def)

theorem arp_resolution_witness:
  "\<exists>st1 st2. NetSendUDPPacket ServerEther 0xC0A80101 69 1024 4 (sample_net\<lparr>NetServerEther := NetEtherNullAddr\<rparr>) = (1, st1) \<and>
    NetReceive (arp_reply_frame [2, 0, 0, 0, 0, 1] [2, 0, 0, 0, 0, 9] 0xC0A80101 0xC0A80102 []) 60 st1 = Inr st2 \<and>
    mac_of ServerEther st2 = [2, 0, 0, 0, 0, 9] \<and> NetArpWaitPacketIP st2 = 0"
proof -
  let ?s = "sample_net\<lparr>NetServerEther := NetEtherNullAddr\<rparr>"
  have "net_wf ?s" using sample_net_facts(2) by (simp add: net_wf_def)
  moreover have "untagged ?s" "NetEthHdrSize ?s = 14"
    using sample_net_facts(3) untagged_cong [of ?s sample_net] by (simp_all add: NetEthHdrSize_untagged)
  moreover have "next_hop ?s 0xC0A80101 = 0xC0A80101" "NetOurIP ?s = 0xC0A80102"
    by (simp_all add: next_hop_def sample_net_def)
  ultimately show ?thesis
    using arp_resolution [where st = ?s and dest = "0xC0A80101" and len = 4 and m = ServerEther and
        dst = "[2, 0, 0, 0, 0, 1]" and mac = "[2, 0, 0, 0, 0, 9]" and rlen = 60 and dport = 69 and
        sport = 1024 and rest = "[]"]
    by (auto simp: mac_of_def sample_net_def)
qed

text \<open>A frame of zeros, and a RARP reply during a ping.\<close>

definition sample_rarp :: "byte list" where
  "sample_rarp = replicate 12 0 @ be16 PROT_RARP @ be16 1 @ be16 PROT_IP @ [6, 4] @ be16 4 @ replicate 1514 0"

theorem NetReceive_safe_witness:
  "(\<exists>st'. NetReceive (replicate 1536 0) 60 sample_net = Inr st' \<and> net_inv st') \<and>
   NetReceive sample_rarp 60 (sample_net\<lparr>packetHandler := Some PingHandler\<rparr>) = Inl Buffer_Fault"
proof
  show "\<exists>st'. NetReceive (replicate 1536 0) 60 sample_net = Inr st' \<and> net_inv st'"
    using NetReceive_safe [of sample_net "replicate 1536 0" 60]
    by (simp add: sample_net_facts honest_udp_def rarp_reply_def net_classify_def get16_def)
  let ?s = "sample_net\<lparr>packetHandler := Some PingHandler\<rparr>"
  have "net_inv ?s" using sample_net_facts by (simp add: net_inv_def net_wf_def)
  moreover have "length sample_rarp = PKTSIZE_ALIGN" by (simp add: sample_rarp_def)
  moreover have c: "net_classify sample_rarp 60 ?s = Some (PROT_RARP, VLAN_NONE, 14, 46)"
    by (simp add: net_classify_def sample_rarp_def be16_def get16_def word_cat_eq nth_append)
  moreover have "vlan_accepts VLAN_NONE ?s" by (simp add: vlan_accepts_def my_vlan_def sample_net_def)
  ultimately show "NetReceive sample_rarp 60 ?s = Inl Buffer_Fault"
    using NetReceive_safe [of ?s sample_rarp 60]
    by (simp add: honest_udp_def rarp_reply_def c) (simp add: sample_rarp_def be16_def get16_def word_cat_eq nth_append)
qed

theorem udp_length_underflow_witness:
  "NetReceive (udp_from_server (sample_net\<lparr>TftpState := STATE_DATA\<rparr>) [2, 0, 0, 0, 0, 1] [2, 0, 0, 0, 0, 2]
     0xC0A80101 32 7 (be16 3 @ be16 1 @ [])) 60 (sample_net\<lparr>TftpState := STATE_DATA\<rparr>) = Inl Buffer_Fault"
proof -
  let ?s = "sample_net\<lparr>TftpState := STATE_DATA\<rparr>"
  have "untagged ?s" using sample_net_facts(3) untagged_cong [of ?s sample_net] by simp
  then show ?thesis by (intro udp_length_underflow) (simp_all add: sample_net_def)
qed

end
