(* ===== verification/TftpSession.thy ===== *)
theory TftpSession
  imports NetLoop
begin

text \<open>
  A whole download: \<open>NetLoop\<close> (\<open>net/net.c\<close>) with the TFTP client against a server that answers the ARP
  request and then sends the blocks of a file in lock step. Nothing of the code is defined here; the theory puts
  the models of \<open>Net\<close>, \<open>Tftp\<close> and \<open>NetLoop\<close> together.
\<close>

subsection \<open>The server\<close>

record server =
  srv_dst :: "byte list"
  srv_mac :: "byte list"
  srv_ip :: u32
  srv_port :: int
  srv_junk :: "byte list"

definition server_ok :: "server \<Rightarrow> bool" where
  "server_ok srv \<longleftrightarrow> length (srv_dst srv) = 6 \<and> length (srv_mac srv) = 6 \<and> srv_mac srv \<noteq> NetEtherNullAddr \<and>
     0 \<le> srv_port srv \<and> srv_port srv < 65536"

text \<open>The frame with block \<open>b\<close> of \<open>f\<close>, padded to the minimal size, with what else is in the buffer.\<close>

definition block_frame :: "server \<Rightarrow> u32 \<Rightarrow> int \<Rightarrow> byte list \<Rightarrow> nat \<Rightarrow> byte list \<times> int" where
  "block_frame srv ip port f b =
     (let n = length (file_block f b) in
      (datagram_frame (srv_dst srv) (srv_mac srv) (srv_ip srv) ip (of_nat (32 + n)) (of_nat (12 + n))
         (srv_port srv) port (data_packet f b @ srv_junk srv), max 60 (46 + int n)))"

text \<open>
  What the turns of the loop bring: the clock and the blocks received. The client never waits more
  than two seconds for a new block.
\<close>

fun serves :: "u32 \<Rightarrow> u32 \<Rightarrow> nat \<Rightarrow> (u32 \<times> nat list) list \<Rightarrow> nat option" where
  "serves hz t k [] = Some k"
| "serves hz t k ((c, bs) # evs) =
     (case lockstep k bs of
        None \<Rightarrow> None
      | Some k' \<Rightarrow>
          let t = (if k' = k then t else c) in
          if c - t \<le> 2 * hz then serves hz t k' evs else None)"

definition block_event :: "server \<Rightarrow> u32 \<Rightarrow> int \<Rightarrow> byte list \<Rightarrow> u32 \<times> nat list \<Rightarrow> net_event" where
  "block_event srv ip port f = (\<lambda>(c, bs).
     \<lparr>ev_clock = c, ev_rx = map (block_frame srv ip port f) bs, ev_ctrlc = False\<rparr>)"

subsection \<open>One frame\<close>

lemma TftpSend_known:
  assumes "NetServerIP st \<noteq> 0" "NetServerIP st \<noteq> 0xFFFFFFFF" "NetServerEther st \<noteq> NetEtherNullAddr"
  obtains i tx s where "TftpSend st = st\<lparr>NetIPID := i, NetTxPacket := tx, sent := s\<rparr>"
proof -
  let ?p = "tftp_payload st"
  define s1 where "s1 = st\<lparr>NetTxPacket := put_bytes (NetTxPacket st) (NetEthHdrSize st + 28) ?p\<rparr>"
  have m: "mac_of ServerEther s1 \<noteq> NetEtherNullAddr" using assms(3) by (simp add: s1_def mac_of_def)
  obtain b n where 1: "NetSetEther s1 (NetTxPacket s1) (mac_of ServerEther s1) PROT_IP = (b, n)" by fastforce
  obtain b2 where 2: "NetSetIP s1 b n (NetServerIP st) (TftpServerPort st) (TftpOurPort st) (length ?p) =
      (b2, s1\<lparr>NetIPID := NetIPID s1 + 1\<rparr>)"
    using NetSetIP_state [of s1 b n "NetServerIP st" "TftpServerPort st" "TftpOurPort st" "length ?p"]
    by (cases "NetSetIP s1 b n (NetServerIP st) (TftpServerPort st) (TftpOurPort st) (length ?p)") simp
  have "TftpSend st = snd (NetSendUDPPacket ServerEther (NetServerIP st) (TftpServerPort st) (TftpOurPort st) (length ?p) s1)"
    by (simp add: TftpSend_def Let_def s1_def)
  also have "\<dots> = eth_send (get_bytes b2 0 (n + 28 + length ?p)) (s1\<lparr>NetIPID := NetIPID s1 + 1, NetTxPacket := b2\<rparr>)"
    using assms(1,2) m by (simp add: NetSendUDPPacket_def 1 2 Let_def)
  finally show ?thesis by (intro that) (simp add: eth_send_frame s1_def)
qed

lemma tftp_accept_frame:
  assumes "NetServerIP st \<noteq> 0" "NetServerIP st \<noteq> 0xFFFFFFFF" "NetServerEther st \<noteq> NetEtherNullAddr"
    "2 * CFG_HZ st \<noteq> 0" "tftp_accept pkt len st = Inr st'"
  obtains i tx s r x ns where "st' = st\<lparr>TftpLastBlock := TftpBlock st, timeHandler := Some TftpTimeout,
    timeStart := clock st, timeDelta := 2 * CFG_HZ st, TftpTimeoutCount := 0, ram := r, NetBootFileXferSize := x,
    NetIPID := i, NetTxPacket := tx, sent := s, NetState := ns\<rparr>"
proof -
  let ?s = "st\<lparr>TftpLastBlock := TftpBlock st, timeHandler := Some TftpTimeout, timeStart := clock st,
    timeDelta := 2 * CFG_HZ st, TftpTimeoutCount := 0\<rparr>"
  have t: "NetSetTimeout (2 * CFG_HZ (st\<lparr>TftpLastBlock := TftpBlock st\<rparr>)) TftpTimeout (st\<lparr>TftpLastBlock := TftpBlock st\<rparr>)
    \<lparr>TftpTimeoutCount := 0\<rparr> = ?s" using assms(4) by (simp add: NetSetTimeout_def)
  obtain s2 where s2: "store_block (TftpBlock ?s - 1) (drop 2 pkt) len ?s = Inr s2"
    "st' = (if len < 512 then (TftpSend s2)\<lparr>NetState := NETLOOP_SUCCESS\<rparr> else TftpSend s2)"
    using assms(5) unfolding tftp_accept_def Let_def t
    by (cases "store_block (TftpBlock ?s - 1) (drop 2 pkt) len ?s") (auto split: if_splits)
  obtain r x where r: "s2 = ?s\<lparr>ram := r, NetBootFileXferSize := x\<rparr>"
  proof -
    have l: "unat len \<le> length (drop 2 pkt)"
      using s2(1) by (cases "unat len \<le> length (drop 2 pkt)") (simp_all add: store_block_def Let_def)
    from s2(1) show ?thesis unfolding store_block_ok [OF l] sum.inject by (rule that [OF sym])
  qed
  have "NetServerIP s2 = NetServerIP st" "NetServerEther s2 = NetServerEther st" by (simp_all add: r)
  then obtain i tx s where "TftpSend s2 = s2\<lparr>NetIPID := i, NetTxPacket := tx, sent := s\<rparr>"
    using TftpSend_known [of s2] assms(1-3) by metis
  then show ?thesis
    using s2(2) r that [where r = r and x = x and i = i and tx = tx and s = s and ns = NETLOOP_SUCCESS]
      that [where r = r and x = x and i = i and tx = tx and s = s and ns = "NetState st"]
    by (cases "len < 512") simp_all
qed

text \<open>What a session leaves alone, and the state after \<open>k\<close> blocks with the timer started at \<open>t\<close>.\<close>

definition same_conf :: "net_st \<Rightarrow> net_st \<Rightarrow> bool" where
  "same_conf s0 st \<longleftrightarrow>
     NetOurIP st = NetOurIP s0 \<and> NetServerIP st = NetServerIP s0 \<and> NetOurGatewayIP st = NetOurGatewayIP s0 \<and>
     NetOurSubnetMask st = NetOurSubnetMask s0 \<and> NetOurVLAN st = NetOurVLAN s0 \<and>
     NetOurNativeVLAN st = NetOurNativeVLAN s0 \<and> NetServerEther st = NetServerEther s0 \<and>
     NetArpWaitPacketIP st = NetArpWaitPacketIP s0 \<and> TftpOurPort st = TftpOurPort s0 \<and> CFG_HZ st = CFG_HZ s0 \<and>
     nenv st = nenv s0 \<and> packetHandler st = packetHandler s0 \<and> bd_ip_addr st = bd_ip_addr s0 \<and>
     tftp_bootfile st = tftp_bootfile s0 \<and> fw_recovery st = fw_recovery s0 \<and> eth_names st = eth_names s0 \<and>
     eth_macs st = eth_macs s0 \<and> eth_current st = eth_current s0 \<and> dev_up st = dev_up s0"

lemma same_conf_refl [simp]: "same_conf s s"
  by (simp add: same_conf_def)

text \<open>The configuration of a running session.\<close>

definition session_conf :: "net_st \<Rightarrow> bool" where
  "session_conf s0 \<longleftrightarrow> untagged s0 \<and> NetOurIP s0 \<noteq> 0 \<and> NetServerIP s0 \<noteq> 0 \<and> NetServerIP s0 \<noteq> 0xFFFFFFFF \<and>
     NetServerEther s0 \<noteq> NetEtherNullAddr \<and> NetArpWaitPacketIP s0 = 0 \<and> packetHandler s0 = Some TftpHandler \<and>
     2 * CFG_HZ s0 \<noteq> 0 \<and> 0 \<le> TftpOurPort s0 \<and> TftpOurPort s0 < 65536"

definition session :: "byte list \<Rightarrow> int \<Rightarrow> net_st \<Rightarrow> nat \<Rightarrow> u32 \<Rightarrow> net_st \<Rightarrow> bool" where
  "session f sport s0 k t st \<longleftrightarrow> transferred f sport s0 k st \<and> same_conf s0 st \<and> timeHandler st = Some TftpTimeout \<and>
     timeStart st = t \<and> timeDelta st = 2 * CFG_HZ s0"

lemma session_step:
  assumes c: "session_conf s0" and s: "session f sport s0 k t st" and b: "b = Suc k \<or> b = k \<and> 0 < k" "b \<le> last_block f"
    and f: "length f < 512 * 65535"
  shows "\<exists>st'. do_TftpHandler (data_packet f b @ junk) (TftpOurPort st) sport (of_nat (length (data_packet f b))) st = Inr st' \<and>
    session f sport s0 b (if b = k then t else clock st) st' \<and> clock st' = clock st"
proof -
  have tr: "transferred f sport s0 k st" and sc: "same_conf s0 st" using s by (simp_all add: session_def)
  obtain st' where st': "do_TftpHandler (data_packet f b @ junk) (TftpOurPort st) sport (of_nat (length (data_packet f b))) st = Inr st'"
    "transferred f sport s0 b st'" using transferred_step [OF tr b f, of junk] by blast
  have b16: "b < 65536" "0 < b" using last_block_bound [OF f b(2)] b(1) by auto
  have p: "TftpState st = STATE_RRQ \<or> TftpServerPort st = sport" using tr by (auto simp: transferred_def split: if_splits)
  note h = tftp_packet [OF b16 p, of f junk]
  show ?thesis
  proof (cases "b = k")
    case True
    then have k: "0 < k" using b16 by simp
    have "st' = st\<lparr>TftpBlock := of_nat b\<rparr>"
      using st'(1) tr True k unfolding h by (simp add: Let_def transferred_def)
    then have "same_conf s0 st' \<and> timeHandler st' = timeHandler st \<and> timeStart st' = timeStart st \<and> timeDelta st' = timeDelta st \<and>
      clock st' = clock st"
      using sc by (simp add: same_conf_def)
    then show ?thesis using st' s True by (auto simp: session_def)
  next
    case False
    then have b': "b = Suc k" using b by auto
    define s1 where "s1 = (let s = st\<lparr>TftpBlock := of_nat b\<rparr> in if k = 0 then tftp_first_block sport s else s)"
    have ne: "(of_nat (Suc k) :: u32) \<noteq> of_nat k"
      using b' b16 by (simp del: of_nat_Suc add: word_unat_eq_iff unat_of_nat_small)
    have a: "tftp_accept (be16 (of_nat b) @ file_block f b @ junk) (of_nat (length (file_block f b))) s1 = Inr st'"
      using st'(1) tr ne b' unfolding h by (auto simp: Let_def s1_def transferred_def)
    have s1: "same_conf s0 s1" "clock s1 = clock st" using sc by (simp_all add: s1_def same_conf_def tftp_first_block_def Let_def)
    then have known: "NetServerIP s1 \<noteq> 0" "NetServerIP s1 \<noteq> 0xFFFFFFFF" "NetServerEther s1 \<noteq> NetEtherNullAddr" "2 * CFG_HZ s1 \<noteq> 0"
      using c by (simp_all add: session_conf_def same_conf_def)
    obtain i tx s r x ns where e: "st' = s1\<lparr>TftpLastBlock := TftpBlock s1, timeHandler := Some TftpTimeout,
      timeStart := clock s1, timeDelta := 2 * CFG_HZ s1, TftpTimeoutCount := 0, ram := r, NetBootFileXferSize := x,
      NetIPID := i, NetTxPacket := tx, sent := s, NetState := ns\<rparr>"
      by (rule tftp_accept_frame [OF known a])
    have "same_conf s0 st' \<and> timeHandler st' = Some TftpTimeout \<and> timeStart st' = clock st \<and> timeDelta st' = 2 * CFG_HZ s0 \<and>
      clock st' = clock st"
      using s1 by (simp add: e same_conf_def)
    then show ?thesis using st' False by (auto simp: session_def)
  qed
qed

lemma port_word: "0 \<le> q \<Longrightarrow> q < 65536 \<Longrightarrow> int (unat (word_of_int q :: u16)) = q"
proof -
  assume a: "0 \<le> q" "q < 65536"
  then have "(word_of_int q :: u16) = of_nat (nat q)" by simp
  then show ?thesis using a unat_of_nat_small [of "nat q", where 'a = 16] by simp
qed

lemma ucast_of_nat_small:
  assumes "n < 65536"
  shows "(ucast (of_nat n :: u16) :: u32) = of_nat n"
proof -
  have "unat (of_nat n :: u16) = n" "unat (of_nat n :: u32) = n" using assms by (simp_all add: unat_of_nat_small)
  then show ?thesis by (simp add: word_unat_eq_iff unat_ucast_le del: unsigned_ucast_eq)
qed

lemma length_block_le: "length (file_block f b) \<le> 512"
  by (simp add: file_block_def)

lemma block_frame_received:
  assumes c: "session_conf s0" and s: "session f (srv_port srv) s0 k t st" and srv: "server_ok srv"
    and b: "b = Suc k \<or> b = k \<and> 0 < k" "b \<le> last_block f" and f: "length f < 512 * 65535"
  shows "\<exists>st'. NetReceive (fst (block_frame srv (NetOurIP s0) (TftpOurPort s0) f b)) (snd (block_frame srv (NetOurIP s0) (TftpOurPort s0) f b)) st =
      Inr st' \<and> session f (srv_port srv) s0 b (if b = k then t else clock st) st' \<and> clock st' = clock st"
proof -
  let ?n = "length (file_block f b)"
  have sc: "same_conf s0 st" using s by (simp add: session_def)
  have st: "untagged st" "NetOurIP st = NetOurIP s0" "TftpOurPort st = TftpOurPort s0" "NetOurIP st \<noteq> 0" "packetHandler st = Some TftpHandler"
    using sc c untagged_cong [of st s0] by (simp_all add: same_conf_def session_conf_def)
  have n: "unat (of_nat (32 + ?n) :: u16) = 32 + ?n" "unat (of_nat (12 + ?n) :: u16) = 12 + ?n"
    using length_block_le [of f b] by - (rule unat_of_nat_small, simp)+
  have l: "(ucast (of_nat (12 + ?n) :: u16) - 8 :: u32) = of_nat (length (data_packet f b))"
  proof -
    have "(ucast (of_nat (12 + ?n) :: u16) :: u32) = of_nat (12 + ?n)"
      using length_block_le [of f b] by (intro ucast_of_nat_small) simp
    then show ?thesis by (simp add: data_packet_def)
  qed
  let ?len = "max 60 (46 + int ?n)"
  have len: "42 \<le> ?len" "?len \<le> 1536" "unat (of_nat (32 + ?n) :: u16) \<le> nat (?len - 14)"
    using length_block_le [of f b] n(1) by auto
  have "NetReceive (datagram_frame (srv_dst srv) (srv_mac srv) (srv_ip srv) (NetOurIP st) (of_nat (32 + ?n)) (of_nat (12 + ?n)) (srv_port srv)
      (TftpOurPort st) (data_packet f b @ srv_junk srv)) ?len st =
    dispatch (Some (data_packet f b @ srv_junk srv)) (TftpOurPort st) (srv_port srv) (of_nat (length (data_packet f b))) st"
    using NetReceive_datagram [OF st(1) _ _ len st(4), of "srv_dst srv" "srv_mac srv" "srv_ip srv" "of_nat (12 + ?n)" "srv_port srv" "TftpOurPort st"
        "data_packet f b @ srv_junk srv"] srv c st(3)
    by (simp add: l port_word [simplified] server_ok_def session_conf_def del: of_nat_add)
  also have "\<dots> = do_TftpHandler (data_packet f b @ srv_junk srv) (TftpOurPort st) (srv_port srv) (of_nat (length (data_packet f b))) st"
    by (simp add: dispatch_def st(5))
  finally show ?thesis
    using session_step [OF c s b f, of "srv_junk srv"] st(2,3) by (simp add: block_frame_def Let_def)
qed

subsection \<open>Turns of the loop\<close>

lemma receive_all_append: "receive_all (xs @ ys) st = rbind (receive_all xs st) (receive_all ys)"
  by (induction xs arbitrary: st) (auto simp: rbind_assoc intro!: rbind_cong)

lemma blocks_received:
  assumes c: "session_conf s0" and srv: "server_ok srv" and f: "length f < 512 * 65535"
  shows "session f (srv_port srv) s0 k t st \<Longrightarrow> lockstep k bs = Some n \<Longrightarrow> n \<le> last_block f \<Longrightarrow>
    \<exists>st'. receive_all (map (block_frame srv (NetOurIP s0) (TftpOurPort s0) f) bs) st = Inr st' \<and>
      session f (srv_port srv) s0 n (if n = k then t else clock st) st' \<and> clock st' = clock st"
proof (induction bs arbitrary: k t st)
  case (Cons b bs)
  have b: "b = Suc k \<or> b = k \<and> 0 < k" and l: "lockstep b bs = Some n" using Cons.prems by (simp_all split: if_splits)
  have bn: "b \<le> n" by (rule lockstep_mono [OF l])
  obtain st1 where st1: "NetReceive (fst (block_frame srv (NetOurIP s0) (TftpOurPort s0) f b))
      (snd (block_frame srv (NetOurIP s0) (TftpOurPort s0) f b)) st = Inr st1"
    "session f (srv_port srv) s0 b (if b = k then t else clock st) st1" "clock st1 = clock st"
    using block_frame_received [OF c Cons.prems(1) srv b _ f] bn Cons.prems(3) by auto
  obtain st2 where st2: "receive_all (map (block_frame srv (NetOurIP s0) (TftpOurPort s0) f) bs) st1 = Inr st2"
    "session f (srv_port srv) s0 n (if n = b then (if b = k then t else clock st) else clock st1) st2" "clock st2 = clock st1"
    using Cons.IH [OF st1(2) l Cons.prems(3)] by blast
  have "(if n = b then (if b = k then t else clock st) else clock st1) = (if n = k then t else clock st)"
    using b bn st1(3) by auto
  then show ?case using st1 st2 by (cases "block_frame srv (NetOurIP s0) (TftpOurPort s0) f b") auto
qed simp

lemma session_clock: "session f sport s0 k t (st\<lparr>clock := c\<rparr>) = session f sport s0 k t st"
  by (simp add: session_def same_conf_def transferred_def)

text \<open>A turn after which the file is not complete, and the one that completes it.\<close>

lemma turn_blocks:
  assumes c: "session_conf s0" "NetState s0 = NETLOOP_CONTINUE" and srv: "server_ok srv" and f: "length f < 512 * 65535"
    and l: "lockstep k bs = Some n" "n \<le> last_block f"
    and w: "cl - (if n = k then t else cl) \<le> 2 * CFG_HZ s0"
    and rx: "receive_all pre (st\<lparr>clock := cl\<rparr>) = Inr st0" "session f (srv_port srv) s0 k t st0" "clock st0 = cl"
  defines "frames \<equiv> pre @ map (block_frame srv (NetOurIP s0) (TftpOurPort s0) f) bs"
  shows "\<exists>st'. net_turn TFTP frames False (st\<lparr>clock := cl\<rparr>) =
      (if last_block f \<le> n then Inr (Some (sint (NetBootFileXferSize st')), loop_success st') else Inr (None, st')) \<and>
    session f (srv_port srv) s0 n (if n = k then t else cl) st'"
proof -
  obtain st' where st': "receive_all (map (block_frame srv (NetOurIP s0) (TftpOurPort s0) f) bs) st0 = Inr st'"
    "session f (srv_port srv) s0 n (if n = k then t else cl) st'" "clock st' = cl"
    using blocks_received [OF c(1) srv f rx(2) l] rx(3) by auto
  have r: "receive_all frames (st\<lparr>clock := cl\<rparr>) = Inr st'" using rx(1) st'(1) by (simp add: frames_def receive_all_append)
  have sc: "same_conf s0 st'" "NetState st' = (if last_block f \<le> n then NETLOOP_SUCCESS else NETLOOP_CONTINUE)"
    "timeHandler st' = Some TftpTimeout" "timeStart st' = (if n = k then t else cl)" "timeDelta st' = 2 * CFG_HZ s0"
    using st'(2) c(2) by (simp_all add: session_def transferred_def)
  have a: "ArpTimeoutCheck st' = st'" using sc(1) c(1) by (simp add: ArpTimeoutCheck_def same_conf_def session_conf_def)
  have "\<not> cl - timeStart st' > 2 * CFG_HZ s0" using w sc(4) by (simp add: not_less)
  then have t: "check_timeout st' = st'" using sc(3,5) st'(3) by (simp add: check_timeout_def)
  show ?thesis using st'(2) by (intro exI [of _ st']) (simp add: net_turn_def r a t sc(2) Let_def)
qed

lemma serves_mono: "serves hz t k evs = Some n \<Longrightarrow> k \<le> n"
proof (induction evs arbitrary: t k)
  case (Cons ev evs)
  obtain c bs where ev: "ev = (c, bs)" by force
  from Cons.prems ev obtain k' t' where "lockstep k bs = Some k'" "serves hz t' k' evs = Some n"
    by (auto split: option.splits if_splits simp: Let_def)
  then show ?case using lockstep_mono Cons.IH le_trans by blast
qed simp

lemma net_run_serves:
  assumes c: "session_conf s0" "NetState s0 = NETLOOP_CONTINUE" and srv: "server_ok srv" and f: "length f < 512 * 65535"
  shows "session f (srv_port srv) s0 k t st \<Longrightarrow> k < last_block f \<Longrightarrow> serves (CFG_HZ s0) t k evs = Some (last_block f) \<Longrightarrow>
    \<exists>st' t'. net_run TFTP (map (block_event srv (NetOurIP s0) (TftpOurPort s0) f) evs) st =
      Inr (Some (sint (NetBootFileXferSize st')), loop_success st') \<and> session f (srv_port srv) s0 (last_block f) t' st'"
proof (induction evs arbitrary: k t st)
  case (Cons ev evs)
  obtain cl bs where ev: "ev = (cl, bs)" by force
  from Cons.prems(3) ev obtain n where n: "lockstep k bs = Some n" "cl - (if n = k then t else cl) \<le> 2 * CFG_HZ s0"
    "serves (CFG_HZ s0) (if n = k then t else cl) n evs = Some (last_block f)"
    by (auto split: option.splits if_splits simp: Let_def)
  have nl: "n \<le> last_block f" by (rule serves_mono [OF n(3)])
  obtain st' where st': "net_turn TFTP (map (block_frame srv (NetOurIP s0) (TftpOurPort s0) f) bs) False (st\<lparr>clock := cl\<rparr>) =
      (if last_block f \<le> n then Inr (Some (sint (NetBootFileXferSize st')), loop_success st') else Inr (None, st'))"
    "session f (srv_port srv) s0 n (if n = k then t else cl) st'"
    using turn_blocks [OF c srv f n(1) nl n(2), of "[]" "st\<lparr>clock := cl\<rparr>"] Cons.prems(1) session_clock by auto
  show ?case
  proof (cases "last_block f \<le> n")
    case True
    then have "n = last_block f" using nl by simp
    then show ?thesis using st' by (auto simp: ev block_event_def)
  next
    case False
    then show ?thesis using st' Cons.IH [OF st'(2) _ n(3)] by (auto simp: ev block_event_def)
  qed
qed simp

subsection \<open>The start\<close>

lemma TftpSend_unknown:
  assumes wf: "net_wf st" and e: "eth_current st \<noteq> None" and d: "NetServerIP st \<noteq> 0" "NetServerIP st \<noteq> 0xFFFFFFFF"
    and m: "NetServerEther st = NetEtherNullAddr"
  obtains i w ws tx s where "length w = PKTSIZE_ALIGN" "length tx = PKTSIZE_ALIGN" "TftpSend st =
     st\<lparr>NetArpWaitPacketIP := NetServerIP st, NetArpWaitPacketMAC := Some ServerEther, NetIPID := i, NetArpWaitTxPacket := w,
        NetArpWaitTxPacketSize := ws, NetArpWaitTry := 1, NetArpWaitTimerStart := clock st,
        NetArpWaitReplyIP := next_hop st (NetServerIP st), NetTxPacket := tx, sent := s\<rparr>"
proof -
  let ?p = "tftp_payload st"
  define s1 where "s1 = st\<lparr>NetTxPacket := put_bytes (NetTxPacket st) (NetEthHdrSize st + 28) ?p\<rparr>"
  have l: "length ?p \<le> 160" "NetEthHdrSize st \<le> 18" using tftp_payload_length [OF wf] NetEthHdrSize_le [of st] by simp_all
  have w1: "net_wf s1" using wf l by (simp add: s1_def net_wf_def)
  have n1: "NetEthHdrSize s1 + 29 + length ?p \<le> 1536" using l NetEthHdrSize_le [of s1] by simp
  have e1: "eth_current s1 \<noteq> None" "mac_of ServerEther s1 = NetEtherNullAddr" using e m by (simp_all add: s1_def mac_of_def)
  obtain w tx where x: "length w = 1536" "length tx = 1536"
    "NetSendUDPPacket ServerEther (NetServerIP st) (TftpServerPort st) (TftpOurPort st) (length ?p) s1 =
    (1, s1\<lparr>NetArpWaitPacketIP := NetServerIP st, NetArpWaitPacketMAC := Some ServerEther, NetIPID := NetIPID s1 + 1,
           NetArpWaitTxPacket := w, NetArpWaitTxPacketSize := NetEthHdrSize s1 + 28 + length ?p,
           NetArpWaitTry := 1, NetArpWaitTimerStart := clock s1,
           NetArpWaitReplyIP := next_hop s1 (NetServerIP st), NetTxPacket := tx,
           sent := sent s1 @ [arp_request_frame s1 (NetServerIP st)]\<rparr>)"
    using NetSendUDPPacket_parks [OF w1 n1 d e1(2) e1(1), of "TftpServerPort st" "TftpOurPort st"] by auto
  have "next_hop s1 (NetServerIP st) = next_hop st (NetServerIP st)" by (simp add: next_hop_def s1_def)
  moreover have "TftpSend st = snd (NetSendUDPPacket ServerEther (NetServerIP st) (TftpServerPort st) (TftpOurPort st) (length ?p) s1)"
    by (simp add: TftpSend_def Let_def s1_def)
  ultimately have "TftpSend st = s1\<lparr>NetArpWaitPacketIP := NetServerIP st, NetArpWaitPacketMAC := Some ServerEther, NetIPID := NetIPID s1 + 1,
           NetArpWaitTxPacket := w, NetArpWaitTxPacketSize := NetEthHdrSize s1 + 28 + length ?p,
           NetArpWaitTry := 1, NetArpWaitTimerStart := clock s1,
           NetArpWaitReplyIP := next_hop st (NetServerIP st), NetTxPacket := tx,
           sent := sent s1 @ [arp_request_frame s1 (NetServerIP st)]\<rparr>"
    by (simp only: x(3) snd_conv)
  also have "\<dots> = st\<lparr>NetArpWaitPacketIP := NetServerIP st, NetArpWaitPacketMAC := Some ServerEther, NetIPID := NetIPID s1 + 1,
           NetArpWaitTxPacket := w, NetArpWaitTxPacketSize := NetEthHdrSize s1 + 28 + length ?p,
           NetArpWaitTry := 1, NetArpWaitTimerStart := clock st,
           NetArpWaitReplyIP := next_hop st (NetServerIP st), NetTxPacket := tx,
           sent := sent s1 @ [arp_request_frame s1 (NetServerIP st)]\<rparr>"
    by (simp add: s1_def)
  finally have e: "TftpSend st = st\<lparr>NetArpWaitPacketIP := NetServerIP st, NetArpWaitPacketMAC := Some ServerEther, NetIPID := NetIPID s1 + 1,
           NetArpWaitTxPacket := w, NetArpWaitTxPacketSize := NetEthHdrSize s1 + 28 + length ?p,
           NetArpWaitTry := 1, NetArpWaitTimerStart := clock st,
           NetArpWaitReplyIP := next_hop st (NetServerIP st), NetTxPacket := tx,
           sent := sent s1 @ [arp_request_frame s1 (NetServerIP st)]\<rparr>" .
  show ?thesis by (rule that [OF x(1,2) e])
qed

text \<open>The state in which \<open>NetLoop\<close> is called, and what the start makes of it.\<close>

definition net_ready :: "net_st \<Rightarrow> u32 \<Rightarrow> bool" where
  "net_ready st sip \<longleftrightarrow> net_wf st \<and> eth_names st = [''eth0'', ''eth1''] \<and> eth_current st \<noteq> None \<and> dev_up st 1 \<and>
     eth_macs st ! 1 \<noteq> NetEtherNullAddr \<and> bd_ip_addr st \<noteq> 0 \<and> getenv_IPaddr ''serverip'' st = sip \<and> sip \<noteq> 0 \<and> sip \<noteq> 0xFFFFFFFF \<and>
     nenv st ''vlan'' = None \<and> 2 * CFG_HZ st \<noteq> 0 \<and> tftp_bootfile st \<noteq> []"

lemma eth_set_current_eth1:
  assumes "eth_names st = [''eth0'', ''eth1'']" "eth_current st \<noteq> None" "net_wf st" "nenv st ''ethact'' = Some ''eth1''"
  shows "eth_set_current st = st\<lparr>eth_current := Some 1\<rparr>"
proof -
  obtain k where k: "eth_current st = Some k" using assms(2) by auto
  have "k < 2" using assms(1,3) k unfolding net_wf_def by simp
  then consider "k = 0" | "k = 1" by linarith
  then show ?thesis
  proof cases
    case 1
    then have "eth_set_loop 2 ''eth1'' k k st = (True, 1)"
      using assms(1) by (simp add: numeral_2_eq_2 eth_next_def)
    then show ?thesis using assms(1,4) k by (simp add: eth_set_current_def numeral_2_eq_2)
  next
    case 2
    then have "eth_set_loop 2 ''eth1'' k k st = (True, 1)"
      using assms(1) by (simp add: numeral_2_eq_2)
    then show ?thesis using assms(1,4) k by (simp add: eth_set_current_def numeral_2_eq_2)
  qed
qed

definition started :: "net_st \<Rightarrow> net_st" where
  "started st = st\<lparr>NetRestarted := False, NetArpWaitPacketMAC := None, NetArpWaitPacketIP := 0,
     NetArpWaitReplyIP := 0, NetArpWaitTxPacketSize := 0, nenv := (nenv st)(''ethact'' \<mapsto> ''eth1''), eth_current := Some 1,
     NetOurEther := eth_macs st ! 1, NetState := NETLOOP_CONTINUE, NetOurIP := bd_ip_addr st,
     NetOurGatewayIP := getenv_IPaddr ''gatewayip'' st, NetOurSubnetMask := getenv_IPaddr ''netmask'' st,
     NetOurVLAN := VLAN_NONE, NetOurNativeVLAN := getenv_VLAN ''nvlan'' st, NetServerIP := getenv_IPaddr ''serverip'' st,
     NetDevExists := True, tftp_filename := (if tftp_bootfile st = [] then default_filename (bd_ip_addr st) else tftp_bootfile st),
     timeHandler := Some TftpTimeout, timeStart := clock st, timeDelta := 2 * CFG_HZ st, packetHandler := Some TftpHandler,
     TftpServerPort := WELL_KNOWN_PORT, TftpTimeoutCount := 0, TftpState := STATE_RRQ,
     TftpOurPort := 1024 + int (unat (clock st mod 3072)), TftpBlock := 0, NetServerEther := NetEtherNullAddr\<rparr>"

lemma NetLoop_started:
  assumes r: "net_ready st sip"
  shows "NetLoop TFTP evs st = net_run TFTP evs ((TftpSend (started st))\<lparr>NetBootFileXferSize := 0\<rparr>)"
proof -
  let ?a = "st\<lparr>NetRestarted := False, NetDevExists := False, NetArpWaitPacketMAC := None,
     NetArpWaitPacketIP := 0, NetArpWaitReplyIP := 0, NetArpWaitTxPacketSize := 0, nenv := (nenv st)(''ethact'' \<mapsto> ''eth1'')\<rparr>"
  have r': "net_wf st" "eth_names st = [''eth0'', ''eth1'']" "eth_current st \<noteq> None" using r by (simp_all add: net_ready_def)
  have "net_wf ?a" using r'(1) unfolding net_wf_def by simp
  then have a: "eth_set_current ?a = ?a\<lparr>eth_current := Some 1\<rparr>"
    using r' by (intro eth_set_current_eth1) simp_all
  have i: "eth_init (?a\<lparr>eth_current := Some 1\<rparr>) = (1, ?a\<lparr>eth_current := Some 1\<rparr>)"
    using r by (simp add: eth_init_def net_ready_def numeral_2_eq_2)
  have v: "string_to_VLAN None = VLAN_NONE" by (simp add: string_to_VLAN_def)
  show ?thesis
    using r unfolding NetLoop_def
    by (simp add: a i net_restart_def net_ready_def getenv_IPaddr_def getenv_VLAN_def v net_check_prereq_def check_ether_def
        TftpStart_def NetSetTimeout_def NetSetHandler_def started_def Let_def del: TftpSend_keeps One_nat_def)
qed

text \<open>
  The turns of a download: the first one begins with the ARP reply of the server or of the gateway, and
  blocks may follow at once.
\<close>

definition tftp_hop :: "net_st \<Rightarrow> u32" where
  "tftp_hop st = next_hop (st\<lparr>NetOurIP := bd_ip_addr st, NetOurGatewayIP := getenv_IPaddr ''gatewayip'' st,
     NetOurSubnetMask := getenv_IPaddr ''netmask'' st\<rparr>) (getenv_IPaddr ''serverip'' st)"

definition tftp_port :: "net_st \<Rightarrow> int" where
  "tftp_port st = 1024 + int (unat (clock st mod 3072))"

definition tftp_turns ::
  "server \<Rightarrow> u32 \<Rightarrow> u32 \<Rightarrow> int \<Rightarrow> byte list \<Rightarrow> (u32 \<times> nat list) list \<Rightarrow> net_event list" where
  "tftp_turns srv hop ip port f turns =
     (let arp = (arp_reply_frame (srv_dst srv) (srv_mac srv) hop ip (srv_junk srv), 60) in
      case map (block_event srv ip port f) turns of
        [] \<Rightarrow> []
      | ev # evs \<Rightarrow> ev\<lparr>ev_rx := arp # ev_rx ev\<rparr> # evs)"

lemma started_ready:
  assumes "net_ready st sip"
  shows "net_wf (started st)" "eth_current (started st) \<noteq> None" "NetServerIP (started st) = sip" "sip \<noteq> 0" "sip \<noteq> 0xFFFFFFFF"
    "NetServerEther (started st) = NetEtherNullAddr" "untagged (started st)" "NetOurIP (started st) \<noteq> 0"
proof -
  show "eth_current (started st) \<noteq> None" "NetServerIP (started st) = sip" "sip \<noteq> 0" "sip \<noteq> 0xFFFFFFFF"
    "NetServerEther (started st) = NetEtherNullAddr" "untagged (started st)" "NetOurIP (started st) \<noteq> 0"
    using assms by (simp_all add: started_def net_ready_def untagged_def my_vlan_def)
  have w: "net_wf st" "eth_names st = [''eth0'', ''eth1'']" using assms by (simp_all add: net_ready_def)
  then have m: "length (eth_macs st) = 2" by (auto simp: net_wf_def)
  then have "length (eth_macs st ! 1) = 6" using w(1) by (simp add: net_wf_def)
  then show "net_wf (started st)"
    using w m assms unfolding net_wf_def by (simp add: started_def net_ready_def NetEtherNullAddr_def)
qed

lemma started_hop: "next_hop (started st) (getenv_IPaddr ''serverip'' st) = tftp_hop st"
  by (simp add: tftp_hop_def started_def next_hop_def)

lemma arp_answered:
  fixes c
  assumes r: "net_ready st sip" and srv: "server_ok srv"
  defines "s0 \<equiv> (TftpSend (started st))\<lparr>NetBootFileXferSize := 0\<rparr>"
  obtains s1 where "NetReceive (arp_reply_frame (srv_dst srv) (srv_mac srv) (tftp_hop st) (bd_ip_addr st) (srv_junk srv)) 60
      (s0\<lparr>clock := c\<rparr>) = Inr s1"
    "session_conf s1" "NetState s1 = NETLOOP_CONTINUE" "session f port s1 0 (clock st) s1" "clock s1 = c" "CFG_HZ s1 = CFG_HZ st"
    "NetOurIP s1 = bd_ip_addr st" "TftpOurPort s1 = tftp_port st" "nenv s1 = (nenv st)(''ethact'' \<mapsto> ''eth1'')"
    "ram s1 = ram st" "net_load_addr s1 = net_load_addr st"
proof -
  note a = started_ready [OF r]
  have d: "NetServerIP (started st) \<noteq> 0" "NetServerIP (started st) \<noteq> 0xFFFFFFFF" using a(3-5) by simp_all
  obtain i w ws tx s where e: "TftpSend (started st) =
     (started st)\<lparr>NetArpWaitPacketIP := NetServerIP (started st), NetArpWaitPacketMAC := Some ServerEther, NetIPID := i, NetArpWaitTxPacket := w,
        NetArpWaitTxPacketSize := ws, NetArpWaitTry := 1, NetArpWaitTimerStart := clock (started st),
        NetArpWaitReplyIP := next_hop (started st) (NetServerIP (started st)), NetTxPacket := tx, sent := s\<rparr>"
    by (rule TftpSend_unknown [OF a(1,2) d a(6)])
  let ?s = "s0\<lparr>clock := c\<rparr>"
  have f: "NetOurIP ?s = bd_ip_addr st" "NetArpWaitPacketMAC ?s = Some ServerEther" "NetArpWaitPacketIP ?s \<noteq> 0"
    "NetArpWaitReplyIP ?s = tftp_hop st" "NetOurIP ?s \<noteq> 0" "untagged ?s"
    using r a(3,4,7,8) started_hop [of st] untagged_cong [of ?s "started st"]
    by (simp_all add: s0_def e net_ready_def) (simp_all add: started_def)
  obtain s1 where s1: "NetReceive (arp_reply_frame (srv_dst srv) (srv_mac srv) (tftp_hop st) (bd_ip_addr st) (srv_junk srv)) 60 ?s = Inr s1"
    "s1 = (let st1 = set_mac ServerEther (srv_mac srv) ?s;
         buf = put_bytes (NetArpWaitTxPacket ?s) 0 (mac_of ServerEther st1);
         st2 = eth_send (get_bytes buf 0 (NetArpWaitTxPacketSize ?s)) (st1\<lparr>NetArpWaitTxPacket := buf\<rparr>)
     in st2\<lparr>NetArpWaitPacketIP := 0, NetArpWaitTxPacketSize := 0, NetArpWaitPacketMAC := None\<rparr>)"
    using NetReceive_arp_reply [OF f(6), of "srv_dst srv" "srv_mac srv" 60 ServerEther "tftp_hop st" "srv_junk srv"]
      f srv by (simp add: server_ok_def)
  have s1': "s1 = ?s\<lparr>NetServerEther := srv_mac srv, NetArpWaitTxPacket := NetArpWaitTxPacket s1, sent := sent s1,
     NetArpWaitPacketIP := 0, NetArpWaitTxPacketSize := 0, NetArpWaitPacketMAC := None\<rparr>"
    unfolding s1(2) by (simp add: Let_def set_mac_def eth_send_frame)
  obtain b v where b: "s1 = ?s\<lparr>NetServerEther := srv_mac srv, NetArpWaitTxPacket := b, sent := v,
     NetArpWaitPacketIP := 0, NetArpWaitTxPacketSize := 0, NetArpWaitPacketMAC := None\<rparr>"
    using s1' by blast
  have u: "untagged s1" using f(6) untagged_cong [of s1 ?s] by (simp add: b)
  have p: "0 \<le> tftp_port st" "tftp_port st < 65536"
  proof -
    have "unat (clock st mod 3072) < 3072" by (simp add: unat_mod_distrib)
    then show "0 \<le> tftp_port st" "tftp_port st < 65536" unfolding tftp_port_def by linarith+
  qed
  have g: "NetOurIP s1 = bd_ip_addr st" "NetServerIP s1 = sip" "NetServerEther s1 = srv_mac srv" "NetArpWaitPacketIP s1 = 0"
    "packetHandler s1 = Some TftpHandler" "CFG_HZ s1 = CFG_HZ st" "TftpOurPort s1 = tftp_port st" "NetState s1 = NETLOOP_CONTINUE"
    "nenv s1 = (nenv st)(''ethact'' \<mapsto> ''eth1'')" "ram s1 = ram st" "net_load_addr s1 = net_load_addr st" "clock s1 = c"
    "timeHandler s1 = Some TftpTimeout" "timeStart s1 = clock st" "timeDelta s1 = 2 * CFG_HZ st" "TftpState s1 = STATE_RRQ"
    "NetBootFileXferSize s1 = 0"
    using a(3) by (simp_all add: b s0_def e) (simp_all add: started_def tftp_port_def)
  have "ram_write m x [] = m" for m x by (simp add: ram_write_def)
  then have "session f port s1 0 (clock st) s1"
    by (simp add: session_def transferred_def g last_block_def)
  moreover have "session_conf s1"
    using u g p r srv by (simp add: session_conf_def net_ready_def server_ok_def)
  ultimately show ?thesis using that s1(1) g by blast
qed

lemma NetLoop_download:
  assumes r: "net_ready st sip" and srv: "server_ok srv" and f: "length f < 512 * 65535"
    and t: "serves (CFG_HZ st) (clock st) 0 turns = Some (last_block f)"
  obtains st' where "NetLoop TFTP (tftp_turns srv (tftp_hop st) (bd_ip_addr st) (tftp_port st) f turns) st = Inr (Some (sint (NetBootFileXferSize st')), loop_success st')"
    "ram st' = ram_write (ram st) (net_load_addr st) f" "NetBootFileXferSize st' = of_nat (length f)"
    "net_load_addr st' = net_load_addr st" "nenv st' = (nenv st)(''ethact'' \<mapsto> ''eth1'')"
proof -
  let ?s0 = "(TftpSend (started st))\<lparr>NetBootFileXferSize := 0\<rparr>"
  have lb: "0 < last_block f" by (simp add: last_block_def)
  then obtain cl bs evs where turns: "turns = (cl, bs) # evs" using t by (cases turns) auto
  then obtain n where n: "lockstep 0 bs = Some n" "cl - (if n = 0 then clock st else cl) \<le> 2 * CFG_HZ st"
    "serves (CFG_HZ st) (if n = 0 then clock st else cl) n evs = Some (last_block f)"
    using t by (auto split: option.splits if_splits simp: Let_def)
  have nl: "n \<le> last_block f" by (rule serves_mono [OF n(3)])
  obtain s1 where a: "NetReceive (arp_reply_frame (srv_dst srv) (srv_mac srv) (tftp_hop st) (bd_ip_addr st) (srv_junk srv)) 60
      (?s0\<lparr>clock := cl\<rparr>) = Inr s1" and c: "session_conf s1" "NetState s1 = NETLOOP_CONTINUE"
    and s: "session f (srv_port srv) s1 0 (clock st) s1" and k: "clock s1 = cl" and hz: "CFG_HZ s1 = CFG_HZ st"
    and g: "NetOurIP s1 = bd_ip_addr st" "TftpOurPort s1 = tftp_port st" "nenv s1 = (nenv st)(''ethact'' \<mapsto> ''eth1'')"
    "ram s1 = ram st" "net_load_addr s1 = net_load_addr st"
    by (rule arp_answered [OF r srv])
  let ?arp = "(arp_reply_frame (srv_dst srv) (srv_mac srv) (tftp_hop st) (bd_ip_addr st) (srv_junk srv), 60) :: byte list \<times> int"
  let ?frames = "?arp # map (block_frame srv (bd_ip_addr st) (tftp_port st) f) bs"
  obtain st1 where st1: "net_turn TFTP ?frames False (?s0\<lparr>clock := cl\<rparr>) =
      (if last_block f \<le> n then Inr (Some (sint (NetBootFileXferSize st1)), loop_success st1) else Inr (None, st1))"
    "session f (srv_port srv) s1 n (if n = 0 then clock st else cl) st1"
    using turn_blocks [OF c srv f n(1) nl n(2) [folded hz], of "[?arp]" ?s0 s1] a s k g(1,2) by auto
  have l: "NetLoop TFTP (tftp_turns srv (tftp_hop st) (bd_ip_addr st) (tftp_port st) f turns) st = net_run TFTP
      (\<lparr>ev_clock = cl, ev_rx = ?frames, ev_ctrlc = False\<rparr> # map (block_event srv (bd_ip_addr st) (tftp_port st) f) evs) ?s0"
    by (simp add: NetLoop_started [OF r] tftp_turns_def turns block_event_def)
  obtain t' st' where st': "NetLoop TFTP (tftp_turns srv (tftp_hop st) (bd_ip_addr st) (tftp_port st) f turns) st = Inr (Some (sint (NetBootFileXferSize st')), loop_success st')"
    "session f (srv_port srv) s1 (last_block f) t' st'"
  proof (cases "last_block f \<le> n")
    case True
    then have "n = last_block f" using nl by simp
    then show ?thesis using that [of st1] st1 by (simp add: l)
  next
    case False
    then show ?thesis
      using net_run_serves [OF c srv f st1(2), of evs] n(3) st1(1) that by (auto simp: l hz g(1,2))
  qed
  have "length f < 512 * last_block f" by (simp add: last_block_def dividend_less_times_div)
  then show ?thesis
    using st' g by (intro that [of st']) (simp_all add: session_def transferred_def same_conf_def)
qed

subsection \<open>Properties\<close>

text \<open>
  C3: A download over the network is correct, from the call of \<open>NetLoop\<close> to its return. On a configured board and
  against a server that answers the ARP request and sends the blocks of a file in lock step, the last one possibly
  repeated and never more than two seconds after the one before it, \<open>NetLoop\<close> returns the size of the file, the file is
  at the load address, nothing else in memory has changed, and \<open>filesize\<close> reads back as the size.
\<close>

theorem NetLoop_tftp_fetches:
  assumes "net_ready st sip" "server_ok srv" "f \<noteq> []" "length f < 512 * 65535"
    "serves (CFG_HZ st) (clock st) 0 turns = Some (last_block f)"
  shows "\<exists>st' fs. NetLoop TFTP (tftp_turns srv (tftp_hop st) (bd_ip_addr st) (tftp_port st) f turns) st = Inr (Some (int (length f)), st') \<and>
    ram st' = ram_write (ram st) (net_load_addr st) f \<and>
    nenv st' ''filesize'' = Some fs \<and> simple_strtoul fs 16 = (of_nat (length f), [])"
proof -
  obtain st' where st': "NetLoop TFTP (tftp_turns srv (tftp_hop st) (bd_ip_addr st) (tftp_port st) f turns) st = Inr (Some (sint (NetBootFileXferSize st')), loop_success st')"
    "ram st' = ram_write (ram st) (net_load_addr st) f" "NetBootFileXferSize st' = of_nat (length f)"
    by (rule NetLoop_download [OF assms(1,2,4,5)])
  have u: "unat (of_nat (length f) :: u32) = length f" using assms(4) by (intro unat_of_nat_small) simp
  have z: "NetBootFileXferSize st' > 0" using assms(3) u by (simp add: st'(3) word_less_nat_alt)
  have "sint (NetBootFileXferSize st') = int (length f)"
    using assms(4) by (simp add: st'(3) signed_of_nat signed_take_bit_int_eq_self)
  moreover have "ram (loop_success st') = ram st'" by (simp add: loop_success_def Let_def)
  moreover have "nenv (loop_success st') ''filesize'' = Some (if NetBootFileXferSize st' = 0 then ''0'' else
      rev (num_digits digits_lower 16 (unat (NetBootFileXferSize st'))))"
    using z by (simp add: loop_success_def vsprintf_lx Let_def)
  ultimately show ?thesis
    using st' simple_strtoul_digits [of 16 "NetBootFileXferSize st'"] by simp
qed

theorem NetLoop_tftp_fetches_witness:
  "\<exists>st' fs. NetLoop TFTP (tftp_turns \<lparr>srv_dst = [2, 0, 0, 0, 0, 1], srv_mac = [2, 0, 0, 0, 0, 9], srv_ip = 0xC0A80101,
      srv_port = 5000, srv_junk = []\<rparr> 0x01010101 0xC0A80102 1024 [7, 8, 9] [(5, []), (10, [1])])
      (sample_net\<lparr>nenv := [''serverip'' \<mapsto> ''1.1.1.1'']\<rparr>) = Inr (Some 3, st') \<and>
    ram st' = ram_write (\<lambda>_. 0) 0x81000000 [7, 8, 9] \<and> nenv st' ''filesize'' = Some fs \<and> simple_strtoul fs 16 = (3, [])"
proof -
  let ?s = "sample_net\<lparr>nenv := [''serverip'' \<mapsto> ''1.1.1.1'']\<rparr>"
  let ?srv = "\<lparr>srv_dst = [2, 0, 0, 0, 0, 1], srv_mac = [2, 0, 0, 0, 0, 9], srv_ip = 0xC0A80101,
      srv_port = 5000, srv_junk = []\<rparr>"
  have w: "net_wf ?s" using sample_net_facts(2) by (simp add: net_wf_def)
  have ip: "getenv_IPaddr ''serverip'' ?s = 0x01010101"
    by (simp add: getenv_IPaddr_def) code_simp
  have r: "net_ready ?s 0x01010101"
    unfolding net_ready_def using w ip by (simp add: sample_net_def NetEtherNullAddr_def)
  have g: "getenv_IPaddr ''gatewayip'' ?s = 0" by (simp add: getenv_IPaddr_def string_to_ip_def)
  have h: "tftp_hop ?s = 0x01010101" "tftp_port ?s = 1024" "bd_ip_addr ?s = 0xC0A80102"
    by (simp_all add: tftp_hop_def next_hop_def ip g) (simp_all add: sample_net_def tftp_port_def)
  show ?thesis
    using NetLoop_tftp_fetches [OF r, of ?srv "[7, 8, 9]" "[(5, []), (10, [1])]"] h
    by (simp add: server_ok_def NetEtherNullAddr_def sample_net_def last_block_def)
qed

end
