(* ===== verification/Env.thy ===== *)
theory Env
  imports Crc Vsprintf
begin

text \<open>
  The environment of \<open>common/cmd_nvedit.c\<close> and \<open>common/env_common.c\<close>: an array of
  \<open>ENV_SIZE\<close> characters that holds the \<open>name=value\<close> strings one after the other, each closed by
  \<open>NUL\<close>, the last one by two. The array is a character list; an index outside it is the exit
  \<open>Env_Fault\<close>. The routines work on indices as the source does; the abstract view is the list of
  entries, and on top of it the map from names to values.
\<close>

subsection \<open>State\<close>

datatype env_exit =
    Env_Fault     \<comment> \<open>access outside the environment or behind an argument\<close>
  | Null_Arg      \<comment> \<open>a missing argument is dereferenced\<close>
  | Blocked       \<comment> \<open>waits for console input that does not come\<close>

record env_st =
  env_data :: string
  env_crc :: u32
  gd_baudrate :: u32
  bi_enetaddr :: "byte list"
  bi_ip_addr :: u32
  load_addr :: u32
  BootFile :: string
  eth_addrs :: "byte list list"
  con_in :: string

abbreviation ENV_SIZE :: "env_st \<Rightarrow> nat" where
  "ENV_SIZE e \<equiv> length (env_data e)"

definition char_byte :: "char \<Rightarrow> byte" where
  "char_byte c = of_nat (of_char c)"

definition env_crc_update :: "env_st \<Rightarrow> env_st" where
  "env_crc_update e = e\<lparr>env_crc := crc32 0 (map char_byte (env_data e))\<rparr>"

subsection \<open>Access to the array\<close>

definition env_get_char :: "string \<Rightarrow> nat \<Rightarrow> env_exit + char" where
  "env_get_char d i = (if i < length d then Inr (d ! i) else Inl Env_Fault)"

definition env_put :: "string \<Rightarrow> nat \<Rightarrow> char \<Rightarrow> env_exit + string" where
  "env_put d i c = (if i < length d then Inr (d[i := c]) else Inl Env_Fault)"

text \<open>The scans \<open>for (nxt=i; env_get_char(nxt) != 0; ++nxt)\<close>.\<close>

function find_nul :: "string \<Rightarrow> nat \<Rightarrow> env_exit + nat" where
  "find_nul d i =
     (if i < length d then if d ! i = NUL then Inr i else find_nul d (Suc i)
      else Inl Env_Fault)"
  by pat_completeness auto
termination
  by (relation "measure (\<lambda>(d, i). length d - i)") auto

text \<open>
  \<open>envmatch\<close>: a name whose end is compared with an entry that ends there too makes the source run
  on behind the name's terminator, which is \<open>Env_Fault\<close> here.
\<close>

fun envmatch :: "string \<Rightarrow> string \<Rightarrow> nat \<Rightarrow> env_exit + nat option" where
  "envmatch d [] i2 =
     rbind (env_get_char d i2) (\<lambda>c.
       if c = NUL then Inl Env_Fault
       else if c = CHR ''='' then Inr (Some (Suc i2)) else Inr None)"
| "envmatch d (a # s1) i2 =
     rbind (env_get_char d i2) (\<lambda>c.
       if a = c then if a = CHR ''='' then Inr (Some (Suc i2)) else envmatch d s1 (Suc i2)
       else Inr None)"

lemma find_nul_bounds: "find_nul d i = Inr n \<Longrightarrow> i \<le> n \<and> n < length d"
  by (induction d i rule: find_nul.induct) (auto simp: find_nul.simps split: if_splits)

declare find_nul.simps [simp del]

text \<open>
  The search loop of \<open>getenv\<close>, \<open>getenv_r\<close>, \<open>do_printenv\<close> and \<open>_do_setenv\<close>: the start of the
  matching entry, its terminator and the index of its value; otherwise where the list ends.
\<close>

function env_search :: "string \<Rightarrow> string \<Rightarrow> nat \<Rightarrow> env_exit + (nat \<times> nat \<times> nat) option" where
  "env_search d name i =
     rbind (env_get_char d i) (\<lambda>c.
       if c = NUL then Inr None
       else
         rbind (find_nul d i) (\<lambda>nxt.
           rbind (envmatch d name i) (\<lambda>val. case val of
             Some v \<Rightarrow> Inr (Some (i, nxt, v))
           | None \<Rightarrow> env_search d name (Suc nxt))))"
  by pat_completeness auto
termination
  by (relation "measure (\<lambda>(d, name, i). length d - i)")
     (auto simp: env_get_char_def dest!: find_nul_bounds split: if_splits)

declare env_search.simps [simp del]

subsection \<open>Reading\<close>

text \<open>\<open>getenv\<close>: the C string at the value's index.\<close>

definition env_string :: "string \<Rightarrow> nat \<Rightarrow> env_exit + string" where
  "env_string d i = rbind (find_nul d i) (\<lambda>n. Inr (take (n - i) (drop i d)))"

definition getenv :: "env_st \<Rightarrow> string \<Rightarrow> env_exit + string option" where
  "getenv e name =
     rbind (env_search (env_data e) name 0) (\<lambda>res. case res of
       None \<Rightarrow> Inr None
     | Some (i, nxt, v) \<Rightarrow> rbind (env_string (env_data e) v) (\<lambda>s. Inr (Some s)))"

text \<open>
  The copy loop of \<open>getenv_r\<close>: \<open>n\<close> counts the characters tried; the characters written and the
  final \<open>n\<close>, which is one past \<open>len\<close> when the buffer was too small.
\<close>

function getenv_copy :: "string \<Rightarrow> nat \<Rightarrow> nat \<Rightarrow> nat \<Rightarrow> string \<Rightarrow> env_exit + nat \<times> string" where
  "getenv_copy d len n val buf =
     (if len > n then
        rbind (env_get_char d val) (\<lambda>c.
          if c = NUL then Inr (Suc n, buf @ [c])
          else getenv_copy d len (Suc n) (Suc val) (buf @ [c]))
      else Inr (Suc n, buf))"
  by pat_completeness auto
termination
  by (relation "measure (\<lambda>(d, len, n, val, buf). len - n)") auto

declare getenv_copy.simps [simp del]

definition getenv_r :: "env_st \<Rightarrow> string \<Rightarrow> nat \<Rightarrow> env_exit + (nat \<times> string) option" where
  "getenv_r e name len =
     rbind (env_search (env_data e) name 0) (\<lambda>res. case res of
       None \<Rightarrow> Inr None
     | Some (i, nxt, v) \<Rightarrow>
         rbind (getenv_copy (env_data e) len 0 v []) (\<lambda>(n, buf).
           Inr (Some (n, if len = n then buf @ [NUL] else buf))))"

subsection \<open>Deleting an entry\<close>

text \<open>
  The loop that moves the remaining entries to the front: \<open>env\<close> is the write index and \<open>nxt\<close> the
  read index; it stops after writing a \<open>NUL\<close> that another one follows.
\<close>

function env_shift :: "string \<Rightarrow> nat \<Rightarrow> nat \<Rightarrow> env_exit + string \<times> nat" where
  "env_shift d env nxt =
     rbind (env_get_char d nxt) (\<lambda>c.
       rbind (env_put d env c) (\<lambda>d.
         rbind (if c = NUL then rbind (env_get_char d (Suc nxt)) (\<lambda>c'. Inr (c' = NUL)) else Inr False)
           (\<lambda>stop. if stop then Inr (d, env) else env_shift d (Suc env) (Suc nxt))))"
  by pat_completeness auto
termination
  by (relation "measure (\<lambda>(d, env, nxt). length d - nxt)")
     (auto simp: env_get_char_def env_put_def split: if_splits)

declare env_shift.simps [simp del]

definition env_delete :: "string \<Rightarrow> nat \<Rightarrow> nat \<Rightarrow> env_exit + string" where
  "env_delete d env nxt =
     rbind (env_get_char d (Suc nxt)) (\<lambda>c.
       rbind
         (if c = NUL then
            if env > 0 then Inr (d, env - 1)
            else rbind (env_put d env NUL) (\<lambda>d. Inr (d, env))
          else env_shift d env (Suc nxt))
         (\<lambda>(d, env). env_put d (Suc env) NUL))"

subsection \<open>Appending an entry\<close>

text \<open>The search for the closing double \<open>NUL\<close>.\<close>

function env_end :: "string \<Rightarrow> nat \<Rightarrow> env_exit + nat" where
  "env_end d env =
     rbind (env_get_char d env) (\<lambda>c.
       rbind (if c = NUL then env_get_char d (Suc env) else Inr c) (\<lambda>c'.
         if c = NUL \<and> c' = NUL then Inr env else env_end d (Suc env)))"
  by pat_completeness auto
termination
  by (relation "measure (\<lambda>(d, env). length d - env)") (auto simp: env_get_char_def split: if_splits)

declare env_end.simps [simp del]

fun env_write :: "string \<Rightarrow> nat \<Rightarrow> string \<Rightarrow> env_exit + string" where
  "env_write d env [] = Inr d"
| "env_write d env (c # s) = rbind (env_put d env c) (\<lambda>d. env_write d (Suc env) s)"

text \<open>
  The new entry: the name, \<open>=\<close>, the values separated by spaces, and two \<open>NUL\<close>. Each inner loop of
  the source writes a terminator that the next separator overwrites; only the last one stays, so
  the characters and their order are those of \<open>entry_chars\<close>.
\<close>

fun join_args :: "string list \<Rightarrow> string" where
  "join_args [] = []"
| "join_args [v] = v"
| "join_args (v # vs) = v @ '' '' @ join_args vs"

definition entry_chars :: "string \<Rightarrow> string list \<Rightarrow> string" where
  "entry_chars name vals = name @ ''='' @ join_args vals"

definition entry_len :: "string \<Rightarrow> string list \<Rightarrow> nat" where
  "entry_len name vals = length name + 2 + sum_list (map (\<lambda>v. length v + 1) vals)"

definition env_append :: "string \<Rightarrow> string \<Rightarrow> string list \<Rightarrow> env_exit + string option" where
  "env_append d name vals =
     rbind (env_end d 0) (\<lambda>env.
       let env = (if env > 0 then Suc env else env) in
       if entry_len name vals > length d - env then Inr None
       else rbind (env_write d env (entry_chars name vals @ [NUL, NUL])) (\<lambda>d. Inr (Some d)))"

subsection \<open>Variables with effects\<close>

definition after_sep :: "string \<Rightarrow> string" where
  "after_sep e = (case e of [] \<Rightarrow> [] | _ # e' \<Rightarrow> e')"

text \<open>The loops over the parts of an address: up to \<open>n\<close> numbers, each followed by one separator.\<close>

fun parse_parts :: "nat \<Rightarrow> u32 \<Rightarrow> string \<Rightarrow> u32 list" where
  "parse_parts 0 base s = []"
| "parse_parts (Suc n) base s =
     (let (v, e) = simple_strtoul s base in v # parse_parts n base (after_sep e))"

definition parse_enetaddr :: "string option \<Rightarrow> byte list" where
  "parse_enetaddr addr =
     (case addr of None \<Rightarrow> replicate 6 0 | Some s \<Rightarrow> map ucast (parse_parts 6 16 s))"

definition eth_set_enetaddr :: "u32 \<Rightarrow> string option \<Rightarrow> byte list list \<Rightarrow> byte list list" where
  "eth_set_enetaddr num addr devs =
     (let k = nat (sint num) in
      if k < length devs then devs[k := parse_enetaddr addr] else devs)"

definition ipaddr_of :: "string \<Rightarrow> u32" where
  "ipaddr_of s = foldl (\<lambda>addr v. push_bit 8 addr OR (v AND 0xFF)) 0 (parse_parts 4 10 s)"

text \<open>\<open>copy_filename\<close> of \<open>net/net.c\<close>: at most \<open>size - 1\<close> characters, up to a closing quote.\<close>

fun copy_name_loop :: "nat \<Rightarrow> string \<Rightarrow> string" where
  "copy_name_loop 0 src = []"
| "copy_name_loop (Suc n) [] = []"
| "copy_name_loop (Suc n) (c # src) = (if c = CHR ''\"'' then [] else c # copy_name_loop n src)"

definition copy_filename :: "string \<Rightarrow> nat \<Rightarrow> string" where
  "copy_filename src n =
     (if peek src = CHR ''\"'' then copy_name_loop (n - 2) (tl src) else copy_name_loop (n - 1) src)"

subsection \<open>\<open>setenv\<close>\<close>

text \<open>
  Checks made when the variable exists already: \<open>Some rc\<close> returns \<open>rc\<close>, \<open>None\<close> goes on. Console
  redirection (\<open>console_assign\<close> of \<open>common/console.c\<close>) is the parameter \<open>cons\<close>, which says
  whether the device named by the string can be assigned; the table of baud rates has the one
  entry of the board. \<open>arg2\<close> is \<open>argv[2]\<close>, \<open>None\<close> when it is missing or \<open>NULL\<close>.
\<close>

definition baudrate_table :: "u32 list" where
  "baudrate_table = [115200]"

fun wait_cr :: "string \<Rightarrow> env_exit + string" where
  "wait_cr [] = Inl Blocked"
| "wait_cr (c # inp) = (if c = CHR 0x0D then Inr inp else wait_cr inp)"

definition setenv_checks ::
  "(nat \<Rightarrow> string \<Rightarrow> bool) \<Rightarrow> env_st \<Rightarrow> string \<Rightarrow> nat \<Rightarrow> string option \<Rightarrow> env_exit + int option \<times> env_st" where
  "setenv_checks cons e name argc arg2 =
     (if name = ''serial#'' \<or> name = ''ethaddr'' then Inr (Some 1, e)
      else
        let console = (if name = ''stdin'' then Some 0 else if name = ''stdout'' then Some 1
                       else if name = ''stderr'' then Some 2 else None) in
        rbind
          (case console of
             None \<Rightarrow> Inr None
           | Some k \<Rightarrow>
               if argc < 3 then Inr (Some 1)
               else (case arg2 of
                       None \<Rightarrow> Inl Null_Arg
                     | Some s \<Rightarrow> if cons k s then Inr None else Inr (Some 1)))
          (\<lambda>rc. case rc of
             Some r \<Rightarrow> Inr (Some r, e)
           | None \<Rightarrow>
               if name = ''baudrate'' then
                 (case arg2 of
                    None \<Rightarrow> Inl Null_Arg
                  | Some s \<Rightarrow>
                      (let baudrate = fst (simple_strtoul s 10) in
                       if baudrate \<notin> set baudrate_table then Inr (Some 1, e)
                       else rbind (wait_cr (con_in e)) (\<lambda>inp.
                         Inr (None, e\<lparr>gd_baudrate := baudrate, con_in := inp\<rparr>))))
               else Inr (None, e)))"

text \<open>The assignments after a new definition was stored; \<open>s\<close> is \<open>argv[2]\<close>.\<close>

definition setenv_effects :: "env_st \<Rightarrow> string \<Rightarrow> string \<Rightarrow> env_st" where
  "setenv_effects e name s =
     (if name = ''ethaddr'' then
        e\<lparr>bi_enetaddr := parse_enetaddr (Some s),
          eth_addrs := eth_set_enetaddr 0 (Some s) (eth_addrs e)\<rparr>
      else if name = ''ipaddr'' then e\<lparr>bi_ip_addr := ipaddr_of s\<rparr>
      else if name = ''loadaddr'' then e\<lparr>load_addr := fst (simple_strtoul s 16)\<rparr>
      else if name = ''bootfile'' then e\<lparr>BootFile := copy_filename s 128\<rparr>
      else e)"

definition eth_effect :: "env_st \<Rightarrow> string \<Rightarrow> string option \<Rightarrow> env_st" where
  "eth_effect e name arg2 =
     (if take 3 name = ''eth'' then
        (let (num, end) = simple_strtoul (drop 3 name) 10 in
         if end = ''addr'' then e\<lparr>eth_addrs := eth_set_enetaddr num arg2 (eth_addrs e)\<rparr> else e)
      else e)"

text \<open>
  The first half of \<open>_do_setenv\<close>: search for an old definition, checks, and its removal. The
  result carries a return code when the function returns here.
\<close>

definition env_remove ::
  "(nat \<Rightarrow> string \<Rightarrow> bool) \<Rightarrow> env_st \<Rightarrow> string \<Rightarrow> nat \<Rightarrow> string option \<Rightarrow> env_exit + int option \<times> env_st" where
  "env_remove cons e name argc arg2 =
     rbind (env_search (env_data e) name 0) (\<lambda>old. case old of
       None \<Rightarrow> Inr (None, e)
     | Some (env, nxt, oldval) \<Rightarrow>
         rbind (setenv_checks cons e name argc arg2) (\<lambda>(rc, e). case rc of
           Some r \<Rightarrow> Inr (Some r, e)
         | None \<Rightarrow> rbind (env_delete (env_data e) env nxt) (\<lambda>d. Inr (None, e\<lparr>env_data := d\<rparr>))))"

text \<open>
  \<open>_do_setenv\<close> with \<open>argv = [_, name] @ args\<close>; an argument \<open>None\<close> is a \<open>NULL\<close> pointer. The result
  is the return code and the new state.
\<close>

definition do_setenv_body ::
  "(nat \<Rightarrow> string \<Rightarrow> bool) \<Rightarrow> env_st \<Rightarrow> string \<Rightarrow> string option list \<Rightarrow> env_exit + int \<times> env_st" where
  "do_setenv_body cons e name args =
     (let argc = length args + 2; arg2 = (case args of [] \<Rightarrow> None | a # _ \<Rightarrow> a) in
      rbind (env_remove cons e name argc arg2) (\<lambda>(rc, e). case rc of
        Some r \<Rightarrow> Inr (r, e)
      | None \<Rightarrow>
          let e = eth_effect e name arg2 in
          (case arg2 of
             None \<Rightarrow> Inr (0, env_crc_update e)
           | Some s \<Rightarrow>
               if list_all (\<lambda>a. a \<noteq> None) args then
                 rbind (env_append (env_data e) name (map the args)) (\<lambda>res. case res of
                   None \<Rightarrow> Inr (1, e)
                 | Some d \<Rightarrow> Inr (0, setenv_effects (env_crc_update (e\<lparr>env_data := d\<rparr>)) name s))
               else Inl Null_Arg)))"

definition setenv ::
  "(nat \<Rightarrow> string \<Rightarrow> bool) \<Rightarrow> env_st \<Rightarrow> string \<Rightarrow> string option \<Rightarrow> env_exit + int \<times> env_st" where
  "setenv cons e varname varvalue = do_setenv_body cons e varname [varvalue]"

definition do_setenv ::
  "(nat \<Rightarrow> string \<Rightarrow> bool) \<Rightarrow> env_st \<Rightarrow> string list \<Rightarrow> env_exit + int \<times> env_st" where
  "do_setenv cons e argv =
     (case argv of
        _ # name # args \<Rightarrow> do_setenv_body cons e name (map Some args)
      | _ \<Rightarrow> Inr (1, e))"

subsection \<open>\<open>printenv\<close>\<close>

text \<open>
  \<open>do_printenv\<close>: the output and the return code; \<open>ctrlc\<close> is pressed after \<open>abort\<close> lines, if at
  all.
\<close>

function print_all :: "string \<Rightarrow> nat \<Rightarrow> nat option \<Rightarrow> string \<Rightarrow> env_exit + int \<times> nat \<times> string" where
  "print_all d i abort out =
     rbind (env_get_char d i) (\<lambda>c.
       if c = NUL then Inr (0, i, out)
       else
         rbind (find_nul d i) (\<lambda>nxt.
           let out = out @ take (nxt - i) (drop i d) @ [CHR 0x0A] in
           if abort = Some 0 then Inr (1, i, out)
           else print_all d (Suc nxt) (map_option (\<lambda>n. n - 1) abort) out))"
  by pat_completeness auto
termination
  by (relation "measure (\<lambda>(d, i, _). length d - i)")
     (auto simp: env_get_char_def dest!: find_nul_bounds split: if_splits)

declare print_all.simps [simp del]

text \<open>Single variables: the lines printed and the number of names not defined.\<close>

fun print_some :: "string \<Rightarrow> string list \<Rightarrow> string \<Rightarrow> nat \<Rightarrow> env_exit + nat \<times> string" where
  "print_some d [] out rcode = Inr (rcode, out)"
| "print_some d (name # names) out rcode =
     rbind (env_search d name 0) (\<lambda>res. case res of
       Some (i, nxt, v) \<Rightarrow>
         print_some d names (out @ name @ ''='' @ take (nxt - v) (drop v d) @ [CHR 0x0A]) rcode
     | None \<Rightarrow>
         print_some d names
           (out @ ''## Error: '' @ [CHR 0x22] @ name @ [CHR 0x22] @ '' not defined'' @ [CHR 0x0A])
           (Suc rcode))"

subsection \<open>Start of the environment\<close>

text \<open>
  \<open>env_relocate\<close> for \<open>CFG_ENV_IS_NOWHERE\<close> (\<open>gd->env_valid\<close> is 0): the default environment is
  copied into a zeroed array, unless it does not fit.
\<close>

definition env_relocate :: "string \<Rightarrow> env_st \<Rightarrow> env_st" where
  "env_relocate default_environment e =
     (if length default_environment > ENV_SIZE e then e
      else env_crc_update (e\<lparr>env_data :=
        default_environment @ replicate (ENV_SIZE e - length default_environment) NUL\<rparr>))"

subsection \<open>Invariants and reference definitions\<close>

type_synonym entries = "(string \<times> string) list"

definition name_ok :: "string \<Rightarrow> bool" where
  "name_ok n \<longleftrightarrow> NUL \<notin> set n \<and> CHR ''='' \<notin> set n"

definition flat :: "entries \<Rightarrow> string" where
  "flat es = concat (map (\<lambda>(n, v). n @ ''='' @ v @ [NUL]) es)"

definition env_repr :: "string \<Rightarrow> entries \<Rightarrow> bool" where
  "env_repr d es \<longleftrightarrow>
     (\<exists>rest. d = flat es @ (if es = [] then [NUL] else []) @ NUL # rest) \<and>
     (\<forall>(n, v) \<in> set es. name_ok n \<and> NUL \<notin> set v) \<and> distinct (map fst es)"

fun no_dbl :: "string \<Rightarrow> bool" where
  "no_dbl (x # y # xs) \<longleftrightarrow> \<not> (x = NUL \<and> y = NUL) \<and> no_dbl (y # xs)"
| "no_dbl _ \<longleftrightarrow> True"

definition special_names :: "string set" where
  "special_names = {''serial#'', ''ethaddr'', ''stdin'', ''stdout'', ''stderr'', ''baudrate''}"

definition without :: "string \<Rightarrow> entries \<Rightarrow> entries" where
  "without name es = filter (\<lambda>(n, v). n \<noteq> name) es"

definition crc_ok :: "env_st \<Rightarrow> bool" where
  "crc_ok e \<longleftrightarrow> env_crc e = crc32 0 (map char_byte (env_data e))"

fun put_all :: "('s \<Rightarrow> string \<Rightarrow> string \<Rightarrow> 's option) \<Rightarrow> 's \<Rightarrow> (string \<times> string) list \<Rightarrow> 's option" where
  "put_all putf s [] = Some s"
| "put_all putf s ((n, v) # nvs) = (case putf s n v of None \<Rightarrow> None | Some s' \<Rightarrow> put_all putf s' nvs)"

definition env_lookup :: "env_st \<Rightarrow> string \<Rightarrow> string option" where
  "env_lookup e n = (case getenv e n of Inl _ \<Rightarrow> None | Inr r \<Rightarrow> r)"

definition env_set :: "(nat \<Rightarrow> string \<Rightarrow> bool) \<Rightarrow> env_st \<Rightarrow> string \<Rightarrow> string \<Rightarrow> env_st option" where
  "env_set cons e n v =
     (case setenv cons e n (Some v) of Inr (rc, e') \<Rightarrow> if rc = 0 then Some e' else None | Inl _ \<Rightarrow> None)"

definition env_inv :: "env_st \<Rightarrow> bool" where
  "env_inv e \<longleftrightarrow> (\<exists>es. env_repr (env_data e) es)"

definition ordinary :: "string \<Rightarrow> bool" where
  "ordinary n \<longleftrightarrow> name_ok n \<and> n \<notin> special_names"

definition sample_env :: env_st where
  "sample_env = \<lparr>env_data = ''ab=1'' @ [NUL] @ ''c=22'' @ [NUL, NUL] @ replicate 9 NUL, env_crc = 0,
     gd_baudrate = 115200, bi_enetaddr = [], bi_ip_addr = 0, load_addr = 0, BootFile = [],
     eth_addrs = [], con_in = []\<rparr>"

subsection \<open>Lemmas\<close>

lemma flat_simps [simp]:
  "flat [] = []" "flat ((n, v) # es) = n @ CHR ''='' # v @ NUL # flat es"
  "flat (es @ es') = flat es @ flat es'"
  by (simp_all add: flat_def)

lemma find_nul_at:
  "NUL \<notin> set x \<Longrightarrow> find_nul (pre @ x @ NUL # post) (length pre) = Inr (length pre + length x)"
proof (induction x arbitrary: pre)
  case Nil
  then show ?case by (simp add: find_nul.simps)
next
  case (Cons c x)
  then show ?case using Cons.IH [of "pre @ [c]"] by (subst find_nul.simps) (auto simp: nth_append)
qed

lemma envmatch_entry:
  "name_ok name \<Longrightarrow> name_ok n \<Longrightarrow>
   envmatch (pre @ n @ CHR ''='' # post) name (length pre) =
     Inr (if name = n then Some (Suc (length pre + length n)) else None)"
proof (induction name arbitrary: pre n)
  case Nil
  then show ?case by (cases n) (auto simp: env_get_char_def nth_append name_ok_def)
next
  case (Cons a name)
  show ?case
  proof (cases n)
    case Nil
    then show ?thesis using Cons.prems by (auto simp: env_get_char_def nth_append name_ok_def)
  next
    case (Cons b n')
    then show ?thesis
      using Cons.prems Cons.IH [of n' "pre @ [b]"]
      by (auto simp: env_get_char_def nth_append name_ok_def)
  qed
qed

lemma env_search_entry:
  assumes "name_ok name" "name_ok n" "NUL \<notin> set v"
  shows "env_search (pre @ n @ CHR ''='' # v @ NUL # post) name (length pre) =
    (if name = n
     then Inr (Some (length pre, length pre + length n + 1 + length v, Suc (length pre + length n)))
     else env_search (pre @ n @ CHR ''='' # v @ NUL # post) name (length pre + length n + length v + 2))"
proof -
  let ?d = "pre @ n @ CHR ''='' # v @ NUL # post"
  have c: "env_get_char ?d (length pre) = Inr (hd (n @ ''=''))"
    by (cases n) (auto simp: env_get_char_def nth_append)
  have "hd (n @ ''='') \<noteq> NUL" using assms(2) by (cases n) (auto simp: name_ok_def)
  moreover have "find_nul ?d (length pre) = Inr (length pre + (length n + 1 + length v))"
    using find_nul_at [of "n @ CHR ''='' # v" pre post] assms by (simp add: name_ok_def)
  moreover note envmatch_entry [OF assms(1,2), of pre "v @ NUL # post"]
  ultimately show ?thesis
    by (subst env_search.simps) (simp add: c ac_simps)
qed

lemma env_search_flat:
  assumes "name_ok name" "\<forall>(n, v) \<in> set es. name_ok n \<and> NUL \<notin> set v"
  shows "name \<notin> fst ` set es \<Longrightarrow>
    env_search (pre @ flat es @ post) name (length pre) =
    env_search (pre @ flat es @ post) name (length pre + length (flat es))"
  using assms(2)
proof (induction es arbitrary: pre)
  case (Cons x es)
  obtain n v where x: "x = (n, v)" by fastforce
  have "env_search (pre @ n @ CHR ''='' # v @ NUL # flat es @ post) name (length pre) =
      env_search (pre @ n @ CHR ''='' # v @ NUL # flat es @ post) name
        (length pre + length n + length v + 2)"
    using Cons.prems assms(1) by (subst env_search_entry) (auto simp: x)
  also have "\<dots> = env_search ((pre @ n @ CHR ''='' # v @ [NUL]) @ flat es @ post) name
      (length (pre @ n @ CHR ''='' # v @ [NUL]))"
    by (simp add: ac_simps)
  also have "\<dots> = env_search ((pre @ n @ CHR ''='' # v @ [NUL]) @ flat es @ post) name
      (length (pre @ n @ CHR ''='' # v @ [NUL]) + length (flat es))"
    using Cons.prems by (intro Cons.IH) (auto simp: x)
  finally show ?case by (simp add: x ac_simps)
qed simp

lemma env_search_none:
  assumes "env_repr d es" "name_ok name" "name \<notin> fst ` set es"
  shows "env_search d name 0 = Inr None"
proof -
  obtain rest where d: "d = flat es @ NUL # rest"
    using assms(1) by (auto simp: env_repr_def split: if_splits)
  have "env_search (flat es @ NUL # rest) name 0 =
      env_search (flat es @ NUL # rest) name (length (flat es))"
    using env_search_flat [of name es "[]" "NUL # rest"] assms by (auto simp: env_repr_def)
  then show ?thesis
    by (simp add: d env_search.simps [of _ _ "length (flat es)"] env_get_char_def nth_append)
qed

lemma env_search_some:
  assumes "env_repr d (es1 @ (name, v) # es2)" "name_ok name"
  shows "env_search d name 0 =
    Inr (Some (length (flat es1), length (flat es1) + length name + 1 + length v,
               Suc (length (flat es1) + length name)))"
proof -
  obtain rest where d: "d = flat es1 @ name @ CHR ''='' # v @ NUL # flat es2 @ rest"
    using assms(1) by (auto simp: env_repr_def)
  have "env_search d name 0 = env_search d name (length (flat es1))"
    using env_search_flat [of name es1 "[]" "name @ CHR ''='' # v @ NUL # flat es2 @ rest"] assms
    by (auto simp: env_repr_def image_iff d)
  then show ?thesis
    using assms by (simp add: d env_search_entry env_repr_def)
qed

lemma getenv_repr:
  assumes "env_repr (env_data e) es" "name_ok name"
  shows "getenv e name = Inr (map_of es name)"
proof (cases "map_of es name")
  case None
  then show ?thesis
    using env_search_none [OF assms] by (simp add: getenv_def map_of_eq_None_iff [THEN iffD1])
next
  case (Some v)
  then obtain es1 es2 where es: "es = es1 @ (name, v) # es2"
    by (meson map_of_SomeD split_list)
  then obtain rest where d: "env_data e = flat es1 @ name @ CHR ''='' # v @ NUL # rest"
    and v: "NUL \<notin> set v"
    using assms(1) by (auto simp: env_repr_def)
  have "find_nul (env_data e) (Suc (length (flat es1) + length name)) =
      Inr (Suc (length (flat es1) + length name) + length v)"
    using find_nul_at [OF v, of "flat es1 @ name @ ''=''" rest] by (simp add: d)
  then show ?thesis
    using env_search_some [OF assms(1) [unfolded es] assms(2)] Some
    by (simp add: getenv_def env_string_def d)
qed

lemma no_dbl_append:
  "no_dbl xs \<Longrightarrow> no_dbl ys \<Longrightarrow> (ys = [] \<or> hd ys \<noteq> NUL) \<Longrightarrow> no_dbl (xs @ ys)"
  by (cases ys; induction xs rule: no_dbl.induct) auto

lemma no_dbl_notin: "NUL \<notin> set xs \<Longrightarrow> no_dbl (xs @ [NUL])"
proof (induction xs)
  case (Cons x xs)
  then show ?case by (cases xs) auto
qed simp

lemma hd_flat:
  "\<forall>(n, v) \<in> set es. name_ok n \<and> NUL \<notin> set v \<Longrightarrow> es \<noteq> [] \<Longrightarrow> flat es \<noteq> [] \<and> hd (flat es) \<noteq> NUL"
  by (cases es; cases "fst (hd es)") (auto simp: name_ok_def)

lemma no_dbl_flat:
  "\<forall>(n, v) \<in> set es. name_ok n \<and> NUL \<notin> set v \<Longrightarrow> no_dbl (flat es)"
proof (induction es)
  case (Cons x es)
  obtain n v where x: "x = (n, v)" by fastforce
  have "no_dbl ((n @ CHR ''='' # v) @ [NUL])"
    using Cons.prems by (intro no_dbl_notin) (auto simp: x name_ok_def)
  then have "no_dbl (n @ CHR ''='' # v @ [NUL])" by simp
  then have "no_dbl ((n @ CHR ''='' # v @ [NUL]) @ flat es)"
    by (rule no_dbl_append; cases "es = []") (use Cons hd_flat [of es] in \<open>auto simp: x\<close>)
  then show ?case by (simp add: x)
qed simp

lemma flat_snoc: "es \<noteq> [] \<Longrightarrow> \<exists>t. flat es = t @ [NUL]"
  by (cases es rule: rev_cases) auto

lemma env_shift_flat:
  assumes "G \<noteq> []" "no_dbl (t @ [NUL])"
  shows "\<exists>G'. length G' = length G \<and>
    env_shift (P @ G @ t @ NUL # NUL # J) (length P) (length P + length G) =
      Inr (P @ t @ NUL # G' @ NUL # J, length P + length t)"
  using assms
proof (induction t arbitrary: P G)
  case Nil
  let ?d = "P @ G @ NUL # NUL # J"
  obtain g G1 where g: "G = g # G1" using Nil by (cases G) auto
  have "?d[length P := NUL] = P @ NUL # (G1 @ [NUL]) @ NUL # J"
    by (simp add: g list_update_append)
  moreover have "(P @ NUL # (G1 @ [NUL]) @ NUL # J) ! Suc (length P + length G) = NUL"
    by (simp add: g nth_append)
  ultimately show ?case
    by (intro exI [of _ "G1 @ [NUL]"])
       (subst env_shift.simps, simp add: env_get_char_def env_put_def nth_append g)
next
  case (Cons c t)
  let ?d = "P @ G @ c # t @ NUL # NUL # J"
  obtain g G1 where g: "G = g # G1" using Cons by (cases G) auto
  define d' where "d' = (P @ [c]) @ (G1 @ [c]) @ t @ NUL # NUL # J"
  have "?d[length P := c] = d'"
    by (simp add: g list_update_append d'_def)
  moreover have "?d ! (length P + length G) = c"
    by (simp add: nth_append)
  moreover have "d' ! Suc (length P + length G) = hd (t @ [NUL])"
    by (cases t) (simp_all add: d'_def g nth_append)
  moreover have "\<not> (c = NUL \<and> hd (t @ [NUL]) = NUL)"
    using Cons.prems by (cases t) auto
  moreover have "length d' = length ?d" by (simp add: d'_def g)
  ultimately have step: "env_shift ?d (length P) (length P + length G) =
      env_shift d' (length (P @ [c])) (length (P @ [c]) + length (G1 @ [c]))"
    by (subst env_shift.simps) (auto simp: env_get_char_def env_put_def g)
  have "no_dbl (t @ [NUL])" using Cons.prems by (cases t) auto
  with Cons.IH [of "G1 @ [c]" "P @ [c]"] obtain G' where
    "length G' = length (G1 @ [c])"
    "env_shift d' (length (P @ [c])) (length (P @ [c]) + length (G1 @ [c])) =
      Inr ((P @ [c]) @ t @ NUL # G' @ NUL # J, length (P @ [c]) + length t)"
    unfolding d'_def by blast
  then show ?case
    unfolding append_Cons step by (auto simp: g)
qed

lemma env_delete_repr:
  assumes "env_repr d (es1 @ (n, v) # es2)"
  shows "\<exists>d'. env_delete d (length (flat es1)) (length (flat es1) + length n + 1 + length v) = Inr d' \<and>
    env_repr d' (es1 @ es2) \<and> length d' = length d"
proof -
  obtain rest where d: "d = flat es1 @ (n @ CHR ''='' # v @ [NUL]) @ flat es2 @ NUL # rest"
    using assms by (auto simp: env_repr_def)
  let ?G = "n @ CHR ''='' # v @ [NUL]"
  have ok: "\<forall>(n, v) \<in> set (es1 @ es2). name_ok n \<and> NUL \<notin> set v" "distinct (map fst (es1 @ es2))"
    using assms by (auto simp: env_repr_def)
  show ?thesis
  proof (cases "es2 = []")
    case True
    have c: "env_get_char d (Suc (length (flat es1) + length n + 1 + length v)) = Inr NUL"
      by (simp add: d True env_get_char_def nth_append)
    show ?thesis
    proof (cases "es1 = []")
      case True
      obtain a b G where G: "n @ CHR ''='' # v @ [NUL] = a # b # G"
        by (cases n; cases "tl n"; cases v) auto
      then have "d = a # b # G @ NUL # rest" using \<open>es2 = []\<close> True by (simp add: d)
      with c True \<open>es2 = []\<close> show ?thesis
        by (simp add: env_delete_def env_put_def env_repr_def)
    next
      case False
      then obtain t where t: "flat es1 = t @ [NUL]" using flat_snoc by blast
      obtain a G where G: "n @ CHR ''='' # v @ [NUL] = a # G" by (cases n) auto
      have lG: "length G = Suc (length n + length v)" using arg_cong [OF G, of length] by simp
      have d2: "d = flat es1 @ a # G @ NUL # rest" using G True by (simp add: d)
      have "env_put d (length (flat es1)) NUL = Inr (flat es1 @ NUL # G @ NUL # rest)"
        by (simp add: d2 env_put_def)
      moreover have "0 < length (flat es1)" "Suc (length (flat es1) - 1) = length (flat es1)"
        by (simp_all add: t)
      ultimately have "env_delete d (length (flat es1)) (length (flat es1) + length n + 1 + length v) =
          Inr (flat es1 @ NUL # G @ NUL # rest)"
        using c by (simp add: env_delete_def)
      then show ?thesis
        using ok True False lG by (auto simp: env_repr_def d)
    qed
  next
    case False
    then obtain t where t: "flat es2 = t @ [NUL]" using flat_snoc by blast
    have "no_dbl (t @ [NUL])" using no_dbl_flat [of es2] ok by (auto simp: t)
    from env_shift_flat [OF _ this, of ?G "flat es1" rest] obtain G' where
      G': "length G' = length ?G"
      "env_shift d (length (flat es1)) (length (flat es1) + length ?G) =
        Inr (flat es1 @ t @ NUL # G' @ NUL # rest, length (flat es1) + length t)"
      by (auto simp: d t)
    obtain a H where H: "G' = a # H" using G'(1) by (cases G') auto
    have "hd (flat es2) \<noteq> NUL" using hd_flat [of es2] ok False by auto
    moreover have "env_get_char d (Suc (length (flat es1) + length n + 1 + length v)) = Inr (hd (flat es2))"
      by (cases "flat es2") (use t in \<open>auto simp: d env_get_char_def nth_append\<close>)
    moreover have "env_put (flat es1 @ t @ NUL # G' @ NUL # rest) (Suc (length (flat es1) + length t)) NUL =
        Inr (flat es1 @ t @ NUL # NUL # H @ NUL # rest)"
      by (simp add: env_put_def H list_update_append)
    ultimately show ?thesis
      using G' ok False by (auto simp: env_delete_def env_repr_def d t H add.assoc)
  qed
qed

lemma env_end_flat:
  assumes "no_dbl (t @ [NUL])"
  shows "env_end (P @ t @ NUL # NUL # J) (length P) = Inr (length P + length t)"
  using assms
proof (induction t arbitrary: P)
  case Nil
  show ?case by (subst env_end.simps) (simp add: env_get_char_def nth_append)
next
  case (Cons c t)
  let ?d = "P @ (c # t) @ NUL # NUL # J"
  have "?d ! length P = c" "?d ! Suc (length P) = hd (t @ [NUL])"
    by (cases t; simp add: nth_append)+
  moreover have "\<not> (c = NUL \<and> hd (t @ [NUL]) = NUL)"
    using Cons.prems by (cases t) auto
  moreover have "length P < length ?d" "Suc (length P) < length ?d" by simp_all
  ultimately have "env_end ?d (length P) = env_end ?d (Suc (length P))"
    by (subst env_end.simps) (auto simp: env_get_char_def simp del: append_Cons append_assoc)
  moreover have "no_dbl (t @ [NUL])" using Cons.prems by (cases t) auto
  ultimately show ?case using Cons.IH [of "P @ [c]"] by simp
qed

lemma env_write_eq:
  "length s \<le> length rest \<Longrightarrow>
   env_write (P @ rest) (length P) s = Inr (P @ s @ drop (length s) rest)"
proof (induction s arbitrary: P rest)
  case (Cons c s)
  then obtain r rest' where "rest = r # rest'" by (cases rest) auto
  with Cons.IH [of rest' "P @ [c]"] Cons.prems show ?case by (simp add: env_put_def)
qed simp

lemma length_entry_chars:
  "vals \<noteq> [] \<Longrightarrow> length (entry_chars name vals @ [NUL, NUL]) = entry_len name vals"
proof -
  assume "vals \<noteq> []"
  then have "Suc (length (join_args vals)) = sum_list (map (\<lambda>v. length v + 1) vals)"
    by (induction vals rule: join_args.induct) auto
  then show ?thesis by (simp add: entry_chars_def entry_len_def)
qed

lemma join_args_nul: "\<forall>v \<in> set vals. NUL \<notin> set v \<Longrightarrow> NUL \<notin> set (join_args vals)"
  by (induction vals rule: join_args.induct) auto

lemma env_append_repr:
  assumes "env_repr d es" "name_ok name" "name \<notin> fst ` set es" "vals \<noteq> []"
    "\<forall>v \<in> set vals. NUL \<notin> set v"
  shows "if length (flat es) + entry_len name vals \<le> length d
    then \<exists>d'. env_append d name vals = Inr (Some d') \<and> length d' = length d \<and>
           env_repr d' (es @ [(name, join_args vals)])
    else env_append d name vals = Inr None"
proof -
  obtain rest where d: "d = flat es @ (if es = [] then [NUL] else []) @ NUL # rest"
    and ok: "\<forall>(n, v) \<in> set es. name_ok n \<and> NUL \<notin> set v" "distinct (map fst es)"
    using assms(1) by (auto simp: env_repr_def)
  obtain k where "env_end d 0 = Inr k" "(if 0 < k then Suc k else k) = length (flat es)"
  proof (cases "es = []")
    case True
    then show ?thesis using env_end_flat [of "[]" "[]" rest] that [of 0] by (simp add: d)
  next
    case False
    then obtain t where t: "flat es = t @ [NUL]" using flat_snoc by blast
    have "t \<noteq> []" using hd_flat [OF ok(1) False] t by (cases t) auto
    moreover have "no_dbl (t @ [NUL])" using no_dbl_flat [OF ok(1)] by (simp add: t)
    ultimately show ?thesis
      using env_end_flat [of t "[]" rest] that [of "length t"] False by (simp add: d t)
  qed
  then have app: "env_append d name vals =
      (if entry_len name vals > length d - length (flat es) then Inr None
       else rbind (env_write d (length (flat es)) (entry_chars name vals @ [NUL, NUL])) (\<lambda>d. Inr (Some d)))"
    by (simp add: env_append_def)
  have len: "length (flat es) \<le> length d" by (simp add: d)
  show ?thesis
  proof (cases "length (flat es) + entry_len name vals \<le> length d")
    case True
    obtain tail where tail: "d = flat es @ tail" "entry_len name vals \<le> length tail"
      using True by (cases "es = []") (auto simp: d)
    let ?s = "entry_chars name vals @ [NUL, NUL]"
    have l: "length ?s \<le> length tail"
      using tail length_entry_chars [OF assms(4), of name] by simp
    have "env_write d (length (flat es)) ?s = Inr (flat es @ ?s @ drop (length ?s) tail)"
      unfolding tail(1) by (rule env_write_eq [OF l])
    moreover have "env_repr (flat es @ ?s @ drop (length ?s) tail) (es @ [(name, join_args vals)])"
      using ok assms join_args_nul [OF assms(5)]
      by (auto simp: env_repr_def entry_chars_def)
    moreover have "length (flat es @ ?s @ drop (length ?s) tail) = length d"
      using l tail by simp
    ultimately show ?thesis
      using True len by (simp add: app)
  qed (use len in \<open>auto simp: app\<close>)
qed

lemma without_id: "name \<notin> fst ` set es \<Longrightarrow> without name es = es"
  by (auto simp: without_def filter_id_conv image_iff)

lemma without_split:
  "distinct (map fst (es1 @ (name, v) # es2)) \<Longrightarrow> without name (es1 @ (name, v) # es2) = es1 @ es2"
  using without_id [of name es1] without_id [of name es2] by (simp add: without_def)

lemma map_of_without: "map_of (without name es) = (map_of es)(name := None)"
  by (induction es) (auto simp: without_def)

lemma fst_without: "fst ` set (without name es) = fst ` set es - {name}"
  by (auto simp: without_def)

lemma crc_ok_update [simp]: "crc_ok (env_crc_update e)"
  by (simp add: crc_ok_def env_crc_update_def)

lemma env_data_effects [simp]:
  "env_data (env_crc_update e) = env_data e" "env_data (eth_effect e name a) = env_data e"
  "env_data (setenv_effects e name s) = env_data e" "env_crc (setenv_effects e name s) = env_crc e"
  by (auto simp: env_crc_update_def eth_effect_def setenv_effects_def split: prod.split)

lemma crc_ok_effects [simp]: "crc_ok (setenv_effects e name s) = crc_ok e"
  by (simp add: crc_ok_def)

lemma setenv_checks_ordinary:
  "name \<notin> special_names \<Longrightarrow> setenv_checks cons e name argc a = Inr (None, e)"
  by (simp add: setenv_checks_def special_names_def)

lemma env_remove_repr:
  assumes "env_repr (env_data e) es" "name_ok name" "name \<notin> special_names"
  shows "\<exists>d. env_remove cons e name argc arg2 = Inr (None, e\<lparr>env_data := d\<rparr>) \<and>
    env_repr d (without name es) \<and> length d = ENV_SIZE e"
proof (cases "name \<in> fst ` set es")
  case False
  then show ?thesis
    using env_search_none [OF assms(1,2)] assms(1) without_id [OF False]
    by (intro exI [of _ "env_data e"]) (auto simp: env_remove_def)
next
  case True
  then obtain es1 v es2 where es: "es = es1 @ (name, v) # es2" by (auto dest!: split_list)
  have "without name es = es1 @ es2"
    using assms(1) unfolding es by (intro without_split) (simp add: env_repr_def)
  with env_delete_repr [OF assms(1) [unfolded es]] env_search_some [OF assms(1) [unfolded es] assms(2)]
  show ?thesis
    by (auto simp: env_remove_def setenv_checks_ordinary [OF assms(3)])
qed

lemma do_setenv_body_set:
  assumes "env_repr (env_data e) es" "name_ok name" "name \<notin> special_names"
    "vals \<noteq> []" "\<forall>v \<in> set vals. NUL \<notin> set v"
  shows "if length (flat (without name es)) + entry_len name vals \<le> ENV_SIZE e
    then \<exists>e'. do_setenv_body cons e name (map Some vals) = Inr (0, e') \<and> crc_ok e' \<and>
           ENV_SIZE e' = ENV_SIZE e \<and>
           env_repr (env_data e') (without name es @ [(name, join_args vals)])
    else \<exists>e'. do_setenv_body cons e name (map Some vals) = Inr (1, e') \<and>
           ENV_SIZE e' = ENV_SIZE e \<and> env_repr (env_data e') (without name es)"
proof -
  obtain v vs where vals: "vals = v # vs" using assms(4) by (cases vals) auto
  obtain d where d: "env_remove cons e name (length vals + 2) (Some v) = Inr (None, e\<lparr>env_data := d\<rparr>)"
    "env_repr d (without name es)" "length d = ENV_SIZE e"
    using env_remove_repr [OF assms(1-3)] by blast
  let ?e = "eth_effect (e\<lparr>env_data := d\<rparr>) name (Some v)"
  have body: "do_setenv_body cons e name (map Some vals) =
      rbind (env_append d name vals) (\<lambda>res. case res of
        None \<Rightarrow> Inr (1, ?e)
      | Some d \<Rightarrow> Inr (0, setenv_effects (env_crc_update (?e\<lparr>env_data := d\<rparr>)) name v))"
    using d(1) by (simp add: do_setenv_body_def Let_def vals list_all_iff o_def)
  have "name \<notin> fst ` set (without name es)" by (simp add: fst_without)
  note app = env_append_repr [OF d(2) assms(2) this assms(4,5)]
  show ?thesis
    using app d(2,3) by (auto simp: body split: if_splits)
qed

lemma do_setenv_body_delete:
  assumes "env_repr (env_data e) es" "name_ok name" "name \<notin> special_names" "args = [] \<or> args = [None]"
  shows "\<exists>e'. do_setenv_body cons e name args = Inr (0, e') \<and> crc_ok e' \<and>
    ENV_SIZE e' = ENV_SIZE e \<and> env_repr (env_data e') (without name es)"
proof -
  obtain d where d: "env_remove cons e name (length args + 2) None = Inr (None, e\<lparr>env_data := d\<rparr>)"
    "env_repr d (without name es)" "length d = ENV_SIZE e"
    using env_remove_repr [OF assms(1-3)] by blast
  have "(case args of [] \<Rightarrow> None | a # _ \<Rightarrow> a) = None" using assms(4) by auto
  then show ?thesis
    unfolding do_setenv_body_def Let_def using d by simp
qed

text \<open>
  The interface the shell and the network code use: a store of variables with a lookup and an
  update that may fail, and what a sequence of updates does to it.
\<close>

locale var_store =
  fixes lookup :: "'s \<Rightarrow> string \<Rightarrow> string option"
    and put :: "'s \<Rightarrow> string \<Rightarrow> string \<Rightarrow> 's option"
    and inv :: "'s \<Rightarrow> bool"
    and okn :: "string \<Rightarrow> bool"
    and okv :: "string \<Rightarrow> bool"
  assumes put_inv: "inv s \<Longrightarrow> okn n \<Longrightarrow> okv v \<Longrightarrow> put s n v = Some s' \<Longrightarrow> inv s'"
    and lookup_put: "inv s \<Longrightarrow> okn n \<Longrightarrow> okv v \<Longrightarrow> put s n v = Some s' \<Longrightarrow> okn m \<Longrightarrow>
      lookup s' m = (if m = n then Some v else lookup s m)"
begin

lemma puts_inv:
  "inv s \<Longrightarrow> \<forall>(n, v) \<in> set nvs. okn n \<and> okv v \<Longrightarrow> put_all put s nvs = Some s' \<Longrightarrow> inv s'"
proof (induction nvs arbitrary: s)
  case (Cons nv nvs)
  obtain n v where nv: "nv = (n, v)" by fastforce
  with Cons show ?case by (auto split: option.splits dest: put_inv)
qed simp

lemma lookup_puts:
  "inv s \<Longrightarrow> \<forall>(n, v) \<in> set nvs. okn n \<and> okv v \<Longrightarrow> put_all put s nvs = Some s' \<Longrightarrow> okn m \<Longrightarrow>
   lookup s' m = (case map_of (rev nvs) m of Some v \<Rightarrow> Some v | None \<Rightarrow> lookup s m)"
proof (induction nvs arbitrary: s)
  case (Cons nv nvs)
  obtain n v where nv: "nv = (n, v)" by fastforce
  from Cons.prems(3) nv obtain s1 where s1: "put s n v = Some s1" "put_all put s1 nvs = Some s'"
    by (auto split: option.splits)
  have "lookup s1 m = (if m = n then Some v else lookup s m)"
    using lookup_put [OF _ _ _ s1(1)] Cons.prems nv by auto
  moreover have "lookup s' m = (case map_of (rev nvs) m of Some v \<Rightarrow> Some v | None \<Rightarrow> lookup s1 m)"
    using Cons.IH [of s1] put_inv [OF _ _ _ s1(1)] Cons.prems s1 nv by auto
  ultimately show ?case by (auto simp: nv map_add_def split: option.splits)
qed simp

end

lemma map_of_set:
  "map_of (without n es @ [(n, v)]) = (map_of es)(n \<mapsto> v)"
  by (auto simp: map_add_def map_of_without split: option.split)

lemma setenv_repr:
  assumes "env_repr (env_data e) es" "ordinary n" "NUL \<notin> set v"
  shows "if length (flat (without n es)) + length n + length v + 3 \<le> ENV_SIZE e
    then \<exists>e'. setenv cons e n (Some v) = Inr (0, e') \<and> crc_ok e' \<and> ENV_SIZE e' = ENV_SIZE e \<and>
           env_repr (env_data e') (without n es @ [(n, v)])
    else \<exists>e'. setenv cons e n (Some v) = Inr (1, e') \<and> ENV_SIZE e' = ENV_SIZE e \<and>
           env_repr (env_data e') (without n es)"
proof -
  have "length (flat (without n es)) + entry_len n [v] = length (flat (without n es)) + length n + length v + 3"
    by (simp add: entry_len_def)
  then show ?thesis
    using do_setenv_body_set [OF assms(1), of n "[v]" cons] assms(2,3)
    by (simp add: ordinary_def setenv_def split: if_splits)
qed

text \<open>What \<open>setenv\<close> does to the rest of the state, for a variable without checks.\<close>

lemma setenv_fields:
  assumes "setenv cons e n (Some v) = Inr (rc, e')" "n \<notin> special_names" "env_repr (env_data e) es" "name_ok n"
  shows "bi_ip_addr e' = (if rc = 0 \<and> n = ''ipaddr'' then ipaddr_of v else bi_ip_addr e)"
    "load_addr e' = (if rc = 0 \<and> n = ''loadaddr'' then fst (simple_strtoul v 16) else load_addr e)"
    "BootFile e' = (if rc = 0 \<and> n = ''bootfile'' then copy_filename v 128 else BootFile e)"
    "take 3 n \<noteq> ''eth'' \<Longrightarrow> eth_addrs e' = eth_addrs e"
proof -
  obtain d where d: "env_remove cons e n 3 (Some v) = Inr (None, e\<lparr>env_data := d\<rparr>)"
    using env_remove_repr [OF assms(3,4,2)] by blast
  have s: "n \<noteq> ''ethaddr''" using assms(2) by (auto simp: special_names_def)
  have f: "bi_ip_addr (eth_effect e1 m a) = bi_ip_addr e1" "load_addr (eth_effect e1 m a) = load_addr e1"
    "BootFile (eth_effect e1 m a) = BootFile e1" "take 3 m \<noteq> ''eth'' \<Longrightarrow> eth_addrs (eth_effect e1 m a) = eth_addrs e1" for e1 m a
    by (simp_all add: eth_effect_def split: prod.split)
  let ?e = "eth_effect (e\<lparr>env_data := d\<rparr>) n (Some v)"
  have x: "rbind (env_append d n [v]) (case_option (Inr (1, ?e))
      (\<lambda>d. Inr (0, setenv_effects (env_crc_update (?e\<lparr>env_data := d\<rparr>)) n v))) = Inr (rc, e')"
    using assms(1) d by (simp add: setenv_def do_setenv_body_def Let_def numeral_3_eq_3)
  then consider (full) "rc = 1" "e' = ?e" |
    (set) d' where "rc = 0" "e' = setenv_effects (env_crc_update (?e\<lparr>env_data := d'\<rparr>)) n v"
    by (auto simp: res_simps split: option.splits)
  then have "bi_ip_addr e' = (if rc = 0 \<and> n = ''ipaddr'' then ipaddr_of v else bi_ip_addr e) \<and>
    load_addr e' = (if rc = 0 \<and> n = ''loadaddr'' then fst (simple_strtoul v 16) else load_addr e) \<and>
    BootFile e' = (if rc = 0 \<and> n = ''bootfile'' then copy_filename v 128 else BootFile e) \<and>
    (take 3 n \<noteq> ''eth'' \<longrightarrow> eth_addrs e' = eth_addrs e)"
    by cases (simp_all add: setenv_effects_def env_crc_update_def f s)
  then show "bi_ip_addr e' = (if rc = 0 \<and> n = ''ipaddr'' then ipaddr_of v else bi_ip_addr e)"
    "load_addr e' = (if rc = 0 \<and> n = ''loadaddr'' then fst (simple_strtoul v 16) else load_addr e)"
    "BootFile e' = (if rc = 0 \<and> n = ''bootfile'' then copy_filename v 128 else BootFile e)"
    "take 3 n \<noteq> ''eth'' \<Longrightarrow> eth_addrs e' = eth_addrs e"
    by blast+
qed

interpretation envs: var_store env_lookup "env_set cons" env_inv ordinary "\<lambda>v. NUL \<notin> set v" for cons
proof
  fix s n v s'
  assume "env_inv s" and n: "ordinary n" and v: "NUL \<notin> set v" and s': "env_set cons s n v = Some s'"
  then obtain es where es: "env_repr (env_data s) es" by (auto simp: env_inv_def)
  from setenv_repr [OF es n v, of cons] s' have e': "env_repr (env_data s') (without n es @ [(n, v)])"
    by (auto simp: env_set_def split: if_splits)
  then show "env_inv s'" by (auto simp: env_inv_def)
  show "env_lookup s' m = (if m = n then Some v else env_lookup s m)" if "ordinary m" for m
    using getenv_repr [OF e', of m] getenv_repr [OF es, of m] that
    by (simp add: env_lookup_def ordinary_def map_of_set del: map_of_append)
qed

text \<open>
  C10: A sequence of \<open>setenv\<close> calls that all succeed leaves the environment, as \<open>getenv\<close> sees it, as
  the initial variables overridden by the calls, the last one for a name winning.
\<close>

theorem setenv_sequence:
  assumes "env_repr (env_data e) es" "\<forall>(n, v) \<in> set nvs. ordinary n \<and> NUL \<notin> set v"
    "put_all (env_set cons) e nvs = Some e'" "ordinary m"
  shows "getenv e' m = Inr (case map_of (rev nvs) m of Some v \<Rightarrow> Some v | None \<Rightarrow> map_of es m)"
proof -
  have inv: "env_inv e" using assms(1) by (auto simp: env_inv_def)
  have "env_inv e'" using envs.puts_inv [OF inv assms(2,3)] .
  then obtain es' where es': "env_repr (env_data e') es'" by (auto simp: env_inv_def)
  have m: "name_ok m" using assms(4) by (simp add: ordinary_def)
  show ?thesis
    using envs.lookup_puts [OF inv assms(2-4)] getenv_repr [OF es' m] getenv_repr [OF assms(1) m]
    by (simp add: env_lookup_def split: option.splits)
qed

lemma getenv_copy_eq:
  "NUL \<notin> set v \<Longrightarrow> n \<le> len \<Longrightarrow>
   getenv_copy (pre @ v @ NUL # post) len n (length pre) buf =
     Inr (if n + length v < len then (Suc (n + length v), buf @ v @ [NUL])
          else (Suc len, buf @ take (len - n) v))"
proof (induction v arbitrary: pre n buf)
  case Nil
  then show ?case by (subst getenv_copy.simps) (auto simp: env_get_char_def)
next
  case (Cons c v)
  show ?case
  proof (cases "n < len")
    case True
    then obtain k where k: "len - n = Suc k" by (metis Suc_diff_Suc)
    then have "len - Suc n = k" by simp
    with k Cons.prems True Cons.IH [of "Suc n" "pre @ [c]" "buf @ [c]"] show ?thesis
      by (subst getenv_copy.simps) (auto simp: env_get_char_def nth_append Suc_le_eq)
  next
    case False
    with Cons.prems show ?thesis by (subst getenv_copy.simps) simp
  qed
qed

lemma getenv_r_repr:
  assumes "env_repr (env_data e) es" "name_ok name" "map_of es name = Some v"
  shows "getenv_r e name len = Inr (Some (
     if length v + 1 < len then (length v + 1, v @ [NUL])
     else if length v + 1 = len then (len, v @ [NUL, NUL])
     else (len + 1, take len v)))"
proof -
  obtain es1 es2 where es: "es = es1 @ (name, v) # es2"
    using assms(3) by (meson map_of_SomeD split_list)
  then obtain rest where d: "env_data e = (flat es1 @ name @ ''='') @ v @ NUL # rest"
    and v: "NUL \<notin> set v"
    using assms(1) by (auto simp: env_repr_def)
  have "getenv_copy (env_data e) len 0 (Suc (length (flat es1) + length name)) [] =
      Inr (if length v < len then (Suc (length v), v @ [NUL]) else (Suc len, take len v))"
    using getenv_copy_eq [OF v, of 0 len "flat es1 @ name @ ''=''" rest "[]"] by (simp add: d)
  then show ?thesis
    using env_search_some [OF assms(1) [unfolded es] assms(2)]
    by (auto simp: getenv_r_def)
qed

text \<open>
  Where the new definition fits, \<open>setenv\<close> succeeds and is a map update: afterwards \<open>getenv\<close>
  returns the new value for the name and the old result for every other name, and the stored CRC
  is that of the array. Search, shift to the front and append at the end work on indices of one
  array; no access leaves it.
\<close>

theorem setenv_map_update:
  assumes "env_repr (env_data e) es" "ordinary n" "NUL \<notin> set v"
    "length (flat (without n es)) + length n + length v + 3 \<le> ENV_SIZE e"
  shows "\<exists>e'. setenv cons e n (Some v) = Inr (0, e') \<and> crc_ok e' \<and> ENV_SIZE e' = ENV_SIZE e \<and>
    (\<forall>m. name_ok m \<longrightarrow> getenv e' m = (if m = n then Inr (Some v) else getenv e m))"
proof -
  obtain e' where e': "setenv cons e n (Some v) = Inr (0, e')" "crc_ok e'" "ENV_SIZE e' = ENV_SIZE e"
    "env_repr (env_data e') (without n es @ [(n, v)])"
    using setenv_repr [OF assms(1-3), of cons] assms(4) by auto
  have "getenv e' m = (if m = n then Inr (Some v) else getenv e m)" if "name_ok m" for m
    using getenv_repr [OF e'(4) that] getenv_repr [OF assms(1) that]
    by (simp add: map_of_set del: map_of_append)
  with e' show ?thesis by blast
qed

lemma sample_env_repr: "env_repr (env_data sample_env) [(''ab'', ''1''), (''c'', ''22'')]"
  by (simp add: env_repr_def sample_env_def name_ok_def)

theorem setenv_map_update_witness:
  "\<exists>e'. setenv (\<lambda>_ _. False) sample_env ''c'' (Some ''7'') = Inr (0, e') \<and> crc_ok e' \<and>
    ENV_SIZE e' = 20 \<and> getenv e' ''c'' = Inr (Some ''7'') \<and> getenv e' ''ab'' = Inr (Some ''1'')"
proof -
  have "ordinary ''c''" by (simp add: ordinary_def name_ok_def special_names_def)
  from setenv_map_update [OF sample_env_repr this, of "''7''" "\<lambda>_ _. False"]
  obtain e' where e': "setenv (\<lambda>_ _. False) sample_env ''c'' (Some ''7'') = Inr (0, e')" "crc_ok e'"
    "ENV_SIZE e' = ENV_SIZE sample_env"
    "\<forall>m. name_ok m \<longrightarrow> getenv e' m = (if m = ''c'' then Inr (Some ''7'') else getenv sample_env m)"
    by (auto simp: without_def sample_env_def)
  moreover have "getenv sample_env ''ab'' = Inr (Some ''1'')"
    using getenv_repr [OF sample_env_repr, of "''ab''"] by (simp add: name_ok_def)
  ultimately show ?thesis by (intro exI [of _ e']) (simp add: name_ok_def sample_env_def)
qed

text \<open>
  C32: Where the new definition does not fit, \<open>setenv\<close> returns 1, the old definition of the name is
  gone (as the message says) and every other variable is kept.
\<close>

theorem setenv_overflow:
  assumes "env_repr (env_data e) es" "ordinary n" "NUL \<notin> set v"
    "ENV_SIZE e < length (flat (without n es)) + length n + length v + 3"
  shows "\<exists>e'. setenv cons e n (Some v) = Inr (1, e') \<and> ENV_SIZE e' = ENV_SIZE e \<and>
    (\<forall>m. name_ok m \<longrightarrow> getenv e' m = (if m = n then Inr None else getenv e m))"
proof -
  obtain e' where e': "setenv cons e n (Some v) = Inr (1, e')" "ENV_SIZE e' = ENV_SIZE e"
    "env_repr (env_data e') (without n es)"
    using setenv_repr [OF assms(1-3), of cons] assms(4) by auto
  have "getenv e' m = (if m = n then Inr None else getenv e m)" if "name_ok m" for m
    using getenv_repr [OF e'(3) that] getenv_repr [OF assms(1) that] by (simp add: map_of_without)
  with e' show ?thesis by blast
qed

theorem setenv_overflow_witness:
  "\<exists>e'. setenv (\<lambda>_ _. False) sample_env ''c'' (Some (replicate 20 CHR ''x'')) = Inr (1, e') \<and>
    getenv e' ''c'' = Inr None \<and> getenv e' ''ab'' = Inr (Some ''1'')"
proof -
  have "ordinary ''c''" by (simp add: ordinary_def name_ok_def special_names_def)
  from setenv_overflow [OF sample_env_repr this, of "replicate 20 CHR ''x''" "\<lambda>_ _. False"]
  obtain e' where e': "setenv (\<lambda>_ _. False) sample_env ''c'' (Some (replicate 20 CHR ''x'')) = Inr (1, e')"
    "\<forall>m. name_ok m \<longrightarrow> getenv e' m = (if m = ''c'' then Inr None else getenv sample_env m)"
    by (auto simp: without_def sample_env_def)
  moreover have "getenv sample_env ''ab'' = Inr (Some ''1'')"
    using getenv_repr [OF sample_env_repr, of "''ab''"] by (simp add: name_ok_def)
  ultimately show ?thesis by (intro exI [of _ e']) (simp add: name_ok_def)
qed

text \<open>
  \<open>setenv name\<close> without a value deletes the variable and nothing else.
\<close>

theorem setenv_delete:
  assumes "env_repr (env_data e) es" "ordinary n"
  shows "\<exists>e'. do_setenv cons e [''setenv'', n] = Inr (0, e') \<and> crc_ok e' \<and>
    (\<forall>m. name_ok m \<longrightarrow> getenv e' m = (if m = n then Inr None else getenv e m))"
proof -
  obtain e' where e': "do_setenv_body cons e n [] = Inr (0, e')" "crc_ok e'"
    "env_repr (env_data e') (without n es)"
    using do_setenv_body_delete [OF assms(1), of n "[]" cons] assms(2) by (auto simp: ordinary_def)
  have "getenv e' m = (if m = n then Inr None else getenv e m)" if "name_ok m" for m
    using getenv_repr [OF e'(3) that] getenv_repr [OF assms(1) that] by (simp add: map_of_without)
  with e' show ?thesis by (auto simp: do_setenv_def)
qed

theorem setenv_delete_witness:
  "\<exists>e'. do_setenv (\<lambda>_ _. False) sample_env [''setenv'', ''ab''] = Inr (0, e') \<and> crc_ok e' \<and>
    getenv e' ''ab'' = Inr None \<and> getenv e' ''c'' = Inr (Some ''22'')"
proof -
  have "ordinary ''ab''" by (simp add: ordinary_def name_ok_def special_names_def)
  from setenv_delete [OF sample_env_repr this, of "\<lambda>_ _. False"]
  obtain e' where "do_setenv (\<lambda>_ _. False) sample_env [''setenv'', ''ab''] = Inr (0, e')" "crc_ok e'"
    "\<forall>m. name_ok m \<longrightarrow> getenv e' m = (if m = ''ab'' then Inr None else getenv sample_env m)" by auto
  moreover have "getenv sample_env ''c'' = Inr (Some ''22'')"
    using getenv_repr [OF sample_env_repr, of "''c''"] by (simp add: name_ok_def)
  ultimately show ?thesis by (intro exI [of _ e']) (simp add: name_ok_def)
qed

text \<open>
  \<open>ethaddr\<close> and \<open>serial#\<close> are write-once: once defined, every further \<open>setenv\<close>, with or without
  a value, returns 1 and changes nothing.
\<close>

theorem setenv_write_once:
  assumes "env_repr (env_data e) es" "n = ''ethaddr'' \<or> n = ''serial#''" "n \<in> fst ` set es"
  shows "do_setenv_body cons e n args = Inr (1, e)"
proof -
  obtain es1 v es2 where es: "es = es1 @ (n, v) # es2" using assms(3) by (auto dest!: split_list)
  have "name_ok n" using assms(2) by (auto simp: name_ok_def)
  note search = env_search_some [OF assms(1) [unfolded es] this]
  have "setenv_checks cons e n argc a = Inr (Some 1, e)" for argc a
    unfolding setenv_checks_def by (rule if_P) (use assms(2) in blast)
  with search show ?thesis
    by (simp add: do_setenv_body_def env_remove_def Let_def)
qed

theorem setenv_write_once_witness:
  "do_setenv_body (\<lambda>_ _. True) (sample_env\<lparr>env_data := ''serial#=1'' @ [NUL, NUL]\<rparr>) ''serial#'' [Some ''2''] =
     Inr (1, sample_env\<lparr>env_data := ''serial#=1'' @ [NUL, NUL]\<rparr>)"
  by (rule setenv_write_once [where es = "[(''serial#'', ''1'')]"]) (simp_all add: env_repr_def name_ok_def)

text \<open>
  What \<open>getenv_r\<close> writes into a buffer of \<open>len\<close> characters: the value and its terminator when
  they leave room to spare; one character more than \<open>len\<close> when they fit exactly; and the truncated
  value without a terminator when they do not fit.
\<close>

theorem getenv_r_buffer:
  assumes "env_repr (env_data e) es" "name_ok name" "map_of es name = Some v"
  shows "\<exists>n buf. getenv_r e name len = Inr (Some (n, buf)) \<and>
    (length v + 1 < len \<longrightarrow> n = length v + 1 \<and> buf = v @ [NUL]) \<and>
    (length v + 1 = len \<longrightarrow> buf = v @ [NUL, NUL] \<and> length buf = len + 1) \<and>
    (len < length v + 1 \<longrightarrow> n = len + 1 \<and> buf = take len v \<and> NUL \<notin> set buf)"
proof -
  have "NUL \<notin> set v" using assms(1,3) by (auto simp: env_repr_def dest!: map_of_SomeD)
  then show ?thesis
    unfolding getenv_r_repr [OF assms]
    by (cases "length v + 1 < len"; cases "length v + 1 = len") (auto dest: in_set_takeD)
qed

theorem getenv_r_buffer_witness:
  "\<exists>n. getenv_r sample_env ''c'' 3 = Inr (Some (n, ''22'' @ [NUL, NUL])) \<and>
    length (''22'' @ [NUL, NUL]) = 3 + 1"
  using getenv_r_buffer [OF sample_env_repr, of "''c''" "''22''" 3] by (auto simp: name_ok_def)

text \<open>
  \<open>setenv baudrate\<close> without a value, when the variable is defined, dereferences the missing
  argument: the delete request is not checked before \<open>argv[2]\<close> is parsed.
\<close>

theorem setenv_baudrate_null:
  assumes "env_repr (env_data e) es" "''baudrate'' \<in> fst ` set es"
  shows "do_setenv cons e [''setenv'', ''baudrate''] = Inl Null_Arg"
proof -
  obtain es1 v es2 where es: "es = es1 @ (''baudrate'', v) # es2" using assms(2) by (auto dest!: split_list)
  have "name_ok ''baudrate''" by (auto simp: name_ok_def)
  from env_search_some [OF assms(1) [unfolded es] this] show ?thesis
    by (simp add: do_setenv_def do_setenv_body_def env_remove_def setenv_checks_def)
qed

theorem setenv_baudrate_null_witness:
  "do_setenv (\<lambda>_ _. True) (sample_env\<lparr>env_data := ''baudrate=9'' @ [NUL, NUL]\<rparr>) [''setenv'', ''baudrate''] =
     Inl Null_Arg"
  by (rule setenv_baudrate_null [where es = "[(''baudrate'', ''9'')]"]) (simp_all add: env_repr_def name_ok_def)

text \<open>
  After \<open>env_relocate\<close> copied a default environment that fits, \<open>getenv\<close> returns exactly its
  definitions and the CRC is that of the array.
\<close>

theorem env_relocate_repr:
  assumes "es \<noteq> []" "\<forall>(n, v) \<in> set es. name_ok n \<and> NUL \<notin> set v" "distinct (map fst es)"
    "length (flat es) < ENV_SIZE e"
  shows "crc_ok (env_relocate (flat es @ [NUL]) e) \<and>
    (\<forall>m. name_ok m \<longrightarrow> getenv (env_relocate (flat es @ [NUL]) e) m = Inr (map_of es m))"
proof -
  have "env_repr (env_data (env_relocate (flat es @ [NUL]) e)) es"
    using assms by (auto simp: env_relocate_def env_repr_def)
  then show ?thesis
    using assms(4) getenv_repr by (auto simp: env_relocate_def)
qed

theorem setenv_sequence_witness:
  "\<exists>e'. put_all (env_set (\<lambda>_ _. False)) sample_env [(''c'', ''7''), (''c'', ''8'')] = Some e' \<and>
    getenv e' ''c'' = Inr (Some ''8'') \<and> getenv e' ''ab'' = Inr (Some ''1'')"
proof -
  have o: "ordinary ''c''" "ordinary ''ab''"
    by (simp_all add: ordinary_def name_ok_def special_names_def)
  obtain e1 where e1: "setenv (\<lambda>_ _. False) sample_env ''c'' (Some ''7'') = Inr (0, e1)"
    "ENV_SIZE e1 = 20" "env_repr (env_data e1) [(''ab'', ''1''), (''c'', ''7'')]"
    using setenv_repr [OF sample_env_repr o(1), of "''7''" "\<lambda>_ _. False"]
    by (auto simp: without_def sample_env_def)
  obtain e2 where e2: "setenv (\<lambda>_ _. False) e1 ''c'' (Some ''8'') = Inr (0, e2)"
    using setenv_repr [OF e1(3) o(1), of "''8''" "\<lambda>_ _. False"] e1(2)
    by (auto simp: without_def)
  have "put_all (env_set (\<lambda>_ _. False)) sample_env [(''c'', ''7''), (''c'', ''8'')] = Some e2"
    using e1 e2 by (simp add: env_set_def)
  moreover have "\<forall>(n, v) \<in> set [(''c'', ''7''), (''c'', ''8'')]. ordinary n \<and> NUL \<notin> set v"
    using o by simp
  ultimately show ?thesis
    using setenv_sequence [OF sample_env_repr, of "[(''c'', ''7''), (''c'', ''8'')]" "\<lambda>_ _. False" e2 "''c''"]
      setenv_sequence [OF sample_env_repr, of "[(''c'', ''7''), (''c'', ''8'')]" "\<lambda>_ _. False" e2 "''ab''"] o
    by auto
qed

theorem env_relocate_repr_witness:
  "let e = env_relocate (flat [(''ab'', ''1'')] @ [NUL]) sample_env in
   crc_ok e \<and> getenv e ''ab'' = Inr (Some ''1'') \<and> getenv e ''c'' = Inr None"
  using env_relocate_repr [of "[(''ab'', ''1'')]" sample_env] by (simp add: name_ok_def sample_env_def)

end
