(* ===== verification/NetBoot.thy ===== *)
theory NetBoot
  imports TftpSession Env
begin

text \<open>
  The network commands of \<open>common/cmd_net.c\<close>. They join the network layer with the environment: \<open>NetLoop\<close>
  reads variables and globals that \<open>setenv\<close> writes (\<open>load_addr\<close>, \<open>BootFile\<close>, \<open>bi_ip_addr\<close>, the MAC addresses), and
  its results go back into variables.
\<close>

subsection \<open>State\<close>

text \<open>
  The variables of \<open>net.c\<close> that only a BOOTP reply would fill are \<open>NetOurHostName\<close> and the others of that
  group. \<open>nb_rx\<close> holds, for each coming call of \<open>NetLoop\<close>, the clock at its start and what its turns bring.
\<close>

record netboot_st =
  nb_env :: env_st
  nb_net :: net_st
  NetOurHostName :: string
  NetOurRootPath :: string
  NetOurNISDomain :: string
  NetOurDNSIP :: u32
  nb_rx :: "(u32 \<times> net_event list) list"

datatype nb_exit =
    Net_Exit net_exit
  | Env_Exit env_exit
  | Still_Running            \<comment> \<open>\<open>NetLoop\<close> has not returned after the given turns\<close>
  | Autostart "string list"  \<comment> \<open>the call of \<open>do_bootm\<close> with these arguments, which does not return\<close>

definition of_env :: "env_exit + 'a \<Rightarrow> nb_exit + 'a" where
  "of_env r = (case r of Inl e \<Rightarrow> Inl (Env_Exit e) | Inr x \<Rightarrow> Inr x)"

subsection \<open>Variables\<close>

text \<open>\<open>if (cond) setenv (name, value);\<close> several times; the results of \<open>setenv\<close> are ignored.\<close>

fun put_vars ::
  "(nat \<Rightarrow> string \<Rightarrow> bool) \<Rightarrow> env_st \<Rightarrow> (bool \<times> string \<times> string) list \<Rightarrow> env_exit + env_st" where
  "put_vars cons e [] = Inr e"
| "put_vars cons e ((c, n, v) # vars) =
     (if c then rbind (setenv cons e n (Some v)) (\<lambda>(_, e). put_vars cons e vars) else put_vars cons e vars)"

definition netboot_update_env :: "(nat \<Rightarrow> string \<Rightarrow> bool) \<Rightarrow> netboot_st \<Rightarrow> nb_exit + netboot_st" where
  "netboot_update_env cons st =
     (let net = nb_net st in
      rbind (of_env (put_vars cons (nb_env st)
        [(NetOurGatewayIP net \<noteq> 0, ''gatewayip'', ip_to_string (NetOurGatewayIP net)),
         (NetOurSubnetMask net \<noteq> 0, ''netmask'', ip_to_string (NetOurSubnetMask net)),
         (NetOurHostName st \<noteq> [], ''hostname'', NetOurHostName st),
         (NetOurRootPath st \<noteq> [], ''rootpath'', NetOurRootPath st),
         (NetOurIP net \<noteq> 0, ''ipaddr'', ip_to_string (NetOurIP net)),
         (NetServerIP net \<noteq> 0, ''serverip'', ip_to_string (NetServerIP net)),
         (NetOurDNSIP st \<noteq> 0, ''dnsip'', ip_to_string (NetOurDNSIP st)),
         (NetOurNISDomain st \<noteq> [], ''domain'', NetOurNISDomain st)]))
        (\<lambda>e. Inr (st\<lparr>nb_env := e\<rparr>)))"

subsection \<open>The call of \<open>NetLoop\<close>\<close>

text \<open>The globals as \<open>NetLoop\<close> finds them.\<close>

definition net_view :: "u32 \<Rightarrow> netboot_st \<Rightarrow> net_st" where
  "net_view now st = (let e = nb_env st in
     (nb_net st)\<lparr>tftp_bootfile := BootFile e, net_load_addr := load_addr e, bd_ip_addr := bi_ip_addr e,
       eth_macs := eth_addrs e, nenv := env_lookup e, clock := now\<rparr>)"

text \<open>
  The variables \<open>NetLoop\<close> sets: \<open>ethact\<close> at its start, and \<open>filesize\<close> and \<open>fileaddr\<close> when it returns a positive
  size. It reads no variable it has set but \<open>ethact\<close>, so they are stored when it returns; this
  is exact as long as the environment has room for \<open>ethact\<close>.
\<close>

definition net_vars :: "int \<Rightarrow> net_st \<Rightarrow> (bool \<times> string \<times> string) list" where
  "net_vars rc net = (let val = (\<lambda>n. case nenv net n of None \<Rightarrow> [] | Some v \<Rightarrow> v) in
     [(True, ''ethact'', val ''ethact''), (0 < rc, ''filesize'', val ''filesize''), (0 < rc, ''fileaddr'', val ''fileaddr'')])"

definition call_NetLoop :: "(nat \<Rightarrow> string \<Rightarrow> bool) \<Rightarrow> proto_t \<Rightarrow> netboot_st \<Rightarrow> nb_exit + int \<times> netboot_st" where
  "call_NetLoop cons proto st =
     (case nb_rx st of
        [] \<Rightarrow> Inl Still_Running
      | (now, evs) # rx \<Rightarrow>
          (case NetLoop proto evs (net_view now st) of
             Inl x \<Rightarrow> Inl (Net_Exit x)
           | Inr (None, _) \<Rightarrow> Inl Still_Running
           | Inr (Some rc, net) \<Rightarrow>
               rbind (of_env (put_vars cons ((nb_env st)\<lparr>load_addr := net_load_addr net\<rparr>) (net_vars rc net)))
                 (\<lambda>e. Inr (rc, st\<lparr>nb_env := e, nb_net := net, nb_rx := rx\<rparr>))))"

subsection \<open>The commands\<close>

text \<open>The arguments of \<open>netboot_common\<close>; \<open>None\<close> prints the usage.\<close>

definition netboot_args :: "string list \<Rightarrow> env_st \<Rightarrow> env_st option" where
  "netboot_args argv e =
     (if length argv = 1 then Some e
      else if length argv = 2 then
        Some (if peek (argv ! 1) = CHR 0x22 then e\<lparr>BootFile := copy_filename (argv ! 1) 128\<rparr>
              else e\<lparr>load_addr := fst (simple_strtoul (argv ! 1) 16)\<rparr>)
      else if length argv = 3 then
        Some (e\<lparr>load_addr := fst (simple_strtoul (argv ! 1) 16), BootFile := copy_filename (argv ! 2) 128\<rparr>)
      else None)"

definition netboot_common ::
  "(nat \<Rightarrow> string \<Rightarrow> bool) \<Rightarrow> proto_t \<Rightarrow> string list \<Rightarrow> netboot_st \<Rightarrow> nb_exit + int \<times> netboot_st" where
  "netboot_common cons proto argv st =
     rbind (of_env (getenv (nb_env st) ''loadaddr'')) (\<lambda>s.
       let e = (case s of None \<Rightarrow> nb_env st | Some s \<Rightarrow> (nb_env st)\<lparr>load_addr := fst (simple_strtoul s 16)\<rparr>) in
       case netboot_args argv e of
         None \<Rightarrow> Inr (1, st\<lparr>nb_env := e\<rparr>)
       | Some e \<Rightarrow>
           rbind (call_NetLoop cons proto (st\<lparr>nb_env := e\<rparr>)) (\<lambda>(sz, st).
             if sz < 0 then Inr (1, st)
             else
               rbind (netboot_update_env cons st) (\<lambda>st.
                 if sz = 0 then Inr (0, st)
                 else
                   rbind (of_env (getenv (nb_env st) ''autostart'')) (\<lambda>s.
                     if s = Some ''yes'' then Inl (Autostart [argv ! 0]) else Inr (0, st)))))"

definition do_tftpb :: "(nat \<Rightarrow> string \<Rightarrow> bool) \<Rightarrow> string list \<Rightarrow> netboot_st \<Rightarrow> nb_exit + int \<times> netboot_st" where
  "do_tftpb cons argv st = netboot_common cons TFTP argv st"

definition do_ping :: "(nat \<Rightarrow> string \<Rightarrow> bool) \<Rightarrow> string list \<Rightarrow> netboot_st \<Rightarrow> nb_exit + int \<times> netboot_st" where
  "do_ping cons argv st =
     (if length argv < 2 then Inr (- 1, st)
      else
        let ip = string_to_ip (Some (argv ! 1)); st = st\<lparr>nb_net := (nb_net st)\<lparr>NetPingIP := ip\<rparr>\<rparr> in
        if ip = 0 then Inr (- 1, st)
        else rbind (call_NetLoop cons PING st) (\<lambda>(rc, st). Inr (if rc < 0 then 1 else 0, st)))"

subsection \<open>Lemmas on variables\<close>

text \<open>The room a list of variables needs at most, and the map after them.\<close>

definition vars_room :: "(bool \<times> string \<times> string) list \<Rightarrow> nat" where
  "vars_room vars = sum_list (map (\<lambda>(c, n, v). if c then length n + length v + 3 else 0) vars)"

definition vars_map :: "(bool \<times> string \<times> string) list \<Rightarrow> (string \<Rightarrow> string option) \<Rightarrow> string \<Rightarrow> string option" where
  "vars_map vars m = foldl (\<lambda>m (c, n, v). if c then m(n \<mapsto> v) else m) m vars"

text \<open>The environment holds the entries \<open>m\<close> and has room for \<open>room\<close> more characters.\<close>

definition env_holds :: "env_st \<Rightarrow> (string \<Rightarrow> string option) \<Rightarrow> nat \<Rightarrow> bool" where
  "env_holds e m room \<longleftrightarrow> (\<exists>es. env_repr (env_data e) es \<and> map_of es = m \<and> length (flat es) + room \<le> ENV_SIZE e)"

definition plain_var :: "string \<Rightarrow> bool" where
  "plain_var n \<longleftrightarrow> ordinary n \<and> n \<notin> {''ipaddr'', ''loadaddr'', ''bootfile''}"

lemma length_flat_without: "length (flat (without n es)) \<le> length (flat es)"
  by (induction es) (auto simp: without_def flat_def)

lemma env_holds_getenv: "env_holds e m room \<Longrightarrow> name_ok n \<Longrightarrow> getenv e n = Inr (m n)"
  by (auto simp: env_holds_def getenv_repr)

lemma env_holds_lookup: "env_holds e m room \<Longrightarrow> name_ok n \<Longrightarrow> env_lookup e n = m n"
  by (simp add: env_lookup_def env_holds_getenv)

lemma env_holds_mono: "env_holds e m room \<Longrightarrow> room' \<le> room \<Longrightarrow> env_holds e m room'"
  unfolding env_holds_def using le_trans by (metis add_le_mono1 add.commute)

lemma env_holds_cong: "env_data e = env_data e' \<Longrightarrow> env_holds e m room = env_holds e' m room"
  by (simp add: env_holds_def)

lemma setenv_holds:
  assumes "env_holds e m (room + length n + length v + 3)" "ordinary n" "NUL \<notin> set v"
  obtains e' where "setenv cons e n (Some v) = Inr (0, e')" "env_holds e' (m(n \<mapsto> v)) room"
    "bi_ip_addr e' = (if n = ''ipaddr'' then ipaddr_of v else bi_ip_addr e)"
    "n \<noteq> ''loadaddr'' \<Longrightarrow> load_addr e' = load_addr e" "n \<noteq> ''bootfile'' \<Longrightarrow> BootFile e' = BootFile e"
    "take 3 n \<noteq> ''eth'' \<Longrightarrow> eth_addrs e' = eth_addrs e"
proof -
  obtain es where es: "env_repr (env_data e) es" "map_of es = m" "length (flat es) + (room + length n + length v + 3) \<le> ENV_SIZE e"
    using assms(1) by (auto simp: env_holds_def)
  have f: "length (flat (without n es)) + length n + length v + 3 \<le> ENV_SIZE e"
    using es(3) length_flat_without [of n es] by linarith
  then obtain e' where e': "setenv cons e n (Some v) = Inr (0, e')" "ENV_SIZE e' = ENV_SIZE e"
    "env_repr (env_data e') (without n es @ [(n, v)])"
    using setenv_repr [OF es(1) assms(2,3), of cons] by auto
  have "length (flat (without n es @ [(n, v)])) + room \<le> ENV_SIZE e'"
    using es(3) length_flat_without [of n es] e'(2) by simp
  then have "env_holds e' (m(n \<mapsto> v)) room"
    using e'(3) es(2) unfolding env_holds_def by (intro exI [of _ "without n es @ [(n, v)]"]) (simp add: map_of_set del: map_of_append)
  moreover have "n \<notin> special_names" "name_ok n" using assms(2) by (simp_all add: ordinary_def)
  note setenv_fields [OF e'(1) this(1) es(1) this(2)]
  ultimately show ?thesis using that e'(1) by (auto split: if_splits)
qed

text \<open>The address a variable sets is the one \<open>string_to_ip\<close> reads.\<close>

lemma ipaddr_of_string_to_ip: "ipaddr_of s = string_to_ip (Some s)"
proof -
  have "foldl (\<lambda>addr v. push_bit 8 addr OR (v AND 0xFF)) a (parse_parts n 10 s) = ip_parts n a s" for a n
    by (induction n arbitrary: a s) (auto simp: Let_def after_sep_def split: prod.split list.split)
  then show ?thesis by (simp add: ipaddr_of_def string_to_ip_def)
qed

definition var_ok :: "bool \<times> string \<times> string \<Rightarrow> bool" where
  "var_ok = (\<lambda>(c, n, v). c \<longrightarrow> ordinary n \<and> NUL \<notin> set v \<and> n \<noteq> ''loadaddr'' \<and> n \<noteq> ''bootfile'')"

lemma put_vars_holds:
  assumes "env_holds e m (vars_room vars + room)" "list_all var_ok vars"
  shows "\<exists>e'. put_vars cons e vars = Inr e' \<and> env_holds e' (vars_map vars m) room \<and> load_addr e' = load_addr e \<and> BootFile e' = BootFile e"
  using assms
proof (induction vars arbitrary: e m)
  case Nil
  then show ?case by (simp add: vars_map_def vars_room_def)
next
  case (Cons var vars)
  obtain c n v where var: "var = (c, n, v)" by (cases var)
  have ok: "list_all var_ok vars" "var_ok (c, n, v)" using Cons.prems(2) var by simp_all
  show ?case
  proof (cases c)
    case False
    then have "env_holds e m (vars_room vars + room)" using Cons.prems(1) by (simp add: var vars_room_def)
    from Cons.IH [OF this ok(1)] show ?thesis using False by (simp add: var vars_map_def)
  next
    case True
    then have "env_holds e m ((vars_room vars + room) + length n + length v + 3)"
      using Cons.prems(1) by (simp add: var vars_room_def ac_simps)
    moreover have n: "ordinary n" "NUL \<notin> set v" "n \<noteq> ''loadaddr''" "n \<noteq> ''bootfile''" using ok(2) True by (simp_all add: var_ok_def)
    ultimately obtain e1 where e1: "setenv cons e n (Some v) = Inr (0, e1)" "env_holds e1 (m(n \<mapsto> v)) (vars_room vars + room)"
      "load_addr e1 = load_addr e" "BootFile e1 = BootFile e"
      using setenv_holds by metis
    obtain e' where "put_vars cons e1 vars = Inr e' \<and> env_holds e' (vars_map vars (m(n \<mapsto> v))) room \<and>
      load_addr e' = load_addr e1 \<and> BootFile e' = BootFile e1"
      using Cons.IH [OF e1(2) ok(1)] by blast
    then show ?thesis using True e1 by (simp add: var vars_map_def)
  qed
qed

lemma vars_map_other: "n \<notin> fst ` snd ` set vars \<Longrightarrow> vars_map vars m n = m n"
proof (induction vars arbitrary: m)
  case (Cons var vars)
  then show ?case by (cases var) (simp add: vars_map_def)
qed (simp add: vars_map_def)

text \<open>The names the network commands write.\<close>

definition boot_names :: "string list" where
  "boot_names = [''gatewayip'', ''netmask'', ''hostname'', ''rootpath'', ''ipaddr'', ''serverip'', ''dnsip'', ''domain'']"

definition loop_names :: "string list" where
  "loop_names = [''ethact'', ''filesize'', ''fileaddr'']"

text \<open>The strings a BOOTP reply would have filled fit their buffers.\<close>

definition host_names_ok :: "netboot_st \<Rightarrow> bool" where
  "host_names_ok st \<longleftrightarrow> NUL \<notin> set (NetOurHostName st) \<and> NUL \<notin> set (NetOurRootPath st) \<and> NUL \<notin> set (NetOurNISDomain st) \<and>
     length (NetOurHostName st) < 32 \<and> length (NetOurRootPath st) < 64 \<and> length (NetOurNISDomain st) < 32"

lemma names_ordinary:
  "list_all (\<lambda>n. ordinary n \<and> n \<noteq> ''loadaddr'' \<and> n \<noteq> ''bootfile'') boot_names"
  "list_all (\<lambda>n. ordinary n \<and> n \<noteq> ''loadaddr'' \<and> n \<noteq> ''bootfile'') loop_names"
  by code_simp+

lemma var_ok_names:
  assumes "map (fst \<circ> snd) vars = ns" "list_all (\<lambda>n. ordinary n \<and> n \<noteq> ''loadaddr'' \<and> n \<noteq> ''bootfile'') ns"
    "list_all (\<lambda>(c, n, v). NUL \<notin> set v) vars"
  shows "list_all var_ok vars"
  using assms(2,3) unfolding assms(1) [symmetric] list.pred_map by (simp add: list_all_iff var_ok_def split_def)

lemma update_env_holds:
  assumes "env_holds (nb_env st) m (281 + room)" "host_names_ok st"
  obtains e' m' where "netboot_update_env cons st = Inr (st\<lparr>nb_env := e'\<rparr>)" "env_holds e' m' room"
    "\<And>n. n \<notin> set boot_names \<Longrightarrow> m' n = m n" "load_addr e' = load_addr (nb_env st)"
proof -
  define vars where "vars = (let net = nb_net st in
        [(NetOurGatewayIP net \<noteq> 0, ''gatewayip'', ip_to_string (NetOurGatewayIP net)),
         (NetOurSubnetMask net \<noteq> 0, ''netmask'', ip_to_string (NetOurSubnetMask net)),
         (NetOurHostName st \<noteq> [], ''hostname'', NetOurHostName st),
         (NetOurRootPath st \<noteq> [], ''rootpath'', NetOurRootPath st),
         (NetOurIP net \<noteq> 0, ''ipaddr'', ip_to_string (NetOurIP net)),
         (NetServerIP net \<noteq> 0, ''serverip'', ip_to_string (NetServerIP net)),
         (NetOurDNSIP st \<noteq> 0, ''dnsip'', ip_to_string (NetOurDNSIP st)),
         (NetOurNISDomain st \<noteq> [], ''domain'', NetOurNISDomain st)])"
  note l = ip_to_string_chars(1) [of "NetOurGatewayIP (nb_net st)"] ip_to_string_chars(1) [of "NetOurSubnetMask (nb_net st)"]
    ip_to_string_chars(1) [of "NetOurIP (nb_net st)"] ip_to_string_chars(1) [of "NetServerIP (nb_net st)"] ip_to_string_chars(1) [of "NetOurDNSIP st"]
  have "vars_room vars \<le> 281" using l assms(2) by (simp add: vars_def vars_room_def host_names_ok_def Let_def)
  then have r: "env_holds (nb_env st) m (vars_room vars + room)" using assms(1) env_holds_mono by fastforce
  have names: "map (fst \<circ> snd) vars = boot_names" by (simp add: vars_def boot_names_def Let_def)
  have "list_all (\<lambda>(c, n, v). NUL \<notin> set v) vars"
    using assms(2) by (simp add: vars_def Let_def host_names_ok_def ip_to_string_chars(2))
  with names names_ordinary(1) have o: "list_all var_ok vars" by (intro var_ok_names)
  obtain e' where e': "put_vars cons (nb_env st) vars = Inr e'" "env_holds e' (vars_map vars m) room" "load_addr e' = load_addr (nb_env st)"
    using put_vars_holds [OF r o] by blast
  have "netboot_update_env cons st = Inr (st\<lparr>nb_env := e'\<rparr>)"
    using e'(1) unfolding netboot_update_env_def vars_def Let_def by (simp add: of_env_def)
  moreover have "vars_map vars m n = m n" if "n \<notin> set boot_names" for n
    using that by (intro vars_map_other) (simp add: names [symmetric] image_comp)
  ultimately show ?thesis using that e'(2,3) by blast
qed

subsection \<open>A download by the command\<close>

text \<open>The next call of \<open>NetLoop\<close> meets a server with the file \<open>f\<close>, on a board that is ready for it.\<close>

definition serves_next ::
  "server \<Rightarrow> byte list \<Rightarrow> (u32 \<times> nat list) list \<Rightarrow> netboot_st \<Rightarrow> bool" where
  "serves_next srv f turns st \<longleftrightarrow> server_ok srv \<and> f \<noteq> [] \<and> length f < 512 * 65535 \<and>
     (case nb_rx st of
        [] \<Rightarrow> False
      | (now, evs) # _ \<Rightarrow>
          (let v = net_view now st in
           net_ready v (getenv_IPaddr ''serverip'' v) \<and> serves (CFG_HZ v) now 0 turns = Some (last_block f) \<and>
           evs = tftp_turns srv (tftp_hop v) (bd_ip_addr v) (tftp_port v) f turns))"

lemma call_NetLoop_tftp:
  assumes s: "serves_next srv f turns st" and e: "env_holds (nb_env st) m (51 + room)"
  obtains e' m' net fs where "call_NetLoop cons TFTP st = Inr (int (length f), st\<lparr>nb_env := e', nb_net := net, nb_rx := tl (nb_rx st)\<rparr>)"
    "ram net = ram_write (ram (nb_net st)) (load_addr (nb_env st)) f" "env_holds e' m' room"
    "load_addr e' = load_addr (nb_env st)" "m' ''filesize'' = Some fs" "simple_strtoul fs 16 = (of_nat (length f), [])"
    "\<And>n. n \<notin> set loop_names \<Longrightarrow> m' n = m n"
proof -
  obtain now rx where rx: "nb_rx st = (now, tftp_turns srv (tftp_hop (net_view now st)) (bd_ip_addr (net_view now st)) (tftp_port (net_view now st)) f turns) # rx"
    and r: "net_ready (net_view now st) (getenv_IPaddr ''serverip'' (net_view now st))" and srv: "server_ok srv"
    and f: "f \<noteq> []" "length f < 512 * 65535" and t: "serves (CFG_HZ (net_view now st)) now 0 turns = Some (last_block f)"
    using s by (auto simp: serves_next_def Let_def split: list.splits)
  let ?v = "net_view now st"
  have c: "clock ?v = now" "net_load_addr ?v = load_addr (nb_env st)" "ram ?v = ram (nb_net st)" by (simp_all add: net_view_def Let_def)
  obtain net where net: "NetLoop TFTP (tftp_turns srv (tftp_hop ?v) (bd_ip_addr ?v) (tftp_port ?v) f turns) ?v =
      Inr (Some (sint (NetBootFileXferSize net)), loop_success net)"
    "ram net = ram_write (ram (nb_net st)) (load_addr (nb_env st)) f" "NetBootFileXferSize net = of_nat (length f)"
    "net_load_addr net = load_addr (nb_env st)" "nenv net = (nenv ?v)(''ethact'' \<mapsto> ''eth1'')"
    by (rule NetLoop_download [OF r srv f(2), of turns, unfolded c, OF t])
  let ?w = "of_nat (length f) :: u32"
  let ?fs = "if ?w = 0 then ''0'' else rev (num_digits digits_lower 16 (unat ?w))"
  let ?fa = "if load_addr (nb_env st) = 0 then ''0'' else rev (num_digits digits_upper 16 (unat (load_addr (nb_env st))))"
  have u: "unat ?w = length f" using f(2) by (intro unat_of_nat_small) simp
  have z: "NetBootFileXferSize net > 0" using f(1) u by (simp add: net(3) word_less_nat_alt)
  have rc: "sint (NetBootFileXferSize net) = int (length f)"
    using f(2) by (simp add: net(3) signed_of_nat signed_take_bit_int_eq_self)
  have l: "loop_success net = net\<lparr>nenv := (nenv net)(''filesize'' \<mapsto> ?fs, ''fileaddr'' \<mapsto> ?fa)\<rparr>"
    using z by (simp add: loop_success_def vsprintf_lx vsprintf_lX net(3,4) Let_def)
  define vars where "vars = net_vars (int (length f)) (loop_success net)"
  have vars: "vars = [(True, ''ethact'', ''eth1''), (True, ''filesize'', ?fs), (True, ''fileaddr'', ?fa)]"
    using f(1) by (simp add: vars_def net_vars_def l net(5))
  have names: "map (fst \<circ> snd) vars = loop_names" by (simp add: vars loop_names_def)
  note h = hex_digits_bound(1,3) [of ?w] hex_digits_bound(2,4) [of "load_addr (nb_env st)"]
  have "list_all (\<lambda>(c, n, v). NUL \<notin> set v) vars" using h by (simp add: vars)
  with names names_ordinary(2) have o: "list_all var_ok vars" by (intro var_ok_names)
  have "vars_room vars \<le> 51" using h by (simp add: vars vars_room_def)
  then have e1: "env_holds ((nb_env st)\<lparr>load_addr := load_addr (nb_env st)\<rparr>) m (vars_room vars + room)"
    using e env_holds_mono [OF e] env_holds_cong [of "(nb_env st)\<lparr>load_addr := load_addr (nb_env st)\<rparr>" "nb_env st"] by simp
  obtain e' where e': "put_vars cons ((nb_env st)\<lparr>load_addr := load_addr (nb_env st)\<rparr>) vars = Inr e'" "env_holds e' (vars_map vars m) room"
    "load_addr e' = load_addr (nb_env st)"
    using put_vars_holds [OF e1 o] by auto
  have "call_NetLoop cons TFTP st = Inr (int (length f), st\<lparr>nb_env := e', nb_net := loop_success net, nb_rx := tl (nb_rx st)\<rparr>)"
    using e'(1) net(4) by (simp add: call_NetLoop_def rx net(1) rc l of_env_def flip: vars_def [unfolded l])
  moreover have "ram (loop_success net) = ram_write (ram (nb_net st)) (load_addr (nb_env st)) f" by (simp add: l net(2))
  moreover have "vars_map vars m ''filesize'' = Some ?fs" by (simp add: vars vars_map_def)
  moreover have "simple_strtoul ?fs 16 = (of_nat (length f), [])" using simple_strtoul_digits [of 16 ?w] by simp
  moreover have "vars_map vars m n = m n" if "n \<notin> set loop_names" for n
    using that by (intro vars_map_other) (simp add: names [symmetric] image_comp)
  ultimately show ?thesis using that e'(2,3) by blast
qed

lemma do_tftpb_holds:
  fixes cons st name a
  defines "st1 \<equiv> st\<lparr>nb_env := (nb_env st)\<lparr>load_addr := a, BootFile := copy_filename name 128\<rparr>\<rparr>"
  assumes e: "env_holds (nb_env st) m (332 + room)" and h: "host_names_ok st" and a: "a = fst (simple_strtoul addr 16)"
    and s: "serves_next srv f turns st1"
  obtains e' m' net fs where "env_holds e' m' room" "load_addr e' = a" "m' ''filesize'' = Some fs"
    "simple_strtoul fs 16 = (of_nat (length f), [])" "ram net = ram_write (ram (nb_net st)) a f"
    "\<And>n. n \<notin> set loop_names \<Longrightarrow> n \<notin> set boot_names \<Longrightarrow> m' n = m n"
    "do_tftpb cons [cmd, addr, name] st = (if m ''autostart'' = Some ''yes'' then Inl (Autostart [cmd])
       else Inr (0, st\<lparr>nb_env := e', nb_net := net, nb_rx := tl (nb_rx st)\<rparr>))"
proof -
  have e1: "env_holds (nb_env st1) m (51 + (281 + room))"
    using e env_holds_cong [of "nb_env st1" "nb_env st" m "332 + room"] by (simp add: st1_def)
  obtain e2 m2 net fs where c: "call_NetLoop cons TFTP st1 = Inr (int (length f), st1\<lparr>nb_env := e2, nb_net := net, nb_rx := tl (nb_rx st1)\<rparr>)"
    "ram net = ram_write (ram (nb_net st1)) (load_addr (nb_env st1)) f" "env_holds e2 m2 (281 + room)"
    "load_addr e2 = load_addr (nb_env st1)" "m2 ''filesize'' = Some fs" "simple_strtoul fs 16 = (of_nat (length f), [])"
    "\<And>n. n \<notin> set loop_names \<Longrightarrow> m2 n = m n"
    using call_NetLoop_tftp [OF s e1] by metis
  let ?st2 = "st1\<lparr>nb_env := e2, nb_net := net, nb_rx := tl (nb_rx st1)\<rparr>"
  have e2: "env_holds (nb_env ?st2) m2 (281 + room)" "host_names_ok ?st2" using c(3) h by (simp_all add: host_names_ok_def st1_def)
  obtain e' m' where u: "netboot_update_env cons ?st2 = Inr (?st2\<lparr>nb_env := e'\<rparr>)" "env_holds e' m' room"
    "\<And>n. n \<notin> set boot_names \<Longrightarrow> m' n = m2 n" "load_addr e' = load_addr (nb_env ?st2)"
    using update_env_holds [OF e2, where cons = cons] by metis
  have f: "f \<noteq> []" using s by (simp add: serves_next_def)
  have n: "name_ok ''loadaddr''" "name_ok ''autostart''" by (simp_all add: name_ok_def)
  have g: "getenv (nb_env st) ''loadaddr'' = Inr (m ''loadaddr'')" "getenv e' ''autostart'' = Inr (m ''autostart'')"
    using env_holds_getenv [OF e n(1)] env_holds_getenv [OF u(2) n(2)] u(3) [of "''autostart''"] c(7) [of "''autostart''"]
    by (simp_all add: boot_names_def loop_names_def)
  have "netboot_args [cmd, addr, name] (case m ''loadaddr'' of None \<Rightarrow> nb_env st | Some s \<Rightarrow> (nb_env st)\<lparr>load_addr := fst (simple_strtoul s 16)\<rparr>) =
      Some (nb_env st1)"
    by (cases "m ''loadaddr''") (simp_all add: netboot_args_def st1_def a)
  moreover have "st\<lparr>nb_env := nb_env st1\<rparr> = st1" by (simp add: st1_def)
  moreover have "?st2\<lparr>nb_env := e'\<rparr> = st\<lparr>nb_env := e', nb_net := net, nb_rx := tl (nb_rx st)\<rparr>" by (simp add: st1_def)
  ultimately have "do_tftpb cons [cmd, addr, name] st = (if m ''autostart'' = Some ''yes'' then Inl (Autostart [cmd])
       else Inr (0, st\<lparr>nb_env := e', nb_net := net, nb_rx := tl (nb_rx st)\<rparr>))"
    using f by (simp add: do_tftpb_def netboot_common_def g of_env_def c(1) u(1) Let_def)
  moreover have "m' ''filesize'' = Some fs" using u(3) [of "''filesize''"] c(5) by (simp add: boot_names_def)
  moreover have "ram net = ram_write (ram (nb_net st)) a f" "load_addr e' = a" using c(2,4) u(4) by (simp_all add: st1_def)
  moreover have "m' n = m n" if "n \<notin> set loop_names" "n \<notin> set boot_names" for n using that u(3) c(7) by simp
  ultimately show ?thesis using that u(2) c(6) by blast
qed

subsection \<open>Properties\<close>

text \<open>
  C2: \<open>tftpboot address file\<close> fetches the file. Against a server that sends it, on a board that is ready and whose
  environment has room, the command puts the file at the address given, whatever \<open>loadaddr\<close> says, leaves the rest of
  memory alone, sets \<open>load_addr\<close>, and sets \<open>filesize\<close> to a number that reads back as the size; of the variables only those of
  the network are touched. It returns 0, or calls \<open>bootm\<close> when \<open>autostart\<close> is \<open>yes\<close>.
\<close>

theorem tftpboot_command:
  fixes cons st name a
  defines "st1 \<equiv> st\<lparr>nb_env := (nb_env st)\<lparr>load_addr := a, BootFile := copy_filename name 128\<rparr>\<rparr>"
  assumes "env_holds (nb_env st) m 332" "host_names_ok st" "a = fst (simple_strtoul addr 16)" "serves_next srv f turns st1"
  shows "if m ''autostart'' = Some ''yes'' then do_tftpb cons [cmd, addr, name] st = Inl (Autostart [cmd])
    else \<exists>st' fs. do_tftpb cons [cmd, addr, name] st = Inr (0, st') \<and>
      ram (nb_net st') = ram_write (ram (nb_net st)) a f \<and> load_addr (nb_env st') = a \<and>
      getenv (nb_env st') ''filesize'' = Inr (Some fs) \<and> simple_strtoul fs 16 = (of_nat (length f), []) \<and>
      (\<forall>n. name_ok n \<and> n \<notin> set loop_names \<union> set boot_names \<longrightarrow> getenv (nb_env st') n = getenv (nb_env st) n)"
proof -
  have e: "env_holds (nb_env st) m (332 + 0)" using assms(2) by simp
  have n: "name_ok ''filesize''" by (simp add: name_ok_def)
  obtain e' m' net fs where r: "env_holds e' m' 0" "load_addr e' = a" "m' ''filesize'' = Some fs"
    "simple_strtoul fs 16 = (of_nat (length f), [])" "ram net = ram_write (ram (nb_net st)) a f"
    "\<And>n. n \<notin> set loop_names \<Longrightarrow> n \<notin> set boot_names \<Longrightarrow> m' n = m n"
    "do_tftpb cons [cmd, addr, name] st = (if m ''autostart'' = Some ''yes'' then Inl (Autostart [cmd])
       else Inr (0, st\<lparr>nb_env := e', nb_net := net, nb_rx := tl (nb_rx st)\<rparr>))"
    using do_tftpb_holds [OF e assms(3,4) assms(5) [unfolded st1_def], where cons = cons and cmd = cmd] by metis
  show ?thesis
    using r(7) r(2-5) env_holds_getenv [OF r(1)] env_holds_getenv [OF e] r(6) n by simp
qed

text \<open>A board with one variable, and a server with a small file.\<close>

definition demo_env :: env_st where
  "demo_env = \<lparr>env_data = ''serverip=1.1.1.1'' @ NUL # NUL # replicate 700 NUL, env_crc = 0, gd_baudrate = 115200,
     bi_enetaddr = [], bi_ip_addr = 0xC0A80102, load_addr = 0, BootFile = [],
     eth_addrs = [[2, 0, 0, 0, 0, 3], [2, 0, 0, 0, 0, 1]], con_in = []\<rparr>"

definition demo_server :: server where
  "demo_server = \<lparr>srv_dst = [2, 0, 0, 0, 0, 1], srv_mac = [2, 0, 0, 0, 0, 9], srv_ip = 0x01010101, srv_port = 5000, srv_junk = []\<rparr>"

definition demo_netboot :: "(u32 \<times> net_event list) list \<Rightarrow> netboot_st" where
  "demo_netboot rx = \<lparr>nb_env = demo_env, nb_net = sample_net, NetOurHostName = [], NetOurRootPath = [], NetOurNISDomain = [],
     NetOurDNSIP = 0, nb_rx = rx\<rparr>"

lemma demo_env_holds: "env_holds demo_env [''serverip'' \<mapsto> ''1.1.1.1''] 500"
proof -
  have "env_repr (env_data demo_env) [(''serverip'', ''1.1.1.1'')]" by (simp add: env_repr_def demo_env_def name_ok_def)
  then show ?thesis unfolding env_holds_def by (intro exI [of _ "[(''serverip'', ''1.1.1.1'')]"]) (simp add: demo_env_def)
qed

theorem tftpboot_command_witness:
  "\<exists>st' fs. do_tftpb (\<lambda>_ _. False) [''tftpboot'', ''81000000'', ''f''] (demo_netboot
      [(0, tftp_turns demo_server 0x01010101 0xC0A80102 1024 [7, 8, 9] [(5, []), (10, [1])])]) = Inr (0, st') \<and>
    ram (nb_net st') 0x81000001 = 8 \<and> getenv (nb_env st') ''filesize'' = Inr (Some fs) \<and> simple_strtoul fs 16 = (3, [])"
proof -
  define evs where "evs = tftp_turns demo_server 0x01010101 0xC0A80102 1024 [7, 8, 9] [(5, []), (10, [1])]"
  define st where "st = demo_netboot [(0, evs)]"
  define st1 where "st1 = st\<lparr>nb_env := (nb_env st)\<lparr>load_addr := 0x81000000, BootFile := copy_filename ''f'' 128\<rparr>\<rparr>"
  define v where "v = net_view 0 st1"
  have e: "env_holds (nb_env st) [''serverip'' \<mapsto> ''1.1.1.1''] 332" "env_holds (nb_env st1) [''serverip'' \<mapsto> ''1.1.1.1''] 500"
    using env_holds_mono [OF demo_env_holds] demo_env_holds env_holds_cong [of "nb_env st1" demo_env] by (simp_all add: demo_netboot_def st1_def st_def)
  have n: "name_ok ''serverip''" "name_ok ''gatewayip''" "name_ok ''vlan''" by (simp_all add: name_ok_def)
  have ne: "nenv v = env_lookup (nb_env st1)" by (simp add: v_def net_view_def Let_def)
  have g: "nenv v ''serverip'' = Some ''1.1.1.1''" "nenv v ''gatewayip'' = None" "nenv v ''vlan'' = None"
    unfolding ne env_holds_lookup [OF e(2) n(1)] env_holds_lookup [OF e(2) n(2)] env_holds_lookup [OF e(2) n(3)] by simp_all
  have "string_to_ip (Some ''1.1.1.1'') = 0x01010101" by code_simp
  then have ip: "getenv_IPaddr ''serverip'' v = 0x01010101" "getenv_IPaddr ''gatewayip'' v = 0"
    using g by (simp_all add: getenv_IPaddr_def) (simp add: string_to_ip_def)
  have f: "bd_ip_addr v = 0xC0A80102" "CFG_HZ v = 1000" "clock v = 0" "tftp_bootfile v = ''f''" "eth_names v = eth_names sample_net"
    "eth_macs v = eth_macs sample_net" "eth_current v = Some 1" "dev_up v 1"
    by (simp_all add: v_def st1_def st_def net_view_def demo_netboot_def demo_env_def sample_net_def copy_filename_def peek_def eval_nat_numeral Let_def)
  have "net_wf v"
    using sample_net_facts(2) f by (simp add: net_wf_def) (simp add: v_def st1_def st_def net_view_def demo_netboot_def Let_def sample_net_def)
  then have r: "net_ready v 0x01010101"
    unfolding net_ready_def using f g(3) ip by (simp add: sample_net_def NetEtherNullAddr_def)
  have t: "tftp_hop v = 0x01010101" "tftp_port v = 1024"
    by (simp_all add: tftp_hop_def next_hop_def ip tftp_port_def f(3))
  have "nb_rx st1 = [(0, evs)]" by (simp add: st1_def st_def demo_netboot_def)
  then have s: "serves_next demo_server [7, 8, 9] [(5, []), (10, [1])] st1"
    using r ip f t unfolding serves_next_def
    by (simp add: server_ok_def demo_server_def NetEtherNullAddr_def last_block_def Let_def evs_def flip: v_def)
  have a: "fst (simple_strtoul ''81000000'' 16) = 0x81000000"
    by (simp add: simple_strtoul_def peek_def isxdigit_iff isdigit_iff digit_value_def Let_def)
  have h: "host_names_ok st" by (simp add: host_names_ok_def st_def demo_netboot_def)
  show ?thesis
    using tftpboot_command [OF e(1) h a [symmetric] s [unfolded st1_def], of "\<lambda>_ _. False" "''tftpboot''"]
    by (auto simp: ram_write_def st_def evs_def) 
qed

end
