(* ===== verification/Recovery.thy ===== *)
theory Recovery
  imports Boot FlashCmd NetBoot
begin

text \<open>
  The parts put together: the command table of the board with \<open>setenv\<close>, \<open>tftpboot\<close>, \<open>ping\<close>, \<open>erase\<close> and \<open>cp\<close> behind the
  interpreter, and the firmware recovery of \<open>main_loop\<close> from the network frames that bring the image to the contents
  of the flash chip. The other commands are a parameter.
\<close>

subsection \<open>The board\<close>

text \<open>
  The memory of \<open>sys_mach\<close> is the one \<open>NetLoop\<close> stores into; it is handed over at the call of a network command.
\<close>

record sys =
  sys_mach :: mach
  sys_nb :: netboot_st
  sys_ctrlc :: bool

type_synonym command = "cmd_tbl \<Rightarrow> u32 \<Rightarrow> string list \<Rightarrow> sys \<Rightarrow> sh_exit + int \<times> sys"

definition sys_env :: "sys \<Rightarrow> string \<Rightarrow> string option" where
  "sys_env s = env_lookup (nb_env (sys_nb s))"

definition lift_cmd :: "('m \<Rightarrow> sys \<Rightarrow> sys) \<Rightarrow> 'e + int \<times> 'm \<Rightarrow> sys \<Rightarrow> sh_exit + int \<times> sys" where
  "lift_cmd upd r s = (case r of Inl e \<Rightarrow> Inl Command_Fault | Inr (rc, m) \<Rightarrow> Inr (rc, upd m s))"

definition set_hw :: "spi_hw \<Rightarrow> sys \<Rightarrow> sys" where
  "set_hw hw s = s\<lparr>sys_mach := (sys_mach s)\<lparr>m_hw := hw\<rparr>\<rparr>"

definition set_env :: "env_st \<Rightarrow> sys \<Rightarrow> sys" where
  "set_env e s = s\<lparr>sys_nb := (sys_nb s)\<lparr>nb_env := e\<rparr>\<rparr>"

definition lend_memory :: "sys \<Rightarrow> netboot_st" where
  "lend_memory s = (sys_nb s)\<lparr>nb_net := (nb_net (sys_nb s))\<lparr>ram := m_ram (sys_mach s)\<rparr>\<rparr>"

definition take_memory :: "netboot_st \<Rightarrow> sys \<Rightarrow> sys" where
  "take_memory nb s = s\<lparr>sys_mach := (sys_mach s)\<lparr>m_ram := ram (nb_net nb)\<rparr>, sys_nb := nb\<rparr>"

text \<open>The function pointer of a table entry, called with the arguments; no console device can be assigned.\<close>

definition board_call :: "flash_info_t list \<Rightarrow> command \<Rightarrow> command" where
  "board_call infos other t flag argv s =
     (let cons = (\<lambda>_ _. False) in
      if cmd_name t = ''erase'' then lift_cmd set_hw (do_flerase infos argv (m_hw (sys_mach s))) s
      else if cmd_name t = ''cp'' then lift_cmd (\<lambda>m s. s\<lparr>sys_mach := m\<rparr>) (do_mem_cp infos argv (sys_mach s)) s
      else if cmd_name t = ''setenv'' then lift_cmd set_env (do_setenv cons (nb_env (sys_nb s)) argv) s
      else if cmd_name t = ''tftpboot'' then lift_cmd take_memory (do_tftpb cons argv (lend_memory s)) s
      else if cmd_name t = ''ping'' then lift_cmd take_memory (do_ping cons argv (lend_memory s)) s
      else other t flag argv s)"

definition board_shell :: "flash_info_t list \<Rightarrow> cmd_tbl list \<Rightarrow> command \<Rightarrow> sys shell" where
  "board_shell infos table other =
     \<lparr>sh_getenv = sys_env, sh_table = table, sh_call = board_call infos other,
      sh_had_ctrlc = sys_ctrlc, sh_clear_ctrlc = \<lambda>s. s\<lparr>sys_ctrlc := False\<rparr>\<rparr>"

text \<open>The board of \<open>firmware_recovery\<close> with the reset button pressed.\<close>

definition set_recovery :: "sys \<Rightarrow> sys" where
  "set_recovery s = s\<lparr>sys_nb := (sys_nb s)\<lparr>nb_net := (nb_net (sys_nb s))\<lparr>fw_recovery := True\<rparr>\<rparr>\<rparr>"

definition pressed_board :: "sys board" where
  "pressed_board =
     \<lparr>bd_mem = \<lambda>s. m_load (sys_mach s), bd_set_recovery = set_recovery, bd_button = True, bd_dev = ''wr841nv11''\<rparr>"

subsection \<open>Specifications\<close>

text \<open>The commands the recovery needs are found, with room for their arguments.\<close>

definition has_flash_commands :: "cmd_tbl list \<Rightarrow> bool" where
  "has_flash_commands table \<longleftrightarrow>
     (\<exists>t. find_cmd table ''erase'' = Some t \<and> cmd_name t = ''erase'' \<and> cmd_fn t = Do_Other \<and> 3 \<le> cmd_maxargs t) \<and>
     (\<exists>t. find_cmd table ''cp.b'' = Some t \<and> cmd_name t = ''cp'' \<and> cmd_fn t = Do_Other \<and> 4 \<le> cmd_maxargs t)"

text \<open>The flash holds the image at \<open>base\<close> of memory; everything else is as in \<open>s\<close>.\<close>

definition flashed :: "nor_chip \<Rightarrow> u32 \<Rightarrow> sys \<Rightarrow> sys \<Rightarrow> bool" where
  "flashed c base s s' \<longleftrightarrow>
     nor_idle c (m_hw (sys_mach s')) \<and> m_ram (sys_mach s') = m_ram (sys_mach s) \<and> sys_env s' = sys_env s \<and>
     (\<forall>p. nor_view c (m_hw (sys_mach s')) p =
        (if 0x20000 \<le> p \<and> p < 0x3e0000 then m_ram (sys_mach s) (base + of_nat (p - 0x20000))
         else nor_view c (m_hw (sys_mach s)) p))"

definition image_base :: "u32 \<Rightarrow> u32 option" where
  "image_base fsize = (if fsize = 0x3c0000 then Some 0x80800000 else if fsize = 0x3e0200 then Some 0x80820200 else None)"

definition same_product :: "sys \<Rightarrow> bool" where
  "same_product s \<longleftrightarrow>
     (\<forall>i < 8. m_load (sys_mach s) (0x9F01FD00 + of_nat i) = m_load (sys_mach s) (0x80800040 + of_nat (i :: nat)))"

definition file_size :: "sys \<Rightarrow> u32" where
  "file_size s = (case sys_env s ''filesize'' of None \<Rightarrow> 0 | Some v \<Rightarrow> fst (simple_strtoul v 16))"

subsection \<open>Lemmas\<close>

lemma board_shell_simps [simp]:
  "sh_getenv (board_shell infos table other) = sys_env" "sh_table (board_shell infos table other) = table"
  "sh_call (board_shell infos table other) = board_call infos other"
  "sh_had_ctrlc (board_shell infos table other) = sys_ctrlc"
  "sh_clear_ctrlc (board_shell infos table other) = (\<lambda>s. s\<lparr>sys_ctrlc := False\<rparr>)"
  by (simp_all add: board_shell_def)

lemma sys_env_frame [simp]:
  "sys_env (s\<lparr>sys_mach := m\<rparr>) = sys_env s" "sys_env (s\<lparr>sys_ctrlc := b\<rparr>) = sys_env s" "sys_env (set_hw hw s) = sys_env s"
  by (simp_all add: sys_env_def set_hw_def)

definition flash_script :: "string \<Rightarrow> string" where
  "flash_script src = ''erase 0x9f020000 +3c0000; cp.b '' @ src @ '' 0x9f020000 3c0000''"

lemma flash_command_script:
  "flash_command 0x3c0000 = Some (flash_script ''0x80800000'')"
  "flash_command 0x3e0200 = Some (flash_script ''0x80820200'')"
  by (simp_all add: flash_command_def flash_script_def)

lemma window_ram:
  assumes "0x80000000 \<le> unat a" "unat a < 0x81000000"
  shows "\<not> flash_window a"
proof
  assume w: "flash_window a"
  then have "a AND 0x1f000000 = 0x1f000000" by (simp add: flash_window_def)
  then have "bit (a AND 0x1f000000) 24" by simp
  then have "bit a 24" by (simp only: bit_and_iff)
  then have "bit (unat a) 24" by (simp add: bit_unsigned_iff)
  then have "odd (unat a div 2 ^ 24)" unfolding bit_iff_odd .
  moreover have "unat a div 2 ^ 24 = 0x80" using assms by (intro div_nat_eqI) simp_all
  ultimately show False by simp
qed

lemma window_product: "i < 8 \<Longrightarrow> flash_window (0x9F01FD00 + of_nat i)"
proof -
  assume "i < 8"
  then consider "i = 0" | "i = 1" | "i = 2" | "i = 3" | "i = 4" | "i = 5" | "i = 6" | "i = 7" by linarith
  then show ?thesis by cases (simp_all add: flash_window_def)
qed

lemma mem_words_same:
  "mem_word pressed_board s 0x9F01FD00 = mem_word pressed_board s 0x80800040 \<and>
   mem_word pressed_board s 0x9F01FD04 = mem_word pressed_board s 0x80800044 \<longleftrightarrow> same_product s"
proof -
  have all8: "(\<forall>i < 8. P i) \<longleftrightarrow> P 0 \<and> P 1 \<and> P 2 \<and> P 3 \<and> P 4 \<and> P 5 \<and> P 6 \<and> P 7" for P :: "nat \<Rightarrow> bool"
    by (simp add: eval_nat_numeral less_Suc_eq all_conj_distrib imp_disjL)
  show ?thesis unfolding same_product_def all8 by (simp add: mem_word_def pressed_board_def)
qed

lemma flash_script_tokens:
  assumes "list_all plain_word [src]" "length src < 100"
  shows "run_tokens run sh before (flash_script src) r =
    rbind (run_argv run sh [''erase'', ''0x9f020000'', ''+3c0000''] r) (\<lambda>(stopped, r).
      if stopped then Inr (0, run_state r)
      else rbind (run_argv run sh [''cp.b'', src, ''0x9f020000'', ''3c0000''] r) (\<lambda>(stopped, r).
        if stopped then Inr (0, run_state r) else Inr (run_result r)))"
proof -
  let ?e = "[''erase'', ''0x9f020000'', ''+3c0000'']" and ?c = "[''cp.b'', src, ''0x9f020000'', ''3c0000'']"
  have w: "list_all plain_word ?e" "list_all plain_word ?c"
    using assms(1) by (simp_all add: plain_word_def plain_char_def is_blank_def key_defs)
  have f: "flash_script src = join (CHR '' '') ?e @ CHR '';'' # CHR '' '' # join (CHR '' '') ?c"
    by (simp add: flash_script_def)
  have b: "is_blank (CHR '' '')" "plain_char (CHR '' '')" "sep_free (CHR '' '')"
    by (simp_all add: is_blank_def plain_char_def sep_free_def)
  have s1: "scan_sep before True False (flash_script src) =
      (join (CHR '' '') ?e, Some (CHR '' '' # join (CHR '' '') ?c))" for before
    unfolding f using join_chars [OF w(1)] join_not_Nil [OF w(1), of "CHR '' ''"] by (intro scan_sep_separator) simp_all
  have s2: "scan_sep NUL True False (CHR '' '' # join (CHR '' '') ?c) = (CHR '' '' # join (CHR '' '') ?c, None)"
    using join_chars [OF w(2)] b by (intro scan_sep_plain) simp
  have t1: "run_token run sh (join (CHR '' '') ?e) r = run_argv run sh ?e r" for r
    by (rule run_token_argv [OF w(1)]) simp_all
  have t2: "run_token run sh (CHR '' '' # join (CHR '' '') ?c) r = run_argv run sh ?c r" for r
  proof -
    have "words (CHR '' '' # join (CHR '' '') ?c) = ?c" by (simp only: words_blank [OF b(1)] words_join [OF w(2)])
    moreover have "list_all plain_char (CHR '' '' # join (CHR '' '') ?c)" using join_chars [OF w(2)] b by simp
    ultimately show ?thesis using assms(2) run_token_words [of "CHR '' '' # join (CHR '' '') ?c" run sh r] by simp
  qed
  have e: "run_tokens run sh NUL [] r = Inr (run_result r)" for r by (simp add: run_tokens.simps [of run sh NUL "[]"])
  have ne: "flash_script src \<noteq> []" by (simp add: flash_script_def)
  show ?thesis
    unfolding run_tokens.simps [of run sh before "flash_script src"] s1
    using ne by (simp add: t1 run_tokens.simps [of run sh NUL "CHR '' '' # join (CHR '' '') ?c"] s2 t2 e del: join.simps scan_sep.simps cong: if_cong)
qed

lemma ff_and: "(0xFF :: byte) AND x = x"
  by (rule bit_word_eqI) (auto simp: bit_simps byte_mask dest: bit_byteD)

text \<open>The two commands of the script, on an idle chip.\<close>

lemma erase_step:
  assumes "nor_idle c (m_hw (sys_mach s))"
  shows "\<exists>hw. lift_cmd set_hw
      (do_flerase [flash_get_geom] [''erase'', ''0x9f020000'', ''+3c0000''] (m_hw (sys_mach s))) s =
      Inr (0, s\<lparr>sys_mach := (sys_mach s)\<lparr>m_hw := hw\<rparr>\<rparr>) \<and> nor_idle c hw \<and>
    nor_view c hw = (\<lambda>p. if 0x20000 \<le> p \<and> p < 0x3e0000 then 0xFF else nor_view c (m_hw (sys_mach s)) p)"
  using flerase_start_length [OF assms, of "''0x9f020000''" "0x20000" "''3c0000''" "0x3c0000" "replicate 64 0" "''erase''"]
  by (auto simp: lift_cmd_def set_hw_def geom_board parse_recovery flash_addr_20000)

lemma cp_step:
  assumes "nor_idle c (m_hw (sys_mach s))" "fst (simple_strtoul src 16) = base"
    "0x80000000 \<le> unat base" "unat base + 0x3c0000 \<le> 0x81000000"
  shows "\<exists>hw. lift_cmd (\<lambda>m s. s\<lparr>sys_mach := m\<rparr>)
      (do_mem_cp [flash_get_geom] [''cp.b'', src, ''0x9f020000'', ''3c0000''] (sys_mach s)) s =
      Inr (0, s\<lparr>sys_mach := (sys_mach s)\<lparr>m_hw := hw\<rparr>\<rparr>) \<and> nor_idle c hw \<and>
    nor_view c hw = programmed 0x20000 (map (\<lambda>i. m_ram (sys_mach s) (base + of_nat i)) [0..<0x3c0000])
      (nor_view c (m_hw (sys_mach s)))"
proof -
  have "\<not> flash_window (base + of_nat i)" if "i < 0x3c0000" for i
  proof -
    have u: "unat (of_nat i :: u32) = i" using that by (intro unat_of_nat_small) simp
    then have "unat (base + of_nat i) = unat base + i" using that assms(4) by (subst unat_add_small) simp_all
    then show ?thesis using that assms(3,4) by (intro window_ram) simp_all
  qed
  moreover have "fst (simple_strtoul ''0x9f020000'' 16) = flash_addr 0x20000" "fst (simple_strtoul ''3c0000'' 16) = 0x3c0000"
    using parse_recovery by (auto simp: parse_number_def flash_addr_20000 split: prod.splits if_splits)
  ultimately obtain hw where "do_mem_cp [geom (replicate 64 0)] [''cp.b'', src, ''0x9f020000'', ''3c0000''] (sys_mach s) =
      Inr (0, (sys_mach s)\<lparr>m_hw := hw\<rparr>)" "nor_idle c hw"
    "nor_view c hw = programmed 0x20000 (map (\<lambda>i. m_ram (sys_mach s) (base + of_nat i)) [0..<0x3c0000])
      (nor_view c (m_hw (sys_mach s)))"
    using cp_to_flash [OF assms(1,2), of "''0x9f020000''" "0x20000" "''3c0000''" "0x3c0000" "replicate 64 0"]
    by (auto simp: meets_def simp del: upt_rec_numeral)
  then show ?thesis by (auto simp: lift_cmd_def geom_board simp del: upt_rec_numeral)
qed

lemma flash_script_run:
  assumes "has_flash_commands table" "nor_idle c (m_hw (sys_mach s))" "fst (simple_strtoul src 16) = base"
    "0x80000000 \<le> unat base" "unat base + 0x3c0000 \<le> 0x81000000" "plain_word src" "length src < 100"
  shows "\<exists>rc s'. run_command (Suc depth) before (board_shell [flash_get_geom] table other) (Some (flash_script src)) 0 s =
    Inr (rc, s') \<and> flashed c base s s'"
proof -
  let ?sh = "board_shell [flash_get_geom] table other"
  let ?run = "run_command depth before ?sh"
  let ?s0 = "s\<lparr>sys_ctrlc := False\<rparr>"
  obtain te tc where te: "find_cmd table ''erase'' = Some te" "cmd_name te = ''erase''" "cmd_fn te = Do_Other" "3 \<le> cmd_maxargs te"
    and tc: "find_cmd table ''cp.b'' = Some tc" "cmd_name tc = ''cp''" "cmd_fn tc = Do_Other" "4 \<le> cmd_maxargs tc"
    using assms(1) by (auto simp: has_flash_commands_def)
  have i0: "nor_idle c (m_hw (sys_mach ?s0))" using assms(2) by simp
  obtain hw1 where e: "lift_cmd set_hw
      (do_flerase [flash_get_geom] [''erase'', ''0x9f020000'', ''+3c0000''] (m_hw (sys_mach ?s0))) ?s0 =
      Inr (0, ?s0\<lparr>sys_mach := (sys_mach ?s0)\<lparr>m_hw := hw1\<rparr>\<rparr>)" "nor_idle c hw1"
    "nor_view c hw1 = (\<lambda>p. if 0x20000 \<le> p \<and> p < 0x3e0000 then 0xFF else nor_view c (m_hw (sys_mach ?s0)) p)"
    using erase_step [OF i0] by blast
  let ?s1 = "?s0\<lparr>sys_mach := (sys_mach ?s0)\<lparr>m_hw := hw1\<rparr>\<rparr>"
  have i1: "nor_idle c (m_hw (sys_mach ?s1))" using e(2) by simp
  obtain hw2 where w: "lift_cmd (\<lambda>m s. s\<lparr>sys_mach := m\<rparr>)
      (do_mem_cp [flash_get_geom] [''cp.b'', src, ''0x9f020000'', ''3c0000''] (sys_mach ?s1)) ?s1 =
      Inr (0, ?s1\<lparr>sys_mach := (sys_mach ?s1)\<lparr>m_hw := hw2\<rparr>\<rparr>)" "nor_idle c hw2"
    "nor_view c hw2 = programmed 0x20000 (map (\<lambda>i. m_ram (sys_mach ?s1) (base + of_nat i)) [0..<0x3c0000])
      (nor_view c (m_hw (sys_mach ?s1)))"
    using cp_step [OF i1 assms(3-5)] by blast
  let ?s2 = "?s1\<lparr>sys_mach := (sys_mach ?s1)\<lparr>m_hw := hw2\<rparr>\<rparr>"
  have 1: "run_argv ?run ?sh [''erase'', ''0x9f020000'', ''+3c0000''] r = Inr (False, r\<lparr>run_repeatable := (run_repeatable r \<and> cmd_repeatable te), run_state := ?s1\<rparr>)"
    if "run_state r = ?s0" for r
    using te that by (simp add: run_argv_def call_cmd_def board_call_def e(1) [simplified] Let_def)
  have 2: "run_argv ?run ?sh [''cp.b'', src, ''0x9f020000'', ''3c0000''] r = Inr (False, r\<lparr>run_repeatable := (run_repeatable r \<and> cmd_repeatable tc), run_state := ?s2\<rparr>)"
    if "run_state r = ?s1" for r
    using tc that by (simp add: run_argv_def call_cmd_def board_call_def w(1) [simplified] Let_def)
  have ne: "flash_script src \<noteq> []" "length (flash_script src) < CFG_CBSIZE" using assms(7) by (simp_all add: flash_script_def)
  have "\<exists>rc. run_command (Suc depth) before ?sh (Some (flash_script src)) 0 s = Inr (rc, ?s2)"
    using ne assms(6,7) by (simp add: run_body_def flash_script_tokens 1 2 run_result_def Let_def)
  moreover have "nor_view c hw2 p = (if 0x20000 \<le> p \<and> p < 0x3e0000 then m_ram (sys_mach s) (base + of_nat (p - 0x20000))
      else nor_view c (m_hw (sys_mach s)) p)" for p
  proof (cases "0x20000 \<le> p \<and> p < 0x3e0000")
    case True
    then have "nor_view c hw2 p = 0xFF AND map (\<lambda>i. m_ram (sys_mach s) (base + of_nat i)) [0..<0x3c0000] ! (p - 0x20000)"
      by (simp only: w(3) programmed_def e(3)) (simp add: e(3) del: upt_rec_numeral)
    also have "\<dots> = m_ram (sys_mach s) (base + of_nat (p - 0x20000))"
      using True by (subst nth_map_upt) (auto simp: ff_and)
    finally show ?thesis using True by simp
  next
    case False
    have "nor_view c hw2 p = nor_view c hw1 p" using False unfolding w(3) programmed_def by auto
    also have "\<dots> = nor_view c (m_hw (sys_mach s)) p" using False unfolding e(3) by auto
    finally show ?thesis using False by auto
  qed
  then have "flashed c base s ?s2" using w(2) by (simp add: flashed_def)
  ultimately show ?thesis by blast
qed

text \<open>The recovery after the three commands that fetch the image.\<close>

definition fetches :: "sys runner \<Rightarrow> sys \<Rightarrow> sys \<Rightarrow> bool" where
  "fetches run s s3 \<longleftrightarrow>
     (\<exists>r1 s1 r2 s2 r3. run (Some ''setenv serverip 192.168.0.66'') 0 s = Inr (r1, s1) \<and>
        run (Some ''setenv ipaddr 192.168.0.86'') 0 s1 = Inr (r2, s2) \<and>
        run (Some ''tftp 0x80800000 wr841nv11_tp_recovery.bin'') 0 s2 = Inr (r3, s3))"

lemma recovery_after_fetch:
  assumes "fetches run (set_recovery s) s3" "sh_getenv sh = sys_env"
  shows "firmware_recovery run sh pressed_board s =
    (if same_product s3
     then case flash_command (file_size s3) of
            None \<Rightarrow> Inr (True, s3)
          | Some cmd \<Rightarrow> rbind (run (Some cmd) 0 s3) (\<lambda>(_, s). Inr (True, s))
     else Inr (False, s3))"
proof -
  obtain r1 s1 r2 s2 r3 where "run (Some ''setenv serverip 192.168.0.66'') 0 (set_recovery s) = Inr (r1, s1)"
    "run (Some ''setenv ipaddr 192.168.0.86'') 0 s1 = Inr (r2, s2)"
    "run (Some ''tftp 0x80800000 wr841nv11_tp_recovery.bin'') 0 s2 = Inr (r3, s3)"
    using assms(1) by (auto simp: fetches_def)
  moreover have "bd_button pressed_board" "bd_dev pressed_board = ''wr841nv11''" "bd_set_recovery pressed_board = set_recovery"
    by (simp_all add: pressed_board_def)
  ultimately show ?thesis
    by (simp add: firmware_recovery_def mem_words_same file_size_def [symmetric] assms(2) Let_def)
qed

lemma image_base_command:
  "flash_command fsize = map_option (\<lambda>b. flash_script (if b = 0x80800000 then ''0x80800000'' else ''0x80820200'')) (image_base fsize)"
  by (simp add: flash_command_def image_base_def flash_script_def)

lemma image_base_ok:
  assumes "image_base fsize = Some base"
  defines "src \<equiv> if base = 0x80800000 then ''0x80800000'' else ''0x80820200''"
  shows "fst (simple_strtoul src 16) = base" "0x80000000 \<le> unat base" "unat base + 0x3c0000 \<le> 0x81000000"
    "plain_word src" "length src < 100"
proof -
  have b: "base = 0x80800000 \<or> base = 0x80820200" using assms(1) by (auto simp: image_base_def split: if_splits)
  then show "0x80000000 \<le> unat base" "unat base + 0x3c0000 \<le> 0x81000000" by auto
  show "plain_word src" "length src < 100"
    by (simp_all add: src_def plain_word_def plain_char_def is_blank_def key_defs)
  have "fst (simple_strtoul ''0x80800000'' 16) = 0x80800000" "fst (simple_strtoul ''0x80820200'' 16) = 0x80820200"
    by (simp_all add: parse_eval)
  with b show "fst (simple_strtoul src 16) = base" by (auto simp: src_def)
qed

text \<open>The recovery from there on, whatever the three commands have left in memory.\<close>

lemma recovery_flashes_image:
  fixes table other depth before
  defines "sh \<equiv> board_shell [flash_get_geom] table other"
  defines "run \<equiv> run_command (Suc depth) before sh"
  assumes "fetches run (set_recovery s) s3" "nor_idle c (m_hw (sys_mach s3))" "has_flash_commands table"
  shows "case (same_product s3, image_base (file_size s3)) of
      (True, Some base) \<Rightarrow> \<exists>s'. firmware_recovery run sh pressed_board s = Inr (True, s') \<and> flashed c base s3 s'
    | (True, None) \<Rightarrow> firmware_recovery run sh pressed_board s = Inr (True, s3)
    | (False, _) \<Rightarrow> firmware_recovery run sh pressed_board s = Inr (False, s3)"
proof -
  have e: "sh_getenv sh = sys_env" by (simp add: sh_def)
  note r = recovery_after_fetch [of run s s3 sh, OF assms(3) e]
  show ?thesis
  proof (cases "same_product s3")
    case False
    then show ?thesis by (simp add: r)
  next
    case same: True
    show ?thesis
    proof (cases "image_base (file_size s3)")
      case None
      then show ?thesis using same by (simp add: r image_base_command)
    next
      case (Some base)
      note b = image_base_ok [OF Some]
      obtain rc s' where "run (Some (flash_script (if base = 0x80800000 then ''0x80800000'' else ''0x80820200''))) 0 s3 = Inr (rc, s')"
        "flashed c base s3 s'"
        using flash_script_run [OF assms(5,4) b] unfolding run_def sh_def by blast
      then show ?thesis using same Some by (auto simp: r image_base_command)
    qed
  qed
qed

subsection \<open>The commands that fetch the image\<close>

text \<open>One command line without separators or macros.\<close>

lemma run_one_command:
  assumes "script_ok [argv]" "length (join (CHR '' '') argv) < CFG_CBSIZE" "find_cmd table (hd argv) = Some t"
    "cmd_fn t = Do_Other" "length argv \<le> cmd_maxargs t"
    "board_call infos other t 0 argv (s\<lparr>sys_ctrlc := False\<rparr>) = Inr (rc, s')"
  shows "\<exists>r. run_command (Suc depth) before (board_shell infos table other) (Some (join (CHR '' '') argv)) 0 s = Inr (r, s')"
proof -
  let ?sh = "board_shell infos table other"
  let ?run = "run_command depth before ?sh"
  have a: "argv \<noteq> []" using assms(1) by (simp add: script_ok_def)
  have ne: "join (CHR '' '') argv \<noteq> []" using assms(1) a by (intro join_not_Nil) (simp_all add: script_ok_def)
  let ?r = "\<lparr>run_rc = 0, run_repeatable = True, run_flag = 0, run_state = s\<lparr>sys_ctrlc := False\<rparr>\<rparr>"
  have "run_tokens ?run ?sh before (join (CHR '' '') argv) ?r = run_script ?run ?sh [argv] ?r"
    using run_tokens_script [of "[argv]" ?run ?sh before ?r] assms by simp
  moreover have "\<exists>r. run_script ?run ?sh [argv] ?r = Inr (r, s')"
    using assms a by (simp add: run_argv_def call_cmd_def run_result_def Let_def)
  ultimately show ?thesis using assms(2) ne by (simp add: run_body_def Let_def)
qed

text \<open>The table has the commands, and the board can use the network.\<close>

definition has_net_commands :: "cmd_tbl list \<Rightarrow> bool" where
  "has_net_commands table \<longleftrightarrow>
     (\<exists>t. find_cmd table ''setenv'' = Some t \<and> cmd_name t = ''setenv'' \<and> cmd_fn t = Do_Other \<and> 3 \<le> cmd_maxargs t) \<and>
     (\<exists>t. find_cmd table ''tftp'' = Some t \<and> cmd_name t = ''tftpboot'' \<and> cmd_fn t = Do_Other \<and> 3 \<le> cmd_maxargs t)"

definition network_up :: "netboot_st \<Rightarrow> bool" where
  "network_up nb \<longleftrightarrow> net_wf (net_view 0 nb) \<and> eth_names (nb_net nb) = [''eth0'', ''eth1''] \<and> eth_current (nb_net nb) \<noteq> None \<and>
     dev_up (nb_net nb) 1 \<and> eth_addrs (nb_env nb) ! 1 \<noteq> NetEtherNullAddr \<and> 2 * CFG_HZ (nb_net nb) \<noteq> 0 \<and> host_names_ok nb"

text \<open>
  The variables before the recovery: no VLAN, no gateway, no automatic boot, and room for the ones the three commands
  set.
\<close>

definition recovery_env :: "env_st \<Rightarrow> bool" where
  "recovery_env e \<longleftrightarrow> (\<exists>m. env_holds e m 400 \<and> m ''vlan'' = None \<and> m ''gatewayip'' = None \<and> m ''autostart'' \<noteq> Some ''yes'')"

text \<open>What the network brings: the file from the server the recovery asks, at the addresses it uses.\<close>

definition recovery_rx :: "server \<Rightarrow> byte list \<Rightarrow> (u32 \<times> nat list) list \<Rightarrow> netboot_st \<Rightarrow> bool" where
  "recovery_rx srv f turns nb \<longleftrightarrow> server_ok srv \<and> f \<noteq> [] \<and> length f < 512 * 65535 \<and>
     (case nb_rx nb of
        [] \<Rightarrow> False
      | (now, evs) # _ \<Rightarrow> serves (CFG_HZ (nb_net nb)) now 0 turns = Some (last_block f) \<and>
          evs = tftp_turns srv 0xC0A80042 0xC0A80056 (1024 + int (unat (now mod 3072))) f turns)"

lemma recovery_addresses:
  "string_to_ip (Some ''192.168.0.66'') = 0xC0A80042" "string_to_ip (Some ''192.168.0.86'') = 0xC0A80056"
  by code_simp+

lemma do_setenv_one: "do_setenv cons e [''setenv'', n, v] = setenv cons e n (Some v)"
  by (simp add: do_setenv_def setenv_def)

lemma recovery_serves:
  assumes n: "network_up nb" and x: "recovery_rx srv f turns nb" and h: "env_holds e m k"
    and m: "m ''vlan'' = None" "m ''gatewayip'' = None" "m ''serverip'' = Some ''192.168.0.66''"
    and e: "bi_ip_addr e = 0xC0A80056" "eth_addrs e = eth_addrs (nb_env nb)"
      "BootFile e = copy_filename ''wr841nv11_tp_recovery.bin'' 128"
  shows "serves_next srv f turns (nb\<lparr>nb_env := e\<rparr>)"
proof -
  obtain now rx where rx: "nb_rx nb = (now, tftp_turns srv 0xC0A80042 0xC0A80056 (1024 + int (unat (now mod 3072))) f turns) # rx"
    "serves (CFG_HZ (nb_net nb)) now 0 turns = Some (last_block f)" "server_ok srv" "f \<noteq> []" "length f < 512 * 65535"
    using x by (auto simp: recovery_rx_def split: list.splits)
  define v where "v = net_view now (nb\<lparr>nb_env := e\<rparr>)"
  have k: "name_ok ''serverip''" "name_ok ''gatewayip''" "name_ok ''vlan''" by (simp_all add: name_ok_def)
  have "nenv v = env_lookup e" by (simp add: v_def net_view_def Let_def)
  then have g: "nenv v ''vlan'' = None" "nenv v ''gatewayip'' = None" "nenv v ''serverip'' = Some ''192.168.0.66''"
    using env_holds_lookup [OF h k(1)] env_holds_lookup [OF h k(2)] env_holds_lookup [OF h k(3)] m by simp_all
  have ip: "getenv_IPaddr ''serverip'' v = 0xC0A80042" "getenv_IPaddr ''gatewayip'' v = 0"
    unfolding getenv_IPaddr_def g recovery_addresses by (simp_all add: string_to_ip_def)
  have b: "length (copy_filename ''wr841nv11_tp_recovery.bin'' 128) < 128" "copy_filename ''wr841nv11_tp_recovery.bin'' 128 \<noteq> []"
    by code_simp+
  have f: "bd_ip_addr v = 0xC0A80056" "CFG_HZ v = CFG_HZ (nb_net nb)" "clock v = now" "tftp_bootfile v = BootFile e"
    "eth_names v = eth_names (nb_net nb)" "eth_macs v = eth_addrs (nb_env nb)" "eth_current v = eth_current (nb_net nb)" "dev_up v = dev_up (nb_net nb)"
    using e(1,2) by (simp_all add: v_def net_view_def Let_def)
  have "net_wf (net_view 0 nb)" using n by (simp add: network_up_def)
  then have "net_wf v" using b(1) e(2,3) unfolding net_wf_def by (simp add: v_def net_view_def Let_def)
  then have r: "net_ready v 0xC0A80042"
    using n f g(1) ip e(3) b(2) unfolding net_ready_def network_up_def by simp
  have t: "tftp_hop v = 0xC0A80042" "tftp_port v = 1024 + int (unat (now mod 3072))"
    by (simp_all add: tftp_hop_def next_hop_def ip tftp_port_def f(3))
  show ?thesis
    using rx r ip f(1,2) t unfolding serves_next_def by (simp flip: v_def)
qed

lemma setenv_command:
  assumes t: "has_net_commands table" and h: "env_holds (nb_env (sys_nb s)) m (k + length n + length v + 3)"
    and n: "ordinary n" "NUL \<notin> set v" and w: "script_ok [[''setenv'', n, v]]" "length (join (CHR '' '') [''setenv'', n, v]) < CFG_CBSIZE"
  obtains r e where "run_command (Suc depth) before (board_shell infos table other) (Some (join (CHR '' '') [''setenv'', n, v])) 0 s =
      Inr (r, set_env e (s\<lparr>sys_ctrlc := False\<rparr>))"
    "env_holds e (m(n \<mapsto> v)) k" "bi_ip_addr e = (if n = ''ipaddr'' then ipaddr_of v else bi_ip_addr (nb_env (sys_nb s)))"
    "take 3 n \<noteq> ''eth'' \<Longrightarrow> eth_addrs e = eth_addrs (nb_env (sys_nb s))"
proof -
  obtain st where st: "find_cmd table ''setenv'' = Some st" "cmd_name st = ''setenv''" "cmd_fn st = Do_Other" "3 \<le> cmd_maxargs st"
    using t by (auto simp: has_net_commands_def)
  obtain e where e: "setenv (\<lambda>_ _. False) (nb_env (sys_nb s)) n (Some v) = Inr (0, e)" "env_holds e (m(n \<mapsto> v)) k"
    "bi_ip_addr e = (if n = ''ipaddr'' then ipaddr_of v else bi_ip_addr (nb_env (sys_nb s)))"
    "take 3 n \<noteq> ''eth'' \<Longrightarrow> eth_addrs e = eth_addrs (nb_env (sys_nb s))"
    using setenv_holds [OF h n, where cons = "\<lambda>_ _. False"] by metis
  have "board_call infos other st 0 [''setenv'', n, v] (s\<lparr>sys_ctrlc := False\<rparr>) = Inr (0, set_env e (s\<lparr>sys_ctrlc := False\<rparr>))"
    using e(1) by (simp add: board_call_def st(2) do_setenv_one lift_cmd_def Let_def)
  moreover have "find_cmd table (hd [''setenv'', n, v]) = Some st" "length [''setenv'', n, v] \<le> cmd_maxargs st" using st by simp_all
  ultimately obtain r where "run_command (Suc depth) before (board_shell infos table other) (Some (join (CHR '' '') [''setenv'', n, v])) 0 s =
      Inr (r, set_env e (s\<lparr>sys_ctrlc := False\<rparr>))"
    using run_one_command [OF w _ st(3)] by blast
  then show ?thesis using that e(2-4) by blast
qed

lemma tftp_command:
  assumes t: "has_net_commands table" and h: "env_holds (nb_env (sys_nb s)) m (332 + 0)" and n: "host_names_ok (sys_nb s)"
    and a: "a = fst (simple_strtoul addr 16)" and y: "m ''autostart'' \<noteq> Some ''yes''"
    and x: "serves_next srv f turns ((lend_memory s)\<lparr>nb_env := (nb_env (sys_nb s))\<lparr>load_addr := a, BootFile := copy_filename name 128\<rparr>\<rparr>)"
    and w: "script_ok [[''tftp'', addr, name]]" "length (join (CHR '' '') [''tftp'', addr, name]) < CFG_CBSIZE"
  obtains r s' where "run_command (Suc depth) before (board_shell infos table other) (Some (join (CHR '' '') [''tftp'', addr, name])) 0 s = Inr (r, s')"
    "sys_mach s' = (sys_mach s)\<lparr>m_ram := ram_write (m_ram (sys_mach s)) a f\<rparr>" "file_size s' = of_nat (length f)"
proof -
  obtain ct where ct: "find_cmd table ''tftp'' = Some ct" "cmd_name ct = ''tftpboot''" "cmd_fn ct = Do_Other" "3 \<le> cmd_maxargs ct"
    using t by (auto simp: has_net_commands_def)
  let ?nb = "lend_memory s"
  have l: "nb_env ?nb = nb_env (sys_nb s)" "host_names_ok ?nb" "ram (nb_net ?nb) = m_ram (sys_mach s)"
    using n by (simp_all add: lend_memory_def host_names_ok_def)
  obtain e' m' net fs where d: "env_holds e' m' 0" "m' ''filesize'' = Some fs"
    "simple_strtoul fs 16 = (of_nat (length f), [])" "ram net = ram_write (m_ram (sys_mach s)) a f"
    "do_tftpb (\<lambda>_ _. False) [''tftp'', addr, name] ?nb = Inr (0, ?nb\<lparr>nb_env := e', nb_net := net, nb_rx := tl (nb_rx ?nb)\<rparr>)"
    using do_tftpb_holds [OF h [folded l(1)] l(2) a x [folded l(1)], where cons = "\<lambda>_ _. False" and cmd = "''tftp''"] y l(3) by metis
  define s' where "s' = take_memory (?nb\<lparr>nb_env := e', nb_net := net, nb_rx := tl (nb_rx ?nb)\<rparr>) (s\<lparr>sys_ctrlc := False\<rparr>)"
  have "lend_memory (s\<lparr>sys_ctrlc := False\<rparr>) = ?nb" by (simp add: lend_memory_def)
  then have "board_call infos other ct 0 [''tftp'', addr, name] (s\<lparr>sys_ctrlc := False\<rparr>) = Inr (0, s')"
    using d(5) by (simp add: board_call_def ct(2) lift_cmd_def s'_def Let_def)
  moreover have "find_cmd table (hd [''tftp'', addr, name]) = Some ct" "length [''tftp'', addr, name] \<le> cmd_maxargs ct" using ct by simp_all
  ultimately obtain r where "run_command (Suc depth) before (board_shell infos table other) (Some (join (CHR '' '') [''tftp'', addr, name])) 0 s = Inr (r, s')"
    using run_one_command [OF w _ ct(3)] by blast
  moreover have "sys_mach s' = (sys_mach s)\<lparr>m_ram := ram_write (m_ram (sys_mach s)) a f\<rparr>" by (simp add: s'_def take_memory_def d(4))
  moreover have "sys_env s' ''filesize'' = Some fs"
    using env_holds_lookup [OF d(1), of "''filesize''"] d(2) by (simp add: sys_env_def s'_def take_memory_def name_ok_def)
  ultimately show ?thesis using that d(3) by (simp add: file_size_def)
qed

text \<open>The state after the three commands.\<close>

lemma recovery_fetches:
  fixes table other depth before
  defines "run \<equiv> run_command (Suc depth) before (board_shell [flash_get_geom] table other)"
  assumes t: "has_net_commands table" and u: "network_up (sys_nb s)" and x: "recovery_rx srv f turns (sys_nb s)"
    and e: "recovery_env (nb_env (sys_nb s))"
  obtains s3 where "fetches run (set_recovery s) s3" "sys_mach s3 = (sys_mach s)\<lparr>m_ram := ram_write (m_ram (sys_mach s)) 0x80800000 f\<rparr>"
    "file_size s3 = of_nat (length f)"
proof -
  obtain m where m: "env_holds (nb_env (sys_nb s)) m 400" "m ''vlan'' = None" "m ''gatewayip'' = None" "m ''autostart'' \<noteq> Some ''yes''"
    using e by (auto simp: recovery_env_def)
  have w: "script_ok [[''setenv'', ''serverip'', ''192.168.0.66'']]" "script_ok [[''setenv'', ''ipaddr'', ''192.168.0.86'']]"
    "script_ok [[''tftp'', ''0x80800000'', ''wr841nv11_tp_recovery.bin'']]"
    by (simp_all add: script_ok_def plain_word_def plain_char_def is_blank_def key_defs)
  have o: "ordinary ''serverip''" "ordinary ''ipaddr''" by (simp_all add: ordinary_def name_ok_def special_names_def)
  define s0 where "s0 = set_recovery s"
  have h0: "env_holds (nb_env (sys_nb s0)) m (((332 + 0) + length ''ipaddr'' + length ''192.168.0.86'' + 3) + length ''serverip'' + length ''192.168.0.66'' + 3)"
    using env_holds_mono [OF m(1)] by (simp add: s0_def set_recovery_def)
  obtain r1 e1 where 1: "run (Some ''setenv serverip 192.168.0.66'') 0 s0 = Inr (r1, set_env e1 (s0\<lparr>sys_ctrlc := False\<rparr>))"
    "env_holds e1 (m(''serverip'' \<mapsto> ''192.168.0.66'')) ((332 + 0) + length ''ipaddr'' + length ''192.168.0.86'' + 3)"
    "eth_addrs e1 = eth_addrs (nb_env (sys_nb s0))"
    using setenv_command [OF t h0 o(1) _ w(1), where infos = "[flash_get_geom]" and other = other and depth = depth and before = before]
    by (simp add: run_def del: run_command.simps) metis
  let ?s1 = "set_env e1 (s0\<lparr>sys_ctrlc := False\<rparr>)"
  have h1: "env_holds (nb_env (sys_nb ?s1)) (m(''serverip'' \<mapsto> ''192.168.0.66'')) ((332 + 0) + length ''ipaddr'' + length ''192.168.0.86'' + 3)"
    using 1(2) by (simp add: set_env_def)
  obtain r2 e2 where 2: "run (Some ''setenv ipaddr 192.168.0.86'') 0 ?s1 = Inr (r2, set_env e2 (?s1\<lparr>sys_ctrlc := False\<rparr>))"
    "env_holds e2 (m(''serverip'' \<mapsto> ''192.168.0.66'', ''ipaddr'' \<mapsto> ''192.168.0.86'')) (332 + 0)"
    "bi_ip_addr e2 = ipaddr_of ''192.168.0.86''" "eth_addrs e2 = eth_addrs (nb_env (sys_nb ?s1))"
    using setenv_command [OF t h1 o(2) _ w(2), where infos = "[flash_get_geom]" and other = other and depth = depth and before = before]
    by (simp add: run_def del: run_command.simps) metis
  let ?s2 = "set_env e2 (?s1\<lparr>sys_ctrlc := False\<rparr>)"
  have s2: "env_holds (nb_env (sys_nb ?s2)) (m(''serverip'' \<mapsto> ''192.168.0.66'', ''ipaddr'' \<mapsto> ''192.168.0.86'')) (332 + 0)"
    "host_names_ok (sys_nb ?s2)" "sys_mach ?s2 = sys_mach s"
    using 2(2) u by (simp_all add: set_env_def s0_def set_recovery_def network_up_def host_names_ok_def)
  let ?e3 = "(nb_env (sys_nb ?s2))\<lparr>load_addr := 0x80800000, BootFile := copy_filename ''wr841nv11_tp_recovery.bin'' 128\<rparr>"
  have "net_wf (net_view 0 (sys_nb s))" using u by (simp add: network_up_def)
  then have "net_wf (net_view 0 (lend_memory s0))"
    unfolding net_wf_def by (simp add: net_view_def lend_memory_def s0_def set_recovery_def Let_def)
  then have nb: "network_up (lend_memory s0)" "recovery_rx srv f turns (lend_memory s0)"
    using u x by (auto simp: network_up_def recovery_rx_def host_names_ok_def lend_memory_def s0_def set_recovery_def split: list.splits)
  have f: "env_holds ?e3 (m(''serverip'' \<mapsto> ''192.168.0.66'', ''ipaddr'' \<mapsto> ''192.168.0.86'')) (332 + 0)"
    "bi_ip_addr ?e3 = 0xC0A80056" "eth_addrs ?e3 = eth_addrs (nb_env (lend_memory s0))"
    using s2(1) env_holds_cong [of ?e3 "nb_env (sys_nb ?s2)"] 2(3,4) 1(3)
    by (simp_all add: ipaddr_of_string_to_ip recovery_addresses set_env_def lend_memory_def)
  have "serves_next srv f turns ((lend_memory s0)\<lparr>nb_env := ?e3\<rparr>)"
    using recovery_serves [OF nb f(1) _ _ _ f(2,3)] m(2,3) by simp
  moreover have "(lend_memory s0)\<lparr>nb_env := ?e3\<rparr> = (lend_memory ?s2)\<lparr>nb_env := ?e3\<rparr>"
    by (simp add: lend_memory_def set_env_def)
  ultimately have sv: "serves_next srv f turns ((lend_memory ?s2)\<lparr>nb_env := ?e3\<rparr>)" by simp
  have a: "(0x80800000 :: u32) = fst (simple_strtoul ''0x80800000'' 16)" by (simp add: parse_eval)
  have y: "(m(''serverip'' \<mapsto> ''192.168.0.66'', ''ipaddr'' \<mapsto> ''192.168.0.86'')) ''autostart'' \<noteq> Some ''yes''" using m(4) by simp
  obtain r3 s3 where 3: "run (Some ''tftp 0x80800000 wr841nv11_tp_recovery.bin'') 0 ?s2 = Inr (r3, s3)"
    "sys_mach s3 = (sys_mach s)\<lparr>m_ram := ram_write (m_ram (sys_mach s)) 0x80800000 f\<rparr>" "file_size s3 = of_nat (length f)"
    using tftp_command [OF t s2(1,2) a y sv w(3), where infos = "[flash_get_geom]" and other = other and depth = depth and before = before]
    by (simp add: run_def s2(3) del: run_command.simps) metis
  have "fetches run (set_recovery s) s3"
    using 1(1) 2(1) 3(1) unfolding fetches_def s0_def [symmetric] by blast
  then show ?thesis using that 3(2,3) by blast
qed

subsection \<open>Properties\<close>

text \<open>The product id and version of the file are the ones read from the flash.\<close>

definition product_matches :: "mach \<Rightarrow> byte list \<Rightarrow> bool" where
  "product_matches m f \<longleftrightarrow> (\<forall>i < 8. m_load m (0x9F01FD00 + of_nat i) = f ! (0x40 + i))"

lemma ram_write_at: "i < length f \<Longrightarrow> length f \<le> 2 ^ 32 \<Longrightarrow> ram_write m a f (a + of_nat i) = f ! i"
  by (simp add: ram_write_def unat_of_nat_small)

lemma same_product_fetched:
  assumes m: "sys_mach s3 = (sys_mach s)\<lparr>m_ram := ram_write (m_ram (sys_mach s)) 0x80800000 f\<rparr>"
    and l: "0x48 \<le> length f" "length f \<le> 2 ^ 32"
  shows "same_product s3 \<longleftrightarrow> product_matches (sys_mach s) f"
proof -
  have "m_load (sys_mach s3) (0x80800040 + of_nat i) = f ! (0x40 + i)" if "i < 8" for i
  proof -
    have e: "(0x80800040 + of_nat i :: u32) = 0x80800000 + of_nat (0x40 + i)" by simp
    have u: "unat (0x80800000 + of_nat (0x40 + i) :: u32) = 0x80800040 + i"
      using that unat_of_nat_small [of "0x40 + i", where 'a = 32] by (subst unat_add_small) simp_all
    have "\<not> flash_window (0x80800000 + of_nat (0x40 + i))" using u that by (intro window_ram) simp_all
    then show ?thesis
      unfolding e using that l ram_write_at [of "0x40 + i" f] by (simp add: m_load_def m del: of_nat_add)
  qed
  moreover have "m_load (sys_mach s3) (0x9F01FD00 + of_nat i) = m_load (sys_mach s) (0x9F01FD00 + of_nat i)" if "i < 8" for i
  proof -
    show ?thesis using window_product [OF that] by (simp add: m_load_def m)
  qed
  ultimately show ?thesis by (simp add: same_product_def product_matches_def)
qed

lemma flashed_fetched:
  assumes fl: "flashed c (0x80800000 + of_nat off) s3 s'"
    and m: "sys_mach s3 = (sys_mach s)\<lparr>m_ram := ram_write (m_ram (sys_mach s)) 0x80800000 f\<rparr>"
    and len: "off + 0x3c0000 \<le> length f" "length f \<le> 0x3e0200"
  shows "nor_view c (m_hw (sys_mach s')) q =
    (if 0x20000 \<le> q \<and> q < 0x3e0000 then f ! (off + (q - 0x20000)) else nor_view c (m_hw (sys_mach s)) q)"
proof (cases "0x20000 \<le> q \<and> q < 0x3e0000")
  case q: True
  have "nor_view c (m_hw (sys_mach s')) q = ram_write (m_ram (sys_mach s)) 0x80800000 f (0x80800000 + of_nat off + of_nat (q - 0x20000))"
    using fl q by (simp add: flashed_def m)
  also have "0x80800000 + of_nat off + of_nat (q - 0x20000) = (0x80800000 + of_nat (off + (q - 0x20000)) :: u32)" by simp
  also have "ram_write (m_ram (sys_mach s)) 0x80800000 f \<dots> = f ! (off + (q - 0x20000))"
    using q len by (intro ram_write_at) auto
  finally show ?thesis using q by simp
next
  case False
  then show ?thesis using fl by (auto simp: flashed_def m)
qed

text \<open>
  C1: Firmware recovery, from the network to the flash. With the reset button pressed, on a board whose network is up, and
  with a server at 192.168.0.66 that sends a file of any content: the chip is written only if the product id and version in
  the file are those in the flash and its size is one of the two known ones. Then the 3840 KiB from offset \<open>0x20000\<close>
  of the chip hold exactly the image (the file, or the file from \<open>0x20200\<close> on), every other byte of the chip is as before,
  and the board is reset. With another size it is reset with the chip untouched, with another product it goes on booting
  with the chip untouched.
\<close>

theorem recovery_from_server:
  fixes table other depth before
  defines "sh \<equiv> board_shell [flash_get_geom] table other"
  defines "run \<equiv> run_command (Suc depth) before sh"
  assumes "has_flash_commands table" "has_net_commands table" "network_up (sys_nb s)" "recovery_env (nb_env (sys_nb s))"
    "recovery_rx srv f turns (sys_nb s)" "nor_idle c (m_hw (sys_mach s))" "0x48 \<le> length f"
  shows "\<exists>s' reset. firmware_recovery run sh pressed_board s = Inr (reset, s') \<and> nor_idle c (m_hw (sys_mach s')) \<and>
    reset = product_matches (sys_mach s) f \<and>
    nor_view c (m_hw (sys_mach s')) = (\<lambda>p.
      if reset \<and> length f \<in> {0x3c0000, 0x3e0200} \<and> 0x20000 \<le> p \<and> p < 0x3e0000
      then f ! ((if length f = 0x3c0000 then 0 else 0x20200) + (p - 0x20000))
      else nor_view c (m_hw (sys_mach s)) p)"
proof -
  obtain s3 where s3: "fetches run (set_recovery s) s3" "sys_mach s3 = (sys_mach s)\<lparr>m_ram := ram_write (m_ram (sys_mach s)) 0x80800000 f\<rparr>"
    "file_size s3 = of_nat (length f)"
    using recovery_fetches [OF assms(4,5,7,6), where other = other and depth = depth and before = before]
    unfolding run_def sh_def by blast
  have l: "length f < 512 * 65535" using assms(7) by (simp add: recovery_rx_def)
  then have u: "unat (of_nat (length f) :: u32) = length f" by (intro unat_of_nat_small) simp
  have p: "same_product s3 \<longleftrightarrow> product_matches (sys_mach s) f"
    using l by (intro same_product_fetched s3(2) assms(9)) simp
  have i: "nor_idle c (m_hw (sys_mach s3))" using assms(8) by (simp add: s3(2))
  have b: "image_base (file_size s3) = (if length f = 0x3c0000 then Some 0x80800000
      else if length f = 0x3e0200 then Some 0x80820200 else None)"
    using u by (auto simp: s3(3) image_base_def word_unat_eq_iff)
  note r = recovery_flashes_image [OF s3(1) [unfolded run_def sh_def] i assms(3), folded sh_def, folded run_def]
  show ?thesis
  proof (cases "product_matches (sys_mach s) f \<and> length f \<in> {0x3c0000, 0x3e0200}")
    case True
    let ?off = "if length f = 0x3c0000 then 0 else 0x20200 :: nat"
    let ?base = "0x80800000 + of_nat ?off :: u32"
    have "image_base (file_size s3) = Some ?base" using True b by auto
    then obtain s' where s': "firmware_recovery run sh pressed_board s = Inr (True, s')" "flashed c ?base s3 s'"
      using r True p by auto
    have "nor_view c (m_hw (sys_mach s')) q = (if 0x20000 \<le> q \<and> q < 0x3e0000 then f ! (?off + (q - 0x20000))
        else nor_view c (m_hw (sys_mach s)) q)" for q
      using s'(2) True by (intro flashed_fetched [OF _ s3(2)]) auto
    then show ?thesis using s' True by (intro exI [of _ s'] exI [of _ True]) (auto simp: flashed_def)
  next
    case False
    then have "firmware_recovery run sh pressed_board s = Inr (product_matches (sys_mach s) f, s3)"
      using r p b by (auto split: if_splits)
    then show ?thesis using False i by (intro exI [of _ s3] exI [of _ "product_matches (sys_mach s) f"]) (auto simp: s3(2))
  qed
qed

text \<open>A board with the chip of the simulation, and a server with an image of zeros.\<close>

definition demo_table :: "cmd_tbl list" where
  "demo_table = map (\<lambda>(n, k). \<lparr>cmd_name = n, cmd_maxargs = k, cmd_repeatable = True, cmd_fn = Do_Other, cmd_usage = []\<rparr>)
     [(''erase'', 3), (''cp'', 4), (''setenv'', 16), (''tftpboot'', 3)]"

definition demo_image :: "byte list" where
  "demo_image = replicate 0x3c0000 0"

definition demo_turns :: "(u32 \<times> nat list) list" where
  "demo_turns = [(5, [1..<7682])]"

definition demo_sys :: sys where
  "demo_sys = \<lparr>sys_mach = \<lparr>m_ram = \<lambda>_. 1, m_hw = sim_hw, m_window = \<lambda>_ _. 0\<rparr>,
     sys_nb = demo_netboot [(0, tftp_turns demo_server 0xC0A80042 0xC0A80056 1024 demo_image demo_turns)], sys_ctrlc = False\<rparr>"

lemma lockstep_upt: "lockstep k [Suc k..<Suc (k + n)] = Some (k + n)"
proof (induction n arbitrary: k)
  case (Suc n)
  have "[Suc k..<Suc (k + Suc n)] = Suc k # [Suc (Suc k)..<Suc (Suc k + n)]" by (subst upt_conv_Cons) simp_all
  then show ?case using Suc.IH [of "Suc k"] by simp
qed simp

lemma demo_ready:
  "has_flash_commands demo_table" "has_net_commands demo_table" "network_up (sys_nb demo_sys)"
  "recovery_env (nb_env (sys_nb demo_sys))" "recovery_rx demo_server demo_image demo_turns (sys_nb demo_sys)"
proof -
  show "has_flash_commands demo_table" "has_net_commands demo_table"
    by (simp_all add: has_flash_commands_def has_net_commands_def demo_table_def find_cmd_def)
  have "net_wf (net_view 0 (demo_netboot rx))" for rx
    using sample_net_facts(2) unfolding net_wf_def
    by (simp add: net_view_def demo_netboot_def demo_env_def Let_def) (simp add: sample_net_def)
  then show "network_up (sys_nb demo_sys)"
    by (simp add: network_up_def demo_sys_def) (simp add: demo_netboot_def host_names_ok_def sample_net_def demo_env_def NetEtherNullAddr_def)
  show "recovery_env (nb_env (sys_nb demo_sys))"
    using env_holds_mono [OF demo_env_holds, of 400] unfolding recovery_env_def demo_sys_def demo_netboot_def
    by (intro exI [of _ "[''serverip'' \<mapsto> ''1.1.1.1'']"]) simp
  have "lockstep 0 [1..<7682] = Some 7681" using lockstep_upt [of 0 7681] by (simp del: upt_rec_numeral)
  then show "recovery_rx demo_server demo_image demo_turns (sys_nb demo_sys)"
    by (simp add: recovery_rx_def demo_sys_def demo_netboot_def demo_turns_def demo_image_def last_block_def sample_net_def
        server_ok_def demo_server_def NetEtherNullAddr_def Let_def del: upt_rec_numeral)
qed

theorem recovery_from_server_witness:
  "\<exists>s'. firmware_recovery (run_command 1 NUL (board_shell [flash_get_geom] demo_table (\<lambda>t flag argv s. Inr (0, s))))
      (board_shell [flash_get_geom] demo_table (\<lambda>t flag argv s. Inr (0, s))) pressed_board demo_sys = Inr (True, s') \<and>
     nor_view (sim_chip (\<lambda>_. 0x55)) (m_hw (sys_mach s')) 0x20000 = 0 \<and>
     nor_view (sim_chip (\<lambda>_. 0x55)) (m_hw (sys_mach s')) 0x1ffff = 0x55"
proof -
  have hw: "m_hw (sys_mach demo_sys) = sim_hw" by (simp add: demo_sys_def)
  have "nor_idle (sim_chip (\<lambda>_. 0x55)) (m_hw (sys_mach demo_sys))" by (simp add: hw sim_hw_idle)
  moreover have "0x48 \<le> length demo_image" "demo_image \<noteq> []" by (simp_all add: demo_image_def)
  moreover have "product_matches (sys_mach demo_sys) demo_image"
    unfolding product_matches_def
  proof (intro allI impI)
    fix i :: nat assume i: "i < 8"
    show "m_load (sys_mach demo_sys) (0x9F01FD00 + of_nat i) = demo_image ! (0x40 + i)"
      using i window_product [OF i] by (simp add: m_load_def demo_sys_def demo_image_def)
  qed
  ultimately show ?thesis
    using recovery_from_server [OF demo_ready, of "sim_chip (\<lambda>_. 0x55)" 0 NUL "\<lambda>t flag argv s. Inr (0, s)"]
    by (auto simp: hw sim_hw_view demo_image_def simp del: run_command.simps)
qed

end
