(* ===== verification/LinuxBoot.thy ===== *)
theory LinuxBoot
  imports Vsprintf "HOL-Library.Sublist"
begin

text \<open>
  The parameters of the kernel, \<open>lib_mips/mips_linux.c\<close>: the command line split into an argument array
  in memory (\<open>linux_params_init\<close>) and the kernel environment (\<open>linux_env_set\<close>); also \<open>strchr\<close> and
  \<open>strstr\<close> of \<open>lib_generic/string.c\<close>. Memory is a function from addresses to bytes. A pointer into
  the command line is the rest of the line; the line itself lies outside the memory that is written.
\<close>

subsection \<open>Strings\<close>

fun strchr :: "char \<Rightarrow> string \<Rightarrow> string option" where
  "strchr c [] = None"
| "strchr c (x # s) = (if x = c then Some (x # s) else strchr c s)"

text \<open>The loop of \<open>strstr\<close>: \<open>memcmp\<close> at every position with enough characters left.\<close>

fun strstr_loop :: "string \<Rightarrow> string \<Rightarrow> string option" where
  "strstr_loop [] s2 = None"
| "strstr_loop (c # s1) s2 =
     (if length (c # s1) < length s2 then None
      else if take (length s2) (c # s1) = s2 then Some (c # s1) else strstr_loop s1 s2)"

definition strstr :: "string \<Rightarrow> string \<Rightarrow> string option" where
  "strstr s1 s2 = (if s2 = [] then Some s1 else strstr_loop s1 s2)"

subsection \<open>Memory\<close>

type_synonym mem = "u32 \<Rightarrow> byte"

definition store :: "u32 \<Rightarrow> byte list \<Rightarrow> mem \<Rightarrow> mem" where
  "store a bs m = (\<lambda>x. if unat (x - a) < length bs then bs ! unat (x - a) else m x)"

definition store_word :: "u32 \<Rightarrow> u32 \<Rightarrow> mem \<Rightarrow> mem" where
  "store_word a w = store a (be32 w)"

definition c_bytes :: "string \<Rightarrow> byte list" where
  "c_bytes s = map of_char s @ [0]"

definition store_string :: "u32 \<Rightarrow> string \<Rightarrow> mem \<Rightarrow> mem" where
  "store_string a s = store a (c_bytes s)"

definition load_bytes :: "mem \<Rightarrow> u32 \<Rightarrow> nat \<Rightarrow> byte list" where
  "load_bytes m a n = map (\<lambda>i. m (a + of_nat i)) [0..<n]"

definition load_word :: "mem \<Rightarrow> u32 \<Rightarrow> u32" where
  "load_word m a = get32 (load_bytes m a 4) 0"

subsection \<open>The command line\<close>

abbreviation (input) LINUX_MAX_ARGS :: nat where "LINUX_MAX_ARGS \<equiv> 256"
abbreviation (input) LINUX_MAX_ENVS :: nat where "LINUX_MAX_ENVS \<equiv> 256"

datatype boot_exit = Null_Deref

text \<open>The inner loop: a blank behind a left quote is skipped together with its right quote.\<close>

lemma strchr_length: "strchr c s = Some r \<Longrightarrow> 0 < length r \<and> length r \<le> length s"
  by (induction s) (auto split: if_splits)

function quote_loop :: "string option \<Rightarrow> string option \<Rightarrow> string option" where
  "quote_loop next quote =
     (case (next, quote) of
        (Some n, Some q) \<Rightarrow>
          if length q > length n
          then (case strchr (CHR 0x22) (tl q) of
                  None \<Rightarrow> None
                | Some r \<Rightarrow> quote_loop (strchr (CHR '' '') (tl r)) (strchr (CHR 0x22) (tl r)))
          else Some n
      | _ \<Rightarrow> next)"
  by pat_completeness auto
termination
  by (relation "measure (\<lambda>(next, quote). case quote of None \<Rightarrow> 0 | Some q \<Rightarrow> length q)")
    (auto dest!: strchr_length split: option.splits)

declare quote_loop.simps [simp del]

text \<open>The next argument, and where the loop goes on.\<close>

definition split_arg :: "string \<Rightarrow> string \<times> string" where
  "split_arg line =
     (case quote_loop (strchr (CHR '' '') line) (strchr (CHR 0x22) line) of
        None \<Rightarrow> (line, [])
      | Some next \<Rightarrow> (take (length line - length next) line, tl next))"

text \<open>
  The body of the loop: the pointer into the array, then the copy and its terminator. The mem= argument
  comes in the other order.
\<close>

record arg_st =
  arg_count :: nat
  argp :: u32
  arg_mem :: mem

definition add_arg :: "u32 \<Rightarrow> string \<Rightarrow> arg_st \<Rightarrow> arg_st" where
  "add_arg start arg st =
     \<lparr>arg_count = arg_count st + 1, argp = argp st + of_nat (length arg) + 1,
      arg_mem = store_string (argp st) arg (store_word (start + 4 * of_nat (arg_count st)) (argp st) (arg_mem st))\<rparr>"

definition add_mem_arg :: "u32 \<Rightarrow> string \<Rightarrow> arg_st \<Rightarrow> arg_st" where
  "add_mem_arg start arg st =
     \<lparr>arg_count = arg_count st + 1, argp = argp st + of_nat (length arg) + 1,
      arg_mem = store_word (start + 4 * of_nat (arg_count st)) (argp st) (store_string (argp st) arg (arg_mem st))\<rparr>"

function args_loop :: "u32 \<Rightarrow> string \<Rightarrow> arg_st \<Rightarrow> arg_st" where
  "args_loop start line st =
     (if line \<noteq> [] \<and> arg_count st < LINUX_MAX_ARGS
      then case split_arg line of (arg, rest) \<Rightarrow> args_loop start rest (add_arg start arg st)
      else st)"
  by pat_completeness auto
termination
  by (relation "measure (\<lambda>(start, line, st). LINUX_MAX_ARGS - arg_count st)") (auto simp: add_arg_def)

declare args_loop.simps [simp del]

subsection \<open>The parameter area\<close>

text \<open>The static variables of the file, and the memory.\<close>

record linux_st =
  linux_argc :: nat
  linux_argv :: u32
  linux_env :: u32
  linux_env_p :: u32
  linux_env_idx :: nat
  linux_mem :: mem

definition mem_arg :: "u32 \<Rightarrow> string" where
  "mem_arg ram_size =
     (case vsprintf ''mem=%luM'' [VInt (drop_bit 20 ram_size)] of None \<Rightarrow> [] | Some (_, s, _) \<Rightarrow> s)"

text \<open>Without \<open>bootargs\<close> the code calls \<open>strstr\<close> with a null pointer.\<close>

definition linux_params_init :: "u32 \<Rightarrow> string option \<Rightarrow> u32 \<Rightarrow> mem \<Rightarrow> boot_exit + linux_st" where
  "linux_params_init start commandline ram_size m =
     (case commandline of None \<Rightarrow> Inl Null_Deref
      | Some line \<Rightarrow>
          let st = args_loop start line
                \<lparr>arg_count = 1, argp = start + 4 * of_nat LINUX_MAX_ARGS, arg_mem = store_word start 0 m\<rparr>;
              st = (if strstr line ''mem='' = None then add_mem_arg start (mem_arg ram_size) st else st);
              env = (argp st + 15) AND NOT 15 in
          Inr \<lparr>linux_argc = arg_count st, linux_argv = start, linux_env = env,
               linux_env_p = env + 4 * of_nat LINUX_MAX_ENVS, linux_env_idx = 0,
               linux_mem = store_word env 0 (arg_mem st)\<rparr>)"

definition linux_env_set :: "string \<Rightarrow> string \<Rightarrow> linux_st \<Rightarrow> linux_st" where
  "linux_env_set env_name env_val st =
     (if linux_env_idx st < LINUX_MAX_ENVS - 1 then
        let m = store_word (linux_env st + 4 * of_nat (linux_env_idx st)) (linux_env_p st) (linux_mem st);
            m = store_string (linux_env_p st) env_name m;
            p = linux_env_p st + of_nat (length env_name);
            m = store_string p ''='' m;
            p = p + 1;
            m = store_string p env_val m;
            p = p + of_nat (length env_val) + 1;
            i = linux_env_idx st + 1 in
        st\<lparr>linux_env_p := p, linux_env_idx := i,
           linux_mem := store_word (linux_env st + 4 * of_nat i) 0 m\<rparr>
      else st)"

subsection \<open>Specification of the splitting\<close>

text \<open>Up to the first blank outside double quotes, and the rest behind it.\<close>

fun next_arg :: "bool \<Rightarrow> string \<Rightarrow> string \<times> string option" where
  "next_arg quoted [] = ([], None)"
| "next_arg quoted (c # s) =
     (if c = CHR '' '' \<and> \<not> quoted then ([], Some s)
      else apfst ((#) c) (next_arg (if c = CHR 0x22 then \<not> quoted else quoted) s))"

lemma next_arg_length: "next_arg quoted s = (a, Some r) \<Longrightarrow> length r < length s"
  by (induction quoted s arbitrary: a rule: next_arg.induct) (auto simp: apfst_def map_prod_def split: if_splits prod.splits intro: less_SucI)

function boot_args :: "string \<Rightarrow> string list" where
  "boot_args line =
     (if line = [] then []
      else case next_arg False line of
        (a, None) \<Rightarrow> [a]
      | (a, Some rest) \<Rightarrow> a # boot_args rest)"
  by pat_completeness auto
termination
  by (relation "measure length") (auto dest: next_arg_length [OF sym])

declare boot_args.simps [simp del]

lemma strchr_None: "strchr c s = None \<longleftrightarrow> c \<notin> set s"
  by (induction s) auto

lemma strchr_append: "c \<notin> set a \<Longrightarrow> strchr c (a @ s) = strchr c s"
  by (induction a) auto

lemma strchr_split: "strchr c s = Some r \<Longrightarrow> \<exists>a t. s = a @ r \<and> r = c # t \<and> c \<notin> set a"
proof (induction s)
  case (Cons x s)
  show ?case
  proof (cases "x = c")
    case True
    with Cons.prems show ?thesis by auto
  next
    case False
    with Cons obtain a t where "s = a @ r" "r = c # t" "c \<notin> set a" by auto
    with False show ?thesis by (intro exI [of _ "x # a"] exI [of _ t]) simp
  qed
qed simp

lemma next_arg_plain:
  "CHR '' '' \<notin> set a \<Longrightarrow> CHR 0x22 \<notin> set a \<Longrightarrow> next_arg False (a @ s) = apfst ((@) a) (next_arg False s)"
  by (induction a) (auto simp: apfst_def map_prod_def split: prod.splits)

lemma next_arg_quoted:
  "CHR 0x22 \<notin> set a \<Longrightarrow> next_arg True (a @ s) = apfst ((@) a) (next_arg True s)"
  by (induction a) (auto simp: apfst_def map_prod_def split: prod.splits)

lemma next_arg_parts:
  "next_arg quoted s = (a, None) \<Longrightarrow> s = a"
  "next_arg quoted s = (a, Some r) \<Longrightarrow> s = a @ CHR '' '' # r"
  by (induction quoted s arbitrary: a rule: next_arg.induct)
    (auto simp: apfst_def map_prod_def split: if_splits prod.splits)

lemma quote_loop_next_arg:
  "quote_loop (strchr (CHR '' '') s) (strchr (CHR 0x22) s) = map_option ((#) (CHR '' '')) (snd (next_arg False s))"
proof (induction "length s" arbitrary: s rule: less_induct)
  case less
  show ?case
  proof (cases "strchr (CHR '' '') s")
    case None
    have "snd (next_arg q t) = None" if "CHR '' '' \<notin> set t" for q t
      using that by (induction q t rule: next_arg.induct) auto
    then have "snd (next_arg False s) = None" using None strchr_None [of "CHR '' ''" s] by simp
    then show ?thesis using None by (simp add: quote_loop.simps [of None])
  next
    case n: (Some n)
    obtain a t where at: "s = a @ n" "n = CHR '' '' # t" "CHR '' '' \<notin> set a" using strchr_split [OF n] by blast
    show ?thesis
    proof (cases "strchr (CHR 0x22) s")
      case None
      then have "CHR 0x22 \<notin> set a" using at(1) by (simp add: strchr_None)
      then have "next_arg False s = (a, Some t)" using at next_arg_plain [of a n] by simp
      then show ?thesis by (simp add: quote_loop.simps n None at(2))
    next
      case q: (Some q)
      obtain b u where bu: "s = b @ q" "q = CHR 0x22 # u" "CHR 0x22 \<notin> set b" using strchr_split [OF q] by blast
      show ?thesis
      proof (cases "length q > length n")
        case False
        have "CHR 0x22 \<notin> set a"
        proof -
          have "a = take (length a) s" using at(1) by simp
          moreover have "length a \<le> length b" using arg_cong [OF at(1), of length] arg_cong [OF bu(1), of length] False by simp
          ultimately have "a = take (length a) b" using bu(1) by simp
          then show ?thesis using bu(3) by (metis in_set_takeD)
        qed
        then have "next_arg False s = (a, Some t)" using at next_arg_plain [of a n] by simp
        then show ?thesis using False by (simp add: quote_loop.simps n q at(2))
      next
        case True
        have "CHR '' '' \<notin> set b"
        proof -
          have "b = take (length b) s" using bu(1) by simp
          moreover have "length b \<le> length a" using arg_cong [OF at(1), of length] arg_cong [OF bu(1), of length] True by simp
          ultimately have "b = take (length b) a" using at(1) by simp
          then show ?thesis using at(3) by (metis in_set_takeD)
        qed
        then have s: "next_arg False s = apfst ((@) (b @ [CHR 0x22])) (next_arg True u)"
          using bu next_arg_plain [of b q] by (cases "next_arg True u") simp
        show ?thesis
        proof (cases "strchr (CHR 0x22) u")
          case None
          have "snd (next_arg True v) = None" if "CHR 0x22 \<notin> set v" for v
            using that by (induction v) auto
          then have "snd (next_arg True u) = None" using None by (simp add: strchr_None)
          then show ?thesis using True None by (simp add: quote_loop.simps [of "Some n"] n q bu(2) s)
        next
          case r: (Some r)
          obtain c v where cv: "u = c @ r" "r = CHR 0x22 # v" "CHR 0x22 \<notin> set c" using strchr_split [OF r] by blast
          have "next_arg True u = apfst ((@) (c @ [CHR 0x22])) (next_arg False v)"
            using cv next_arg_quoted [of c r] by (cases "next_arg False v") simp
          moreover have "length v < length s" using cv bu by simp
          ultimately show ?thesis
            using True less.hyps [of v] by (simp add: quote_loop.simps [of "Some n"] n q bu(2) s r cv(2))
        qed
      qed
    qed
  qed
qed

lemma split_arg_spec:
  "split_arg line = (case next_arg False line of (a, None) \<Rightarrow> (a, []) | (a, Some r) \<Rightarrow> (a, r))"
proof (cases "next_arg False line")
  case (Pair a o_r)
  then show ?thesis
    using next_arg_parts [of False line a] by (cases o_r) (auto simp: split_arg_def quote_loop_next_arg)
qed

subsection \<open>Specification of the parameter area\<close>

text \<open>The terminated string \<open>s\<close> at address \<open>p\<close>, and an array of pointers to strings.\<close>

definition string_at :: "mem \<Rightarrow> u32 \<Rightarrow> string \<Rightarrow> bool" where
  "string_at m p s \<longleftrightarrow> load_bytes m p (length s + 1) = c_bytes s"

definition strings_at :: "mem \<Rightarrow> u32 \<Rightarrow> string list \<Rightarrow> bool" where
  "strings_at m base ss \<longleftrightarrow> (\<forall>i < length ss. string_at m (load_word m (base + 4 * of_nat i)) (ss ! i))"

subsection \<open>Lemmas on memory\<close>

lemma length_c_bytes [simp]: "length (c_bytes s) = length s + 1"
  by (simp add: c_bytes_def)

text \<open>Offsets from a base: below \<open>2^32\<close> they do not meet by wrap-around.\<close>

lemma offset_diff:
  assumes "k + n \<le> 2 ^ 32" "j < 2 ^ 32"
  shows "unat ((s + of_nat j) - (s + of_nat k) :: u32) < n \<longleftrightarrow> k \<le> j \<and> j < k + n"
    "k \<le> j \<Longrightarrow> unat ((s + of_nat j) - (s + of_nat k) :: u32) = j - k"
proof -
  show eq: "unat ((s + of_nat j) - (s + of_nat k) :: u32) = j - k" if "k \<le> j"
  proof -
    have "(s + of_nat j) - (s + of_nat k) = (of_nat (j - k) :: u32)" using that by (simp add: of_nat_diff)
    then show ?thesis using assms(2) by (simp only:) (intro unat_of_nat_small, simp)
  qed
  show "unat ((s + of_nat j) - (s + of_nat k) :: u32) < n \<longleftrightarrow> k \<le> j \<and> j < k + n"
  proof (cases "k \<le> j")
    case True
    then show ?thesis using eq by auto
  next
    case False
    have w: "(s + of_nat j) - (s + of_nat k) = (of_nat (2 ^ 32 - (k - j)) :: u32)"
      using False assms(1) by (simp add: of_nat_diff)
    have "unat ((s + of_nat j) - (s + of_nat k) :: u32) = 2 ^ 32 - (k - j)"
      unfolding w using False by (intro unat_of_nat_small) simp
    then show ?thesis using False assms(1) by auto
  qed
qed

lemma store_offset:
  assumes "k + length bs \<le> 2 ^ 32" "j < 2 ^ 32"
  shows "store (s + of_nat k) bs m (s + of_nat j) = (if k \<le> j \<and> j < k + length bs then bs ! (j - k) else m (s + of_nat j))"
  using offset_diff [OF assms, of s] by (simp add: store_def)

text \<open>Two memories agree on the offsets \<open>a\<close> to \<open>b\<close>.\<close>

definition agree :: "u32 \<Rightarrow> nat \<Rightarrow> nat \<Rightarrow> mem \<Rightarrow> mem \<Rightarrow> bool" where
  "agree s a b m m' \<longleftrightarrow> (\<forall>j. a \<le> j \<and> j < b \<longrightarrow> m' (s + of_nat j) = m (s + of_nat j))"

lemma agree_refl [simp]: "agree s a b m m"
  by (simp add: agree_def)

lemma agree_trans: "agree s a b m m' \<Longrightarrow> agree s a b m' m'' \<Longrightarrow> agree s a b m m''"
  by (simp add: agree_def)

lemma agree_mono: "agree s a b m m' \<Longrightarrow> a \<le> a' \<Longrightarrow> b' \<le> b \<Longrightarrow> agree s a' b' m m'"
  by (simp add: agree_def)

lemma store_agree:
  assumes "k + length bs \<le> 2 ^ 32" "b \<le> 2 ^ 32" "b \<le> k \<or> k + length bs \<le> a"
  shows "agree s a b m (store (s + of_nat k) bs m)"
  using assms by (auto simp: agree_def store_offset)

lemma load_bytes_offset: "load_bytes m (s + of_nat k) n = map (\<lambda>i. m (s + of_nat (k + i))) [0..<n]"
  by (simp add: load_bytes_def add.assoc)

lemma load_bytes_agree:
  "agree s k (k + n) m m' \<Longrightarrow> load_bytes m' (s + of_nat k) n = load_bytes m (s + of_nat k) n"
  unfolding load_bytes_offset by (auto simp: agree_def simp del: of_nat_add)

lemma load_bytes_store:
  assumes "length bs \<le> 2 ^ 32"
  shows "load_bytes (store a bs m) a (length bs) = bs"
  using assms store_offset [of 0 bs _ a m]
  by (intro nth_equalityI) (simp_all add: load_bytes_def)

lemma get32_of_be32: "get32 (be32 w) 0 = w"
  using get32_put_same [of 0 "[0, 0, 0, 0]" w] by (simp add: put_bytes_def)

lemma load_word_store [simp]: "load_word (store_word a w m) a = w"
  using load_bytes_store [of "be32 w" a m] by (simp add: load_word_def store_word_def get32_of_be32)

lemma string_at_store: "length x < 2 ^ 32 \<Longrightarrow> string_at (store_string a x m) a x"
  using load_bytes_store [of "c_bytes x" a m] by (simp add: string_at_def store_string_def)

lemma load_word_agree: "agree s k (k + 4) m m' \<Longrightarrow> load_word m' (s + of_nat k) = load_word m (s + of_nat k)"
  by (simp add: load_word_def load_bytes_agree)

lemma string_at_agree:
  "agree s k (k + length x + 1) m m' \<Longrightarrow> string_at m' (s + of_nat k) x = string_at m (s + of_nat k) x"
  by (simp add: string_at_def load_bytes_agree)

text \<open>Consecutive copies, each over the terminator of the one before.\<close>

lemma store_append:
  assumes "length z \<le> length y" "length x + length y \<le> 2 ^ 32"
  shows "store (a + of_nat (length x)) y (store a (x @ z) m) = store a (x @ y) m"
proof
  fix p
  define j where "j = unat (p - a)"
  have p: "p = a + of_nat j" "j < 2 ^ 32" using unsigned_less [of "p - a"] by (simp_all add: j_def)
  have "store (a + of_nat (length x)) y (store a (x @ z) m) (a + of_nat j) =
    (if length x \<le> j \<and> j < length x + length y then y ! (j - length x) else store a (x @ z) m (a + of_nat j))"
    using assms p(2) by (intro store_offset) simp_all
  moreover have "store a (x @ w) m (a + of_nat j) = (if j < length (x @ w) then (x @ w) ! j else m (a + of_nat j))"
    if "length (x @ w) \<le> 2 ^ 32" for w
    using store_offset [of 0 "x @ w" j a m] that p(2) by simp
  ultimately show "store (a + of_nat (length x)) y (store a (x @ z) m) p = store a (x @ y) m p"
    using assms unfolding p(1) by (auto simp: nth_append)
qed

lemma c_bytes_append: "c_bytes (x @ y) = map of_char x @ c_bytes y"
  by (simp add: c_bytes_def)

lemma store_string_append:
  assumes "length x + length y < 2 ^ 32"
  shows "store_string (a + of_nat (length x)) y (store_string a x m) = store_string a (x @ y) m"
proof -
  have "c_bytes x = map of_char x @ [0]" by (simp add: c_bytes_def)
  then show ?thesis
    using assms store_append [of "[0]" "c_bytes y" "map of_char x" a m] by (simp add: store_string_def c_bytes_append)
qed

text \<open>A pointer table at offset \<open>t\<close> for strings between the offsets \<open>h\<close> and \<open>hi\<close>.\<close>

definition table :: "mem \<Rightarrow> u32 \<Rightarrow> nat \<Rightarrow> nat \<Rightarrow> nat \<Rightarrow> string list \<Rightarrow> bool" where
  "table m s t h hi ss \<longleftrightarrow>
     (\<forall>i < length ss. \<exists>k. h \<le> k \<and> k + length (ss ! i) + 1 \<le> hi \<and>
        load_word m (s + of_nat (t + 4 * i)) = s + of_nat k \<and> string_at m (s + of_nat k) (ss ! i))"

lemma table_agree:
  assumes "table m s t h hi ss" "agree s t (t + 4 * length ss) m m'" "agree s h hi m m'"
  shows "table m' s t h hi ss"
  unfolding table_def
proof (intro allI impI)
  fix i assume i: "i < length ss"
  then obtain k where k: "h \<le> k" "k + length (ss ! i) + 1 \<le> hi" "load_word m (s + of_nat (t + 4 * i)) = s + of_nat k"
    "string_at m (s + of_nat k) (ss ! i)" using assms(1) unfolding table_def by blast
  have "agree s (t + 4 * i) (t + 4 * i + 4) m m'" using assms(2) i by (elim agree_mono) simp_all
  moreover have "agree s k (k + length (ss ! i) + 1) m m'" using assms(3) k by (elim agree_mono) simp_all
  ultimately show "\<exists>k. h \<le> k \<and> k + length (ss ! i) + 1 \<le> hi \<and>
        load_word m' (s + of_nat (t + 4 * i)) = s + of_nat k \<and> string_at m' (s + of_nat k) (ss ! i)"
    using k by (intro exI [of _ k]) (simp add: load_word_agree string_at_agree del: of_nat_add)
qed

lemma table_snoc:
  assumes "table m s t h hi ss" "load_word m (s + of_nat (t + 4 * length ss)) = s + of_nat hi"
    "string_at m (s + of_nat hi) x" "h \<le> hi"
  shows "table m s t h (hi + length x + 1) (ss @ [x])"
  unfolding table_def
proof (intro allI impI)
  fix i assume i: "i < length (ss @ [x])"
  show "\<exists>k. h \<le> k \<and> k + length ((ss @ [x]) ! i) + 1 \<le> hi + length x + 1 \<and>
        load_word m (s + of_nat (t + 4 * i)) = s + of_nat k \<and> string_at m (s + of_nat k) ((ss @ [x]) ! i)"
  proof (cases "i < length ss")
    case True
    then obtain k where "h \<le> k" "k + length (ss ! i) + 1 \<le> hi" "load_word m (s + of_nat (t + 4 * i)) = s + of_nat k"
      "string_at m (s + of_nat k) (ss ! i)" using assms(1) unfolding table_def by blast
    with True show ?thesis by (intro exI [of _ k]) (simp add: nth_append del: of_nat_add)
  next
    case False
    with i have "i = length ss" by simp
    with assms show ?thesis by (intro exI [of _ hi]) (simp del: of_nat_add)
  qed
qed

lemma table_strings_at: "table m s t h hi ss \<Longrightarrow> strings_at m (s + of_nat t) ss"
  unfolding table_def strings_at_def by (force simp: add.assoc)

lemma store_word_agree:
  "k + 4 \<le> 2 ^ 32 \<Longrightarrow> b \<le> 2 ^ 32 \<Longrightarrow> b \<le> k \<or> k + 4 \<le> a \<Longrightarrow> agree s a b m (store_word (s + of_nat k) w m)"
  by (simp add: store_word_def store_agree)

lemma store_string_agree:
  "k + length x + 1 \<le> 2 ^ 32 \<Longrightarrow> b \<le> 2 ^ 32 \<Longrightarrow> b \<le> k \<or> k + length x + 1 \<le> a \<Longrightarrow>
   agree s a b m (store_string (s + of_nat k) x m)"
  by (simp add: store_string_def store_agree)

text \<open>One more entry: its pointer at the end of the table and its string behind the others.\<close>

lemma table_add:
  assumes "table m s t h hi ss" "t + 4 * length ss + 4 \<le> h" "h \<le> hi" "hi + length x + 1 \<le> 2 ^ 32"
  defines "k \<equiv> t + 4 * length ss"
  shows "table (store_string (s + of_nat hi) x (store_word (s + of_nat k) (s + of_nat hi) m)) s t h (hi + length x + 1) (ss @ [x])"
    "table (store_word (s + of_nat k) (s + of_nat hi) (store_string (s + of_nat hi) x m)) s t h (hi + length x + 1) (ss @ [x])"
proof -
  have k: "k + 4 \<le> h" "k + 4 \<le> 2 ^ 32" "t + 4 * length ss \<le> k" using assms(2-4) by (simp_all add: k_def)
  note w = store_word_agree [OF k(2)] and str = store_string_agree [OF assms(4)]
  let ?w = "store_word (s + of_nat k) (s + of_nat hi)" and ?s = "store_string (s + of_nat hi) x"
  show "table (?s (?w m)) s t h (hi + length x + 1) (ss @ [x])"
  proof (rule table_snoc)
    have "agree s t (t + 4 * length ss) m (?w m)" "agree s h hi m (?w m)" using k assms(2-4) by (auto intro!: w)
    moreover have "agree s t (t + 4 * length ss) (?w m) (?s (?w m))" "agree s h hi (?w m) (?s (?w m))" using assms(2-4) by (auto intro!: str)
    ultimately show "table (?s (?w m)) s t h hi ss" using table_agree [OF assms(1)] agree_trans by blast
    have "agree s k (k + 4) (?w m) (?s (?w m))" using k assms(3,4) by (intro str) simp_all
    then show "load_word (?s (?w m)) (s + of_nat (t + 4 * length ss)) = s + of_nat hi"
      unfolding k_def [symmetric] by (simp only: load_word_agree load_word_store)
    show "string_at (?s (?w m)) (s + of_nat hi) x" using assms(4) by (intro string_at_store) simp
  qed (rule assms(3))
  show "table (?w (?s m)) s t h (hi + length x + 1) (ss @ [x])"
  proof (rule table_snoc)
    have "agree s t (t + 4 * length ss) m (?s m)" "agree s h hi m (?s m)" using assms(2-4) by (auto intro!: str)
    moreover have "agree s t (t + 4 * length ss) (?s m) (?w (?s m))" "agree s h hi (?s m) (?w (?s m))" using k assms(2-4) by (auto intro!: w)
    ultimately show "table (?w (?s m)) s t h hi ss" using table_agree [OF assms(1)] agree_trans by blast
    show "load_word (?w (?s m)) (s + of_nat (t + 4 * length ss)) = s + of_nat hi"
      unfolding k_def [symmetric] by (rule load_word_store)
    have "agree s hi (hi + length x + 1) (?s m) (?w (?s m))" using k assms(3,4) by (intro w) simp_all
    then show "string_at (?w (?s m)) (s + of_nat hi) x"
      using assms(4) by (simp only: string_at_agree) (intro string_at_store, simp)
  qed (rule assms(3))
qed

text \<open>The state of the loop after the arguments \<open>ss\<close>, with the next string at offset \<open>hi\<close>.\<close>

definition args_state :: "u32 \<Rightarrow> mem \<Rightarrow> string list \<Rightarrow> nat \<Rightarrow> arg_st \<Rightarrow> bool" where
  "args_state s m ss hi st \<longleftrightarrow> arg_count st = Suc (length ss) \<and> argp st = s + of_nat hi \<and> 1024 \<le> hi \<and>
     table (arg_mem st) s 4 1024 hi ss \<and> agree s 0 4 m (arg_mem st) \<and> agree s hi (2 ^ 32) m (arg_mem st)"

lemma args_state_add:
  assumes "args_state s m ss hi st" "length ss < 255" "hi + length x + 1 \<le> 2 ^ 32"
  shows "args_state s m (ss @ [x]) (hi + length x + 1) (add_arg s x st)"
    "args_state s m (ss @ [x]) (hi + length x + 1) (add_mem_arg s x st)"
proof -
  define k where "k = 4 + 4 * length ss"
  have p: "s + 4 * of_nat (arg_count st) = s + of_nat k" "argp st = s + of_nat hi" "1024 \<le> hi"
    using assms(1) by (simp_all add: args_state_def k_def)
  let ?m = "arg_mem st"
  have t: "table ?m s 4 1024 hi ss" and a: "agree s 0 4 m ?m" "agree s hi (2 ^ 32) m ?m"
    using assms(1) by (simp_all add: args_state_def)
  have k: "k + 4 \<le> 1024" "k + 4 \<le> 2 ^ 32" "4 \<le> k" using assms(2) by (simp_all add: k_def)
  note tab = table_add [OF t k(1) [unfolded k_def] p(3) assms(3), folded k_def]
  note w = store_word_agree [OF k(2)] and str = store_string_agree [OF assms(3)]
  let ?w = "store_word (s + of_nat k) (s + of_nat hi)" and ?s = "store_string (s + of_nat hi) x"
  have both: "agree s a b m (?s (?w ?m))" "agree s a b m (?w (?s ?m))"
    if "agree s a b m ?m" "b \<le> 2 ^ 32" "b \<le> k \<or> k + 4 \<le> a" "b \<le> hi \<or> hi + length x + 1 \<le> a" for a b
    using agree_trans [OF agree_trans [OF that(1) w] str] agree_trans [OF agree_trans [OF that(1) str] w] that(2-4) by auto
  have f: "agree s 0 4 m (?s (?w ?m))" "agree s 0 4 m (?w (?s ?m))" using p(3) k(3) by (auto intro!: both a(1))
  have "agree s (hi + length x + 1) (2 ^ 32) m ?m" using a(2) by (elim agree_mono) simp_all
  then have g: "agree s (hi + length x + 1) (2 ^ 32) m (?s (?w ?m))" "agree s (hi + length x + 1) (2 ^ 32) m (?w (?s ?m))"
    using p(3) k(1) by (auto intro!: both)
  show "args_state s m (ss @ [x]) (hi + length x + 1) (add_arg s x st)"
    using assms(1) tab(1) f(1) g(1) p unfolding args_state_def add_arg_def by (simp add: add.assoc)
  show "args_state s m (ss @ [x]) (hi + length x + 1) (add_mem_arg s x st)"
    using assms(1) tab(2) f(2) g(2) p unfolding args_state_def add_mem_arg_def by (simp add: add.assoc)
qed

definition args_size :: "string list \<Rightarrow> nat" where
  "args_size ss = sum_list (map (\<lambda>s. length s + 1) ss)"

lemma args_size_simps [simp]: "args_size [] = 0" "args_size (x # ss) = length x + 1 + args_size ss"
    "args_size (ss @ ts) = args_size ss + args_size ts"
  by (simp_all add: args_size_def)

lemma boot_args_Nil [simp]: "boot_args [] = []"
  by (simp add: boot_args.simps)

lemma boot_args_Cons:
  "line \<noteq> [] \<Longrightarrow> boot_args line = fst (split_arg line) # boot_args (snd (split_arg line))"
  by (auto simp: boot_args.simps [of line] split_arg_spec split: prod.splits option.splits)

lemma split_arg_length:
  "line \<noteq> [] \<Longrightarrow> length (snd (split_arg line)) < length line \<and>
   length (fst (split_arg line)) + (if snd (split_arg line) = [] then 0 else length (snd (split_arg line)) + 1) \<le> length line"
  using next_arg_parts [of False line] by (auto simp: split_arg_spec split: prod.splits option.splits)

lemma boot_args_size: "args_size (boot_args line) \<le> length line + 1"
proof (induction "length line" arbitrary: line rule: less_induct)
  case less
  show ?case
  proof (cases "line = []")
    case False
    note l = split_arg_length [OF False]
    show ?thesis using less [of "snd (split_arg line)"] l boot_args_Cons [OF False]
      by (cases "snd (split_arg line) = []") simp_all
  qed simp
qed

lemma args_loop_state:
  assumes "args_state s m ss hi st" "length ss + length (boot_args line) \<le> 255" "hi + args_size (boot_args line) \<le> 2 ^ 32"
  shows "args_state s m (ss @ boot_args line) (hi + args_size (boot_args line)) (args_loop s line st)"
  using assms
proof (induction "length line" arbitrary: line ss hi st rule: less_induct)
  case less
  show ?case
  proof (cases "line = []")
    case True
    then show ?thesis using less.prems by (simp add: args_loop.simps)
  next
    case False
    obtain arg rest where sp: "split_arg line = (arg, rest)" by force
    have b: "boot_args line = arg # boot_args rest" using boot_args_Cons [OF False] sp by simp
    have c: "arg_count st = Suc (length ss)" using less.prems(1) by (simp add: args_state_def)
    have "args_state s m (ss @ [arg]) (hi + length arg + 1) (add_arg s arg st)"
      using less.prems b by (intro args_state_add) simp_all
    then have "args_state s m ((ss @ [arg]) @ boot_args rest) (hi + length arg + 1 + args_size (boot_args rest))
        (args_loop s rest (add_arg s arg st))"
      using less.prems b split_arg_length [OF False] sp by (intro less.hyps) simp_all
    moreover have "args_loop s line st = args_loop s rest (add_arg s arg st)"
      using False c less.prems(2) b sp by (simp add: args_loop.simps [of s line])
    ultimately show ?thesis by (simp add: b add.assoc)
  qed
qed

subsection \<open>\<open>strstr\<close>\<close>

lemma strstr_iff: "strstr s1 s2 \<noteq> None \<longleftrightarrow> sublist s2 s1"
proof -
  have "strstr_loop s1 s2 \<noteq> None \<longleftrightarrow> sublist s2 s1" if "s2 \<noteq> []"
    using that
  proof (induction s1)
    case (Cons c s1)
    have p: "prefix s2 (c # s1) \<longleftrightarrow> take (length s2) (c # s1) = s2 \<and> length s2 \<le> length (c # s1)"
      by (metis append_eq_conv_conj append_take_drop_id nat_le_linear prefixE prefixI prefix_length_le take_all_iff)
    show ?case using Cons.IH [OF Cons.prems] p sublist_length_le [of s2 s1]
      by (auto simp: sublist_Cons_right simp del: take_Suc_Cons)
  qed simp
  then show ?thesis by (auto simp: strstr_def)
qed

subsection \<open>Alignment\<close>

lemma align16: "\<exists>d<16. (a + 15) AND NOT 15 = a + of_nat d" for a :: u32
proof -
  let ?x = "a + 15"
  have "?x = (?x AND 15) + (?x AND NOT 15)"
    by (subst disjunctive_add) (auto simp: bit_simps intro!: bit_word_eqI)
  moreover have "?x AND 15 = take_bit 4 ?x" by (simp add: take_bit_eq_mask mask_eq_exp_minus_1)
  ultimately have "?x AND NOT 15 = a + (15 - take_bit 4 ?x)" by (simp add: algebra_simps)
  moreover have "unat (take_bit 4 ?x) < 16" by (simp add: unsigned_take_bit_eq take_bit_nat_def)
  then have "15 - take_bit 4 ?x = of_nat (15 - unat (take_bit 4 ?x))" by (simp add: of_nat_diff)
  ultimately show ?thesis by (intro exI [of _ "15 - unat (take_bit 4 ?x)"]) simp
qed

subsection \<open>The parameter area\<close>

text \<open>
  The area after the arguments \<open>args\<close> and the environment strings \<open>es\<close>: the argument strings end at
  offset \<open>hi\<close>, the environment array is at offset \<open>e\<close> and its strings end at \<open>ehi\<close>.
\<close>

definition area_state :: "u32 \<Rightarrow> mem \<Rightarrow> string list \<Rightarrow> nat \<Rightarrow> nat \<Rightarrow> string list \<Rightarrow> nat \<Rightarrow> linux_st \<Rightarrow> bool" where
  "area_state s m args hi e es ehi st \<longleftrightarrow>
     linux_argc st = Suc (length args) \<and> linux_argv st = s \<and> linux_env st = s + of_nat e \<and>
     linux_env_p st = s + of_nat ehi \<and> linux_env_idx st = length es \<and>
     1024 \<le> hi \<and> hi \<le> e \<and> e + 1024 \<le> ehi \<and> length args \<le> 255 \<and> length es \<le> 255 \<and>
     load_word (linux_mem st) s = 0 \<and> table (linux_mem st) s 4 1024 hi args \<and>
     table (linux_mem st) s e (e + 1024) ehi es \<and>
     load_word (linux_mem st) (s + of_nat (e + 4 * length es)) = 0 \<and> agree s ehi (2 ^ 32) m (linux_mem st)"

lemma linux_params_area:
  fixes line ram_size
  defines "args \<equiv> boot_args line @ (if sublist ''mem='' line then [] else [mem_arg ram_size])"
  assumes "length args \<le> 255" "1024 + args_size args + 15 + 1024 \<le> 2 ^ 32"
  shows "\<exists>st e. linux_params_init start (Some line) ram_size m = Inr st \<and> e < 1024 + args_size args + 16 \<and>
    area_state start m args (1024 + args_size args) e [] (e + 1024) st"
proof -
  let ?st0 = "\<lparr>arg_count = 1, argp = start + 4 * of_nat LINUX_MAX_ARGS, arg_mem = store_word start 0 m\<rparr>"
  have "args_state start (store_word start 0 m) [] 1024 ?st0" by (simp add: args_state_def table_def)
  then have 1: "args_state start (store_word start 0 m) (boot_args line) (1024 + args_size (boot_args line)) (args_loop start line ?st0)"
    using args_loop_state [of start _ "[]" 1024 ?st0 line] assms by simp
  define st where "st = (if strstr line ''mem='' = None then add_mem_arg start (mem_arg ram_size) (args_loop start line ?st0)
      else args_loop start line ?st0)"
  have 2: "args_state start (store_word start 0 m) args (1024 + args_size args) st"
    using 1 args_state_add(2) [OF 1, of "mem_arg ram_size"] assms(2,3) strstr_iff [of line "''mem=''"]
    by (auto simp: st_def args_def add.assoc)
  obtain d where d: "d < 16" "(argp st + 15) AND NOT 15 = argp st + of_nat d" using align16 by blast
  define e where "e = 1024 + args_size args + d"
  have env: "(argp st + 15) AND NOT 15 = start + of_nat e" using 2 d(2) by (simp add: e_def args_state_def add.assoc)
  let ?m = "store_word (start + of_nat e) 0 (arg_mem st)"
  have e: "e + 4 \<le> 2 ^ 32" using d(1) assms(3) by (simp add: e_def)
  note w = store_word_agree [OF e]
  have s2: "agree start 0 4 (store_word start 0 m) (arg_mem st)" "agree start (1024 + args_size args) (2 ^ 32) (store_word start 0 m) (arg_mem st)"
    "table (arg_mem st) start 4 1024 (1024 + args_size args) args" "arg_count st = Suc (length args)"
    using 2 by (simp_all add: args_state_def)
  have m0: "agree start (e + 1024) (2 ^ 32) m (store_word start 0 m)"
    using store_word_agree [of 0 "2 ^ 32" "e + 1024" start m 0] by simp
  have "agree start 0 4 (store_word start 0 m) ?m" using agree_trans [OF s2(1) w] by (simp add: e_def)
  then have "load_word ?m (start + of_nat 0) = load_word (store_word start 0 m) (start + of_nat 0)" by (intro load_word_agree) simp
  then have z: "load_word ?m start = 0" by simp
  have t: "table ?m start 4 1024 (1024 + args_size args) args"
    using assms(2) e by (intro table_agree [OF s2(3)] w) (simp_all add: e_def)
  have "agree start (e + 1024) (2 ^ 32) (arg_mem st) ?m" by (intro w) simp_all
  moreover have "agree start (e + 1024) (2 ^ 32) (store_word start 0 m) (arg_mem st)"
    using s2(2) by (elim agree_mono) (simp_all add: e_def)
  ultimately have a: "agree start (e + 1024) (2 ^ 32) m ?m" using m0 agree_trans by blast
  have "linux_params_init start (Some line) ram_size m =
    Inr \<lparr>linux_argc = arg_count st, linux_argv = start, linux_env = start + of_nat e,
      linux_env_p = start + of_nat e + 4 * of_nat LINUX_MAX_ENVS, linux_env_idx = 0, linux_mem = ?m\<rparr>"
    by (simp only: linux_params_init_def Let_def option.case env flip: st_def)
  moreover have "area_state start m args (1024 + args_size args) e [] (e + 1024)
      \<lparr>linux_argc = arg_count st, linux_argv = start, linux_env = start + of_nat e,
        linux_env_p = start + of_nat e + 4 * of_nat LINUX_MAX_ENVS, linux_env_idx = 0, linux_mem = ?m\<rparr>"
    using t z a s2(4) assms(2) by (simp add: area_state_def table_def [of _ _ _ _ _ "[]"] e_def add.assoc)
  moreover have "e < 1024 + args_size args + 16" using d(1) by (simp add: e_def)
  ultimately show ?thesis by blast
qed

lemma linux_env_set_area:
  assumes "area_state s m args hi e es ehi st" "length es < 255" "ehi + length (n @ ''='' @ v) + 1 \<le> 2 ^ 32"
  shows "area_state s m args hi e (es @ [n @ ''='' @ v]) (ehi + length (n @ ''='' @ v) + 1) (linux_env_set n v st)"
proof -
  let ?x = "n @ ''='' @ v"
  define k where "k = e + 4 * length es"
  let ?m0 = "linux_mem st"
  let ?m1 = "store_string (s + of_nat ehi) ?x (store_word (s + of_nat k) (s + of_nat ehi) ?m0)"
  let ?m2 = "store_word (s + of_nat (k + 4)) 0 ?m1"
  have st: "linux_argc st = Suc (length args)" "linux_argv st = s" "linux_env st = s + of_nat e" "linux_env_p st = s + of_nat ehi"
      "linux_env_idx st = length es" "1024 \<le> hi" "hi \<le> e" "e + 1024 \<le> ehi" "length args \<le> 255" "load_word ?m0 s = 0"
      "table ?m0 s 4 1024 hi args" "table ?m0 s e (e + 1024) ehi es" "agree s ehi (2 ^ 32) m ?m0"
    using assms(1) by (simp_all add: area_state_def)
  have k: "k + 4 \<le> 2 ^ 32" "k + 8 \<le> e + 1024" "e + 4 * length es \<le> k" "e \<le> k" using st assms(2,3) by (simp_all add: k_def)
  have p: "s + 4 * of_nat (length es) = s + of_nat (4 * length es)" by simp
  have strs: "store_string (s + of_nat ehi + of_nat (length n) + 1) v
      (store_string (s + of_nat ehi + of_nat (length n)) ''='' (store_string (s + of_nat ehi) n m')) = store_string (s + of_nat ehi) ?x m'" for m'
    using store_string_append [of n "''=''" "s + of_nat ehi" m'] store_string_append [of "n @ ''=''" v "s + of_nat ehi" m'] assms(3)
    by (simp add: ac_simps)
  have upd: "linux_env_set n v st = st\<lparr>linux_env_p := s + of_nat (ehi + length ?x + 1), linux_env_idx := length es + 1, linux_mem := ?m2\<rparr>"
    using assms(2) unfolding linux_env_set_def Let_def st(3-5) strs by (simp add: k_def ac_simps)
  have ag: "agree s a b ?m0 ?m2" if "b \<le> 2 ^ 32" "b \<le> k \<or> k + 8 \<le> a" "b \<le> ehi \<or> ehi + length ?x + 1 \<le> a" for a b
  proof -
    have "agree s a b ?m0 (store_word (s + of_nat k) (s + of_nat ehi) ?m0)" using that k by (intro store_word_agree) auto
    moreover have "agree s a b (store_word (s + of_nat k) (s + of_nat ehi) ?m0) ?m1" using that assms(3) by (intro store_string_agree) auto
    moreover have "agree s a b ?m1 ?m2" using that k st assms(3) by (intro store_word_agree) auto
    ultimately show ?thesis using agree_trans by blast
  qed
  have t1: "table ?m2 s 4 1024 hi args" using st k assms(3) by (intro table_agree [OF st(11)] ag) auto
  have "table ?m1 s e (e + 1024) (ehi + length ?x + 1) (es @ [?x])"
    using table_add(1) [OF st(12), of ?x] assms(2,3) st k by (simp add: k_def)
  then have t2: "table ?m2 s e (e + 1024) (ehi + length ?x + 1) (es @ [?x])"
    using k st assms(3) by (elim table_agree; intro store_word_agree) simp_all
  have "load_word ?m2 (s + of_nat 0) = load_word ?m0 (s + of_nat 0)" using k st by (intro load_word_agree ag) auto
  then have z: "load_word ?m2 s = 0" using st(10) by simp
  have "agree s (ehi + length ?x + 1) (2 ^ 32) m ?m0" using st(13) by (elim agree_mono) simp_all
  then have a: "agree s (ehi + length ?x + 1) (2 ^ 32) m ?m2" using k st by (intro agree_trans [OF _ ag]) auto
  have z2: "load_word ?m2 (s + of_nat (e + 4 * length (es @ [?x]))) = 0"
    using load_word_store [of "s + of_nat (k + 4)" 0 ?m1] by (simp add: k_def add.assoc add.commute add.left_commute)
  show ?thesis
    unfolding upd area_state_def
    using st(1-3,6-9) assms(2) t1 t2 z z2 a by simp
qed

definition env_strings :: "(string \<times> string) list \<Rightarrow> string list" where
  "env_strings vars = map (\<lambda>(n, v). n @ ''='' @ v) vars"

definition linux_env_set_all :: "(string \<times> string) list \<Rightarrow> linux_st \<Rightarrow> linux_st" where
  "linux_env_set_all vars st = fold (\<lambda>(n, v). linux_env_set n v) vars st"

lemma linux_env_set_all_area:
  assumes "area_state s m args hi e es ehi st" "length es + length vars \<le> 255" "ehi + args_size (env_strings vars) \<le> 2 ^ 32"
  shows "area_state s m args hi e (es @ env_strings vars) (ehi + args_size (env_strings vars)) (linux_env_set_all vars st)"
  using assms
proof (induction vars arbitrary: es ehi st)
  case Nil
  then show ?case by (simp add: env_strings_def linux_env_set_all_def)
next
  case (Cons nv vars)
  obtain n v where nv: "nv = (n, v)" by force
  let ?x = "n @ ''='' @ v"
  have c: "env_strings (nv # vars) = ?x # env_strings vars" by (simp add: env_strings_def nv)
  have "area_state s m args hi e (es @ [?x]) (ehi + length ?x + 1) (linux_env_set n v st)"
    using Cons.prems c by (intro linux_env_set_area) simp_all
  then have "area_state s m args hi e ((es @ [?x]) @ env_strings vars) (ehi + length ?x + 1 + args_size (env_strings vars))
      (linux_env_set_all vars (linux_env_set n v st))"
    using Cons.prems c by (intro Cons.IH) simp_all
  then show ?case using c by (simp add: nv linux_env_set_all_def add.assoc)
qed

text \<open>What the kernel finds at \<open>argv\<close> and at the environment array.\<close>

definition kernel_args :: "mem \<Rightarrow> u32 \<Rightarrow> nat \<Rightarrow> string list \<Rightarrow> bool" where
  "kernel_args m argv argc args \<longleftrightarrow> argc = Suc (length args) \<and> load_word m argv = 0 \<and> strings_at m (argv + 4) args"

definition kernel_env :: "mem \<Rightarrow> u32 \<Rightarrow> (string \<times> string) list \<Rightarrow> bool" where
  "kernel_env m env vars \<longleftrightarrow> strings_at m env (env_strings vars) \<and> load_word m (env + 4 * of_nat (length vars)) = 0"

lemma area_kernel:
  assumes "area_state s m args hi e (env_strings vars) ehi st"
  shows "linux_argv st = s" "kernel_args (linux_mem st) s (linux_argc st) args"
    "kernel_env (linux_mem st) (linux_env st) vars" "agree s ehi (2 ^ 32) m (linux_mem st)"
  using assms table_strings_at [of "linux_mem st" s 4 1024 hi args]
    table_strings_at [of "linux_mem st" s e "e + 1024" ehi "env_strings vars"]
  by (simp_all add: area_state_def kernel_args_def kernel_env_def env_strings_def add.assoc)

lemma linux_params_kernel:
  fixes line ram_size vars
  defines "args \<equiv> boot_args line @ (if sublist ''mem='' line then [] else [mem_arg ram_size])"
  defines "n \<equiv> 1024 + args_size args + 15 + 1024 + args_size (env_strings vars)"
  assumes "length args \<le> 255" "length vars \<le> 255" "n \<le> 2 ^ 32"
  shows "\<exists>st. linux_params_init start (Some line) ram_size m = Inr st \<and>
    (let st = linux_env_set_all vars st in
     linux_argv st = start \<and> kernel_args (linux_mem st) start (linux_argc st) args \<and>
     kernel_env (linux_mem st) (linux_env st) vars \<and> agree start n (2 ^ 32) m (linux_mem st))"
proof -
  obtain st e where st: "linux_params_init start (Some line) ram_size m = Inr st" "e < 1024 + args_size args + 16"
    "area_state start m args (1024 + args_size args) e [] (e + 1024) st"
    using linux_params_area [of line ram_size start m] assms unfolding args_def by auto
  have "area_state start m args (1024 + args_size args) e ([] @ env_strings vars) (e + 1024 + args_size (env_strings vars)) (linux_env_set_all vars st)"
    using st(2) assms by (intro linux_env_set_all_area [OF st(3)]) simp_all
  note k = area_kernel [OF this [unfolded append_Nil]]
  have "agree start n (2 ^ 32) m (linux_mem (linux_env_set_all vars st))"
    using k(4) st(2) by (elim agree_mono) (simp_all add: n_def)
  then show ?thesis using st(1) k by (auto simp: Let_def)
qed

subsection \<open>Property\<close>

text \<open>
  C6: The parameters of the kernel in memory: \<open>argv\<close> is a null pointer followed by pointers to the
  words of the command line, as many as \<open>argc\<close> says (a blank inside double quotes does not separate),
  with a last word \<open>mem=\<close> if the line has none; the environment array points to the strings
  \<open>name=value\<close> in the order they were set and ends with a null pointer. Nothing is written outside
  the area. Conditions: at most 255 arguments, at most 255 variables, and an area within memory.
\<close>
theorem linux_params_in_memory:
  fixes line ram_size vars
  defines "args \<equiv> boot_args line @ (if sublist ''mem='' line then [] else [mem_arg ram_size])"
  defines "n \<equiv> 1024 + args_size args + 15 + 1024 + args_size (env_strings vars)"
  assumes "length args \<le> 255" "length vars \<le> 255" "n \<le> 2 ^ 32"
  shows "\<exists>st0 st. linux_params_init start (Some line) ram_size m = Inr st0 \<and> st = linux_env_set_all vars st0 \<and>
    linux_argv st = start \<and> kernel_args (linux_mem st) start (linux_argc st) args \<and>
    kernel_env (linux_mem st) (linux_env st) vars \<and>
    (\<forall>i. n \<le> i \<and> i < 2 ^ 32 \<longrightarrow> linux_mem st (start + of_nat i) = m (start + of_nat i))"
  using linux_params_kernel [of line ram_size vars start m] assms(3-5)
  unfolding args_def n_def Let_def agree_def by blast

lemma mem_arg_32M: "mem_arg 0x2000000 = ''mem=32M''"
  by code_simp

theorem linux_params_in_memory_witness:
  "\<exists>st0 st. linux_params_init 0xa1f00000 (Some ''a \"b c\"d e'') 0x2000000 (\<lambda>_. 0) = Inr st0 \<and>
    st = linux_env_set_all [(''memsize'', ''33554432'')] st0 \<and>
    kernel_args (linux_mem st) 0xa1f00000 (linux_argc st) [''a'', ''\"b c\"d'', ''e'', ''mem=32M''] \<and>
    kernel_env (linux_mem st) (linux_env st) [(''memsize'', ''33554432'')]"
proof -
  have b: "boot_args ''a \"b c\"d e'' = [''a'', ''\"b c\"d'', ''e'']" by code_simp
  show ?thesis
    using linux_params_in_memory [of "''a \"b c\"d e''" "0x2000000" "[(''memsize'', ''33554432'')]" "0xa1f00000" "\<lambda>_. 0"]
    by (auto simp: b mem_arg_32M args_size_def env_strings_def sublist_Cons_right)
qed

end
