(* ===== verification/Bootm.thy ===== *)
theory Bootm
  imports LinuxBoot FlashCmd LzmaWrapper Crc
begin

text \<open>
  Booting: \<open>do_bootm\<close> of \<open>common/cmd_bootm.c\<close> (the variant for images with a TP-LINK tag) and
  \<open>do_bootm_linux\<close> of \<open>lib_mips/mips_linux.c\<close>. The decompressor is \<open>lzma_inflate\<close> of theory \<open>LzmaWrapper\<close>
  on the bytes of memory, the parameters are those of theory \<open>LinuxBoot\<close>. The result is what the
  kernel is entered with. Cache operations and messages have no effect here.
\<close>

subsection \<open>Images\<close>

record image_header =
  ih_magic :: u32
  ih_hcrc :: u32
  ih_time :: u32
  ih_size :: u32
  ih_load :: u32
  ih_ep :: u32
  ih_dcrc :: u32
  ih_os :: byte
  ih_arch :: byte
  ih_type :: byte
  ih_comp :: byte
  ih_name :: "byte list"

text \<open>The 64 bytes of a header.\<close>

definition header_bytes :: "image_header \<Rightarrow> byte list" where
  "header_bytes h =
     be32 (ih_magic h) @ be32 (ih_hcrc h) @ be32 (ih_time h) @ be32 (ih_size h) @ be32 (ih_load h) @
     be32 (ih_ep h) @ be32 (ih_dcrc h) @ [ih_os h, ih_arch h, ih_type h, ih_comp h] @ ih_name h"

definition header_of :: "byte list \<Rightarrow> image_header" where
  "header_of bs =
     \<lparr>ih_magic = get32 bs 0, ih_hcrc = get32 bs 4, ih_time = get32 bs 8, ih_size = get32 bs 12,
      ih_load = get32 bs 16, ih_ep = get32 bs 20, ih_dcrc = get32 bs 24,
      ih_os = bs ! 28, ih_arch = bs ! 29, ih_type = bs ! 30, ih_comp = bs ! 31, ih_name = get_bytes bs 32 32\<rparr>"

abbreviation (input) IH_MAGIC :: u32 where "IH_MAGIC \<equiv> 0x27051956"
abbreviation (input) IH_OS_LINUX :: byte where "IH_OS_LINUX \<equiv> 5"
abbreviation (input) IH_CPU_MIPS :: byte where "IH_CPU_MIPS \<equiv> 5"
abbreviation (input) IH_TYPE_KERNEL :: byte where "IH_TYPE_KERNEL \<equiv> 2"
abbreviation (input) IH_TYPE_RAMDISK :: byte where "IH_TYPE_RAMDISK \<equiv> 3"
abbreviation (input) IH_TYPE_MULTI :: byte where "IH_TYPE_MULTI \<equiv> 4"
abbreviation (input) IH_COMP_GZIP :: byte where "IH_COMP_GZIP \<equiv> 1"
abbreviation (input) IH_NMLEN :: nat where "IH_NMLEN \<equiv> 32"
abbreviation (input) TAG_LEN :: u32 where "TAG_LEN \<equiv> 512"
abbreviation (input) CFG_BOOTM_LEN :: u32 where "CFG_BOOTM_LEN \<equiv> 0x1000000"

text \<open>The header made up for the kernel of a tagged image.\<close>

definition fake_image_header :: "u32 \<Rightarrow> u32 \<Rightarrow> u32 \<Rightarrow> image_header" where
  "fake_image_header kernelTextAddr entryPoint sz =
     \<lparr>ih_magic = IH_MAGIC, ih_hcrc = 0, ih_time = 0, ih_size = sz, ih_load = kernelTextAddr, ih_ep = entryPoint,
      ih_dcrc = 0, ih_os = IH_OS_LINUX, ih_arch = IH_CPU_MIPS, ih_type = IH_TYPE_KERNEL, ih_comp = IH_COMP_GZIP,
      ih_name = map of_char ''(none)'' @ replicate (IH_NMLEN - 6) 0\<rparr>"

subsection \<open>Entering the kernel\<close>

record board_data =
  bi_boot_params :: u32
  bi_flashstart :: u32
  bi_flashsize :: u32
  gd_ram_size :: u32

datatype bootm_exit =
    Params boot_exit
  | Board_Reset
  | Endless_Scan
  | Lzma_Fault lzma_exit
  | Unmodelled_Store   \<comment> \<open>the decompressor would overwrite its input or write into the flash window\<close>

text \<open>
  The call of the kernel: its entry point, its four arguments (\<open>argc\<close>, \<open>argv\<close>, the size of the RAM and of the flash) and the
  memory. \<open>k_left_env\<close> is the static \<open>linux_env\<close>, the address of an environment that is left in memory but not passed.
\<close>

record kernel_call =
  k_entry :: u32
  k_argc :: nat
  k_argv :: u32
  k_mem_size :: u32
  k_flash_mb :: u32
  k_left_env :: u32
  k_ram :: mem

definition KSEG1ADDR :: "u32 \<Rightarrow> u32" where
  "KSEG1ADDR a = (a AND 0x1fffffff) OR 0xa0000000"

definition sprintf1 :: "string \<Rightarrow> u32 \<Rightarrow> string" where
  "sprintf1 fmt w = (case vsprintf fmt [VInt w] of None \<Rightarrow> [] | Some (_, s, _) \<Rightarrow> s)"

text \<open>
  The RAM disk of a second argument: \<open>len\<close> and the address of its data. All three checks end in a
  reset; the last two words of the code's header are those of the copy in \<open>header\<close>.
\<close>

definition initrd_image :: "mem \<Rightarrow> u32 \<Rightarrow> bool \<Rightarrow> bootm_exit + u32 \<times> u32" where
  "initrd_image rd addr verify =
     (let hdr = header_of (load_bytes rd addr 64) in
      if ih_magic hdr \<noteq> IH_MAGIC then Inl Board_Reset
      else if crc32 0 (header_bytes (hdr\<lparr>ih_hcrc := 0\<rparr>)) \<noteq> ih_hcrc hdr then Inl Board_Reset
      else
        let data = addr + 64; len = ih_size hdr in
        if verify \<and> crc32 0 (load_bytes rd data (unat len)) \<noteq> ih_dcrc hdr then Inl Board_Reset
        else if ih_os hdr \<noteq> IH_OS_LINUX \<or> ih_arch hdr \<noteq> IH_CPU_MIPS \<or> ih_type hdr \<noteq> IH_TYPE_RAMDISK
        then Inl Board_Reset
        else Inr (data, len))"

text \<open>The scan over the length fields of a multi-file image ends at a zero word.\<close>

partial_function (option) skip_lengths :: "mem \<Rightarrow> u32 \<Rightarrow> u32 \<Rightarrow> u32 option" where
  [code]: "skip_lengths rd p data = (if load_word rd p = 0 then Some data else skip_lengths rd (p + 4) (data + 4))"

definition multi_image :: "mem \<Rightarrow> u32 \<Rightarrow> bootm_exit + u32 \<times> u32" where
  "multi_image rd len_ptr =
     (let tail = load_word rd len_ptr mod 4 in
      case skip_lengths rd (len_ptr + 4) (len_ptr + 8) of
        None \<Rightarrow> Inl Endless_Scan
      | Some data \<Rightarrow>
          let data = data + load_word rd len_ptr;
              data = (if tail \<noteq> 0 then data + (4 - tail) else data) in
          Inr (data, load_word rd (len_ptr + 4)))"

definition linux_env_vars :: "board_data \<Rightarrow> u32 \<Rightarrow> u32 \<Rightarrow> (string \<times> string) list" where
  "linux_env_vars bd initrd_start initrd_size =
     [(''memsize'', sprintf1 ''%lu'' (gd_ram_size bd)),
      (''initrd_start'', sprintf1 ''0x%08X'' (KSEG1ADDR initrd_start)),
      (''initrd_size'', sprintf1 ''0x%X'' initrd_size),
      (''flash_start'', sprintf1 ''0x%08X'' (bi_flashstart bd)),
      (''flash_size'', sprintf1 ''0x%X'' (bi_flashsize bd))]"

text \<open>\<open>hdr\<close> is the header of the kernel; \<open>len_ptr\<close> and \<open>verify\<close> are arguments.\<close>

definition do_bootm_linux ::
  "board_data \<Rightarrow> string option \<Rightarrow> string list \<Rightarrow> image_header \<Rightarrow> u32 \<Rightarrow> bool \<Rightarrow> mach \<Rightarrow> bootm_exit + kernel_call" where
  "do_bootm_linux bd commandline argv hdr len_ptr verify m =
     rbind (if length argv \<ge> 3 then initrd_image (m_load m) (fst (simple_strtoul (argv ! 2) 16)) verify
            else if ih_type hdr = IH_TYPE_MULTI \<and> load_word (m_load m) (len_ptr + 4) \<noteq> 0
            then multi_image (m_load m) len_ptr
            else Inr (0, 0)) (\<lambda>(data, len).
     let (initrd_start, initrd_end) = (if data \<noteq> 0 then (data, data + len) else (0, 0)) in
     case linux_params_init (KSEG1ADDR (bi_boot_params bd)) commandline (gd_ram_size bd) (m_ram m) of
       Inl e \<Rightarrow> Inl (Params e)
     | Inr st \<Rightarrow>
         let st = linux_env_set_all (linux_env_vars bd initrd_start (initrd_end - initrd_start)) st in
         Inr \<lparr>k_entry = ih_ep hdr, k_argc = linux_argc st, k_argv = linux_argv st, k_mem_size = gd_ram_size bd,
              k_flash_mb = bi_flashsize bd div 0x100000, k_left_env = linux_env st, k_ram = linux_mem st\<rparr>)"

subsection \<open>\<open>bootm\<close>\<close>

text \<open>
  The decompressor as a change of memory: its input is what it can read from \<open>data\<close> on, its output goes
  to \<open>load\<close>. \<open>d_len\<close> is the address of \<open>unc_len\<close>; \<open>alloc\<close>, \<open>old\<close> and \<open>rpos\<close> are those of \<open>lzma_inflate\<close>.
  The model ends where the output range meets the input (as bytes of the RAM, whatever their addresses) or the flash window.
\<close>

definition inflate_input :: "mach \<Rightarrow> u32 \<Rightarrow> u32 \<Rightarrow> u32 \<Rightarrow> byte list" where
  "inflate_input m data len rpos = load_bytes (m_load m) data (unat rpos + 13 + unat (len - 13))"

text \<open>The cached and the uncached address of a byte of RAM; \<open>meets_area p s n\<close>: \<open>p\<close> is one of the \<open>n\<close> bytes from \<open>s\<close> on, under either.\<close>

definition PHYSADDR :: "u32 \<Rightarrow> u32" where
  "PHYSADDR a = a AND 0x1fffffff"

definition meets_area :: "u32 \<Rightarrow> u32 \<Rightarrow> nat \<Rightarrow> bool" where
  "meets_area p s n \<longleftrightarrow> list_ex (\<lambda>j. PHYSADDR p = PHYSADDR (s + of_nat j)) [0..<n]"

definition store_ok :: "u32 \<Rightarrow> nat \<Rightarrow> u32 \<Rightarrow> nat \<Rightarrow> bool" where
  "store_ok data n dst k \<longleftrightarrow>
     list_all (\<lambda>i. \<not> flash_window (dst + of_nat i) \<and> \<not> meets_area (dst + of_nat i) data n) [0..<k]"

definition inflate_mem ::
  "(nat \<Rightarrow> bool) \<Rightarrow> (nat \<Rightarrow> u16) \<Rightarrow> u32 \<Rightarrow> u32 \<Rightarrow> u32 \<Rightarrow> u32 \<Rightarrow> u32 \<Rightarrow> u32 \<Rightarrow> mach \<Rightarrow> bootm_exit + int \<times> mach" where
  "inflate_mem alloc old d_len d_cap rpos data len dst m =
     (let src = inflate_input m data len rpos in
      case lzma_inflate alloc old src len d_len d_cap rpos of
        Inl e \<Rightarrow> Inl (Lzma_Fault e)
      | Inr r \<Rightarrow>
          (case dest r of
             None \<Rightarrow> Inr (ret r, m)
           | Some bs \<Rightarrow>
               if store_ok data (length src) dst (length bs)
               then Inr (ret r, m\<lparr>m_ram := store dst bs (m_ram m)\<rparr>) else Inl Unmodelled_Store))"

definition inflate_to ::
  "(nat \<Rightarrow> bool) \<Rightarrow> (nat \<Rightarrow> u16) \<Rightarrow> u32 \<Rightarrow> u32 \<Rightarrow> u32 \<Rightarrow> u32 \<Rightarrow> u32 \<Rightarrow> mach \<Rightarrow> bootm_exit + int \<times> mach" where
  "inflate_to alloc old d_len rpos data len dst m = inflate_mem alloc old d_len CFG_BOOTM_LEN rpos data len dst m"

definition do_bootm ::
  "(nat \<Rightarrow> bool) \<Rightarrow> (nat \<Rightarrow> u16) \<Rightarrow> u32 \<Rightarrow> u32 \<Rightarrow> board_data \<Rightarrow> string option \<Rightarrow> u32 \<Rightarrow> u32 \<Rightarrow>
   string list \<Rightarrow> mach \<Rightarrow> bootm_exit + kernel_call" where
  "do_bootm alloc old d_len rpos bd commandline load_addr len_ptr argv m =
     (let addr = (if length argv < 2 then load_addr else fst (simple_strtoul (argv ! 1) 16));
          hdr = fake_image_header (load_word (m_load m) (addr + 116)) (load_word (m_load m) (addr + 120))
                  (load_word (m_load m) (addr + 132));
          data = addr + TAG_LEN;
          len = ih_size hdr in
      rbind (inflate_to alloc old d_len rpos data len (ih_load hdr) m) (\<lambda>(i, m).
      if i \<noteq> 0 then Inl Board_Reset
      else do_bootm_linux bd commandline argv hdr len_ptr False m))"

subsection \<open>Lemmas on image headers\<close>

lemma be32_get32: "be32 (get32 bs k) = [bs ! k, bs ! Suc k, bs ! (k + 2), bs ! (k + 3)]"
proof -
  have c: "(ucast (drop_bit 8 (word_cat a b :: u16)) :: byte) = a" "(ucast (word_cat a b :: u16) :: byte) = b" for a b :: byte
    by (rule bit_word_eqI; auto simp: bit_word_cat_iff bit_simps)+
  have d: "(ucast (drop_bit 24 (word_cat x y :: u32)) :: byte) = ucast (drop_bit 8 x)"
      "(ucast (drop_bit 16 (word_cat x y :: u32)) :: byte) = ucast x"
      "(ucast (drop_bit 8 (word_cat x y :: u32)) :: byte) = ucast (drop_bit 8 y)"
      "(ucast (word_cat x y :: u32) :: byte) = ucast y" for x y :: u16
    by (rule bit_word_eqI; auto simp: bit_word_cat_iff bit_simps)+
  show ?thesis by (simp add: be32_def get32_def get16_def c d numeral_3_eq_3)
qed

lemma get32_inj: "get32 bs k = get32 bs' k \<Longrightarrow> j < 4 \<Longrightarrow> bs ! (k + j) = bs' ! (k + j)"
proof -
  assume "get32 bs k = get32 bs' k" "j < 4"
  then have "be32 (get32 bs k) ! j = be32 (get32 bs' k) ! j" by simp
  with \<open>j < 4\<close> show ?thesis by (auto simp: be32_get32 numeral_nat less_Suc_eq)
qed

lemma header_roundtrip: "length bs = 64 \<Longrightarrow> header_bytes (header_of bs) = bs"
proof -
  assume l: "length bs = 64"
  have "map ((!) bs) [0..<32] = take 32 bs" using l by (intro nth_equalityI) (simp_all del: upt_rec_numeral)
  then have "bs = map ((!) bs) [0..<32] @ drop 32 bs" by (simp del: upt_rec_numeral)
  moreover have "[0..<32] = [0, 1, 2, 3, 4, 5, 6, 7, 8, 9, 10, 11, 12, 13, 14, 15, 16, 17, 18, 19, 20, 21, 22, 23,
      24, 25, 26, 27, 28, 29, 30, 31]" by code_simp
  moreover have "header_bytes (header_of bs) = map ((!) bs) [0, 1, 2, 3, 4, 5, 6, 7, 8, 9, 10, 11, 12, 13, 14, 15, 16,
      17, 18, 19, 20, 21, 22, 23, 24, 25, 26, 27, 28, 29, 30, 31] @ drop 32 bs"
    using l by (simp add: header_bytes_def header_of_def be32_get32 get_bytes_def numeral_2_eq_2)
  ultimately show ?thesis by simp
qed

lemma header_of_bytes: "length (ih_name h) = 32 \<Longrightarrow> header_of (header_bytes h) = h"
  by (cases h) (simp add: header_of_def header_bytes_def get32_def get16_def be32_def get_bytes_def word_cat_split32)

lemma header_clear_crc:
  assumes "length bs = 64"
  shows "header_bytes ((header_of bs)\<lparr>ih_hcrc := 0\<rparr>) = put_bytes bs 4 (be32 0)"
proof -
  have "header_of (put_bytes bs 4 (be32 0)) = (header_of bs)\<lparr>ih_hcrc := 0\<rparr>"
    using assms by (simp add: header_of_def get32_put_other nth_put_bytes get_bytes_put_other)
  then show ?thesis using header_roundtrip [of "put_bytes bs 4 (be32 0)"] assms by simp
qed

lemma header_crc_damage:
  assumes "length bs = 64" "i < 64" "b \<noteq> bs ! i"
    "crc32 0 (header_bytes ((header_of bs)\<lparr>ih_hcrc := 0\<rparr>)) = ih_hcrc (header_of bs)"
  shows "crc32 0 (header_bytes ((header_of (bs[i := b]))\<lparr>ih_hcrc := 0\<rparr>)) \<noteq> ih_hcrc (header_of (bs[i := b]))"
proof -
  let ?z = "\<lambda>bs. put_bytes bs 4 (be32 0)"
  have z: "crc32 0 (?z bs) = get32 bs 4" using assms by (simp add: header_clear_crc) (simp add: header_of_def)
  show ?thesis
  proof (cases "4 \<le> i \<and> i < 8")
    case True
    then have same: "?z (bs[i := b]) = ?z bs"
      using assms by (auto simp: put_bytes_def list_eq_iff_nth_eq nth_append)
    have "i - 4 < 4" "4 + (i - 4) = i" using True by auto
    then have "get32 (bs[i := b]) 4 \<noteq> get32 bs 4"
      using get32_inj [of "bs[i := b]" 4 bs "i - 4"] assms by auto
    then show ?thesis using z same assms(1) by (simp add: header_clear_crc) (simp add: header_of_def)
  next
    case False
    then have upd: "?z (bs[i := b]) = (?z bs)[i := b]"
      using assms by (intro nth_equalityI) (auto simp: nth_put_bytes nth_list_update)
    have "?z bs ! i \<noteq> b" using False assms by (auto simp: nth_put_bytes)
    then have "crc32 0 (?z (bs[i := b])) \<noteq> crc32 0 (?z bs)"
      unfolding upd using assms by (intro crc32_update) simp_all
    moreover have "get32 (bs[i := b]) 4 = get32 bs 4" using False by (auto simp: get32_def get16_def nth_list_update)
    ultimately show ?thesis using z assms(1) by (simp add: header_clear_crc) (simp add: header_of_def)
  qed
qed

lemma initrd_image_Inr:
  "initrd_image rd addr verify = Inr r \<Longrightarrow>
   crc32 0 (header_bytes ((header_of (load_bytes rd addr 64))\<lparr>ih_hcrc := 0\<rparr>)) = ih_hcrc (header_of (load_bytes rd addr 64))"
  by (auto simp: initrd_image_def Let_def split: if_splits)

text \<open>
  C7: A RAM disk given to \<open>bootm\<close> is accepted if its header is a Linux MIPS RAM disk header with
  its own checksum (and, where data are verified, with the checksum of the data); its data are what
  follows the header. Once any single byte of an accepted header is damaged, the board is reset.
\<close>
theorem initrd_header_protected:
  "length (ih_name h) = 32 \<Longrightarrow> load_bytes rd addr 64 = header_bytes h \<Longrightarrow>
     ih_magic h = IH_MAGIC \<and> ih_os h = IH_OS_LINUX \<and> ih_arch h = IH_CPU_MIPS \<and> ih_type h = IH_TYPE_RAMDISK \<Longrightarrow>
     ih_hcrc h = crc32 0 (header_bytes (h\<lparr>ih_hcrc := 0\<rparr>)) \<Longrightarrow>
     verify \<longrightarrow> ih_dcrc h = crc32 0 (load_bytes rd (addr + 64) (unat (ih_size h))) \<Longrightarrow>
   initrd_image rd addr verify = Inr (addr + 64, ih_size h) \<and>
   (\<forall>rd' i b. i < 64 \<and> b \<noteq> load_bytes rd addr 64 ! i \<and> load_bytes rd' addr 64 = (load_bytes rd addr 64)[i := b] \<longrightarrow>
      initrd_image rd' addr verify = Inl Board_Reset)"
  (is "?len \<Longrightarrow> ?bytes \<Longrightarrow> ?kind \<Longrightarrow> ?crc \<Longrightarrow> ?dcrc \<Longrightarrow> _")
proof -
  assume a: ?len ?bytes ?kind ?crc ?dcrc
  have ok: "initrd_image rd addr verify = Inr (addr + 64, ih_size h)"
    using a by (auto simp: initrd_image_def Let_def header_of_bytes)
  have "initrd_image rd' addr verify = Inl Board_Reset"
    if "i < 64" "b \<noteq> load_bytes rd addr 64 ! i" "load_bytes rd' addr 64 = (load_bytes rd addr 64)[i := b]" for rd' i b
    using header_crc_damage [OF _ that(1,2) initrd_image_Inr [OF ok]] that(3)
    by (simp add: load_bytes_def initrd_image_def Let_def del: upt_rec_numeral)
  with ok show ?thesis by blast
qed

text \<open>A RAM disk header of 5 bytes of data in otherwise empty memory.\<close>

theorem initrd_header_protected_witness:
  defines "h0 \<equiv> \<lparr>ih_magic = IH_MAGIC, ih_hcrc = 0, ih_time = 0, ih_size = 5, ih_load = 0, ih_ep = 0, ih_dcrc = 0,
      ih_os = IH_OS_LINUX, ih_arch = IH_CPU_MIPS, ih_type = IH_TYPE_RAMDISK, ih_comp = 0, ih_name = replicate 32 0\<rparr>"
  defines "h \<equiv> h0\<lparr>ih_hcrc := crc32 0 (header_bytes h0)\<rparr>"
  shows "initrd_image (store 0x81000000 (header_bytes h) (\<lambda>_. 0)) 0x81000000 False = Inr (0x81000040, 5) \<and>
    initrd_image (store 0x81000000 ((header_bytes h)[12 := 1]) (\<lambda>_. 0)) 0x81000000 False = Inl Board_Reset"
proof -
  let ?rd = "store 0x81000000 (header_bytes h) (\<lambda>_. 0)" and ?rd' = "store 0x81000000 ((header_bytes h)[12 := 1]) (\<lambda>_. 0)"
  have l: "length (header_bytes h) = 64" by (simp add: h_def h0_def header_bytes_def)
  have rd: "load_bytes ?rd 0x81000000 64 = header_bytes h" "load_bytes ?rd' 0x81000000 64 = (header_bytes h)[12 := 1]"
    using load_bytes_store [of "header_bytes h" "0x81000000"] load_bytes_store [of "(header_bytes h)[12 := 1]" "0x81000000"] l
    by simp_all
  have b: "(1 :: byte) \<noteq> header_bytes h ! 12" by (simp add: h_def h0_def header_bytes_def be32_def)
  have f: "length (ih_name h) = 32" "ih_hcrc h = crc32 0 (header_bytes (h\<lparr>ih_hcrc := 0\<rparr>))" "ih_size h = 5"
    "ih_magic h = IH_MAGIC \<and> ih_os h = IH_OS_LINUX \<and> ih_arch h = IH_CPU_MIPS \<and> ih_type h = IH_TYPE_RAMDISK"
    by (simp_all add: h_def h0_def)
  have t: "initrd_image ?rd 0x81000000 False = Inr (0x81000000 + 64, ih_size h) \<and>
   (\<forall>rd' i b. i < 64 \<and> b \<noteq> load_bytes ?rd 0x81000000 64 ! i \<and>
      load_bytes rd' 0x81000000 64 = (load_bytes ?rd 0x81000000 64)[i := b] \<longrightarrow>
      initrd_image rd' 0x81000000 False = Inl Board_Reset)"
    by (rule initrd_header_protected [OF f(1) rd(1) f(4,2)]) simp
  have "initrd_image ?rd' 0x81000000 False = Inl Board_Reset"
    by (rule t [THEN conjunct2, rule_format, of 12 1]) (simp add: rd b)
  then show ?thesis using t [THEN conjunct1] f(3) by simp
qed

subsection \<open>Booting an image\<close>

text \<open>The first decompression of a source of at least a header.\<close>

lemma inflate_mem_first:
  fixes m data len
  defines "src \<equiv> load_bytes (m_load m) data (unat len)"
  assumes "13 \<le> unat len" "unat len < 2 ^ 31"
  obtains r where "lzma_inflate alloc old src len d_len d_cap 0 = Inr r"
    "dest r = None \<longrightarrow> inflate_mem alloc old d_len d_cap 0 data len dst m = Inr (1, m)"
    "\<forall>bs. dest r = Some bs \<longrightarrow> length bs < 2 ^ 32 \<and> inflate_mem alloc old d_len d_cap 0 data len dst m =
       (if store_ok data (unat len) dst (length bs) then Inr (0, m\<lparr>m_ram := store dst bs (m_ram m)\<rparr>) else Inl Unmodelled_Store)"
proof -
  have src: "length src = unat len" by (simp add: src_def load_bytes_def)
  have "unat (len - 13) = unat len - 13" using assms(2) by (subst unat_sub) (simp_all add: word_le_nat_alt)
  then have inp: "inflate_input m data len 0 = src" using assms(2) by (simp add: inflate_input_def src_def)
  obtain r where r: "lzma_inflate alloc old src len d_len d_cap 0 = Inr r"
    "ret r = 1 \<and> dest r = None \<or> ret r = 0 \<and> (\<exists>out. dest r = Some out \<and> length out \<le> unat (le32_at src 5))"
    using lzma_inflate_first [of src alloc old d_len d_cap] assms(2,3) src by auto
  have "dest r = None \<longrightarrow> inflate_mem alloc old d_len d_cap 0 data len dst m = Inr (1, m)"
    using r by (auto simp: inflate_mem_def inp)
  moreover have "\<forall>bs. dest r = Some bs \<longrightarrow> length bs < 2 ^ 32 \<and> inflate_mem alloc old d_len d_cap 0 data len dst m =
      (if store_ok data (unat len) dst (length bs) then Inr (0, m\<lparr>m_ram := store dst bs (m_ram m)\<rparr>) else Inl Unmodelled_Store)"
    using r src by (auto simp: inflate_mem_def inp Let_def intro: le_less_trans [OF _ unat_u32_less])
  ultimately show ?thesis by (rule that [OF r(1)])
qed

lemma agree_outside:
  assumes "agree s n (2 ^ 32) m m'" "n \<le> unat (p - s)"
  shows "m' p = m p"
proof -
  have "p = s + of_nat (unat (p - s))" by simp
  moreover have "unat (p - s) < 2 ^ 32" by simp
  ultimately show ?thesis using assms unfolding agree_def by metis
qed

text \<open>The environment the kernel could find, without a RAM disk.\<close>

abbreviation (input) boot_vars :: "board_data \<Rightarrow> (string \<times> string) list" where
  "boot_vars bd \<equiv> linux_env_vars bd 0 0"

definition params_size :: "board_data \<Rightarrow> string list \<Rightarrow> nat" where
  "params_size bd args = 1024 + args_size args + 15 + 1024 + args_size (env_strings (boot_vars bd))"

definition boot_line_args :: "board_data \<Rightarrow> string \<Rightarrow> string list" where
  "boot_line_args bd line = boot_args line @ (if sublist ''mem='' line then [] else [mem_arg (gd_ram_size bd)])"

lemma fake_image_header_sel [simp]:
  "ih_size (fake_image_header a e n) = n" "ih_load (fake_image_header a e n) = a" "ih_ep (fake_image_header a e n) = e"
  "ih_type (fake_image_header a e n) = IH_TYPE_KERNEL"
  by (simp_all add: fake_image_header_def)

definition kernel_started :: "board_data \<Rightarrow> string list \<Rightarrow> u32 \<Rightarrow> kernel_call \<Rightarrow> bool" where
  "kernel_started bd args entry k \<longleftrightarrow>
     k_entry k = entry \<and> k_mem_size k = gd_ram_size bd \<and> k_flash_mb k = bi_flashsize bd div 0x100000 \<and>
     kernel_args (k_ram k) (k_argv k) (k_argc k) args \<and> kernel_env (k_ram k) (k_left_env k) (boot_vars bd)"

text \<open>The byte of RAM at \<open>p\<close>, cached or uncached, is outside the \<open>n\<close> bytes of the parameter area.\<close>

definition beyond_params :: "board_data \<Rightarrow> nat \<Rightarrow> u32 \<Rightarrow> bool" where
  "beyond_params bd n p \<longleftrightarrow> \<not> meets_area p (KSEG1ADDR (bi_boot_params bd)) n"

lemma not_meets_area:
  assumes "\<not> meets_area p s n"
  shows "n \<le> unat (p - s)"
proof (rule ccontr)
  assume "\<not> n \<le> unat (p - s)"
  then have "unat (p - s) \<in> set [0..<n]" by simp
  moreover have "PHYSADDR p = PHYSADDR (s + of_nat (unat (p - s)))" by simp
  ultimately have "meets_area p s n" unfolding meets_area_def list_ex_iff by (rule rev_bexI)
  with assms show False ..
qed

lemma below_area:
  assumes "PHYSADDR p < PHYSADDR s" "unat (PHYSADDR s) + n \<le> 0x20000000"
  shows "\<not> meets_area p s n"
proof
  assume "meets_area p s n"
  then obtain j where j: "j < n" "PHYSADDR p = PHYSADDR (s + of_nat j)" by (auto simp: meets_area_def list_ex_iff)
  have m: "unat (PHYSADDR a) = unat a mod 2 ^ 29" for a
    using unat_and_mask [of a 29] by (simp add: PHYSADDR_def mask_eq_exp_minus_1)
  have n: "n < 2 ^ 32" using assms(2) by simp
  have "unat (s + of_nat j) mod 2 ^ 29 = (unat s + j) mod 2 ^ 29"
    using j(1) n by (simp add: unat_word_ariths unat_of_nat_small mod_mod_cancel)
  also have "\<dots> = (unat s mod 2 ^ 29 + j) mod 2 ^ 29" by (simp add: mod_add_left_eq)
  also have "\<dots> = unat s mod 2 ^ 29 + j" using assms(2) j(1) unfolding m by (intro mod_less) simp
  finally have "unat (PHYSADDR p) = unat (PHYSADDR s) + j" using j(2) m by metis
  then show False using assms(1) by (simp add: word_less_nat_alt)
qed

lemma do_bootm_linux_kernel:
  assumes "length argv < 3" "ih_type hdr = IH_TYPE_KERNEL" "length (boot_line_args bd line) \<le> 255"
    "params_size bd (boot_line_args bd line) \<le> 2 ^ 32"
  shows "\<exists>k. do_bootm_linux bd (Some line) argv hdr len_ptr verify m = Inr k \<and>
    kernel_started bd (boot_line_args bd line) (ih_ep hdr) k \<and>
    (\<forall>p. beyond_params bd (params_size bd (boot_line_args bd line)) p \<longrightarrow> k_ram k p = m_ram m p)"
proof -
  have "length (boot_vars bd) \<le> 255" by (simp add: linux_env_vars_def)
  then show ?thesis
    using linux_params_kernel [of line "gd_ram_size bd" "boot_vars bd" "KSEG1ADDR (bi_boot_params bd)" "m_ram m"] assms
    by (auto simp: do_bootm_linux_def boot_line_args_def params_size_def kernel_started_def beyond_params_def Let_def
        dest!: not_meets_area dest: agree_outside [simplified])
qed

text \<open>
  C4: \<open>bootm\<close> on a tagged image whose kernel is at least a header long, on the first call of the
  decompressor: if the LZMA data are bad the board is reset. Otherwise, unless the kernel would be written over its own
  image or into the flash window, which the model leaves open (\<open>Unmodelled_Store\<close>), the kernel is entered at the entry point
  of the tag; its arguments are the number and the table of the words of \<open>bootargs\<close> (a blank inside double quotes does not separate) with a
  \<open>mem=\<close> argument added if there is none, the size of the RAM and that of the flash. The decompressed kernel is at the load address
  of the tag, except for the bytes of RAM that the parameters were written over, under their cached or uncached address.
  The environment with the variables of the board is left complete in memory, although its address is not among the arguments.
\<close>
theorem bootm_starts_kernel:
  fixes m argv load_addr line bd alloc old d_len len_ptr
  defines "addr \<equiv> (if length argv < 2 then load_addr else fst (simple_strtoul (argv ! 1) 16))"
  defines "klen \<equiv> load_word (m_load m) (addr + 132)" and "dst \<equiv> load_word (m_load m) (addr + 116)"
  defines "args \<equiv> boot_line_args bd line"
  defines "boot \<equiv> do_bootm alloc old d_len 0 bd (Some line) load_addr len_ptr argv m"
  assumes "length argv < 3" "13 \<le> unat klen" "unat klen < 2 ^ 31"
    "length args \<le> 255" "params_size bd args \<le> 2 ^ 32"
  shows "\<exists>r. lzma_inflate alloc old (load_bytes (m_load m) (addr + 512) (unat klen)) klen d_len CFG_BOOTM_LEN 0 = Inr r \<and>
    (case dest r of
       None \<Rightarrow> boot = Inl Board_Reset
     | Some unpacked \<Rightarrow>
         if \<not> store_ok (addr + 512) (unat klen) dst (length unpacked) then boot = Inl Unmodelled_Store
         else \<exists>k. boot = Inr k \<and> kernel_started bd args (load_word (m_load m) (addr + 120)) k \<and>
           (\<forall>i < length unpacked. beyond_params bd (params_size bd args) (dst + of_nat i) \<longrightarrow>
              k_ram k (dst + of_nat i) = unpacked ! i))"
proof -
  let ?src = "load_bytes (m_load m) (addr + 512) (unat klen)"
  let ?hdr = "fake_image_header dst (load_word (m_load m) (addr + 120)) klen"
  obtain r where r: "lzma_inflate alloc old ?src klen d_len CFG_BOOTM_LEN 0 = Inr r"
    "dest r = None \<longrightarrow> inflate_to alloc old d_len 0 (addr + 512) klen dst m = Inr (1, m)"
    "\<forall>bs. dest r = Some bs \<longrightarrow> length bs < 2 ^ 32 \<and> inflate_to alloc old d_len 0 (addr + 512) klen dst m =
       (if store_ok (addr + 512) (unat klen) dst (length bs) then Inr (0, m\<lparr>m_ram := store dst bs (m_ram m)\<rparr>) else Inl Unmodelled_Store)"
    unfolding inflate_to_def by (rule inflate_mem_first [OF assms(7,8)])
  have boot: "boot = rbind (inflate_to alloc old d_len 0 (addr + 512) klen dst m) (\<lambda>(i, m).
      if i \<noteq> 0 then Inl Board_Reset else do_bootm_linux bd (Some line) argv ?hdr len_ptr False m)"
    by (simp only: boot_def do_bootm_def Let_def fake_image_header_sel flip: addr_def klen_def dst_def)
  show ?thesis
  proof (cases "dest r")
    case None
    then have "boot = Inl Board_Reset" using r(2) by (simp add: boot)
    with None r(1) show ?thesis by auto
  next
    case (Some unpacked)
    note k = r(3) [rule_format, OF Some]
    show ?thesis
    proof (cases "store_ok (addr + 512) (unat klen) dst (length unpacked)")
      case False
      then have "boot = Inl Unmodelled_Store" using k by (simp add: boot)
      with False Some r(1) show ?thesis by auto
    next
      case True
      let ?m = "m\<lparr>m_ram := store dst unpacked (m_ram m)\<rparr>"
      have b: "boot = do_bootm_linux bd (Some line) argv ?hdr len_ptr False ?m"
        using True k by (simp add: boot)
      obtain k where ks: "boot = Inr k" "kernel_started bd args (load_word (m_load m) (addr + 120)) k"
        "\<forall>p. beyond_params bd (params_size bd args) p \<longrightarrow> k_ram k p = store dst unpacked (m_ram m) p"
        using do_bootm_linux_kernel [of argv ?hdr bd line len_ptr False ?m] assms(6,9,10) unfolding b args_def by auto
      have "store dst unpacked (m_ram m) (dst + of_nat i) = unpacked ! i" if "i < length unpacked" for i
        using that k store_offset [of 0 unpacked i dst "m_ram m"] by simp
      with ks True Some r(1) show ?thesis by auto
    qed
  qed
qed

text \<open>The board, and a tagged image at \<open>0x80800000\<close> whose kernel is the file with one byte of content.\<close>

definition demo_board :: board_data where
  "demo_board = \<lparr>bi_boot_params = 0x81f00000, bi_flashstart = 0x9f000000, bi_flashsize = 0x400000, gd_ram_size = 0x2000000\<rparr>"

definition demo_ram :: mem where
  "demo_ram a = (if a = 0x80800205 then 1
     else if a = 0x80800074 \<or> a = 0x80800078 then 0x80 else if a = 0x80800075 \<or> a = 0x80800079 then 0x06
     else if a = 0x80800087 then 20 else if a = 0x80060000 then 0xFF else 0)"

definition demo_mach :: mach where
  "demo_mach = \<lparr>m_ram = demo_ram, m_hw = \<lparr>hw_log = [], hw_rd = \<lambda>_ _. 0, hw_polls = 0\<rparr>, m_window = \<lambda>_ _. 0\<rparr>"

lemma demo_load: "m_load demo_mach = demo_ram"
  by (rule ext) (simp add: m_load_def demo_mach_def demo_ram_def flash_window_def)

lemma demo_words:
  "load_word demo_ram 0x80800074 = 0x80060000" "load_word demo_ram 0x80800078 = 0x80060000" "load_word demo_ram 0x80800084 = 20"
  by (simp_all add: load_word_def load_bytes_def demo_ram_def get32_def get16_def upt_rec word_cat_eq)

lemma demo_file: "load_bytes demo_ram 0x80800200 20 = one_byte_file"
  by (simp add: load_bytes_def demo_ram_def one_byte_file_def upt_rec)

lemma demo_vars:
  "linux_env_vars demo_board 0 0 =
     [(''memsize'', ''33554432''), (''initrd_start'', ''0xA0000000''), (''initrd_size'', ''0x0''),
      (''flash_start'', ''0x9F000000''), (''flash_size'', ''0x400000'')]"
  by (simp add: linux_env_vars_def demo_board_def KSEG1ADDR_def sprintf1_def number_eval)

theorem bootm_starts_kernel_witness:
  "\<exists>k. do_bootm (\<lambda>_. True) (\<lambda>_. 0) 0x87f00000 0 demo_board (Some ''a mem=32M'') 0x80800000 0 [''bootm''] demo_mach = Inr k \<and>
     k_entry k = 0x80060000 \<and> kernel_args (k_ram k) (k_argv k) (k_argc k) [''a'', ''mem=32M''] \<and>
     m_ram demo_mach 0x80060000 = 0xFF \<and> k_ram k 0x80060000 = 0"
proof -
  have b: "boot_args ''a mem=32M'' = [''a'', ''mem=32M'']" by code_simp
  have a: "boot_line_args demo_board ''a mem=32M'' = [''a'', ''mem=32M'']"
    by (simp add: boot_line_args_def b sublist_Cons_right)
  have n: "params_size demo_board [''a'', ''mem=32M''] = 2173"
    by (simp add: params_size_def demo_vars env_strings_def args_size_def)
  have ok: "store_ok 0x80800200 20 0x80060000 (Suc 0)"
    using below_area [of "0x80060000" "0x80800200" 20] by (simp add: store_ok_def flash_window_def PHYSADDR_def)
  have o: "beyond_params demo_board 2173 0x80060000"
    using below_area [of "0x80060000" "KSEG1ADDR 0x81f00000" 2173] by (simp add: beyond_params_def demo_board_def KSEG1ADDR_def PHYSADDR_def)
  have r: "m_ram demo_mach 0x80060000 = 0xFF" by (simp add: demo_mach_def demo_ram_def)
  show ?thesis
    using bootm_starts_kernel [of "[''bootm'']" demo_mach "0x80800000" demo_board "''a mem=32M''" "\<lambda>_. True" "\<lambda>_. 0" "0x87f00000" 0]
    by (auto simp: demo_load demo_words demo_file lzma_inflate_one_byte a n ok o r kernel_started_def)
qed

end
