(* ===== verification/Ping.thy ===== *)
theory Ping
  imports TftpSession
begin

text \<open>
  A ping from the call of \<open>NetLoop\<close> to its return: which of the received frames count as an answer, and that the
  loop ends when the clock has passed the time limit, whatever arrives.
\<close>

subsection \<open>Specification\<close>

text \<open>
  The frames after which \<open>PingHandler\<close> ends the loop: an echo reply from the pinged address, whatever its
  identifier and number; and, as the handler is called for UDP too, a datagram whose payload has the address at offset 12.
\<close>

definition ip_accepted :: "byte list \<Rightarrow> int \<Rightarrow> net_st \<Rightarrow> bool" where
  "ip_accepted ip len st \<longleftrightarrow>
     \<not> (word_of_int len :: u32) < 28 \<and> int (unat (get16 ip 2)) \<le> len \<and> ip ! 0 AND 0xf0 = 0x40 \<and>
     get16 ip 6 AND 0x1fff = 0 \<and> NetCksumOk ip 10 \<and>
     (NetOurIP st = 0 \<or> get32 ip 16 = NetOurIP st \<or> get32 ip 16 = 0xFFFFFFFF)"

definition ping_answer :: "net_st \<Rightarrow> byte list \<times> int \<Rightarrow> bool" where
  "ping_answer st frame =
     (let (pkt, len) = frame in
      case net_classify pkt len st of
        None \<Rightarrow> False
      | Some (x, vlanid, off, l) \<Rightarrow>
          vlan_accepts vlanid st \<and> x = PROT_IP \<and> ip_accepted (drop off pkt) l st \<and>
          (let ip = drop off pkt in
           if ip ! 9 = 1 then ip ! 20 = 0 \<and> get32 ip 12 = NetPingIP st
           else ip ! 9 = 17 \<and> get32 (drop 28 ip) 12 = NetPingIP st))"

text \<open>The turn that ends the loop.\<close>

definition ping_overdue :: "net_st \<Rightarrow> net_event \<Rightarrow> bool" where
  "ping_overdue st ev \<longleftrightarrow> 10 * CFG_HZ st < ev_clock ev - clock st"

definition ping_ends :: "net_st \<Rightarrow> net_event \<Rightarrow> bool" where
  "ping_ends st ev \<longleftrightarrow> ev_ctrlc ev \<or> ping_overdue st ev \<or> (\<exists>f \<in> set (ev_rx ev). ping_answer st f)"

text \<open>What a turn keeps of the state.\<close>

definition ping_view :: "net_st \<Rightarrow> rxhand option \<times> u16 \<times> u16 \<times> u32 \<times> u32 \<times> u32 \<times> u32" where
  "ping_view st = (packetHandler st, NetOurVLAN st, NetOurNativeVLAN st, NetOurIP st, NetPingIP st, CFG_HZ st,
     NetBootFileXferSize st)"

definition timer_view :: "net_st \<Rightarrow> thand option \<times> u32 \<times> u32 \<times> u32" where
  "timer_view st = (timeHandler st, timeStart st, timeDelta st, clock st)"

definition arp_view :: "net_st \<Rightarrow> u32 \<times> nat \<times> u32" where
  "arp_view st = (NetArpWaitPacketIP st, NetArpWaitTry st, NetArpWaitTimerStart st)"

lemmas ping_views = ping_view_def timer_view_def arp_view_def

subsection \<open>Reception\<close>

lemma ping_answer_cong: "ping_view s = ping_view t \<Longrightarrow> ping_answer s f = ping_answer t f"
proof -
  assume v: "ping_view s = ping_view t"
  then have "net_classify p l s = net_classify p l t" "vlan_accepts i s = vlan_accepts i t" "ip_accepted q l s = ip_accepted q l t" for p l i q
    by (simp_all add: net_classify_def vlan_accepts_def my_vlan_def ip_accepted_def ping_view_def)
  then show ?thesis using v by (cases f) (simp add: ping_answer_def ping_view_def Let_def split: option.split)
qed

lemma is_rarp_cong: "ping_view s = ping_view t \<Longrightarrow> is_rarp p l s = is_rarp p l t"
  by (simp add: is_rarp_def net_classify_def ping_view_def)

definition ping_receives :: "net_st \<Rightarrow> bool \<Rightarrow> net_st \<Rightarrow> bool" where
  "ping_receives st answer st' \<longleftrightarrow> ping_view st' = ping_view st \<and> timer_view st' = timer_view st \<and>
     NetState st' = (if answer then NETLOOP_SUCCESS else NetState st) \<and>
     (NetArpWaitPacketIP st' = 0 \<or> arp_view st' = arp_view st)"

lemma ping_receives_refl: "ping_receives st False st"
  by (simp add: ping_receives_def)

lemma do_PingHandler_receives: "ping_receives st (get32 pkt 12 = NetPingIP st) (do_PingHandler pkt st)"
  by (simp add: ping_receives_def do_PingHandler_def ping_views)

lemma receive_arp_ping: "ping_receives st False (receive_arp inpkt off len st)"
proof -
  have s: "ping_receives st False (eth_send p st)" for p by (simp add: ping_receives_def eth_send_frame ping_views)
  have m: "ping_receives st False (set_mac r a st)" for r a by (cases r) (simp_all add: ping_receives_def set_mac_def ping_views)
  have "ping_receives st False (arp_answer inpkt off st)"
    using m ping_receives_refl [of st]
    by (auto simp: arp_answer_def Let_def eth_send_frame ping_receives_def ping_views split: option.split)
  then show ?thesis
    using s by (simp add: receive_arp_def arp_reply_def ping_receives_refl Let_def split_def)
qed

lemma receive_ip_ping:
  assumes "packetHandler st = Some PingHandler"
  shows "\<exists>st'. receive_ip pkt off len st = Inr st' \<and> ping_receives st (ip_accepted (drop off pkt) len st \<and>
    (let ip = drop off pkt in
     if ip ! 9 = 1 then ip ! 20 = 0 \<and> get32 ip 12 = NetPingIP st
     else ip ! 9 = 17 \<and> get32 (drop 28 ip) 12 = NetPingIP st)) st'"
proof -
  have d: "dispatch (Some p) a b c st = Inr (do_PingHandler p st)" for p a b c using assms by (simp add: dispatch_def)
  have h: "\<And>p. ping_receives st (get32 p 12 = NetPingIP st) (do_PingHandler p st)" by (rule do_PingHandler_receives)
  show ?thesis
  proof (cases "ip_accepted (drop off pkt) len st")
    case True
    then have "receive_ip pkt off len st =
        (let ip = drop off pkt in
         if ip ! 9 = 1 then if ip ! 20 = 0 then Inr (do_PingHandler ip st) else Inr st
         else if ip ! 9 \<noteq> 17 then Inr st else Inr (do_PingHandler (drop 28 ip) st))"
      by (auto simp: receive_ip_def ip_accepted_def d Let_def)
    then show ?thesis using True h ping_receives_refl [of st] by (auto simp: Let_def simp del: drop_drop)
  next
    case False
    then have "receive_ip pkt off len st = Inr st"
      by (auto simp: receive_ip_def ip_accepted_def Let_def not_less)
    then show ?thesis using False by (simp add: ping_receives_refl)
  qed
qed

lemma NetReceive_ping:
  assumes "packetHandler st = Some PingHandler" "\<not> is_rarp pkt len st"
  shows "\<exists>st'. NetReceive pkt len st = Inr st' \<and> ping_receives st (ping_answer st (pkt, len)) st'"
proof (cases "net_classify pkt len st")
  case (Some c)
  obtain x v off l where c: "c = (x, v, off, l)" by (cases c)
  have r: "x \<noteq> PROT_RARP" using assms(2) Some c by (simp add: is_rarp_def)
  have i: "vlan_accepts v st \<Longrightarrow> x = PROT_IP \<Longrightarrow> ?thesis"
    using receive_ip_ping [OF assms(1), of pkt off l] by (simp add: NetReceive_def Some c ping_answer_def)
  show ?thesis
    using i r receive_arp_ping [of st pkt off l] ping_receives_refl [of st] by (cases "vlan_accepts v st \<and> x = PROT_IP") (auto simp: NetReceive_def Some c ping_answer_def)
qed (simp add: NetReceive_def ping_answer_def ping_receives_refl)

lemma receive_all_ping:
  "packetHandler st = Some PingHandler \<Longrightarrow> \<forall>(p, l) \<in> set rx. \<not> is_rarp p l st \<Longrightarrow>
   \<exists>st'. receive_all rx st = Inr st' \<and> ping_receives st (\<exists>f \<in> set rx. ping_answer st f) st'"
proof (induction rx arbitrary: st)
  case (Cons f rx)
  obtain p l where f: "f = (p, l)" by (cases f)
  obtain st1 where st1: "NetReceive p l st = Inr st1" "ping_receives st (ping_answer st f) st1"
    using NetReceive_ping [OF Cons.prems(1), of p l] Cons.prems(2) f by auto
  then have v: "ping_view st1 = ping_view st" by (simp add: ping_receives_def)
  then have "packetHandler st1 = Some PingHandler" using Cons.prems(1) by (simp add: ping_view_def)
  moreover have "\<forall>(p, l) \<in> set rx. \<not> is_rarp p l st1" using Cons.prems(2) is_rarp_cong [OF v] by auto
  ultimately obtain st2 where st2: "receive_all rx st1 = Inr st2" "ping_receives st1 (\<exists>f \<in> set rx. ping_answer st1 f) st2"
    using Cons.IH by blast
  have "ping_receives st (\<exists>f \<in> set (f # rx). ping_answer st f) st2"
    using st1(2) st2(2) ping_answer_cong [OF v] unfolding ping_receives_def by (auto simp: arp_view_def)
  then show ?case using st1(1) st2(1) f by auto
qed (simp add: ping_receives_refl)

subsection \<open>The loop\<close>

text \<open>
  The ping under way since \<open>t0\<close>, with the last turn at most \<open>d\<close> ticks later: the timer runs, and at most one ARP request has
  been repeated, after half of the time.
\<close>

definition ping_running :: "u32 \<Rightarrow> u32 \<Rightarrow> net_st \<Rightarrow> bool" where
  "ping_running t0 d st \<longleftrightarrow> packetHandler st = Some PingHandler \<and> timeHandler st = Some PingTimeout \<and> timeStart st = t0 \<and>
     timeDelta st = 10 * CFG_HZ st \<and> NetBootFileXferSize st = 0 \<and>
     unat (CFG_HZ st) * 10 < 2 ^ 32 \<and>
     (NetArpWaitPacketIP st = 0 \<or> NetArpWaitTry st = 1 \<and> NetArpWaitTimerStart st = t0 \<or>
      NetArpWaitTry st = 2 \<and> 5 * CFG_HZ st < NetArpWaitTimerStart st - t0 \<and> NetArpWaitTimerStart st - t0 \<le> d)"

lemma unat_ticks: "unat (hz :: u32) * 10 < 2 ^ 32 \<Longrightarrow> unat (10 * hz) = 10 * unat hz \<and> unat (5 * hz) = 5 * unat hz"
proof -
  assume h: "unat hz * 10 < 2 ^ 32"
  have "unat (10 * hz) = unat (10 :: u32) * unat hz" using h by (intro unat_mult_lem [THEN iffD1]) simp
  moreover have "unat (5 * hz) = unat (5 :: u32) * unat hz" using h by (intro unat_mult_lem [THEN iffD1]) simp
  ultimately show ?thesis by simp
qed

text \<open>The two halves of the time limit.\<close>

lemma second_retry_late:
  fixes hz :: u32
  assumes "unat hz * 10 < 2 ^ 32" "5 * hz < a - t0" "a - t0 \<le> c - t0" "5 * hz < c - a"
  shows "10 * hz < c - t0"
proof -
  have "c - a = (c - t0) - (a - t0)" by simp
  then have "unat (c - a) = unat (c - t0) - unat (a - t0)" using assms(3) by (simp only: unat_sub)
  then have "5 * unat hz < unat (c - t0) - unat (a - t0)" "5 * unat hz < unat (a - t0)"
    using assms(2,4) unat_ticks [OF assms(1)] unfolding word_less_nat_alt by linarith+
  then show ?thesis using unat_ticks [OF assms(1)] unfolding word_less_nat_alt by linarith
qed

lemma ArpRequest_views:
  "ping_view (ArpRequest st) = ping_view st" "timer_view (ArpRequest st) = timer_view st" "arp_view (ArpRequest st) = arp_view st"
  "NetState (ArpRequest st) = NetState st"
  by (simp_all add: ArpRequest_def Let_def split_def eth_send_frame ping_views)

lemma ArpTimeoutCheck_ping:
  assumes r: "ping_running t0 d st" and d: "d \<le> clock st - t0"
  shows "ping_view (ArpTimeoutCheck st) = ping_view st \<and> timer_view (ArpTimeoutCheck st) = timer_view st \<and>
    NetState (ArpTimeoutCheck st) = NetState st \<and>
    (\<not> 10 * CFG_HZ st < clock st - t0 \<longrightarrow> ping_running t0 (clock st - t0) (ArpTimeoutCheck st))"
proof (cases "NetArpWaitPacketIP st = 0 \<or> \<not> ARP_TIMEOUT * CFG_HZ st < clock st - NetArpWaitTimerStart st")
  case True
  then have "ArpTimeoutCheck st = st" by (auto simp: ArpTimeoutCheck_def Let_def)
  then show ?thesis using r d by (auto simp: ping_running_def intro: order_trans)
next
  case False
  let ?s = "st\<lparr>NetArpWaitTry := Suc (NetArpWaitTry st), NetArpWaitTimerStart := clock st\<rparr>"
  have late: "5 * CFG_HZ st < clock st - NetArpWaitTimerStart st" using False by (simp add: ARP_TIMEOUT_def)
  have tr: "NetArpWaitTry st = 1 \<and> NetArpWaitTimerStart st = t0 \<or> NetArpWaitTry st = 2 \<and>
      5 * CFG_HZ st < NetArpWaitTimerStart st - t0 \<and> NetArpWaitTimerStart st - t0 \<le> d"
    using r False by (auto simp: ping_running_def)
  then have a: "ArpTimeoutCheck st = ArpRequest ?s"
    using False by (auto simp: ArpTimeoutCheck_def ARP_TIMEOUT_COUNT_def Let_def)
  have v: "ping_view ?s = ping_view st" "timer_view ?s = timer_view st" "NetState ?s = NetState st"
    by (simp_all add: ping_views)
  note w = ArpRequest_views [of ?s]
  have "ping_running t0 (clock st - t0) (ArpRequest ?s)" if "\<not> 10 * CFG_HZ st < clock st - t0"
  proof -
    have hz: "unat (CFG_HZ st) * 10 < 2 ^ 32" using r by (simp add: ping_running_def)
    have "NetArpWaitTry st \<noteq> 2"
    proof
      assume "NetArpWaitTry st = 2"
      then have a: "5 * CFG_HZ st < NetArpWaitTimerStart st - t0" "NetArpWaitTimerStart st - t0 \<le> d" using tr by auto
      from second_retry_late [OF hz a(1) order_trans [OF a(2) d] late] that show False by simp
    qed
    then have one: "NetArpWaitTry st = 1" "NetArpWaitTimerStart st = t0" using tr by auto
    have "5 * CFG_HZ st < clock st - t0" using late one(2) by simp
    moreover have "NetArpWaitTry (ArpRequest ?s) = 2" "NetArpWaitTimerStart (ArpRequest ?s) = clock st"
      using w(3) one(1) by (simp_all add: arp_view_def)
    ultimately show ?thesis
      using r w(1,2,4) by (simp add: ping_running_def ping_view_def timer_view_def)
  qed
  then show ?thesis using v w by (simp add: a)
qed

text \<open>One turn.\<close>

lemma ping_turn:
  assumes r: "ping_running t0 d st" "NetState st = NETLOOP_CONTINUE" and s: "ping_view s = ping_view st" "clock s = t0"
    and o: "d \<le> ev_clock ev - t0" and q: "\<forall>(p, l) \<in> set (ev_rx ev). \<not> is_rarp p l st"
  shows "\<exists>st'. net_turn PING (ev_rx ev) (ev_ctrlc ev) (st\<lparr>clock := ev_clock ev\<rparr>) =
      Inr (if ping_ends s ev then Some (if ev_ctrlc ev \<or> ping_overdue s ev then - 1 else 0) else None, st') \<and>
    (\<not> ping_ends s ev \<longrightarrow> ping_running t0 (ev_clock ev - t0) st' \<and> NetState st' = NETLOOP_CONTINUE \<and> ping_view st' = ping_view st)"
proof -
  let ?c = "st\<lparr>clock := ev_clock ev\<rparr>"
  let ?a = "\<exists>f \<in> set (ev_rx ev). ping_answer s f"
  have vs: "ping_view ?c = ping_view s" "ping_view ?c = ping_view st" by (simp_all add: s(1)) (simp_all add: ping_view_def)
  have "packetHandler ?c = Some PingHandler" using r(1) by (simp add: ping_running_def)
  moreover have "\<forall>(p, l) \<in> set (ev_rx ev). \<not> is_rarp p l ?c" using q is_rarp_cong [OF vs(2)] by auto
  ultimately obtain st1 where st1: "receive_all (ev_rx ev) ?c = Inr st1" "ping_receives ?c ?a st1"
    using receive_all_ping [of ?c "ev_rx ev"] ping_answer_cong [OF vs(1)] by auto
  have e: "ping_ends s ev \<longleftrightarrow> ev_ctrlc ev \<or> ping_overdue s ev \<or> ?a" by (simp add: ping_ends_def)
  have n: "NetState st1 = (if ?a then NETLOOP_SUCCESS else NETLOOP_CONTINUE)" using st1(2) r by (simp add: ping_receives_def ping_running_def)
  have v1: "ping_view st1 = ping_view st" "timer_view st1 = timer_view ?c" using st1(2) vs(2) by (simp_all add: ping_receives_def)
  then have t1: "clock st1 = ev_clock ev" "timeStart st1 = t0" "timeDelta st1 = 10 * CFG_HZ st" "timeHandler st1 = Some PingTimeout"
      "CFG_HZ st1 = CFG_HZ st" "NetBootFileXferSize st1 = 0"
    using r by (simp_all add: ping_views ping_running_def)
  have run: "ping_running t0 d st1"
    using r(1) v1 st1(2) by (auto simp: ping_running_def ping_receives_def ping_views)
  define st2 where "st2 = ArpTimeoutCheck st1"
  have st2: "ping_view st2 = ping_view st1" "timer_view st2 = timer_view st1" "NetState st2 = NetState st1"
    "\<not> 10 * CFG_HZ st < ev_clock ev - t0 \<Longrightarrow> ping_running t0 (ev_clock ev - t0) st2"
    using ArpTimeoutCheck_ping [OF run] o t1 by (simp_all add: st2_def)
  have h: "CFG_HZ s = CFG_HZ st" using s(1) by (simp add: ping_view_def)
  have c: "check_timeout st2 = (if ping_overdue s ev then st2\<lparr>timeHandler := None, NetState := NETLOOP_FAIL\<rparr> else st2)"
    using st2(2) t1 by (simp add: check_timeout_def timer_view_def ping_overdue_def s(2) h run_timeout_def do_PingTimeout_def)
  have x: "NetBootFileXferSize st2 = 0" using st2(1) t1(6) by (simp add: ping_view_def)
  have turn: "net_turn PING (ev_rx ev) (ev_ctrlc ev) ?c = (if ev_ctrlc ev then Inr (Some (- 1), st1)
      else if ping_overdue s ev then Inr (Some (- 1), st2\<lparr>timeHandler := None, NetState := NETLOOP_FAIL\<rparr>)
      else Inr (if ?a then Some 0 else None, st2))"
    unfolding net_turn_def st1(1) rbind.simps by (simp add: c n x st2(3) loop_success_def flip: st2_def)
  show ?thesis unfolding turn e using st2 n v1(1) by (auto simp: ping_overdue_def s(2) h)
qed

lemma ping_run:
  "ping_running t0 d st \<Longrightarrow> NetState st = NETLOOP_CONTINUE \<Longrightarrow> ping_view s = ping_view st \<Longrightarrow> clock s = t0 \<Longrightarrow>
   sorted (d # map (\<lambda>ev. ev_clock ev - t0) evs) \<Longrightarrow>
   \<forall>ev \<in> set evs. \<forall>(p, l) \<in> set (ev_rx ev). \<not> is_rarp p l s \<Longrightarrow> find (ping_ends s) evs = Some e \<Longrightarrow>
   \<exists>st'. net_run PING evs st = Inr (Some (if ev_ctrlc e \<or> ping_overdue s e then - 1 else 0), st')"
proof (induction evs arbitrary: st d)
  case (Cons ev evs)
  have q: "\<forall>(p, l) \<in> set (ev_rx ev). \<not> is_rarp p l st" using Cons.prems(6) is_rarp_cong [OF Cons.prems(3)] by auto
  have o: "d \<le> ev_clock ev - t0" using Cons.prems(5) by simp
  obtain st1 where st1: "net_turn PING (ev_rx ev) (ev_ctrlc ev) (st\<lparr>clock := ev_clock ev\<rparr>) =
      Inr (if ping_ends s ev then Some (if ev_ctrlc ev \<or> ping_overdue s ev then - 1 else 0) else None, st1)"
    "\<not> ping_ends s ev \<longrightarrow> ping_running t0 (ev_clock ev - t0) st1 \<and> NetState st1 = NETLOOP_CONTINUE \<and> ping_view st1 = ping_view st"
    using ping_turn [OF Cons.prems(1-4) o q] by blast
  show ?case
  proof (cases "ping_ends s ev")
    case True
    then show ?thesis using Cons.prems(7) st1(1) by simp
  next
    case False
    then show ?thesis
      using st1 Cons.IH [of "ev_clock ev - t0" st1] Cons.prems(3-7) by auto
  qed
qed simp

subsection \<open>The start\<close>

text \<open>A board that can ping: \<open>eth1\<close> comes up with an address, and there is an address to ping.\<close>

definition ping_ready :: "net_st \<Rightarrow> bool" where
  "ping_ready st \<longleftrightarrow> net_wf st \<and> eth_names st = [''eth0'', ''eth1''] \<and> eth_current st \<noteq> None \<and> dev_up st 1 \<and>
     eth_macs st ! 1 \<noteq> NetEtherNullAddr \<and> bd_ip_addr st \<noteq> 0 \<and> NetPingIP st \<noteq> 0 \<and>
     0 < CFG_HZ st \<and> unat (CFG_HZ st) * 10 < 2 ^ 32"

text \<open>The state in which the frames are received, as far as they are judged by it.\<close>

definition ping_state :: "net_st \<Rightarrow> net_st" where
  "ping_state st = st\<lparr>NetOurVLAN := getenv_VLAN ''vlan'' st, NetOurNativeVLAN := getenv_VLAN ''nvlan'' st,
     NetOurIP := bd_ip_addr st, packetHandler := Some PingHandler, NetBootFileXferSize := 0\<rparr>"

lemma PingStart_views:
  assumes "10 * CFG_HZ st \<noteq> 0"
  shows "ping_view (PingStart st) = ping_view (st\<lparr>packetHandler := Some PingHandler\<rparr>)"
    "timer_view (PingStart st) = (Some PingTimeout, clock st, 10 * CFG_HZ st, clock st)"
    "arp_view (PingStart st) = (NetPingIP st, 1, clock st)" "NetState (PingStart st) = NetState st"
  unfolding PingStart_def PingSend_def Let_def split_def ArpRequest_views
  using assms by (simp_all add: ping_views NetSetTimeout_def NetSetHandler_def)

lemma ping_starts:
  assumes r: "ping_ready st"
  shows "\<exists>s. NetLoop PING evs st = net_run PING evs s \<and> ping_running (clock st) 0 s \<and> NetState s = NETLOOP_CONTINUE \<and>
    ping_view (ping_state st) = ping_view s"
proof -
  let ?a = "st\<lparr>NetRestarted := False, NetDevExists := False, NetArpWaitPacketMAC := None,
     NetArpWaitPacketIP := 0, NetArpWaitReplyIP := 0, NetArpWaitTxPacketSize := 0, nenv := (nenv st)(''ethact'' \<mapsto> ''eth1'')\<rparr>"
  have r': "net_wf st" "eth_names st = [''eth0'', ''eth1'']" "eth_current st \<noteq> None" using r by (simp_all add: ping_ready_def)
  have "net_wf ?a" using r'(1) unfolding net_wf_def by simp
  then have a: "eth_set_current ?a = ?a\<lparr>eth_current := Some 1\<rparr>"
    using r' by (intro eth_set_current_eth1) simp_all
  have i: "eth_init (?a\<lparr>eth_current := Some 1\<rparr>) = (1, ?a\<lparr>eth_current := Some 1\<rparr>)"
    using r by (simp add: eth_init_def ping_ready_def numeral_2_eq_2)
  define s where "s = ?a\<lparr>eth_current := Some 1, NetOurEther := eth_macs st ! 1, NetState := NETLOOP_CONTINUE, NetOurIP := bd_ip_addr st,
     NetOurGatewayIP := getenv_IPaddr ''gatewayip'' st, NetOurSubnetMask := getenv_IPaddr ''netmask'' st,
     NetOurVLAN := getenv_VLAN ''vlan'' st, NetOurNativeVLAN := getenv_VLAN ''nvlan'' st, NetDevExists := True\<rparr>"
  have l: "NetLoop PING evs st = net_run PING evs ((PingStart s)\<lparr>NetBootFileXferSize := 0\<rparr>)"
    using r unfolding NetLoop_def
    by (simp add: a i net_restart_def ping_ready_def getenv_IPaddr_def getenv_VLAN_def net_check_prereq_def check_ether_def
        s_def Let_def del: One_nat_def)
  have f: "CFG_HZ s = CFG_HZ st" "NetPingIP s = NetPingIP st" "clock s = clock st" "NetOurIP s = bd_ip_addr st" "NetState s = NETLOOP_CONTINUE"
    "NetOurVLAN s = getenv_VLAN ''vlan'' st" "NetOurNativeVLAN s = getenv_VLAN ''nvlan'' st"
    by (simp_all add: s_def)
  have h: "0 < CFG_HZ st" "unat (CFG_HZ st) * 10 < 2 ^ 32" using r by (simp_all add: ping_ready_def)
  have "10 * CFG_HZ s \<noteq> 0" using h unat_ticks [OF h(2)] by (auto simp: f word_unat_eq_iff word_less_nat_alt)
  note v = PingStart_views [OF this]
  have "ping_running (clock st) 0 ((PingStart s)\<lparr>NetBootFileXferSize := 0\<rparr>)"
    using v h by (simp add: ping_running_def ping_views f)
  moreover have "ping_view (ping_state st) = ping_view ((PingStart s)\<lparr>NetBootFileXferSize := 0\<rparr>)"
    using v(1) by (simp add: ping_state_def ping_view_def f)
  ultimately show ?thesis using l v(4) f(5) by auto
qed

subsection \<open>Properties\<close>

text \<open>
  C37: A ping ends. On a board whose network is up, whatever frames but RARP ones arrive, \<open>NetLoop\<close> for a ping returns by the
  first turn whose clock is more than ten seconds past the start: it returns 0 exactly if an answer arrives in an earlier
  turn that the user does not interrupt, and -1 otherwise. Until then at most one ARP request is repeated and the ping
  is not restarted.
\<close>

theorem ping_terminates:
  assumes "ping_ready st" "sorted (map (\<lambda>ev. ev_clock ev - clock st) evs)" "\<exists>ev \<in> set evs. ping_overdue st ev"
    and "\<forall>ev \<in> set evs. \<forall>(p, l) \<in> set (ev_rx ev). \<not> is_rarp p l (ping_state st)"
  shows "\<exists>ev st'. find (ping_ends (ping_state st)) evs = Some ev \<and>
    NetLoop PING evs st = Inr (Some (if ev_ctrlc ev \<or> ping_overdue st ev then - 1 else 0), st')"
proof -
  obtain s where s: "NetLoop PING evs st = net_run PING evs s" "ping_running (clock st) 0 s" "NetState s = NETLOOP_CONTINUE"
    "ping_view (ping_state st) = ping_view s"
    using ping_starts [OF assms(1)] by blast
  have o: "ping_overdue (ping_state st) = ping_overdue st" by (simp add: fun_eq_iff ping_overdue_def ping_state_def)
  have "find (ping_ends (ping_state st)) evs \<noteq> None"
    using assms(3) by (auto simp: find_None_iff ping_ends_def o)
  then obtain ev where ev: "find (ping_ends (ping_state st)) evs = Some ev" by blast
  have "clock (ping_state st) = clock st" by (simp add: ping_state_def)
  from ping_run [OF s(2,3,4) this _ assms(4) ev] assms(2) ev show ?thesis by (auto simp: s(1) o)
qed

text \<open>A ping that nobody answers, and one with an answer in the second turn.\<close>

definition pinging :: net_st where
  "pinging = sample_net\<lparr>NetPingIP := 0xC0A80107\<rparr>"

definition silent_events :: "net_event list" where
  "silent_events = [\<lparr>ev_clock = 6000, ev_rx = [], ev_ctrlc = False\<rparr>, \<lparr>ev_clock = 11000, ev_rx = [], ev_ctrlc = False\<rparr>]"

definition pong_frame :: "byte list" where
  "pong_frame = [2, 0, 0, 0, 0, 1, 2, 0, 0, 0, 0, 9] @ be16 PROT_IP @
     ip_bytes 28 0 1 (ip_header_sum 28 0 1 0xC0A80107 0xC0A80102) 0xC0A80107 0xC0A80102 @ replicate 8 0"

definition pong_events :: "net_event list" where
  "pong_events = [\<lparr>ev_clock = 1, ev_rx = [], ev_ctrlc = False\<rparr>, \<lparr>ev_clock = 2, ev_rx = [(pong_frame, 42)], ev_ctrlc = False\<rparr>,
     \<lparr>ev_clock = 11000, ev_rx = [], ev_ctrlc = False\<rparr>]"

lemma pong_accepted:
  "ping_answer (ping_state pinging) (pong_frame, 42)" "\<not> is_rarp pong_frame 42 (ping_state pinging)"
  by code_simp+

theorem ping_terminates_witness:
  "(\<exists>st'. NetLoop PING silent_events pinging = Inr (Some (- 1), st')) \<and>
   (\<exists>st'. NetLoop PING pong_events pinging = Inr (Some 0, st'))"
proof -
  have "net_wf pinging" using sample_net_facts(2) unfolding net_wf_def pinging_def by simp
  then have r: "ping_ready pinging"
    unfolding ping_ready_def by (simp add: pinging_def sample_net_def NetEtherNullAddr_def)
  have c: "clock pinging = 0" "CFG_HZ pinging = 1000" "CFG_HZ (ping_state pinging) = 1000" "clock (ping_state pinging) = 0"
    by (simp_all add: pinging_def sample_net_def ping_state_def)
  have "\<exists>st'. NetLoop PING silent_events pinging = Inr (Some (- 1), st')"
    using ping_terminates [OF r, of silent_events]
    by (auto simp: silent_events_def ping_ends_def ping_overdue_def c split: if_splits)
  moreover have "\<exists>st'. NetLoop PING pong_events pinging = Inr (Some 0, st')"
    using ping_terminates [OF r, of pong_events] pong_accepted
    by (auto simp: pong_events_def ping_ends_def ping_overdue_def c split: if_splits)
  ultimately show ?thesis by blast
qed

end
