(* ===== verification/Circbuf.thy ===== *)
theory Circbuf
  imports Prelude
begin

text \<open>
  The circular buffer of \<open>common/circbuf.c\<close>. The pointers \<open>top\<close>, \<open>tail\<close> and the loop pointers are indices into
  \<open>data\<close>, and \<open>end\<close> is its length; an access outside the array is \<open>Circbuf_Fault\<close>. The abstract view is a
  queue that forgets its oldest elements when it is full.
\<close>

subsection \<open>Code\<close>

datatype circbuf_exit = Circbuf_Fault

record circbuf =
  cb_size :: nat
  cb_totalsize :: nat
  cb_top :: nat
  cb_tail :: nat
  cb_data :: string

text \<open>\<open>junk\<close> is what \<open>malloc\<close> returns; the assertions on its result are compiled out.\<close>

definition buf_init :: "string \<Rightarrow> circbuf" where
  "buf_init junk = \<lparr>cb_size = 0, cb_totalsize = length junk, cb_top = 0, cb_tail = 0, cb_data = junk\<rparr>"

definition next_index :: "string \<Rightarrow> nat \<Rightarrow> nat" where
  "next_index data p = (if Suc p = length data then 0 else Suc p)"

fun pop_loop :: "string \<Rightarrow> nat \<Rightarrow> nat \<Rightarrow> circbuf_exit + string \<times> nat" where
  "pop_loop data 0 p = Inr ([], p)"
| "pop_loop data (Suc n) p =
     (if p < length data
      then rbind (pop_loop data n (next_index data p)) (\<lambda>(dest, q). Inr (data ! p # dest, q))
      else Inl Circbuf_Fault)"

definition buf_pop :: "nat \<Rightarrow> circbuf \<Rightarrow> circbuf_exit + string \<times> circbuf" where
  "buf_pop len buf =
     (let len = (if len > cb_size buf then cb_size buf else len) in
      rbind (pop_loop (cb_data buf) len (cb_top buf)) (\<lambda>(dest, p).
        Inr (dest, buf\<lparr>cb_top := p, cb_size := cb_size buf - len\<rparr>)))"

definition push_char :: "char \<Rightarrow> nat \<Rightarrow> circbuf \<Rightarrow> circbuf_exit + nat \<times> circbuf" where
  "push_char c p buf =
     (if p < length (cb_data buf) then
        let buf = buf\<lparr>cb_data := (cb_data buf)[p := c]\<rparr>;
            buf = (if cb_size buf < cb_totalsize buf then buf\<lparr>cb_size := cb_size buf + 1\<rparr>
                   else buf\<lparr>cb_top := next_index (cb_data buf) (cb_top buf)\<rparr>)
        in Inr (next_index (cb_data buf) p, buf)
      else Inl Circbuf_Fault)"

fun push_loop :: "string \<Rightarrow> nat \<Rightarrow> circbuf \<Rightarrow> circbuf_exit + nat \<times> circbuf" where
  "push_loop [] p buf = Inr (p, buf)"
| "push_loop (c # src) p buf = rbind (push_char c p buf) (\<lambda>(p, buf). push_loop src p buf)"

definition buf_push :: "string \<Rightarrow> circbuf \<Rightarrow> circbuf_exit + circbuf" where
  "buf_push src buf = rbind (push_loop src (cb_tail buf) buf) (\<lambda>(p, buf). Inr (buf\<lparr>cb_tail := p\<rparr>))"

subsection \<open>The interface: a queue of bounded capacity\<close>

datatype queue_op = Push string | Pop nat

definition keep_last :: "nat \<Rightarrow> 'a list \<Rightarrow> 'a list" where
  "keep_last n xs = drop (length xs - n) xs"

text \<open>What a sequence of operations returns, on a list.\<close>

fun queue_run :: "nat \<Rightarrow> queue_op list \<Rightarrow> string \<Rightarrow> string list \<times> string" where
  "queue_run n [] q = ([], q)"
| "queue_run n (Push xs # ops) q = queue_run n ops (keep_last n (q @ xs))"
| "queue_run n (Pop k # ops) q = apfst ((#) (take k q)) (queue_run n ops (drop k q))"

fun run_ops ::
  "(string \<Rightarrow> 's \<Rightarrow> 'e + 's) \<Rightarrow> (nat \<Rightarrow> 's \<Rightarrow> 'e + string \<times> 's) \<Rightarrow> queue_op list \<Rightarrow> 's \<Rightarrow> 'e + string list \<times> 's" where
  "run_ops push pop [] s = Inr ([], s)"
| "run_ops push pop (Push xs # ops) s = rbind (push xs s) (run_ops push pop ops)"
| "run_ops push pop (Pop k # ops) s =
     rbind (pop k s) (\<lambda>(out, s). rbind (run_ops push pop ops s) (\<lambda>(outs, s). Inr (out # outs, s)))"

locale bounded_queue =
  fixes push :: "string \<Rightarrow> 's \<Rightarrow> 'e + 's"
    and pop :: "nat \<Rightarrow> 's \<Rightarrow> 'e + string \<times> 's"
    and content :: "'s \<Rightarrow> string"
    and cap :: "'s \<Rightarrow> nat"
    and inv :: "'s \<Rightarrow> bool"
  assumes push_law: "inv s \<Longrightarrow> \<exists>s'. push xs s = Inr s' \<and> inv s' \<and> cap s' = cap s \<and> content s' = keep_last (cap s) (content s @ xs)"
    and pop_law: "inv s \<Longrightarrow> \<exists>s'. pop k s = Inr (take k (content s), s') \<and> inv s' \<and> cap s' = cap s \<and> content s' = drop k (content s)"
begin

lemma run_refines:
  "inv s \<Longrightarrow> \<exists>s'. run_ops push pop ops s = Inr (fst (queue_run (cap s) ops (content s)), s') \<and> inv s' \<and>
     content s' = snd (queue_run (cap s) ops (content s))"
proof (induction ops arbitrary: s)
  case (Cons x ops)
  show ?case
  proof (cases x)
    case (Push xs)
    obtain s1 where s1: "push xs s = Inr s1" "inv s1" "cap s1 = cap s" "content s1 = keep_last (cap s) (content s @ xs)"
      using push_law [OF Cons.prems] by blast
    then show ?thesis using Cons.IH [OF s1(2)] Push by simp
  next
    case (Pop k)
    obtain s1 where s1: "pop k s = Inr (take k (content s), s1)" "inv s1" "cap s1 = cap s" "content s1 = drop k (content s)"
      using pop_law [OF Cons.prems] by blast
    obtain s2 where "run_ops push pop ops s1 = Inr (fst (queue_run (cap s) ops (drop k (content s))), s2)" "inv s2"
      "content s2 = snd (queue_run (cap s) ops (drop k (content s)))"
      using Cons.IH [OF s1(2)] s1(3,4) by auto
    then show ?thesis using s1(1) Pop by simp
  qed
qed simp

text \<open>Nothing is lost while the queue has room.\<close>

lemma push_pop: "inv s \<Longrightarrow> content s = [] \<Longrightarrow> length xs \<le> cap s \<Longrightarrow>
  \<exists>s'. run_ops push pop [Push xs, Pop (length xs)] s = Inr ([xs], s') \<and> content s' = []"
  using run_refines [of s "[Push xs, Pop (length xs)]"] by (auto simp: keep_last_def)

end

subsection \<open>The representation\<close>

definition circbuf_ok :: "circbuf \<Rightarrow> bool" where
  "circbuf_ok buf \<longleftrightarrow> 0 < length (cb_data buf) \<and> cb_totalsize buf = length (cb_data buf) \<and> cb_top buf < length (cb_data buf) \<and>
     cb_size buf \<le> length (cb_data buf) \<and> cb_tail buf = (cb_top buf + cb_size buf) mod length (cb_data buf)"

definition ring :: "string \<Rightarrow> nat \<Rightarrow> nat \<Rightarrow> string" where
  "ring data t0 n = map (\<lambda>i. data ! ((t0 + i) mod length data)) [0..<n]"

definition circbuf_content :: "circbuf \<Rightarrow> string" where
  "circbuf_content buf = ring (cb_data buf) (cb_top buf) (cb_size buf)"

lemma length_ring [simp]: "length (ring data t0 n) = n"
  by (simp add: ring_def)

lemma nth_ring [simp]: "i < n \<Longrightarrow> ring data t0 n ! i = data ! ((t0 + i) mod length data)"
  by (simp add: ring_def)

lemma next_index_mod: "p < length data \<Longrightarrow> next_index data p = Suc p mod length data"
  by (simp add: next_index_def)

lemma ring_Suc: "p < length data \<Longrightarrow> ring data p (Suc n) = data ! p # ring data (Suc p mod length data) n"
  by (intro nth_equalityI) (auto simp: nth_Cons mod_add_left_eq split: nat.split)

lemma ring_drop: "k \<le> n \<Longrightarrow> drop k (ring data t0 n) = ring data ((t0 + k) mod length data) (n - k)"
  by (intro nth_equalityI) (auto simp: mod_add_left_eq add.assoc)

lemma take_ring: "k \<le> n \<Longrightarrow> take k (ring data t0 n) = ring data t0 k"
  by (intro nth_equalityI) auto

lemma pop_loop_ring:
  "0 < length data \<Longrightarrow> p < length data \<Longrightarrow> pop_loop data n p = Inr (ring data p n, (p + n) mod length data)"
proof (induction n arbitrary: p)
  case (Suc n)
  have "pop_loop data n (Suc p mod length data) = Inr (ring data (Suc p mod length data) n, (Suc p + n) mod length data)"
    using Suc.IH [of "Suc p mod length data"] Suc.prems by (simp add: mod_add_left_eq)
  then show ?case using Suc.prems by (simp add: next_index_mod ring_Suc)
qed (simp add: ring_def)

text \<open>Writing behind the content.\<close>

lemma ring_write:
  assumes "t0 < length data" "n < length data"
  shows "ring (data[(t0 + n) mod length data := c]) t0 (Suc n) = ring data t0 n @ [c]"
proof (rule nth_equalityI)
  fix i assume "i < length (ring (data[(t0 + n) mod length data := c]) t0 (Suc n))"
  then have i: "i < Suc n" by simp
  have "(t0 + i) mod length data \<noteq> (t0 + n) mod length data" if "i < n"
  proof
    assume "(t0 + i) mod length data = (t0 + n) mod length data"
    then have "length data dvd n - i" using that mod_eq_dvd_iff_nat [of "t0 + i" "t0 + n" "length data"] by simp
    then show False using that assms(2) dvd_imp_le [of "length data" "n - i"] by simp
  qed
  moreover have "(t0 + n) mod length data < length data" using assms by (intro mod_less_divisor) linarith
  ultimately show "ring (data[(t0 + n) mod length data := c]) t0 (Suc n) ! i = (ring data t0 n @ [c]) ! i"
    using i by (auto simp: nth_append less_Suc_eq)
qed simp

lemma push_char_content:
  assumes "circbuf_ok buf" "p = cb_tail buf"
  shows "\<exists>p' buf'. push_char c p buf = Inr (p', buf') \<and> circbuf_ok (buf'\<lparr>cb_tail := p'\<rparr>) \<and>
    length (cb_data buf') = length (cb_data buf) \<and>
    circbuf_content buf' = keep_last (length (cb_data buf)) (circbuf_content buf @ [c])"
proof -
  let ?d = "cb_data buf" and ?n = "cb_size buf" and ?t = "cb_top buf"
  have ok: "0 < length ?d" "cb_totalsize buf = length ?d" "?t < length ?d" "?n \<le> length ?d" "p = (?t + ?n) mod length ?d"
    using assms by (simp_all add: circbuf_ok_def)
  have p: "p < length ?d" using ok by simp
  show ?thesis
  proof (cases "?n < length ?d")
    case True
    have "ring (?d[p := c]) ?t (Suc ?n) = ring ?d ?t ?n @ [c]" using ring_write [OF ok(3) True] ok(5) by simp
    then show ?thesis
      using True p ok by (simp add: push_char_def circbuf_ok_def circbuf_content_def keep_last_def next_index_mod mod_Suc_eq Let_def)
  next
    case False
    then have n: "?n = length ?d" using ok(4) by simp
    then have pt: "p = ?t" using ok(3,5) by simp
    obtain m where m: "length ?d = Suc m" using ok(1) by (cases "length ?d") auto
    have "ring (?d[?t := c]) (Suc ?t mod length ?d) (length ?d) = tl (ring ?d ?t (length ?d)) @ [c]"
    proof -
      have "ring (?d[?t := c]) (Suc ?t mod length ?d) (length ?d) =
          ring (?d[(Suc ?t mod length ?d + m) mod length ?d := c]) (Suc ?t mod length ?d) (Suc m)"
      proof -
        have "(Suc (cb_top buf) mod length ?d + m) mod length ?d = (Suc (cb_top buf) + m) mod length ?d" by (simp only: mod_add_left_eq)
        also have "\<dots> = (cb_top buf + length ?d) mod length ?d" by (simp add: m)
        also have "\<dots> = cb_top buf" using ok(3) by simp
        finally show ?thesis by (simp only: m)
      qed
      also have "\<dots> = ring ?d (Suc ?t mod length ?d) m @ [c]"
        using m by (intro ring_write) simp_all
      also have "ring ?d (Suc ?t mod length ?d) m = tl (ring ?d ?t (length ?d))"
        using ring_Suc [OF ok(3), of m] m by simp
      finally show ?thesis .
    qed
    then show ?thesis
      using n p pt ok by (simp add: push_char_def circbuf_ok_def circbuf_content_def keep_last_def next_index_mod drop_Suc Let_def)
  qed
qed

lemma keep_last_snoc: "keep_last n (keep_last n xs @ ys) = keep_last n (xs @ ys)"
  by (cases "length xs \<le> n") (auto simp: keep_last_def drop_append add.commute)

lemma push_loop_content:
  "circbuf_ok (buf\<lparr>cb_tail := p\<rparr>) \<Longrightarrow> \<exists>p' buf'. push_loop src p buf = Inr (p', buf') \<and> circbuf_ok (buf'\<lparr>cb_tail := p'\<rparr>) \<and>
    length (cb_data buf') = length (cb_data buf) \<and>
    circbuf_content buf' = keep_last (length (cb_data buf)) (circbuf_content buf @ src)"
proof (induction src arbitrary: p buf)
  case Nil
  then have "cb_size buf \<le> length (cb_data buf)" by (simp add: circbuf_ok_def)
  then show ?case using Nil by (simp add: keep_last_def circbuf_content_def)
next
  case (Cons c src)
  obtain p1 buf1 where 1: "push_char c p (buf\<lparr>cb_tail := p\<rparr>) = Inr (p1, buf1)" "circbuf_ok (buf1\<lparr>cb_tail := p1\<rparr>)"
    "length (cb_data buf1) = length (cb_data buf)" "circbuf_content buf1 = keep_last (length (cb_data buf)) (circbuf_content buf @ [c])"
    using push_char_content [OF Cons.prems, of p c] by (auto simp: circbuf_content_def)
  have 2: "push_char c p buf = Inr (p1, buf1\<lparr>cb_tail := cb_tail buf\<rparr>)"
    using 1(1) by (auto simp: push_char_def Let_def split: if_splits)
  obtain p2 buf2 where "push_loop src p1 (buf1\<lparr>cb_tail := cb_tail buf\<rparr>) = Inr (p2, buf2)" "circbuf_ok (buf2\<lparr>cb_tail := p2\<rparr>)"
    "length (cb_data buf2) = length (cb_data buf1)" "circbuf_content buf2 = keep_last (length (cb_data buf1)) (circbuf_content buf1 @ src)"
    using Cons.IH [of p1 "buf1\<lparr>cb_tail := cb_tail buf\<rparr>"] 1(2) by (auto simp: circbuf_content_def)
  then show ?case
    using 1(3,4) by (simp add: 2 keep_last_snoc)
qed

interpretation circ: bounded_queue buf_push buf_pop circbuf_content "\<lambda>b. length (cb_data b)" circbuf_ok
proof
  fix s xs assume s: "circbuf_ok s"
  then have "circbuf_ok (s\<lparr>cb_tail := cb_tail s\<rparr>)" by simp
  then obtain p' s' where "push_loop xs (cb_tail s) s = Inr (p', s')" "circbuf_ok (s'\<lparr>cb_tail := p'\<rparr>)"
    "length (cb_data s') = length (cb_data s)" "circbuf_content s' = keep_last (length (cb_data s)) (circbuf_content s @ xs)"
    using push_loop_content by blast
  then show "\<exists>s'. buf_push xs s = Inr s' \<and> circbuf_ok s' \<and> length (cb_data s') = length (cb_data s) \<and>
      circbuf_content s' = keep_last (length (cb_data s)) (circbuf_content s @ xs)"
    by (simp add: buf_push_def circbuf_content_def)
next
  fix s k assume s: "circbuf_ok s"
  let ?k = "if k > cb_size s then cb_size s else k"
  have "pop_loop (cb_data s) ?k (cb_top s) = Inr (ring (cb_data s) (cb_top s) ?k, (cb_top s + ?k) mod length (cb_data s))"
    using s by (intro pop_loop_ring) (simp_all add: circbuf_ok_def)
  moreover have "take k (circbuf_content s) = ring (cb_data s) (cb_top s) ?k"
    by (simp add: circbuf_content_def take_ring)
  moreover have "drop k (circbuf_content s) = ring (cb_data s) ((cb_top s + ?k) mod length (cb_data s)) (cb_size s - ?k)"
    by (simp add: circbuf_content_def ring_drop) (simp add: ring_def)
  moreover have "((cb_top s + ?k) mod length (cb_data s) + (cb_size s - ?k)) mod length (cb_data s) =
      (cb_top s + cb_size s) mod length (cb_data s)"
  proof -
    have "cb_top s + ?k + (cb_size s - ?k) = cb_top s + cb_size s" by simp
    then show ?thesis by (simp only: mod_add_left_eq)
  qed
  ultimately show "\<exists>s'. buf_pop k s = Inr (take k (circbuf_content s), s') \<and> circbuf_ok s' \<and>
      length (cb_data s') = length (cb_data s) \<and> circbuf_content s' = drop k (circbuf_content s)"
    using s by (simp add: buf_pop_def circbuf_ok_def Let_def del: if_split) (simp add: circbuf_content_def le_diff_conv trans_le_add1)
qed

subsection \<open>Properties\<close>

text \<open>
  C38: The circular buffer is a queue that forgets its oldest characters. Over every sequence of \<open>buf_push\<close> and
  \<open>buf_pop\<close> of any lengths, from any content, no access leaves the array, each \<open>buf_pop\<close> returns what the front of a
  list returns, and a push that does not fit leaves the last characters the array can hold.
\<close>

theorem circbuf_is_queue:
  assumes "circbuf_ok buf"
  shows "\<exists>buf'. run_ops buf_push buf_pop ops buf = Inr (fst (queue_run (length (cb_data buf)) ops (circbuf_content buf)), buf') \<and>
    circbuf_ok buf' \<and> circbuf_content buf' = snd (queue_run (length (cb_data buf)) ops (circbuf_content buf))"
  by (rule circ.run_refines [OF assms])

theorem circbuf_is_queue_witness:
  "\<exists>buf'. run_ops buf_push buf_pop [Push ''ab'', Pop 1, Push ''cdef'', Pop 9] (buf_init ''xyz'') = Inr ([''a'', ''def''], buf') \<and>
    circbuf_content buf' = []"
  using circbuf_is_queue [of "buf_init ''xyz''" "[Push ''ab'', Pop 1, Push ''cdef'', Pop 9]"]
  by (auto simp: circbuf_ok_def buf_init_def circbuf_content_def ring_def keep_last_def)

end
