(* ===== verification/Lists.thy ===== *)
theory Lists
  imports Prelude
begin

text \<open>
  The list manager of \<open>common/lists.c\<close>, on which the device table of the console is kept. A list is a block that
  starts with a header (24 bytes) and holds the items behind it, one after the other; the header
  fields are a record and the rest of the block is a byte list. An access outside the block is \<open>Heap_Fault\<close>. The
  allocator is the parameter \<open>alloc\<close>, which says whether a block of a size can be had. Sizes are computed without
  overflow.
\<close>

subsection \<open>State\<close>

datatype list_exit = Heap_Fault

record clist =
  ls_percentIncrease :: int
  ls_minNumItemsIncrease :: int
  ls_listSize :: int
  ls_itemSize :: int
  ls_numItems :: int
  ls_block :: "byte list"

abbreviation (input) LIST_START :: int where "LIST_START \<equiv> - 1"
abbreviation (input) LIST_END :: int where "LIST_END \<equiv> 0"
abbreviation (input) header_size :: nat where "header_size \<equiv> 24"
abbreviation (input) sizeof_ListStruct :: int where "sizeof_ListStruct \<equiv> 28"

text \<open>Reading and writing bytes of the block; \<open>memcpy\<close> and \<open>memmove\<close> read everything before they write.\<close>

definition block_get :: "int \<Rightarrow> int \<Rightarrow> byte list \<Rightarrow> list_exit + byte list" where
  "block_get off n blk =
     (if 0 \<le> off \<and> 0 \<le> n \<and> off + n \<le> int (length blk) then Inr (take (nat n) (drop (nat off) blk)) else Inl Heap_Fault)"

definition block_put :: "int \<Rightarrow> byte list \<Rightarrow> byte list \<Rightarrow> list_exit + byte list" where
  "block_put off bs blk =
     (if 0 \<le> off \<and> off + int (length bs) \<le> int (length blk)
      then Inr (take (nat off) blk @ bs @ drop (nat off + length bs) blk) else Inl Heap_Fault)"

definition put_items :: "int \<Rightarrow> byte list \<Rightarrow> clist \<Rightarrow> list_exit + clist" where
  "put_items i bs l = rbind (block_put (ls_itemSize l * i) bs (ls_block l)) (\<lambda>b. Inr (l\<lparr>ls_block := b\<rparr>))"

definition get_items :: "int \<Rightarrow> int \<Rightarrow> clist \<Rightarrow> list_exit + byte list" where
  "get_items i n l = block_get (ls_itemSize l * i) (ls_itemSize l * n) (ls_block l)"

definition move_items :: "int \<Rightarrow> int \<Rightarrow> int \<Rightarrow> clist \<Rightarrow> list_exit + clist" where
  "move_items dst src n l = rbind (get_items src n l) (\<lambda>bs. put_items dst bs l)"

subsection \<open>Space\<close>

definition SetHandleSize :: "(nat \<Rightarrow> bool) \<Rightarrow> int \<Rightarrow> clist \<Rightarrow> clist option" where
  "SetHandleSize alloc newSize l =
     (let oldSize = header_size + length (ls_block l); newSize = nat newSize in
      if oldSize = newSize then Some l
      else if alloc newSize \<or> newSize = 0
      then Some (l\<lparr>ls_block := take (newSize - header_size) (ls_block l) @ replicate (newSize - oldSize) 0\<rparr>)
      else None)"

definition NUMITEMSPERALLOC :: "clist \<Rightarrow> int" where
  "NUMITEMSPERALLOC l = max (ls_listSize l * (ls_percentIncrease l + 100) div 100) (ls_minNumItemsIncrease l)"

definition ExpandListSpace :: "(nat \<Rightarrow> bool) \<Rightarrow> int \<Rightarrow> clist \<Rightarrow> clist option" where
  "ExpandListSpace alloc numNewItems l =
     (let numNewItems = (if numNewItems = 0 then NUMITEMSPERALLOC l
                         else if numNewItems < 0 then - numNewItems + NUMITEMSPERALLOC l else numNewItems) in
      case SetHandleSize alloc (sizeof_ListStruct + (ls_listSize l + numNewItems) * ls_itemSize l) l of
        None \<Rightarrow> None
      | Some l \<Rightarrow> Some (l\<lparr>ls_listSize := ls_listSize l + numNewItems\<rparr>))"

text \<open>\<open>junk\<close> is what \<open>malloc\<close> leaves in the four bytes behind the header.\<close>

definition ListCreate :: "(nat \<Rightarrow> bool) \<Rightarrow> byte list \<Rightarrow> int \<Rightarrow> clist option" where
  "ListCreate alloc junk elementSize =
     (if alloc 28 \<and> alloc 8 then
        Some \<lparr>ls_percentIncrease = 10, ls_minNumItemsIncrease = 4, ls_listSize = 0, ls_itemSize = elementSize,
          ls_numItems = 0, ls_block = junk\<rparr>
      else None)"

definition ListCompact :: "(nat \<Rightarrow> bool) \<Rightarrow> clist \<Rightarrow> clist" where
  "ListCompact alloc l =
     (case SetHandleSize alloc (sizeof_ListStruct + ls_numItems l * ls_itemSize l) l of
        None \<Rightarrow> l
      | Some l \<Rightarrow> l\<lparr>ls_listSize := ls_numItems l\<rparr>)"

definition ListPreAllocate :: "(nat \<Rightarrow> bool) \<Rightarrow> int \<Rightarrow> clist \<Rightarrow> int \<times> clist" where
  "ListPreAllocate alloc numItems l =
     (if ls_listSize l - ls_numItems l < numItems then
        (case ExpandListSpace alloc (numItems - (ls_listSize l - ls_numItems l)) l of
           None \<Rightarrow> (0, l)
         | Some l \<Rightarrow> (1, l))
      else (1, l))"

definition ListClear :: "clist \<Rightarrow> clist" where
  "ListClear l = l\<lparr>ls_numItems := 0\<rparr>"

subsection \<open>Inserting, removing, reading\<close>

text \<open>\<open>ptr\<close> is what the argument points to, \<open>None\<close> for \<open>NULL\<close>.\<close>

definition item_bytes :: "byte list option \<Rightarrow> int \<Rightarrow> list_exit + byte list" where
  "item_bytes ptr n =
     (case ptr of
        None \<Rightarrow> Inr (replicate (nat n) 0)
      | Some bs \<Rightarrow> if n \<le> int (length bs) then Inr (take (nat n) bs) else Inl Heap_Fault)"

text \<open>\<open>ListInsertItems\<close> once there is space.\<close>

definition insert_at :: "byte list option \<Rightarrow> int \<Rightarrow> int \<Rightarrow> int \<Rightarrow> clist \<Rightarrow> list_exit + int \<times> clist" where
  "insert_at ptrToItems pos numItems numItemsToInsert l =
     rbind (item_bytes ptrToItems (ls_itemSize l * numItemsToInsert)) (\<lambda>bs.
       if pos = LIST_END then
         rbind (put_items numItems bs l) (\<lambda>l.
           Inr (1, l\<lparr>ls_numItems := ls_numItems l + numItemsToInsert\<rparr>))
       else
         rbind (move_items (pos - 1 + numItemsToInsert) (pos - 1) (numItems + 1 - pos) l) (\<lambda>l.
           rbind (put_items (pos - 1) bs l) (\<lambda>l.
             Inr (1, l\<lparr>ls_numItems := ls_numItems l + numItemsToInsert\<rparr>))))"

definition ListInsertItems :: "(nat \<Rightarrow> bool) \<Rightarrow> byte list option \<Rightarrow> int \<Rightarrow> int \<Rightarrow> clist \<Rightarrow> list_exit + int \<times> clist" where
  "ListInsertItems alloc ptrToItems firstItemPosition numItemsToInsert l =
     (let numItems = ls_numItems l in
      if firstItemPosition \<noteq> numItems + 1 \<and> firstItemPosition > numItems then Inr (0, l)
      else
        let pos = (if firstItemPosition = numItems + 1 then LIST_END else firstItemPosition) in
        case (if ls_numItems l \<ge> ls_listSize l then ExpandListSpace alloc (- numItemsToInsert) l else Some l) of
          None \<Rightarrow> Inr (0, l)
        | Some l \<Rightarrow>
            insert_at ptrToItems (if pos = LIST_START then if numItems = 0 then LIST_END else 1 else pos)
              numItems numItemsToInsert l)"

definition ListInsertItem :: "(nat \<Rightarrow> bool) \<Rightarrow> byte list option \<Rightarrow> int \<Rightarrow> clist \<Rightarrow> list_exit + int \<times> clist" where
  "ListInsertItem alloc ptrToItem itemPosition l = ListInsertItems alloc ptrToItem itemPosition 1 l"

definition item_position :: "int \<Rightarrow> clist \<Rightarrow> int" where
  "item_position pos l = (if pos = LIST_START then 1 else if pos = LIST_END then ls_numItems l else pos)"

text \<open>The result carries the bytes copied to the destination, if there is one.\<close>

definition ListRemoveItems :: "bool \<Rightarrow> int \<Rightarrow> int \<Rightarrow> clist \<Rightarrow> list_exit + byte list \<times> clist" where
  "ListRemoveItems dest firstItemPosition numItemsToRemove l =
     (let pos = item_position firstItemPosition l in
      rbind (if dest then get_items (pos - 1) numItemsToRemove l else Inr []) (\<lambda>out.
        let after_chunk = pos + numItemsToRemove; numToMove = ls_numItems l - (after_chunk - 1) in
        rbind (if numToMove > 0 then move_items (pos - 1) (after_chunk - 1) numToMove l else Inr l) (\<lambda>l.
          Inr (out, l\<lparr>ls_numItems := ls_numItems l - numItemsToRemove\<rparr>))))"

definition ListRemoveItem :: "bool \<Rightarrow> int \<Rightarrow> clist \<Rightarrow> list_exit + byte list \<times> clist" where
  "ListRemoveItem dest itemPosition l = ListRemoveItems dest itemPosition 1 l"

definition ListGetItems :: "int \<Rightarrow> int \<Rightarrow> clist \<Rightarrow> list_exit + byte list" where
  "ListGetItems firstItemPosition numItemsToGet l = get_items (item_position firstItemPosition l - 1) numItemsToGet l"

text \<open>The item \<open>ListGetPtrToItem\<close> points to, as a reader sees it.\<close>

definition ListGetPtrToItem :: "int \<Rightarrow> clist \<Rightarrow> list_exit + byte list" where
  "ListGetPtrToItem itemPosition l = get_items (item_position itemPosition l - 1) 1 l"

definition ListReplaceItems :: "byte list \<Rightarrow> int \<Rightarrow> int \<Rightarrow> clist \<Rightarrow> list_exit + clist" where
  "ListReplaceItems bs firstItemPosition numItemsToReplace l =
     (let pos = (if firstItemPosition = LIST_END then ls_numItems l else if firstItemPosition = LIST_START then 1
                 else firstItemPosition) in
      rbind (item_bytes (Some bs) (ls_itemSize l * numItemsToReplace)) (\<lambda>bs. put_items (pos - 1) bs l))"

definition ListCopy :: "(nat \<Rightarrow> bool) \<Rightarrow> byte list \<Rightarrow> clist \<Rightarrow> list_exit + clist option" where
  "ListCopy alloc junk orig =
     (case ListCreate alloc junk (ls_itemSize orig) of
        None \<Rightarrow> Inr None
      | Some t \<Rightarrow>
          (case SetHandleSize alloc (sizeof_ListStruct + ls_numItems orig * ls_itemSize t) t of
             None \<Rightarrow> Inr None
           | Some t \<Rightarrow>
               rbind (get_items 0 (ls_numItems orig) orig) (\<lambda>bs.
                 rbind (put_items 0 bs (t\<lparr>ls_numItems := ls_numItems orig, ls_listSize := ls_numItems orig,
                     ls_itemSize := ls_itemSize orig, ls_percentIncrease := ls_percentIncrease orig,
                     ls_minNumItemsIncrease := ls_minNumItemsIncrease orig\<rparr>)) (\<lambda>t. Inr (Some t)))))"

text \<open>\<open>ListAppend\<close> of two different lists.\<close>

definition ListAppend :: "(nat \<Rightarrow> bool) \<Rightarrow> clist \<Rightarrow> clist \<Rightarrow> list_exit + int \<times> clist" where
  "ListAppend alloc l1 l2 =
     (if ls_itemSize l1 \<noteq> ls_itemSize l2 then Inr (0, l1)
      else
        let n1 = ls_numItems l1; n2 = ls_numItems l2 in
        if n2 = 0 then Inr (1, l1)
        else case SetHandleSize alloc (sizeof_ListStruct + (n1 + n2) * ls_itemSize l1) l1 of
          None \<Rightarrow> Inr (0, l1)
        | Some l1 \<Rightarrow>
            rbind (get_items 0 n2 l2) (\<lambda>bs.
              rbind (put_items n1 bs (l1\<lparr>ls_numItems := n1 + n2, ls_listSize := n1 + n2\<rparr>)) (\<lambda>l1. Inr (1, l1))))"

subsection \<open>Searching\<close>

text \<open>\<open>memcmp\<close> of \<open>lib_generic/string.c\<close>; the comparison function of a caller works on the two items.\<close>

fun memcmp :: "byte list \<Rightarrow> byte list \<Rightarrow> int" where
  "memcmp (a # as) (b # bs) = (let res = uint a - uint b in if res \<noteq> 0 then res else memcmp as bs)"
| "memcmp _ _ = 0"

definition compare_items :: "(byte list \<Rightarrow> byte list \<Rightarrow> int) option \<Rightarrow> byte list \<Rightarrow> byte list \<Rightarrow> int" where
  "compare_items cmp = (case cmp of None \<Rightarrow> memcmp | Some f \<Rightarrow> f)"

function find_loop :: "(byte list \<Rightarrow> byte list \<Rightarrow> int) \<Rightarrow> byte list \<Rightarrow> int \<Rightarrow> int \<Rightarrow> clist \<Rightarrow> list_exit + int" where
  "find_loop cmp x index numItems l =
     (if index \<le> numItems then
        rbind (get_items (index - 1) 1 l) (\<lambda>y.
          if cmp x y = 0 then Inr index else find_loop cmp x (index + 1) numItems l)
      else Inr 0)"
  by pat_completeness auto
termination
  by (relation "measure (\<lambda>(cmp, x, index, numItems, l). nat (numItems + 1 - index))") auto

declare find_loop.simps [simp del]

definition ListFindItem :: "(byte list \<Rightarrow> byte list \<Rightarrow> int) option \<Rightarrow> byte list \<Rightarrow> int \<Rightarrow> clist \<Rightarrow> list_exit + int" where
  "ListFindItem cmp x startingPosition l =
     (let numItems = ls_numItems l in
      if numItems = 0 then Inr 0
      else find_loop (compare_items cmp) x
             (if startingPosition = LIST_START then 1 else if startingPosition = LIST_END then numItems else startingPosition)
             numItems l)"

lemma find_loop_bounds: "find_loop cmp x i n l = Inr r \<Longrightarrow> r = 0 \<or> i \<le> r \<and> r \<le> n"
proof (induction cmp x i n l rule: find_loop.induct)
  case (1 cmp x i n l)
  show ?case
  proof (cases "i \<le> n")
    case True
    with 1 show ?thesis by (auto simp: find_loop.simps [of cmp x i n l] res_simps split: if_splits)
  next
    case False
    with 1 show ?thesis by (simp add: find_loop.simps [of cmp x i n l])
  qed
qed

text \<open>The inner loop of \<open>ListRemoveDuplicates\<close>; \<open>numItems\<close> is its local copy of the number of items.\<close>

function dup_inner ::
  "(byte list \<Rightarrow> byte list \<Rightarrow> int) option \<Rightarrow> int \<Rightarrow> int \<Rightarrow> int \<Rightarrow> clist \<Rightarrow> list_exit + int \<times> clist" where
  "dup_inner cmp index start numItems l =
     (if start \<le> numItems then
        rbind (ListGetPtrToItem index l) (\<lambda>x.
          rbind (ListFindItem cmp x start l) (\<lambda>dup.
            if dup > 0 then
              rbind (ListRemoveItem False dup l) (\<lambda>(_, l). dup_inner cmp index dup (numItems - 1) l)
            else Inr (numItems, l)))
      else Inr (numItems, l))"
  by pat_completeness auto
termination
proof (relation "measure (\<lambda>(cmp, index, start, numItems, l). nat (numItems + 1 - start))")
qed (auto simp: ListFindItem_def Let_def dest!: find_loop_bounds split: if_splits)

declare dup_inner.simps [simp del]

lemma dup_inner_le: "dup_inner cmp index start n l = Inr (n', l') \<Longrightarrow> n' \<le> n"
proof (induction cmp index start n l arbitrary: n' l' rule: dup_inner.induct)
  case (1 cmp index start n l)
  from 1(2) show ?case
  proof (cases "start \<le> n")
    case True
    then obtain x dup where x: "ListGetPtrToItem index l = Inr x" "ListFindItem cmp x start l = Inr dup"
      using 1(2) unfolding dup_inner.simps [of cmp index start n l] by (auto simp: res_simps)
    show ?thesis
    proof (cases "0 < dup")
      case d: True
      then obtain out l1 where "ListRemoveItem False dup l = Inr (out, l1)" "dup_inner cmp index dup (n - 1) l1 = Inr (n', l')"
        using 1(2) True x unfolding dup_inner.simps [of cmp index start n l] by (auto simp: res_simps)
      with 1(1) [OF True x d] show ?thesis by force
    next
      case False
      then show ?thesis using 1(2) True x unfolding dup_inner.simps [of cmp index start n l] by simp
    qed
  qed (simp add: dup_inner.simps [of cmp index start n l])
qed

function dup_outer :: "(byte list \<Rightarrow> byte list \<Rightarrow> int) option \<Rightarrow> int \<Rightarrow> int \<Rightarrow> clist \<Rightarrow> list_exit + clist" where
  "dup_outer cmp index numItems l =
     (if index < numItems then
        rbind (dup_inner cmp index (index + 1) numItems l) (\<lambda>(numItems, l). dup_outer cmp (index + 1) numItems l)
      else Inr l)"
  by pat_completeness auto
termination
  by (relation "measure (\<lambda>(cmp, index, numItems, l). nat (numItems - index))") (auto dest!: dup_inner_le)

declare dup_outer.simps [simp del]

definition ListRemoveDuplicates :: "(byte list \<Rightarrow> byte list \<Rightarrow> int) option \<Rightarrow> clist \<Rightarrow> list_exit + clist" where
  "ListRemoveDuplicates cmp l = dup_outer cmp 1 (ls_numItems l) l"

text \<open>The comparison of the item sizes compares the first one with itself.\<close>

definition ListEqual :: "clist \<Rightarrow> clist \<Rightarrow> list_exit + bool" where
  "ListEqual l1 l2 =
     (if ls_itemSize l1 = ls_itemSize l1 \<and> ls_numItems l1 = ls_numItems l2 then
        rbind (get_items 0 (ls_numItems l1) l1) (\<lambda>a.
          rbind (block_get 0 (ls_itemSize l1 * ls_numItems l1) (ls_block l2)) (\<lambda>b. Inr (memcmp a b = 0)))
      else Inr False)"

text \<open>Binary search; the result is the index of a match or \<open>-i-1\<close> for the place of the item.\<close>

function bin_loop :: "(byte list \<Rightarrow> byte list \<Rightarrow> int) \<Rightarrow> byte list \<Rightarrow> int \<Rightarrow> int \<Rightarrow> int \<Rightarrow> int \<Rightarrow> clist \<Rightarrow> list_exit + int" where
  "bin_loop cmp x low high mid c l =
     (if low \<le> high then
        let mid = (low + high) div 2 in
        rbind (get_items mid 1 l) (\<lambda>y.
          let c = cmp x y in
          if c = 0 then Inr mid
          else if c < 0 then bin_loop cmp x low (mid - 1) mid c l
          else bin_loop cmp x (mid + 1) high mid c l)
      else Inr (- (if c > 0 then mid + 1 else mid) - 1))"
  by pat_completeness auto
termination
  by (relation "measure (\<lambda>(cmp, x, low, high, mid, c, l). nat (high + 1 - low))") auto

declare bin_loop.simps [simp del]

definition BinSearch :: "(byte list \<Rightarrow> byte list \<Rightarrow> int) option \<Rightarrow> byte list \<Rightarrow> clist \<Rightarrow> list_exit + int" where
  "BinSearch cmp x l = bin_loop (compare_items cmp) x 0 (ls_numItems l - 1) 0 (- 1) l"

definition ListBinSearch :: "(byte list \<Rightarrow> byte list \<Rightarrow> int) option \<Rightarrow> byte list \<Rightarrow> clist \<Rightarrow> list_exit + int" where
  "ListBinSearch cmp x l = rbind (BinSearch cmp x l) (\<lambda>index. Inr (if index \<ge> 0 then index + 1 else 0))"

subsection \<open>Representation\<close>

text \<open>The items \<open>xs\<close>, each of \<open>sz\<close> bytes, with free space behind them.\<close>

definition list_repr :: "nat \<Rightarrow> byte list list \<Rightarrow> clist \<Rightarrow> bool" where
  "list_repr sz xs l \<longleftrightarrow> 0 < sz \<and> ls_itemSize l = int sz \<and> (\<forall>x \<in> set xs. length x = sz) \<and> ls_numItems l = int (length xs) \<and>
     int (length xs) \<le> ls_listSize l \<and> 0 < ls_minNumItemsIncrease l \<and> 0 \<le> ls_percentIncrease l \<and>
     (\<exists>rest. ls_block l = concat xs @ rest \<and> int (length (ls_block l)) = 4 + ls_listSize l * int sz)"

lemma length_concat_items: "\<forall>x \<in> set xs. length x = sz \<Longrightarrow> length (concat xs) = length xs * sz"
  by (induction xs) auto

lemma take_concat_items: "\<forall>x \<in> set xs. length x = sz \<Longrightarrow> take (k * sz) (concat xs) = concat (take k xs)"
proof (induction xs arbitrary: k)
  case (Cons x xs)
  then show ?case by (cases k) auto
qed simp

lemma drop_concat_items: "\<forall>x \<in> set xs. length x = sz \<Longrightarrow> drop (k * sz) (concat xs) = concat (drop k xs)"
proof (induction xs arbitrary: k)
  case (Cons x xs)
  then show ?case by (cases k) auto
qed simp

text \<open>Reading a chunk of items.\<close>

lemma get_items_repr:
  assumes r: "list_repr sz xs l" and k: "i + n \<le> length xs"
  shows "get_items (int i) (int n) l = Inr (concat (take n (drop i xs)))"
proof -
  obtain rest where b: "ls_block l = concat xs @ rest" "ls_itemSize l = int sz" "\<forall>x \<in> set xs. length x = sz"
    using r by (auto simp: list_repr_def)
  have c: "length (concat xs) = length xs * sz" by (rule length_concat_items [OF b(3)])
  have le: "i * sz + n * sz \<le> length xs * sz" using k by (metis add_mult_distrib mult_le_mono1)
  have d: "\<forall>x \<in> set (drop i xs). length x = sz" using b(3) by (auto dest: in_set_dropD)
  have "take (n * sz) (drop (i * sz) (concat xs @ rest)) = take (n * sz) (concat (drop i xs))"
    using le c by (simp add: drop_concat_items [OF b(3)] length_concat_items [OF d] diff_mult_distrib)
  also have "\<dots> = concat (take n (drop i xs))" by (rule take_concat_items [OF d])
  finally have "take (n * sz) (drop (i * sz) (ls_block l)) = concat (take n (drop i xs))" by (simp only: b(1))
  moreover have "int sz * int i + int sz * int n \<le> int (length (ls_block l))"
    using le by (simp add: b(1) c mult.commute flip: of_nat_mult of_nat_add)
  ultimately show ?thesis by (simp add: get_items_def block_get_def b(2) nat_mult_distrib mult.commute)
qed

lemma get_item_repr:
  assumes "list_repr sz xs l" "i < length xs"
  shows "get_items (int i) 1 l = Inr (xs ! i)"
  using get_items_repr [OF assms(1), of i 1] assms(2) by (simp add: take_Suc hd_drop_conv_nth drop_eq_Nil)

text \<open>Moving the tail up and filling the gap, on bytes.\<close>

lemma block_put_at: "block_put (int (length a)) b (a @ c @ d) = Inr (a @ b @ d)" if "length b = length c"
  using that by (simp add: block_put_def)

lemma block_put_nat:
  "block_put (int i) bs blk = (if i + length bs \<le> length blk then Inr (take i blk @ bs @ drop (i + length bs) blk) else Inl Heap_Fault)"
  by (simp add: block_put_def nat_int_add)

lemma shift_and_fill:
  assumes "length y \<le> length c"
  shows "block_put (int (length a) + int (length y)) b (a @ b @ c) =
      Inr (take (length a + length y) (a @ b @ c) @ b @ drop (length y) c)"
    "block_put (int (length a)) y (take (length a + length y) (a @ b @ c) @ b @ drop (length y) c) = Inr (a @ y @ b @ drop (length y) c)"
proof -
  show "block_put (int (length a) + int (length y)) b (a @ b @ c) =
      Inr (take (length a + length y) (a @ b @ c) @ b @ drop (length y) c)"
    using assms by (simp add: block_put_def nat_add_distrib)
  have t: "take (length a + length y) (a @ b @ c) = a @ take (length y) (b @ c)" by simp
  have "length y = length (take (length y) (b @ c))" using assms by simp
  then show "block_put (int (length a)) y (take (length a + length y) (a @ b @ c) @ b @ drop (length y) c) = Inr (a @ y @ b @ drop (length y) c)"
    unfolding t append_assoc by (rule block_put_at)
qed

lemma SetHandleSize_grow:
  assumes "int (length (ls_block l)) = 4 + ls_listSize l * int sz" "0 \<le> k" "0 \<le> ls_listSize l" "alloc (nat (28 + (ls_listSize l + k) * int sz))"
  shows "\<exists>z. SetHandleSize alloc (28 + (ls_listSize l + k) * int sz) l = Some (l\<lparr>ls_block := ls_block l @ z\<rparr>) \<and>
    int (length (ls_block l @ z)) = 4 + (ls_listSize l + k) * int sz"
proof -
  let ?new = "nat (28 + (ls_listSize l + k) * int sz)"
  have n: "int ?new = 28 + (ls_listSize l + k) * int sz" using assms(2,3) by simp
  have ge: "24 + length (ls_block l) \<le> ?new"
  proof -
    have "0 \<le> k * int sz" using assms(2) by simp
    then have "int (24 + length (ls_block l)) \<le> int ?new" unfolding n using assms(1) by (simp add: ring_distribs)
    then show ?thesis by linarith
  qed
  let ?z = "replicate (?new - (24 + length (ls_block l))) (0 :: byte)"
  have "SetHandleSize alloc (28 + (ls_listSize l + k) * int sz) l = Some (l\<lparr>ls_block := ls_block l @ ?z\<rparr>)"
    using ge assms(4) by (auto simp: SetHandleSize_def Let_def)
  moreover have "int (length (ls_block l @ ?z)) = 4 + (ls_listSize l + k) * int sz"
    using ge n by (simp add: of_nat_diff)
  ultimately show ?thesis by blast
qed

lemma ExpandListSpace_repr:
  assumes r: "list_repr sz xs l" and k: "0 < k"
  shows "ExpandListSpace alloc (- int k) l = None \<or>
    (\<exists>l'. ExpandListSpace alloc (- int k) l = Some l' \<and> list_repr sz xs l' \<and> ls_listSize l + int k \<le> ls_listSize l')"
proof -
  let ?k = "int k + NUMITEMSPERALLOC l"
  have b: "int (length (ls_block l)) = 4 + ls_listSize l * int sz" "0 \<le> ls_listSize l" "0 < ls_minNumItemsIncrease l" "ls_itemSize l = int sz"
    using r by (auto simp: list_repr_def)
  have pos: "0 < NUMITEMSPERALLOC l" using b(3) by (simp add: NUMITEMSPERALLOC_def)
  have e: "ExpandListSpace alloc (- int k) l = (case SetHandleSize alloc (28 + (ls_listSize l + ?k) * int sz) l of
      None \<Rightarrow> None | Some l \<Rightarrow> Some (l\<lparr>ls_listSize := ls_listSize l + ?k\<rparr>))"
    using k by (simp add: ExpandListSpace_def b(4) Let_def)
  show ?thesis
  proof (cases "SetHandleSize alloc (28 + (ls_listSize l + ?k) * int sz) l")
    case (Some l1)
    have "alloc (nat (28 + (ls_listSize l + ?k) * int sz))"
    proof -
      have "0 < ?k * int sz" using r pos by (simp add: list_repr_def)
      then have "int (nat (28 + (ls_listSize l + ?k) * int sz)) \<noteq> int (24 + length (ls_block l))" "nat (28 + (ls_listSize l + ?k) * int sz) \<noteq> 0"
        using b(1,2) pos by (simp_all add: ring_distribs)
      then show ?thesis using Some by (auto simp: SetHandleSize_def Let_def split: if_splits)
    qed
    then obtain z where z: "l1 = l\<lparr>ls_block := ls_block l @ z\<rparr>" "int (length (ls_block l @ z)) = 4 + (ls_listSize l + ?k) * int sz"
      using SetHandleSize_grow [OF b(1), of ?k alloc] b(2) pos Some by auto
    have "list_repr sz xs (l1\<lparr>ls_listSize := ls_listSize l1 + ?k\<rparr>)"
      using r z pos by (auto simp: list_repr_def)
    then show ?thesis using pos by (auto simp: e Some z(1))
  qed (simp add: e)
qed

lemma insert_at_bytes:
  assumes r: "list_repr sz xs l" and ys: "\<forall>y \<in> set ys. length y = sz" and q: "q \<le> length xs"
    and room: "int ((length xs + length ys) * sz) \<le> 4 + ls_listSize l * int sz"
    and pos: "pos = int q + 1 \<or> pos = 0 \<and> q = length xs"
  obtains (out) rest where "insert_at (Some (concat ys)) pos (int (length xs)) (int (length ys)) l =
      Inr (1, l\<lparr>ls_block := concat (take q xs @ ys @ drop q xs) @ rest, ls_numItems := int (length xs + length ys)\<rparr>)"
    "length (concat (take q xs @ ys @ drop q xs) @ rest) = length (ls_block l)"
proof -
  let ?a = "concat (take q xs)" and ?b = "concat (drop q xs)" and ?y = "concat ys"
  obtain c where l: "ls_block l = concat xs @ c" "int (length (ls_block l)) = 4 + ls_listSize l * int sz" "ls_itemSize l = int sz"
    "\<forall>x \<in> set xs. length x = sz" "ls_numItems l = int (length xs)" "0 < sz"
    using r by (auto simp: list_repr_def)
  have ab: "concat xs = ?a @ ?b" by (simp flip: concat_append)
  have la: "length ?a = q * sz" "length ?b = (length xs - q) * sz" "length ?y = length ys * sz"
  proof -
    have h: "\<forall>x \<in> set (take q xs). length x = sz" "\<forall>x \<in> set (drop q xs). length x = sz" using l(4) by (auto dest: in_set_takeD in_set_dropD)
    show "length ?a = q * sz" "length ?b = (length xs - q) * sz" "length ?y = length ys * sz"
      unfolding length_concat_items [OF h(1)] length_concat_items [OF h(2)] length_concat_items [OF ys] using q by simp_all
  qed
  have yc: "length ?y \<le> length c"
  proof -
    have "int (length (concat xs)) + int (length ?y) \<le> int (length (concat xs)) + int (length c)"
      using room l(1,2) length_concat_items [OF l(4)] la(3) by (simp add: ring_distribs)
    then show ?thesis by simp
  qed
  have bs: "item_bytes (Some ?y) (int sz * int (length ys)) = Inr ?y"
    by (simp add: item_bytes_def l(3) la(3) nat_mult_distrib mult.commute)
  define l' where "l' = l\<lparr>ls_block := ?a @ ?y @ ?b @ drop (length ?y) c, ls_numItems := int (length xs) + int (length ys)\<rparr>"
  have fin: ?thesis if i: "insert_at (Some ?y) pos (int (length xs)) (int (length ys)) l = Inr (1, l')"
    using i yc by (intro out [of "drop (length ?y) c"]) (simp_all add: l'_def l(1) ab)
  show ?thesis
  proof (cases "pos = 0")
    case True
    then have q': "q = length xs" using pos by auto
    have c: "c = take (length ?y) c @ drop (length ?y) c" by simp
    have "block_put (int (length ?a)) ?y (?a @ take (length ?y) c @ drop (length ?y) c) = Inr (?a @ ?y @ drop (length ?y) c)"
      using yc by (intro block_put_at) simp
    then have "block_put (int sz * int (length xs)) ?y (ls_block l) = Inr (?a @ ?y @ ?b @ drop (length ?y) c)"
      using q' la(1) by (simp add: l(1) mult.commute)
    then have "insert_at (Some ?y) pos (int (length xs)) (int (length ys)) l = Inr (1, l')"
      using True by (simp add: insert_at_def bs put_items_def l(3,5) l'_def)
    then show ?thesis by (rule fin)
  next
    case False
    then have p: "pos = int q + 1" using pos by simp
    have g: "get_items (int q) (int (length xs - q)) l = Inr ?b"
      using get_items_repr [OF r, of q "length xs - q"] q by simp
    have z: "int sz * (pos - 1 + int (length ys)) = int (length ?a) + int (length ?y)" "int sz * (pos - 1) = int (length ?a)"
      by (simp_all add: p la(1,3) ring_distribs mult.commute)
    have s: "block_put (int sz * (pos - 1 + int (length ys))) ?b (ls_block l) = Inr (take (length ?a + length ?y) (?a @ ?b @ c) @ ?b @ drop (length ?y) c)"
      "block_put (int sz * (pos - 1)) ?y (take (length ?a + length ?y) (?a @ ?b @ c) @ ?b @ drop (length ?y) c) = Inr (?a @ ?y @ ?b @ drop (length ?y) c)"
      unfolding z l(1) ab append_assoc by (rule shift_and_fill [OF yc])+
    have n: "int (length xs) + 1 - pos = int (length xs - q)" "pos - 1 = int q" using q by (simp_all add: p)
    have "move_items (pos - 1 + int (length ys)) (pos - 1) (int (length xs) + 1 - pos) l =
        Inr (l\<lparr>ls_block := take (length ?a + length ?y) (?a @ ?b @ c) @ ?b @ drop (length ?y) c\<rparr>)"
      unfolding move_items_def n(1) n(2) g using s(1) by (simp add: put_items_def l(3) n(2))
    then have "insert_at (Some ?y) pos (int (length xs)) (int (length ys)) l = Inr (1, l')"
      using False s(2) by (simp add: insert_at_def bs put_items_def l(3,5) l'_def)
    then show ?thesis by (rule fin)
  qed
qed

lemma insert_at_repr:
  assumes r: "list_repr sz xs l" and ys: "\<forall>y \<in> set ys. length y = sz" and q: "q \<le> length xs"
    and room: "int (length xs + length ys) \<le> ls_listSize l" and pos: "pos = int q + 1 \<or> pos = 0 \<and> q = length xs"
  obtains l' where "insert_at (Some (concat ys)) pos (int (length xs)) (int (length ys)) l = Inr (1, l')"
    "list_repr sz (take q xs @ ys @ drop q xs) l'"
proof -
  have "int (length xs + length ys) * int sz \<le> ls_listSize l * int sz" using room by (intro mult_right_mono) simp_all
  then have "int ((length xs + length ys) * sz) \<le> 4 + ls_listSize l * int sz" by simp
  from insert_at_bytes [OF r ys q this pos] obtain rest where
    i: "insert_at (Some (concat ys)) pos (int (length xs)) (int (length ys)) l =
      Inr (1, l\<lparr>ls_block := concat (take q xs @ ys @ drop q xs) @ rest, ls_numItems := int (length xs + length ys)\<rparr>)"
    "length (concat (take q xs @ ys @ drop q xs) @ rest) = length (ls_block l)" by blast
  have "\<forall>x \<in> set (take q xs @ ys @ drop q xs). length x = sz" using ys r by (auto simp: list_repr_def dest: in_set_takeD in_set_dropD)
  moreover have "length (take q xs @ ys @ drop q xs) = length xs + length ys" using q by simp
  ultimately have "list_repr sz (take q xs @ ys @ drop q xs)
      (l\<lparr>ls_block := concat (take q xs @ ys @ drop q xs) @ rest, ls_numItems := int (length xs + length ys)\<rparr>)"
    using r room i(2) unfolding list_repr_def by (simp only:) auto
  then show ?thesis using that i(1) by blast
qed

text \<open>What a position denotes for inserting and for the other operations, as an index.\<close>

definition insert_index :: "int \<Rightarrow> nat \<Rightarrow> nat \<Rightarrow> bool" where
  "insert_index pos n q \<longleftrightarrow> q \<le> n \<and> (pos = int q + 1 \<or> pos = LIST_END \<and> q = n \<or> pos = LIST_START \<and> q = 0)"

definition item_index :: "int \<Rightarrow> nat \<Rightarrow> nat \<Rightarrow> bool" where
  "item_index pos n q \<longleftrightarrow> q < n \<and> (pos = int q + 1 \<or> pos = LIST_END \<and> n = Suc q \<or> pos = LIST_START \<and> q = 0)"

lemma ListInsertItems_repr:
  assumes r: "list_repr sz xs l" and ys: "\<forall>y \<in> set ys. length y = sz" "ys \<noteq> []" and q: "insert_index pos (length xs) q"
    and fits: "int (length xs) < ls_listSize l \<Longrightarrow> int (length xs + length ys) \<le> ls_listSize l"
  shows "ListInsertItems alloc (Some (concat ys)) pos (int (length ys)) l = Inr (0, l) \<or>
    (\<exists>l'. ListInsertItems alloc (Some (concat ys)) pos (int (length ys)) l = Inr (1, l') \<and> list_repr sz (take q xs @ ys @ drop q xs) l')"
proof -
  let ?n = "int (length xs)"
  have n: "ls_numItems l = ?n" "?n \<le> ls_listSize l" using r by (simp_all add: list_repr_def)
  have q': "q \<le> length xs" using q by (simp add: insert_index_def)
  let ?p = "if pos = ?n + 1 then 0 else pos"
  let ?p' = "if ?p = LIST_START then if ?n = 0 then LIST_END else 1 else ?p"
  have np: "\<not> (pos \<noteq> ?n + 1 \<and> pos > ?n)" using q by (auto simp: insert_index_def)
  have p': "?p' = int q + 1 \<or> ?p' = 0 \<and> q = length xs" using q by (auto simp: insert_index_def)
  define r0 where "r0 = (if ls_numItems l \<ge> ls_listSize l then ExpandListSpace alloc (- int (length ys)) l else Some l)"
  have e: "ListInsertItems alloc (Some (concat ys)) pos (int (length ys)) l =
      (case r0 of None \<Rightarrow> Inr (0, l) | Some l \<Rightarrow> insert_at (Some (concat ys)) ?p' ?n (int (length ys)) l)"
    using np unfolding ListInsertItems_def Let_def r0_def n(1) by (simp only: if_False)
  show ?thesis
  proof (cases r0)
    case (Some l1)
    have l1: "list_repr sz xs l1" "int (length xs + length ys) \<le> ls_listSize l1"
      using Some fits n r ExpandListSpace_repr [OF r, of "length ys" alloc] ys(2) by (auto simp: r0_def split: if_splits)
    obtain l' where "insert_at (Some (concat ys)) ?p' ?n (int (length ys)) l1 = Inr (1, l')" "list_repr sz (take q xs @ ys @ drop q xs) l'"
      by (rule insert_at_repr [OF l1(1) ys(1) q' l1(2) p'])
    then show ?thesis by (simp only: e Some option.case) blast
  qed (simp add: e)
qed

lemma ListRemoveItems_repr:
  assumes r: "list_repr sz xs l" and q: "item_index pos (length xs) q" and k: "q + k \<le> length xs"
  obtains l' where "ListRemoveItems dest pos (int k) l = Inr (if dest then concat (take k (drop q xs)) else [], l')"
    "list_repr sz (take q xs @ drop (q + k) xs) l'"
proof -
  obtain c where l: "ls_block l = concat xs @ c" "int (length (ls_block l)) = 4 + ls_listSize l * int sz" "ls_itemSize l = int sz"
    "\<forall>x \<in> set xs. length x = sz" "ls_numItems l = int (length xs)" "0 < sz"
    using r by (auto simp: list_repr_def)
  let ?m = "length xs - (q + k)"
  have p: "item_position pos l = int q + 1" using q by (auto simp: item_index_def item_position_def l(5))
  have out: "(if dest then get_items (int q) (int k) l else Inr []) = Inr (if dest then concat (take k (drop q xs)) else [])"
    using get_items_repr [OF r k] by simp
  have m: "ls_numItems l - int (q + k) = int ?m" "int q + 1 + int k - 1 = int (q + k)" "int q + 1 - 1 = int q"
    using k by (simp_all add: l(5))
  let ?b = "concat (drop (q + k) xs)"
  have g: "get_items (int (q + k)) (int ?m) l = Inr ?b" using get_items_repr [OF r, of "q + k" ?m] k by simp
  have h: "\<forall>x \<in> set (take q xs). length x = sz" "\<forall>x \<in> set (drop (q + k) xs). length x = sz" using l(4) by (auto dest: in_set_takeD in_set_dropD)
  have lb: "length ?b = ?m * sz" "length (concat (take q xs)) = q * sz" "length (concat xs) = length xs * sz"
    unfolding length_concat_items [OF h(1)] length_concat_items [OF h(2)] length_concat_items [OF l(4)] using k by simp_all
  obtain c1 where "concat (take q xs) @ ?b @ c1 = take (q * sz) (ls_block l) @ ?b @ drop (q * sz + length ?b) (ls_block l)"
      "length (concat (take q xs) @ ?b @ c1) = length (ls_block l)"
    and put: "block_put (int (q * sz)) ?b (ls_block l) = Inr (concat (take q xs) @ ?b @ c1)"
  proof
    let ?c = "drop (q * sz + length ?b) (ls_block l)"
    have "q + ?m \<le> length xs" using k by simp
    then have le: "q * sz + ?m * sz \<le> length xs * sz" by (metis add_mult_distrib mult_le_mono1)
    have t: "take (q * sz) (ls_block l) = concat (take q xs)"
      using k by (simp add: l(1) lb take_concat_items [OF l(4)])
    then show "concat (take q xs) @ ?b @ ?c = take (q * sz) (ls_block l) @ ?b @ ?c" by simp
    show "length (concat (take q xs) @ ?b @ ?c) = length (ls_block l)" using le unfolding length_append lb(1,2) length_drop l(1) lb(3) by linarith
    show "block_put (int (q * sz)) ?b (ls_block l) = Inr (concat (take q xs) @ ?b @ ?c)"
    proof -
      have "q * sz + length ?b \<le> length (ls_block l)" unfolding l(1) length_append lb(1,3) using le by linarith
      then show ?thesis unfolding block_put_nat t by simp
    qed
  qed
  define blk where "blk = (if ?m = 0 then ls_block l else concat (take q xs) @ ?b @ c1)"
  have mv: "(if int ?m > 0 then move_items (int q) (int (q + k)) (int ?m) l else Inr l) = Inr (l\<lparr>ls_block := blk\<rparr>)"
  proof -
    have "int sz * int q = int (q * sz)" by (simp add: mult.commute)
    then have "put_items (int q) ?b l = Inr (l\<lparr>ls_block := concat (take q xs) @ ?b @ c1\<rparr>)"
      unfolding put_items_def l(3) by (simp only: put rbind.simps)
    then show ?thesis unfolding move_items_def g by (auto simp: blk_def)
  qed
  define l' where "l' = l\<lparr>ls_block := blk, ls_numItems := int (length xs) - int k\<rparr>"
  have "ListRemoveItems dest pos (int k) l = Inr (if dest then concat (take k (drop q xs)) else [], l')"
    unfolding ListRemoveItems_def p Let_def m out rbind.simps(2) mv by (simp add: l(5) l'_def)
  moreover have "list_repr sz (take q xs @ drop (q + k) xs) l'"
  proof -
    have "\<exists>rest. blk = concat (take q xs @ drop (q + k) xs) @ rest"
    proof (cases "?m = 0")
      case True
      then have "drop (q + k) xs = []" by simp
      moreover have "blk = concat (take q xs) @ (concat (drop q xs) @ c)" using True by (simp add: blk_def l(1)) (simp flip: concat_append append_assoc)
      ultimately show ?thesis by simp
    qed (simp add: blk_def)
    moreover have "int (length blk) = 4 + ls_listSize l' * int sz"
      using l(2) \<open>length (concat (take q xs) @ ?b @ c1) = length (ls_block l)\<close> by (simp add: blk_def l'_def)
    moreover have "length (take q xs @ drop (q + k) xs) = length xs - k" "k \<le> length xs" using k by simp_all
    moreover have "\<forall>x \<in> set (take q xs @ drop (q + k) xs). length x = sz" using h by auto
    moreover have "0 < ls_minNumItemsIncrease l'" "0 \<le> ls_percentIncrease l'" "ls_itemSize l' = int sz" "int (length xs) \<le> ls_listSize l'"
      "ls_block l' = blk" "ls_numItems l' = int (length xs) - int k"
      using r by (simp_all add: list_repr_def l'_def)
    ultimately show ?thesis using l(6) unfolding list_repr_def by (simp only:) auto
  qed
  ultimately show ?thesis using that by blast
qed

subsection \<open>The interface: a list with positions\<close>

datatype 'a edit = Ins 'a nat | Del nat

text \<open>The edits on a list; \<open>None\<close> when a position does not exist.\<close>

fun edits :: "'a edit list \<Rightarrow> 'a list \<Rightarrow> 'a list option" where
  "edits [] xs = Some xs"
| "edits (Ins x q # es) xs = (if q \<le> length xs then edits es (take q xs @ [x] @ drop q xs) else None)"
| "edits (Del q # es) xs = (if q < length xs then edits es (take q xs @ drop (Suc q) xs) else None)"

text \<open>A client stops at the first insertion that fails; the flag tells whether it has come to the end.\<close>

fun run_edits ::
  "('a \<Rightarrow> nat \<Rightarrow> 's \<Rightarrow> 'e + bool \<times> 's) \<Rightarrow> (nat \<Rightarrow> 's \<Rightarrow> 'e + 's) \<Rightarrow> 'a edit list \<Rightarrow> 's \<Rightarrow> 'e + bool \<times> 's" where
  "run_edits ins del [] s = Inr (True, s)"
| "run_edits ins del (Ins x q # es) s =
     rbind (ins x q s) (\<lambda>(b, s). if b then run_edits ins del es s else Inr (False, s))"
| "run_edits ins del (Del q # es) s = rbind (del q s) (run_edits ins del es)"

fun inserted :: "'a edit list \<Rightarrow> 'a set" where
  "inserted [] = {}"
| "inserted (Ins x q # es) = insert x (inserted es)"
| "inserted (Del q # es) = inserted es"

locale item_list =
  fixes ins :: "'a \<Rightarrow> nat \<Rightarrow> 's \<Rightarrow> 'e + bool \<times> 's"
    and del :: "nat \<Rightarrow> 's \<Rightarrow> 'e + 's"
    and get :: "nat \<Rightarrow> 's \<Rightarrow> 'e + 'a"
    and items :: "'s \<Rightarrow> 'a list"
    and inv :: "'s \<Rightarrow> bool"
    and okx :: "'a \<Rightarrow> bool"
  assumes ins_law: "inv s \<Longrightarrow> okx x \<Longrightarrow> q \<le> length (items s) \<Longrightarrow> \<exists>b s'. ins x q s = Inr (b, s') \<and> inv s' \<and>
      items s' = (if b then take q (items s) @ [x] @ drop q (items s) else items s)"
    and del_law: "inv s \<Longrightarrow> q < length (items s) \<Longrightarrow> \<exists>s'. del q s = Inr s' \<and> inv s' \<and>
      items s' = take q (items s) @ drop (Suc q) (items s)"
    and get_law: "inv s \<Longrightarrow> q < length (items s) \<Longrightarrow> get q s = Inr (items s ! q)"
begin

lemma edits_refine:
  "inv s \<Longrightarrow> \<forall>x \<in> inserted es. okx x \<Longrightarrow> edits es (items s) \<noteq> None \<Longrightarrow>
   \<exists>k b s'. run_edits ins del es s = Inr (b, s') \<and> inv s' \<and> edits (take k es) (items s) = Some (items s') \<and> (b \<longrightarrow> length es \<le> k)"
proof (induction es arbitrary: s)
  case Nil
  then show ?case by (intro exI [of _ 0] exI [of _ True] exI [of _ s]) simp
next
  case (Cons e es)
  show ?case
  proof (cases e)
    case (Ins x q)
    then have q: "q \<le> length (items s)" "okx x" using Cons.prems by (auto split: if_splits)
    obtain b s1 where s1: "ins x q s = Inr (b, s1)" "inv s1" "items s1 = (if b then take q (items s) @ [x] @ drop q (items s) else items s)"
      using ins_law [OF Cons.prems(1) q(2,1)] by blast
    show ?thesis
    proof (cases b)
      case True
      then obtain k b' s' where "run_edits ins del es s1 = Inr (b', s')" "inv s'" "edits (take k es) (items s1) = Some (items s')" "b' \<longrightarrow> length es \<le> k"
        using Cons.IH [OF s1(2)] Cons.prems Ins s1(3) q by auto
      then show ?thesis using Ins s1 True q by (intro exI [of _ "Suc k"] exI [of _ b'] exI [of _ s']) simp
    next
      case False
      then show ?thesis using Ins s1 by (intro exI [of _ 0] exI [of _ False] exI [of _ s1]) simp
    qed
  next
    case (Del q)
    then have q: "q < length (items s)" using Cons.prems by (auto split: if_splits)
    obtain s1 where s1: "del q s = Inr s1" "inv s1" "items s1 = take q (items s) @ drop (Suc q) (items s)"
      using del_law [OF Cons.prems(1) q] by blast
    then obtain k b' s' where "run_edits ins del es s1 = Inr (b', s')" "inv s'" "edits (take k es) (items s1) = Some (items s')" "b' \<longrightarrow> length es \<le> k"
      using Cons.IH [OF s1(2)] Cons.prems Del q by auto
    then show ?thesis using Del s1 q by (intro exI [of _ "Suc k"] exI [of _ b'] exI [of _ s']) simp
  qed
qed

end

subsection \<open>The code as such a list\<close>

definition items_of :: "clist \<Rightarrow> byte list list" where
  "items_of l = map (\<lambda>i. take (nat (ls_itemSize l)) (drop (i * nat (ls_itemSize l)) (ls_block l))) [0..<nat (ls_numItems l)]"

definition clist_ok :: "nat \<Rightarrow> clist \<Rightarrow> bool" where
  "clist_ok sz l \<longleftrightarrow> list_repr sz (items_of l) l"

lemma items_of_repr: "list_repr sz xs l \<Longrightarrow> items_of l = xs"
proof -
  assume r: "list_repr sz xs l"
  then have l: "ls_itemSize l = int sz" "ls_numItems l = int (length xs)" by (simp_all add: list_repr_def)
  have "take sz (drop (i * sz) (ls_block l)) = xs ! i" if "i < length xs" for i
    using get_item_repr [OF r that] by (simp add: get_items_def block_get_def l nat_mult_distrib mult.commute split: if_splits)
  then show ?thesis by (intro nth_equalityI) (simp_all add: items_of_def l)
qed

lemma clist_okI: "list_repr sz xs l \<Longrightarrow> clist_ok sz l"
  by (simp add: clist_ok_def items_of_repr)

text \<open>The operations with an index, as the clients of \<open>lists.h\<close> use them.\<close>

definition list_ins :: "(nat \<Rightarrow> bool) \<Rightarrow> byte list \<Rightarrow> nat \<Rightarrow> clist \<Rightarrow> list_exit + bool \<times> clist" where
  "list_ins alloc x q l = rbind (ListInsertItem alloc (Some x) (int q + 1) l) (\<lambda>(rc, l). Inr (rc \<noteq> 0, l))"

definition list_del :: "nat \<Rightarrow> clist \<Rightarrow> list_exit + clist" where
  "list_del q l = rbind (ListRemoveItem False (int q + 1) l) (\<lambda>(_, l). Inr l)"

definition list_get :: "nat \<Rightarrow> clist \<Rightarrow> list_exit + byte list" where
  "list_get q l = ListGetItems (int q + 1) 1 l"

interpretation clist: item_list "list_ins alloc" list_del list_get items_of "clist_ok sz" "\<lambda>x. length x = sz" for alloc sz
proof
  fix l :: clist and x :: "byte list" and q :: nat
  assume r: "clist_ok sz l" and x: "length x = sz" and q: "q \<le> length (items_of l)"
  have i: "insert_index (int q + 1) (length (items_of l)) q" using q by (simp add: insert_index_def)
  have "ListInsertItems alloc (Some (concat [x])) (int q + 1) (int (length [x])) l = Inr (0, l) \<or>
    (\<exists>l'. ListInsertItems alloc (Some (concat [x])) (int q + 1) (int (length [x])) l = Inr (1, l') \<and>
      list_repr sz (take q (items_of l) @ [x] @ drop q (items_of l)) l')"
    using r x by (intro ListInsertItems_repr [OF _ _ _ i]) (simp_all add: clist_ok_def)
  then show "\<exists>b s'. list_ins alloc x q l = Inr (b, s') \<and> clist_ok sz s' \<and>
      items_of s' = (if b then take q (items_of l) @ [x] @ drop q (items_of l) else items_of l)"
    using r clist_okI items_of_repr by (auto simp: list_ins_def ListInsertItem_def)
next
  fix l :: clist and q :: nat
  assume r: "clist_ok sz l" and q: "q < length (items_of l)"
  have i: "item_index (int q + 1) (length (items_of l)) q" using q by (simp add: item_index_def)
  obtain l' where "ListRemoveItems False (int q + 1) (int 1) l = Inr ([], l')" "list_repr sz (take q (items_of l) @ drop (q + 1) (items_of l)) l'"
    using ListRemoveItems_repr [OF r [unfolded clist_ok_def] i, of 1 False] q by auto
  then show "\<exists>s'. list_del q l = Inr s' \<and> clist_ok sz s' \<and> items_of s' = take q (items_of l) @ drop (Suc q) (items_of l)"
    using clist_okI items_of_repr by (auto simp: list_del_def ListRemoveItem_def)
next
  fix l :: clist and q :: nat
  assume r: "clist_ok sz l" and q: "q < length (items_of l)"
  show "list_get q l = Inr (items_of l ! q)"
    using get_item_repr [OF r [unfolded clist_ok_def] q] by (simp add: list_get_def ListGetItems_def item_position_def)
qed

subsection \<open>Searching and duplicates\<close>

lemma memcmp_eq: "length x = length y \<Longrightarrow> memcmp x y = 0 \<longleftrightarrow> x = y"
proof (induction x y rule: memcmp.induct)
  case (1 a as b bs)
  have "uint a - uint b \<noteq> 0 \<longleftrightarrow> a \<noteq> b" by (simp add: word_uint_eq_iff)
  with 1 show ?case by (auto simp: Let_def)
qed auto

text \<open>The first index from \<open>i\<close> on at which a property holds.\<close>

fun first_from :: "('a \<Rightarrow> bool) \<Rightarrow> 'a list \<Rightarrow> nat \<Rightarrow> nat option" where
  "first_from P [] i = None"
| "first_from P (x # xs) i = (if P x then Some i else first_from P xs (Suc i))"

lemma find_loop_repr:
  assumes "list_repr sz xs l"
  shows "i \<le> length xs \<Longrightarrow> find_loop cmp x (int i + 1) (int (length xs)) l =
    Inr (case first_from (\<lambda>y. cmp x y = 0) (drop i xs) i of None \<Rightarrow> 0 | Some j \<Rightarrow> int j + 1)"
proof (induction "length xs - i" arbitrary: i)
  case 0
  then show ?case by (simp add: find_loop.simps [of cmp x _ _ l])
next
  case (Suc n)
  then have i: "i < length xs" by simp
  have d: "drop i xs = xs ! i # drop (Suc i) xs" using i by (rule Cons_nth_drop_Suc [symmetric])
  have u: "find_loop cmp x (int i + 1) (int (length xs)) l =
      rbind (get_items (int i) 1 l) (\<lambda>y. if cmp x y = 0 then Inr (int i + 1) else find_loop cmp x (int (Suc i) + 1) (int (length xs)) l)"
  proof -
    have s: "int (Suc i) + 1 = int i + 1 + 1" by simp
    show ?thesis unfolding s using i by (simp add: find_loop.simps [of cmp x "int i + 1" "int (length xs)" l])
  qed
  have "n = length xs - Suc i" "Suc i \<le> length xs" using Suc.hyps(2) i by simp_all
  note ih = Suc.hyps(1) [OF this]
  show ?case unfolding u ih by (simp add: get_item_repr [OF assms i] d)
qed

lemma first_from_cong: "(\<And>y. y \<in> set zs \<Longrightarrow> P y = Q y) \<Longrightarrow> first_from P zs i = first_from Q zs i"
  by (induction zs arbitrary: i) auto

lemma first_from_None: "first_from P xs i = None \<longleftrightarrow> (\<forall>x \<in> set xs. \<not> P x)"
  by (induction xs arbitrary: i) auto

lemma first_from_Some: "first_from P xs i = Some j \<Longrightarrow> i \<le> j \<and> j - i < length xs \<and> P (xs ! (j - i)) \<and> (\<forall>x \<in> set (take (j - i) xs). \<not> P x)"
proof (induction xs arbitrary: i)
  case (Cons x xs)
  show ?case
  proof (cases "P x")
    case False
    then have "first_from P xs (Suc i) = Some j" using Cons.prems by simp
    from Cons.IH [OF this] have h: "Suc i \<le> j" "j - Suc i < length xs" "P (xs ! (j - Suc i))" "\<forall>x \<in> set (take (j - Suc i) xs). \<not> P x" by auto
    then have "j - i = Suc (j - Suc i)" by simp
    then show ?thesis using h False by simp
  qed (use Cons.prems in auto)
qed simp

function dedup :: "'a list \<Rightarrow> 'a list" where
  "dedup [] = []"
| "dedup (x # xs) = x # dedup (filter (\<lambda>y. y \<noteq> x) xs)"
  by pat_completeness auto
termination
  by (relation "measure length") (auto intro: le_imp_less_Suc)

lemma dedup_set: "set (dedup xs) = set xs"
  by (induction xs rule: dedup.induct) auto

lemma dedup_distinct: "distinct (dedup xs)"
  by (induction xs rule: dedup.induct) (auto simp: dedup_set)

lemma ListFindItem_repr:
  assumes r: "list_repr sz xs l" and x: "length x = sz" and i: "0 < i" "i < length xs"
  shows "ListFindItem None x (int i + 1) l = Inr (case first_from ((=) x) (drop i xs) i of None \<Rightarrow> 0 | Some j \<Rightarrow> int j + 1)"
proof -
  have "(memcmp x y = 0) = (x = y)" if "y \<in> set (drop i xs)" for y
    using r x in_set_dropD [OF that] by (intro memcmp_eq) (simp add: list_repr_def)
  then have e: "first_from (\<lambda>y. memcmp x y = 0) (drop i xs) i = first_from ((=) x) (drop i xs) i" by (rule first_from_cong)
  have "ls_numItems l = int (length xs)" using r by (simp add: list_repr_def)
  then show ?thesis
    using find_loop_repr [OF r, of i memcmp x] i by (simp add: ListFindItem_def compare_items_def e Let_def)
qed

lemma filter_from:
  assumes "st \<le> j" "j < length xs" "\<not> P (xs ! j)" "\<forall>y \<in> set (take (j - st) (drop st xs)). P y"
  shows "take st xs @ filter P (drop st xs) = take j xs @ filter P (drop (Suc j) xs)"
proof -
  let ?a = "take (j - st) (drop st xs)"
  have d: "drop st xs = ?a @ xs ! j # drop (Suc j) xs"
    using assms(1,2) id_take_nth_drop [of "j - st" "drop st xs"] by simp
  have "filter P ?a = ?a" using assms(4) by (simp add: filter_id_conv)
  then have "filter P (drop st xs) = ?a @ filter P (drop (Suc j) xs)"
    by (subst d) (simp only: filter_append filter.simps assms(3) if_False)
  moreover have "take st xs @ ?a = take j xs" using assms(1) by (simp flip: take_add)
  ultimately show ?thesis by (simp flip: append_assoc)
qed

lemma dup_inner_repr:
  "list_repr sz xs l \<Longrightarrow> q < st \<Longrightarrow> st \<le> length xs \<Longrightarrow>
   \<exists>l'. dup_inner None (int q + 1) (int st + 1) (int (length xs)) l =
       Inr (int (length (take st xs @ filter (\<lambda>y. y \<noteq> xs ! q) (drop st xs))), l') \<and>
     list_repr sz (take st xs @ filter (\<lambda>y. y \<noteq> xs ! q) (drop st xs)) l'"
proof (induction "length xs - st" arbitrary: xs st l rule: less_induct)
  case less
  let ?x = "xs ! q"
  show ?case
  proof (cases "st = length xs")
    case True
    then show ?thesis using less.prems by (simp add: dup_inner.simps [of None _ _ _ l])
  next
    case False
    then have st: "st < length xs" "0 < st" "q < length xs" using less.prems by simp_all
    have x: "ListGetPtrToItem (int q + 1) l = Inr ?x" "length ?x = sz"
      using get_item_repr [OF less.prems(1) st(3)] less.prems(1) st(3) by (simp_all add: ListGetPtrToItem_def item_position_def list_repr_def)
    note f = ListFindItem_repr [OF less.prems(1) x(2) st(2,1)]
    show ?thesis
    proof (cases "first_from ((=) ?x) (drop st xs) st")
      case None
      then have "filter (\<lambda>y. y \<noteq> ?x) (drop st xs) = drop st xs" by (auto simp: first_from_None filter_id_conv)
      then show ?thesis using less.prems st f None by (simp add: dup_inner.simps [of None _ _ _ l] x(1))
    next
      case (Some j)
      have j: "st \<le> j" "j - st < length (drop st xs)" "?x = drop st xs ! (j - st)" "\<forall>y \<in> set (take (j - st) (drop st xs)). ?x \<noteq> y"
        using first_from_Some [OF Some] by auto
      then have jl: "j < length xs" "xs ! j = ?x" using st by simp_all
      define xs1 where "xs1 = take j xs @ drop (Suc j) xs"
      have ii: "item_index (int j + 1) (length xs) j" using jl by (simp add: item_index_def)
      obtain l1 where l1: "ListRemoveItem False (int j + 1) l = Inr ([], l1)" "list_repr sz xs1 l1"
        using ListRemoveItems_repr [OF less.prems(1) ii, of 1 False] jl by (auto simp: ListRemoveItem_def xs1_def)
      have l1': "length xs1 = length xs - 1" "xs1 ! q = ?x" "take j xs1 = take j xs" "drop j xs1 = drop (Suc j) xs"
        using jl j(1) less.prems(2) by (simp_all add: xs1_def nth_append)
      obtain l' where l': "dup_inner None (int q + 1) (int j + 1) (int (length xs1)) l1 =
          Inr (int (length (take j xs @ filter (\<lambda>y. y \<noteq> ?x) (drop (Suc j) xs))), l')"
        "list_repr sz (take j xs @ filter (\<lambda>y. y \<noteq> ?x) (drop (Suc j) xs)) l'"
      proof -
        have "length xs1 - j < length xs - st" "q < j" "j \<le> length xs1" using l1'(1) jl(1) j(1) st less.prems(2) by linarith+
        from less.hyps [OF this(1) l1(2) this(2,3)] show ?thesis
          unfolding l1'(2,3,4) using that by blast
      qed
      have e: "take st xs @ filter (\<lambda>y. y \<noteq> ?x) (drop st xs) = take j xs @ filter (\<lambda>y. y \<noteq> ?x) (drop (Suc j) xs)"
        using j(4) by (intro filter_from) (auto simp: j(1) jl)
      have n: "int (length xs) - 1 = int (length xs1)" using jl l1'(1) by simp
      have f': "ListFindItem None ?x (int st + 1) l = Inr (int j + 1)" using f Some by simp
      have "dup_inner None (int q + 1) (int st + 1) (int (length xs)) l =
          dup_inner None (int q + 1) (int j + 1) (int (length xs) - 1) l1"
        using st(1) by (subst dup_inner.simps) (simp add: x(1) f' l1(1))
      also have "\<dots> = Inr (int (length (take j xs @ filter (\<lambda>y. y \<noteq> ?x) (drop (Suc j) xs))), l')"
        unfolding n by (rule l'(1))
      finally show ?thesis unfolding e using l'(2) by blast
    qed
  qed
qed

text \<open>The outer loop, when nothing in the first \<open>q\<close> items occurs again.\<close>

lemma dup_outer_repr:
  "list_repr sz (pre @ suf) l \<Longrightarrow> (\<forall>x \<in> set pre. x \<notin> set suf) \<Longrightarrow>
   \<exists>l'. dup_outer None (int (length pre) + 1) (int (length (pre @ suf))) l = Inr l' \<and> list_repr sz (pre @ dedup suf) l'"
proof (induction "length suf" arbitrary: pre suf l rule: less_induct)
  case less
  show ?case
  proof (cases suf)
    case Nil
    then show ?thesis using less.prems by (auto simp: dup_outer.simps [of None _ _ l] list_repr_def)
  next
    case (Cons x suf')
    let ?f = "filter (\<lambda>y. y \<noteq> x) suf'"
    let ?n = "int (length (pre @ x # ?f))"
    have r: "list_repr sz ((pre @ [x]) @ suf') l" using less.prems(1) Cons by simp
    show ?thesis
    proof (cases "suf' = []")
      case True
      then show ?thesis using less.prems Cons by (auto simp: dup_outer.simps [of None _ _ l] list_repr_def)
    next
      case False
      obtain l1 where l1: "dup_inner None (int (length pre) + 1) (int (length pre) + 1 + 1) (int (length (pre @ suf))) l = Inr (?n, l1)"
        "list_repr sz ((pre @ [x]) @ ?f) l1"
        using dup_inner_repr [OF r, of "length pre" "Suc (length pre)"] Cons by (auto simp: add.commute)
      have p: "\<forall>y \<in> set (pre @ [x]). y \<notin> set ?f" using less.prems(2) Cons by auto
      have len: "length ?f < length suf" using Cons by (simp add: le_imp_less_Suc)
      obtain l' where l': "dup_outer None (int (length (pre @ [x])) + 1) (int (length ((pre @ [x]) @ ?f))) l1 = Inr l'"
        "list_repr sz ((pre @ [x]) @ dedup ?f) l'"
        using less.hyps [OF len l1(2) p] by blast
      have "dup_outer None (int (length pre) + 1) (int (length (pre @ suf))) l = dup_outer None (int (length pre) + 1 + 1) ?n l1"
      proof -
        have lt: "int (length pre) + 1 < int (length (pre @ suf))" using False Cons by (cases suf') auto
        show ?thesis by (simp only: dup_outer.simps [of None "int (length pre) + 1"] l1(1) lt if_True rbind.simps prod.case)
      qed
      also have "\<dots> = Inr l'" using l'(1) by (simp add: add.commute add.left_commute)
      finally show ?thesis using l'(2) Cons by auto
    qed
  qed
qed

text \<open>Binary search: the items before \<open>low\<close> come before the key, those behind \<open>high\<close> after it.\<close>

definition search_result :: "(byte list \<Rightarrow> int) \<Rightarrow> byte list list \<Rightarrow> int \<Rightarrow> bool" where
  "search_result cmp xs r \<longleftrightarrow>
     (if 0 \<le> r then r < int (length xs) \<and> cmp (xs ! nat r) = 0
      else - r - 1 \<le> int (length xs) \<and> (\<forall>i < length xs. if int i < - r - 1 then 0 < cmp (xs ! i) else cmp (xs ! i) < 0))"

definition search_sorted :: "(byte list \<Rightarrow> int) \<Rightarrow> byte list list \<Rightarrow> bool" where
  "search_sorted cmp xs \<longleftrightarrow>
     sorted_wrt (\<lambda>y z. (cmp y < 0 \<longrightarrow> cmp z < 0) \<and> (0 < cmp z \<longrightarrow> 0 < cmp y)) xs"

lemma search_sortedD:
  assumes "search_sorted cmp xs" "i \<le> j" "j < length xs"
  shows "cmp (xs ! i) < 0 \<Longrightarrow> cmp (xs ! j) < 0" "0 < cmp (xs ! j) \<Longrightarrow> 0 < cmp (xs ! i)"
  using assms by (auto simp: search_sorted_def sorted_wrt_iff_nth_less order_le_less)

lemma bin_loop_repr:
  "list_repr sz xs l \<Longrightarrow> search_sorted (cmp x) xs \<Longrightarrow> 0 \<le> low \<Longrightarrow> low \<le> high + 1 \<Longrightarrow> high < int (length xs) \<Longrightarrow>
   (\<forall>i < length xs. (int i < low \<longrightarrow> 0 < cmp x (xs ! i)) \<and> (high < int i \<longrightarrow> cmp x (xs ! i) < 0)) \<Longrightarrow>
   (high < low \<longrightarrow> (if c > 0 then mid + 1 else mid) = low) \<Longrightarrow>
   \<exists>r. bin_loop cmp x low high mid c l = Inr r \<and> search_result (cmp x) xs r"
proof (induction cmp x low high mid c l rule: bin_loop.induct)
  case (1 cmp x low high mid0 c0 l)
  show ?case
  proof (cases "low \<le> high")
    case False
    then have "bin_loop cmp x low high mid0 c0 l = Inr (- low - 1)"
      using 1(9) by (simp add: bin_loop.simps [of cmp x low high mid0 c0 l])
    moreover have "search_result (cmp x) xs (- low - 1)"
      using 1(5-8) False by (auto simp: search_result_def)
    ultimately show ?thesis by blast
  next
    case True
    define mid where "mid = (low + high) div 2"
    have m: "low \<le> mid" "mid \<le> high" using True by (simp_all add: mid_def)
    obtain k where "mid = int k" using m(1) 1(5) nonneg_int_cases [of mid] by (auto intro: order_trans)
    then have k: "mid = int k" "k < length xs" using m(2) 1(7) by simp_all
    define c where "c = cmp x (xs ! k)"
    have g: "get_items mid 1 l = Inr (xs ! k)" using get_item_repr [OF 1(3) k(2)] k(1) by simp
    have b: "bin_loop cmp x low high mid0 c0 l = (if c = 0 then Inr mid
        else if c < 0 then bin_loop cmp x low (mid - 1) mid c l else bin_loop cmp x (mid + 1) high mid c l)"
      using True by (simp add: bin_loop.simps [of cmp x low high mid0 c0 l] c_def Let_def g flip: mid_def)
    note ord = search_sortedD [OF 1(4)]
    consider "c = 0" | "c < 0" | "0 < c" by linarith
    then show ?thesis
    proof cases
      case c: 1
      then show ?thesis using k by (simp add: b search_result_def c_def)
    next
      case c: 2
      have "\<exists>r. bin_loop cmp x low (mid - 1) mid c l = Inr r \<and> search_result (cmp x) xs r"
      proof (rule 1(1) [OF True mid_def g c_def _ c])
        show "\<forall>i<length xs. (int i < low \<longrightarrow> 0 < cmp x (xs ! i)) \<and> (mid - 1 < int i \<longrightarrow> cmp x (xs ! i) < 0)"
          using 1(8) ord(1) [of k] c k by (auto simp: c_def)
      qed (use 1 m k c in auto)
      then show ?thesis using c by (simp add: b)
    next
      case c: 3
      have "\<exists>r. bin_loop cmp x (mid + 1) high mid c l = Inr r \<and> search_result (cmp x) xs r"
      proof (rule 1(2) [OF True mid_def g c_def])
        show "\<forall>i<length xs. (int i < mid + 1 \<longrightarrow> 0 < cmp x (xs ! i)) \<and> (high < int i \<longrightarrow> cmp x (xs ! i) < 0)"
          using 1(8) ord(2) [of _ k] c k by (auto simp: c_def)
      qed (use 1 m k c in auto)
      then show ?thesis using c by (simp add: b)
    qed
  qed
qed

text \<open>A new list.\<close>

lemma ListCreate_ok:
  assumes "ListCreate alloc junk (int sz) = Some l" "0 < sz" "length junk = 4"
  shows "clist_ok sz l \<and> items_of l = []"
proof -
  have r: "list_repr sz [] l" using assms by (auto simp: ListCreate_def list_repr_def split: if_splits)
  then show ?thesis using clist_okI items_of_repr by blast
qed

definition abc_edits :: "byte list edit list" where
  "abc_edits = [Ins [1, 2] 0, Ins [3, 4] 1, Ins [5, 6] 1, Del 0, Ins [7, 8] 0, Ins [9, 9] 3]"

subsection \<open>Properties\<close>

text \<open>
  C39: A list of \<open>lists.c\<close> is a list. Over any sequence of \<open>ListInsertItem\<close> and \<open>ListRemoveItem\<close> at existing
  positions, no access leaves the block, and the items are what the same insertions and removals make of the list of
  items; when the allocator gives out, the run stops after some of them with the items those have made.
\<close>

theorem list_edits_refine:
  assumes "clist_ok sz l" "\<forall>x \<in> inserted es. length x = sz" "edits es (items_of l) = Some ys"
  shows "\<exists>k done l'. run_edits (list_ins alloc) list_del es l = Inr (done, l') \<and> clist_ok sz l' \<and>
    edits (take k es) (items_of l) = Some (items_of l') \<and> (done \<longrightarrow> items_of l' = ys)"
proof -
  obtain k b l' where *: "run_edits (list_ins alloc) list_del es l = Inr (b, l')" "clist_ok sz l'"
    "edits (take k es) (items_of l) = Some (items_of l')" "b \<longrightarrow> length es \<le> k"
    using clist.edits_refine [OF assms(1,2), of alloc] assms(3) by auto
  then have "b \<longrightarrow> items_of l' = ys" using assms(3) by auto
  then show ?thesis using * by blast
qed

lemma abc_edits_done:
  "\<exists>l. ListCreate (\<lambda>_. True) [0, 0, 0, 0] 2 = Some l \<and>
    (case run_edits (list_ins (\<lambda>_. True)) list_del abc_edits l of Inl _ \<Rightarrow> False | Inr (b, _) \<Rightarrow> b)"
proof -
  have "case run_edits (list_ins (\<lambda>_. True)) list_del abc_edits (the (ListCreate (\<lambda>_. True) [0, 0, 0, 0] 2)) of
      Inl _ \<Rightarrow> False | Inr (b, _) \<Rightarrow> b"
    by code_simp
  then show ?thesis by (simp add: ListCreate_def)
qed

theorem list_edits_refine_witness:
  "\<exists>l l'. ListCreate (\<lambda>_. True) [0, 0, 0, 0] 2 = Some l \<and>
    run_edits (list_ins (\<lambda>_. True)) list_del abc_edits l = Inr (True, l') \<and>
    items_of l' = [[7, 8], [5, 6], [3, 4], [9, 9]]"
proof -
  obtain l where l: "ListCreate (\<lambda>_. True) [0, 0, 0, 0] 2 = Some l"
      "case run_edits (list_ins (\<lambda>_. True)) list_del abc_edits l of Inl _ \<Rightarrow> False | Inr (b, _) \<Rightarrow> b"
    using abc_edits_done by blast
  have ok: "clist_ok 2 l" "items_of l = []" using ListCreate_ok [of "\<lambda>_. True" "[0, 0, 0, 0]" 2 l] l by auto
  have e: "edits abc_edits (items_of l) = Some [[7, 8], [5, 6], [3, 4], [9, 9]]" "\<forall>x \<in> inserted abc_edits. length x = 2"
    by (auto simp: abc_edits_def ok(2))
  show ?thesis
    using list_edits_refine [OF ok(1) e(2,1), of "\<lambda>_. True"] l by auto
qed

text \<open>
  \<open>BinSearch\<close> ends on every list, reads items only, and on a list sorted for the key gives the index of an item
  equal to the key, or \<open>-i-1\<close> where every item before \<open>i\<close> comes before the key and every later one behind it; \<open>ListBinSearch\<close> turns
  the first into a position and the second into 0.
\<close>

theorem BinSearch_sorted:
  assumes "list_repr sz xs l" "search_sorted (compare_items cmp x) xs"
  shows "\<exists>r. BinSearch cmp x l = Inr r \<and> search_result (compare_items cmp x) xs r \<and>
    ListBinSearch cmp x l = Inr (if 0 \<le> r then r + 1 else 0)"
proof -
  have "ls_numItems l = int (length xs)" using assms(1) by (simp add: list_repr_def)
  then show ?thesis
    using bin_loop_repr [of sz xs l "compare_items cmp" x 0 "int (length xs) - 1" "- 1" 0] assms
    by (auto simp: BinSearch_def ListBinSearch_def)
qed

text \<open>
  \<open>ListRemoveDuplicates\<close> ends and leaves the first occurrence of every item, in order: the items are distinct and
  the same as before.
\<close>

theorem ListRemoveDuplicates_dedup:
  assumes "clist_ok sz l"
  shows "\<exists>l'. ListRemoveDuplicates None l = Inr l' \<and> clist_ok sz l' \<and> items_of l' = dedup (items_of l) \<and>
    distinct (items_of l') \<and> set (items_of l') = set (items_of l)"
proof -
  have "list_repr sz ([] @ items_of l) l" using assms by (simp add: clist_ok_def)
  from dup_outer_repr [OF this] obtain l' where "ListRemoveDuplicates None l = Inr l'" "list_repr sz (dedup (items_of l)) l'"
    using assms by (auto simp: ListRemoveDuplicates_def clist_ok_def list_repr_def)
  then show ?thesis using clist_okI items_of_repr by (auto simp: dedup_set dedup_distinct)
qed

text \<open>
  C40: An insertion of several items into a list that is not full never makes space, even when the free items do not suffice.
  It writes outside the block exactly when the items then exceed the capacity and the four spare bytes the block has behind
  it; otherwise the bytes are right, but the count may exceed the capacity.
\<close>

theorem ListInsertItems_overflow:
  assumes "list_repr sz xs l" "insert_index pos (length xs) q" "\<forall>y \<in> set ys. length y = sz" "int (length xs) < ls_listSize l"
  shows "if ls_listSize l * int sz + 4 < int ((length xs + length ys) * sz)
    then ListInsertItems alloc (Some (concat ys)) pos (int (length ys)) l = Inl Heap_Fault
    else \<exists>rest. ListInsertItems alloc (Some (concat ys)) pos (int (length ys)) l =
      Inr (1, l\<lparr>ls_block := concat (take q xs @ ys @ drop q xs) @ rest, ls_numItems := int (length xs + length ys)\<rparr>) \<and>
      length (concat (take q xs @ ys @ drop q xs) @ rest) = length (ls_block l)"
proof -
  let ?n = "length ys" and ?bs = "concat ys"
  let ?p = "if pos = int (length xs) + 1 then 0 else pos"
  let ?p' = "if ?p = LIST_START then if int (length xs) = 0 then LIST_END else 1 else ?p"
  have l: "ls_numItems l = int (length xs)" "ls_itemSize l = int sz" "int (length (ls_block l)) = 4 + ls_listSize l * int sz"
    using assms(1) by (auto simp: list_repr_def)
  have np: "\<not> (pos \<noteq> int (length xs) + 1 \<and> pos > int (length xs))" using assms(2) by (auto simp: insert_index_def)
  have e: "ListInsertItems alloc (Some ?bs) pos (int ?n) l = insert_at (Some ?bs) ?p' (int (length xs)) (int ?n) l"
  proof -
    have "\<not> ls_listSize l \<le> int (length xs)" using assms(4) by simp
    with np show ?thesis unfolding ListInsertItems_def Let_def l(1) by (simp only: if_False option.case)
  qed
  have lb: "length ?bs = ?n * sz" by (rule length_concat_items [OF assms(3)])
  have b: "item_bytes (Some ?bs) (int sz * int ?n) = Inr ?bs"
    using lb by (simp add: item_bytes_def nat_mult_distrib mult.commute)
  have q: "q \<le> length xs" using assms(2) by (simp add: insert_index_def)
  have p': "?p' = int q + 1 \<or> ?p' = 0 \<and> q = length xs" using assms(2) by (auto simp: insert_index_def)
  show ?thesis
  proof (cases "ls_listSize l * int sz + 4 < int ((length xs + ?n) * sz)")
    case False
    then have "int ((length xs + ?n) * sz) \<le> 4 + ls_listSize l * int sz" by simp
    from insert_at_bytes [OF assms(1,3) q this p'] obtain rest where
      "insert_at (Some ?bs) ?p' (int (length xs)) (int ?n) l =
        Inr (1, l\<lparr>ls_block := concat (take q xs @ ys @ drop q xs) @ rest, ls_numItems := int (length xs + ?n)\<rparr>)"
      "length (concat (take q xs @ ys @ drop q xs) @ rest) = length (ls_block l)" .
    then show ?thesis using False unfolding e by (simp only: if_False) blast
  next
    case True
    from p' have "ListInsertItems alloc (Some ?bs) pos (int ?n) l = Inl Heap_Fault"
  proof
    assume p: "?p' = int q + 1"
    have g: "get_items (int q) (int (length xs - q)) l = Inr (concat (drop q xs))"
      using get_items_repr [OF assms(1), of q "length xs - q"] q by simp
    have d: "\<forall>x \<in> set (drop q xs). length x = sz" using assms(1) by (auto simp: list_repr_def dest: in_set_dropD)
    have "int ((length xs + ?n) * sz) = int sz * (int q + int ?n) + int (length (concat (drop q xs)))"
      using q by (simp add: length_concat_items [OF d] algebra_simps of_nat_diff)
    then have "put_items (int q + int ?n) (concat (drop q xs)) l = Inl Heap_Fault"
      using True by (simp add: put_items_def block_put_def l)
    moreover have n: "int (length xs) + 1 - (int q + 1) = int (length xs - q)" using q by simp
    ultimately show "ListInsertItems alloc (Some ?bs) pos (int ?n) l = Inl Heap_Fault"
      unfolding e p insert_at_def l(2) b move_items_def n by (simp add: g)
  next
    assume p: "?p' = 0 \<and> q = length xs"
    have "int ((length xs + ?n) * sz) = int sz * int (length xs) + int (length ?bs)" by (simp add: lb algebra_simps)
    then have "put_items (int (length xs)) ?bs l = Inl Heap_Fault"
      using True by (simp add: put_items_def block_put_def l)
    then show "ListInsertItems alloc (Some ?bs) pos (int ?n) l = Inl Heap_Fault" unfolding e conjunct1 [OF p] insert_at_def l(2) b by simp
  qed
  then show ?thesis using True by simp
  qed
qed

theorem BinSearch_sorted_witness:
  "search_result (compare_items None [3]) [[1], [2], [3], [5]] 2 \<and>
   (\<exists>r. BinSearch None [3] \<lparr>ls_percentIncrease = 10, ls_minNumItemsIncrease = 4, ls_listSize = 4, ls_itemSize = 1, ls_numItems = 4,
      ls_block = [1, 2, 3, 5, 0, 0, 0, 0]\<rparr> = Inr r \<and> search_result (compare_items None [3]) [[1], [2], [3], [5]] r)"
proof -
  have s: "search_sorted (compare_items None [3]) [[1], [2], [3], [5]]"
    by (simp add: search_sorted_def compare_items_def)
  have r: "list_repr 1 [[1], [2], [3], [5]] \<lparr>ls_percentIncrease = 10, ls_minNumItemsIncrease = 4, ls_listSize = 4, ls_itemSize = 1,
      ls_numItems = 4, ls_block = [1, 2, 3, 5, 0, 0, 0, 0]\<rparr>"
    by (simp add: list_repr_def)
  show ?thesis using BinSearch_sorted [OF r s] by (auto simp: search_result_def compare_items_def)
qed

theorem ListRemoveDuplicates_dedup_witness:
  "\<exists>l'. ListRemoveDuplicates None \<lparr>ls_percentIncrease = 10, ls_minNumItemsIncrease = 4, ls_listSize = 4, ls_itemSize = 1,
     ls_numItems = 4, ls_block = [7, 2, 7, 2, 0, 0, 0, 0]\<rparr> = Inr l' \<and> items_of l' = [[7], [2]]"
proof -
  define l where "l = \<lparr>ls_percentIncrease = 10, ls_minNumItemsIncrease = 4, ls_listSize = 4, ls_itemSize = 1,
     ls_numItems = 4, ls_block = [7, 2, 7, 2, 0, 0, 0, 0 :: byte]\<rparr>"
  have "list_repr 1 [[7], [2], [7], [2]] l" by (simp add: list_repr_def l_def)
  note r = clist_okI [OF this] items_of_repr [OF this]
  show ?thesis using ListRemoveDuplicates_dedup [OF r(1)] unfolding r(2) by (auto simp: l_def)
qed

theorem ListInsertItems_overflow_witness:
  "ListInsertItems (\<lambda>_. True) (Some (concat [[1, 2, 3], [4, 5, 6], [7, 8, 9]])) 1 3
     \<lparr>ls_percentIncrease = 10, ls_minNumItemsIncrease = 4, ls_listSize = 2, ls_itemSize = 3, ls_numItems = 1,
      ls_block = [1, 1, 1, 0, 0, 0, 0, 0, 0, 0]\<rparr> = Inl Heap_Fault \<and>
   (\<exists>l'. ListInsertItems (\<lambda>_. True) (Some (concat [[7], [8], [9]])) 1 3
     \<lparr>ls_percentIncrease = 10, ls_minNumItemsIncrease = 4, ls_listSize = 2, ls_itemSize = 1, ls_numItems = 1,
      ls_block = [5, 0, 0, 0, 0, 0]\<rparr> = Inr (1, l') \<and> ls_listSize l' = 2 \<and> ls_numItems l' = 4)"
proof -
  define l where "l = \<lparr>ls_percentIncrease = 10, ls_minNumItemsIncrease = 4, ls_listSize = 2, ls_itemSize = 3, ls_numItems = 1,
      ls_block = [1, 1, 1, 0, 0, 0, 0, 0, 0, 0 :: byte]\<rparr>"
  define k where "k = \<lparr>ls_percentIncrease = 10, ls_minNumItemsIncrease = 4, ls_listSize = 2, ls_itemSize = 1, ls_numItems = 1,
      ls_block = [5, 0, 0, 0, 0, 0 :: byte]\<rparr>"
  have r: "list_repr 3 [[1, 1, 1]] l" "list_repr 1 [[5]] k" by (simp_all add: list_repr_def l_def k_def)
  have i: "insert_index 1 (length [x :: byte list]) 0" for x by (simp add: insert_index_def)
  have "ListInsertItems (\<lambda>_. True) (Some (concat [[1, 2, 3], [4, 5, 6], [7, 8, 9]])) 1 3 l = Inl Heap_Fault"
    using ListInsertItems_overflow [OF r(1) i, of "[[1, 2, 3], [4, 5, 6], [7, 8, 9]]"] by (simp add: l_def)
  moreover have "\<exists>l'. ListInsertItems (\<lambda>_. True) (Some (concat [[7], [8], [9]])) 1 3 k = Inr (1, l') \<and>
      ls_listSize l' = 2 \<and> ls_numItems l' = 4"
    using ListInsertItems_overflow [OF r(2) i, of "[[7], [8], [9]]" "\<lambda>_. True"]
    by (auto simp: k_def simp del: split_paired_Ex)
  ultimately show ?thesis unfolding l_def k_def by blast
qed

end
