(* ===== verification/Board.thy ===== *)
theory Board
  imports Bootm Net Env
begin

text \<open>
  Start-up around the relocation to RAM: \<open>lib_bootstrap/bootstrap_board.c\<close>, the first stage in flash that
  decompresses the boot loader, and \<open>lib_mips/board.c\<close>, the boot loader's own start. Both plan the
  top of RAM, continue there, and set up the heap below their code; the first stage then checks the image
  behind itself, decompresses it and jumps into it, the second one reads its settings from the environment.
\<close>

subsection \<open>The heap\<close>

record arena =
  mem_malloc_start :: u32
  mem_malloc_end :: u32
  mem_malloc_brk :: u32

abbreviation (input) CFG_SDRAM_BASE :: u32 where "CFG_SDRAM_BASE \<equiv> 0x80000000"
abbreviation (input) CFG_BOOTPARAMS_LEN :: u32 where "CFG_BOOTPARAMS_LEN \<equiv> 0x20000"
abbreviation (input) CFG_MONITOR_BASE :: u32 where "CFG_MONITOR_BASE \<equiv> 0x80010000"
abbreviation (input) BOOTSTRAP_CFG_MONITOR_BASE :: u32 where "BOOTSTRAP_CFG_MONITOR_BASE \<equiv> 0x9f000000"

text \<open>\<open>CFG_MALLOC_LEN + CFG_ENV_SIZE\<close>; the sizes of the structures are those of the 32-bit layout.\<close>

definition TOTAL_MALLOC_LEN :: u32 where "TOTAL_MALLOC_LEN = 0x20000 + 0x10000"
abbreviation (input) sizeof_bd_t :: u32 where "sizeof_bd_t \<equiv> 44"
abbreviation (input) sizeof_gd_t :: u32 where "sizeof_gd_t \<equiv> 36"

definition arena_below :: "u32 \<Rightarrow> mem \<Rightarrow> arena \<times> mem" where
  "arena_below dest_addr m =
     (let start = dest_addr - TOTAL_MALLOC_LEN in
      (\<lparr>mem_malloc_start = start, mem_malloc_end = dest_addr, mem_malloc_brk = start\<rparr>,
       store start (replicate (unat (dest_addr - start)) 0) m))"

definition mem_malloc_init :: "u32 \<Rightarrow> mem \<Rightarrow> arena \<times> mem" where
  "mem_malloc_init reloc_off m = arena_below (CFG_MONITOR_BASE + reloc_off) m"

definition sbrk :: "u32 \<Rightarrow> arena \<Rightarrow> u32 \<times> arena" where
  "sbrk increment a =
     (let old = mem_malloc_brk a; new = old + increment in
      if new < mem_malloc_start a \<or> new > mem_malloc_end a then (0, a)
      else (old, a\<lparr>mem_malloc_brk := new\<rparr>))"

text \<open>\<open>malloc\<close> of the first stage, which never frees.\<close>

definition bootstrap_malloc :: "u32 \<Rightarrow> arena \<Rightarrow> u32 \<times> arena" where
  "bootstrap_malloc sz a =
     (if sz < mem_malloc_end a - mem_malloc_start a
      then (mem_malloc_start a, a\<lparr>mem_malloc_start := mem_malloc_start a + sz\<rparr>) else (0, a))"

subsection \<open>The top of RAM\<close>

record layout =
  l_reloc :: u32
  l_bd :: u32
  l_gd :: u32
  l_params :: u32
  l_sp :: u32

text \<open>The addresses \<open>board_init_f\<close> hands to \<open>relocate_code\<close>, for a program of \<open>len\<close> bytes.\<close>

definition board_layout :: "u32 \<Rightarrow> u32 \<Rightarrow> layout" where
  "board_layout len ram_size =
     (let addr = CFG_SDRAM_BASE + ram_size;
          addr = addr AND NOT (4096 - 1);
          addr = addr - len;
          addr = addr AND NOT (16 * 1024 - 1);
          addr_sp = addr - TOTAL_MALLOC_LEN;
          bd = addr_sp - sizeof_bd_t;
          gd = bd - sizeof_gd_t;
          params = gd - CFG_BOOTPARAMS_LEN;
          sp = (params - 16) AND NOT 0xF
      in \<lparr>l_reloc = addr, l_bd = bd, l_gd = gd, l_params = params, l_sp = sp - 4 - 4\<rparr>)"

text \<open>The stack frame that is cleared above the stack pointer.\<close>

definition clear_frame :: "layout \<Rightarrow> mem \<Rightarrow> mem" where
  "clear_frame l m = store_word (l_sp l + 4) 0 (store_word (l_sp l + 8) 0 m)"

subsection \<open>The first stage\<close>

text \<open>The call of the decompressed boot loader, with the size of the RAM.\<close>

record uboot_call =
  u_entry :: u32
  u_ram_size :: u32
  u_ram :: mem

text \<open>\<open>alloc\<close> of the decompressor, on the heap of the first stage.\<close>

definition bootstrap_alloc :: "u32 \<Rightarrow> nat \<Rightarrow> bool" where
  "bootstrap_alloc dest_addr n = (fst (bootstrap_malloc (of_nat n) (fst (arena_below dest_addr (\<lambda>_. 0)))) \<noteq> 0)"

text \<open>
  \<open>bootstrap_board_init_r\<close>, running at \<open>dest_addr\<close> with the end of its data at \<open>end_data\<close>: \<open>None\<close> when it
  returns without having started anything. \<open>old\<close> is the content of the probability array and \<open>dlen\<close> the
  address of \<open>destLen\<close>, which is 0. What the decompressor leaves in the heap is not recorded.
\<close>

definition bootstrap_board_init_r ::
  "(nat \<Rightarrow> u16) \<Rightarrow> u32 \<Rightarrow> u32 \<Rightarrow> u32 \<Rightarrow> u32 \<Rightarrow> mach \<Rightarrow> bootm_exit + uboot_call option" where
  "bootstrap_board_init_r old dlen end_data ram_size dest_addr m =
     (let m = m\<lparr>m_ram := snd (arena_below dest_addr (m_ram m))\<rparr>;
          addr = BOOTSTRAP_CFG_MONITOR_BASE + (end_data - dest_addr);
          hdr = header_of (load_bytes (m_load m) addr 64) in
      if ih_magic hdr \<noteq> IH_MAGIC then Inr None
      else if crc32 0 (header_bytes (hdr\<lparr>ih_hcrc := 0\<rparr>)) \<noteq> ih_hcrc hdr then Inr None
      else
        rbind (inflate_mem (bootstrap_alloc dest_addr) old dlen 0 0 (addr + 64) (ih_size hdr) (ih_load hdr) m) (\<lambda>(i, m).
          if i \<noteq> 0 then Inr None
          else Inr (Some \<lparr>u_entry = ih_load hdr, u_ram_size = ram_size, u_ram = m_ram m\<rparr>)))"

subsection \<open>The second stage\<close>

record board_info =
  b_flashstart :: u32
  b_flashsize :: u32
  b_flashoffset :: u32

text \<open>\<open>CFG_MONITOR_BASE\<close> is not the base of the flash in this configuration.\<close>

definition board_flash :: "u32 \<Rightarrow> board_info" where
  "board_flash sz = \<lparr>b_flashstart = CFG_FLASH_BASE, b_flashsize = sz, b_flashoffset = 0\<rparr>"

text \<open>The settings \<open>board_init_r\<close> takes from the environment, after \<open>env_relocate\<close>.\<close>

definition board_env :: "string \<Rightarrow> env_st \<Rightarrow> env_exit + env_st" where
  "board_env default_environment e =
     (let e = env_relocate default_environment e in
      rbind (getenv e ''ethaddr'') (\<lambda>s.
        let e = e\<lparr>bi_enetaddr := parse_enetaddr s\<rparr> in
        rbind (getenv e ''ipaddr'') (\<lambda>s.
          let e = e\<lparr>bi_ip_addr := string_to_ip s\<rparr> in
          rbind (getenv e ''loadaddr'') (\<lambda>s.
            let e = (case s of None \<Rightarrow> e | Some s \<Rightarrow> e\<lparr>load_addr := fst (simple_strtoul s 16)\<rparr>) in
            rbind (getenv e ''bootfile'') (\<lambda>s.
              Inr (case s of None \<Rightarrow> e | Some s \<Rightarrow> e\<lparr>BootFile := copy_filename s 128\<rparr>))))))"

text \<open>The Ethernet devices: registration by the driver and \<open>eth_initialize\<close>.\<close>

definition eth_register :: "string \<Rightarrow> byte list \<Rightarrow> net_st \<Rightarrow> net_st" where
  "eth_register name mac st =
     (if eth_names st = [] then
        let st = st\<lparr>eth_names := [name], eth_macs := [mac], eth_current := Some 0\<rparr> in
        if nenv st ''ethact'' = Some name then st else set_ethact 0 st
      else st\<lparr>eth_names := eth_names st @ [name], eth_macs := eth_macs st @ [mac]\<rparr>)"

fun eth_prime_loop :: "string option \<Rightarrow> nat \<Rightarrow> string list \<Rightarrow> net_st \<Rightarrow> net_st" where
  "eth_prime_loop ethprime k [] st = st"
| "eth_prime_loop ethprime k (name # names) st =
     eth_prime_loop ethprime (Suc k) names (if ethprime = Some name then st\<lparr>eth_current := Some k\<rparr> else st)"

definition eth_initialize :: "(string \<times> byte list) list \<Rightarrow> net_st \<Rightarrow> nat \<times> net_st" where
  "eth_initialize devs st =
     (let st = fold (\<lambda>(name, mac). eth_register name mac) devs (st\<lparr>eth_names := [], eth_macs := [], eth_current := None\<rparr>) in
      if eth_names st = [] then (0, st)
      else
        let st = eth_prime_loop (nenv st ''ethprime'') 0 (eth_names st) st;
            st = (case eth_current st of
                    None \<Rightarrow> st\<lparr>nenv := (nenv st)(''ethact'' := None)\<rparr>
                  | Some k \<Rightarrow> if nenv st ''ethact'' = Some (eth_names st ! k) then st else set_ethact k st)
        in (length (eth_names st), st))"

subsection \<open>Lemmas on the layout\<close>

lemma unat_align: "unat (a AND NOT (mask n)) = unat a - unat a mod 2 ^ n" for a :: u32
proof -
  have "a AND NOT (mask n) = push_bit n (drop_bit n a)"
    by (rule bit_word_eqI) (auto simp: bit_simps)
  then have s: "(a AND NOT (mask n)) + take_bit n a = a" by (simp add: bits_ident)
  then have "a AND NOT (mask n) = a - take_bit n a" by (simp add: algebra_simps)
  moreover have t: "unat (take_bit n a) = unat a mod 2 ^ n" by (simp only: unsigned_take_bit_eq) (simp add: take_bit_eq_mod)
  then have "take_bit n a \<le> a" by (simp add: word_le_nat_alt)
  ultimately show ?thesis using t by (simp only: unat_sub)
qed

lemma align_masks: "(4096 - 1 :: u32) = mask 12" "(16 * 1024 - 1 :: u32) = mask 14" "(0xF :: u32) = mask 4"
  by (simp_all add: mask_eq_exp_minus_1)

lemma unat_minus: "unat c = k \<Longrightarrow> k \<le> unat a \<Longrightarrow> unat (a - c) = unat a - k" for a c :: u32
  by (subst unat_sub) (simp_all add: word_le_nat_alt)

lemma clear_frame_words:
  "load_word (clear_frame l m) (l_sp l + 4) = 0 \<and> load_word (clear_frame l m) (l_sp l + 8) = 0"
proof -
  let ?a = "l_sp l + 4"
  have e2: "l_sp l + 8 = ?a + 4" by simp
  have e: "clear_frame l m = store_word ?a 0 (store_word (?a + 4) 0 m)" by (simp only: clear_frame_def e2)
  have "agree ?a 4 (4 + 4) (store_word (?a + 4) 0 m) (store_word ?a 0 (store_word (?a + 4) 0 m))"
    using store_word_agree [of 0 8 4 ?a "store_word (?a + 4) 0 m" 0] by simp
  from load_word_agree [OF this] have "load_word (clear_frame l m) (?a + 4) = 0" by (simp add: e)
  then show ?thesis unfolding e2 by (simp add: e)
qed

lemma clear_frame_above:
  assumes "unat (l_sp l) + 12 \<le> unat x"
  shows "clear_frame l m x = m x"
proof -
  have "unat (x - l_sp l) = unat x - unat (l_sp l)" using assms by (intro unat_minus) auto
  then have d: "12 \<le> unat (x - l_sp l)" using assms by simp
  have "unat (x - (l_sp l + 4)) = unat (x - l_sp l) - 4" "unat (x - (l_sp l + 8)) = unat (x - l_sp l) - 8"
    using d by (simp_all add: diff_diff_eq [symmetric] unat_minus [of 4] unat_minus [of 8])
  then have "4 \<le> unat (x - (l_sp l + 4))" "4 \<le> unat (x - (l_sp l + 8))" using d by linarith+
  then show ?thesis by (simp add: clear_frame_def store_word_def store_def be32_def)
qed

lemma mod_16_back: "a + 8 = b \<Longrightarrow> b mod 16 = 0 \<Longrightarrow> a mod 16 = 8" for a :: nat
  by presburger

text \<open>The RAM has at most 512 MB, and at least the room for the program and what goes below it.\<close>

definition ram_fits :: "u32 \<Rightarrow> u32 \<Rightarrow> bool" where
  "ram_fits len ram_size \<longleftrightarrow> unat ram_size \<le> 0x20000000 \<and> unat len + 0x60000 \<le> unat ram_size"

lemma board_layout_unat:
  assumes "ram_fits len ram_size"
  defines "l \<equiv> board_layout len ram_size"
  obtains k j where "k < 0x4000 + 0x1000" "j < 16" "unat (l_reloc l) mod 0x4000 = 0" "unat (l_sp l) mod 16 = 8"
    "unat (l_reloc l) + unat len + k = 0x80000000 + unat ram_size" "unat (l_bd l) + 44 + 0x30000 = unat (l_reloc l)"
    "unat (l_gd l) + 36 = unat (l_bd l)" "unat (l_params l) + 0x20000 = unat (l_gd l)"
    "unat (l_sp l) + 24 + j = unat (l_params l)" "0x80000000 < unat (l_sp l)"
proof -
  have f: "unat ram_size \<le> 0x20000000" "unat len + 0x60000 \<le> unat ram_size" using assms(1) by (simp_all add: ram_fits_def)
  define a0 where "a0 = CFG_SDRAM_BASE + ram_size"
  define a1 where "a1 = a0 AND NOT (mask 12)"
  define a2 where "a2 = a1 - len"
  have u0: "unat a0 = 0x80000000 + unat ram_size"
    unfolding a0_def using f by (subst unat_plus_if_size) (simp add: word_size)
  have u1: "unat a1 = unat a0 - unat a0 mod 0x1000" by (simp add: a1_def unat_align)
  have m1: "unat a0 mod 0x1000 < 0x1000" by simp
  have u2: "unat a2 = unat a1 - unat len" unfolding a2_def using f u0 u1 m1 by (intro unat_minus) (rule refl, linarith)
  have r: "l_reloc l = a2 AND NOT (mask 14)"
    by (simp only: l_def board_layout_def Let_def align_masks layout.simps a0_def a1_def a2_def)
  have u3: "unat (l_reloc l) = unat a2 - unat a2 mod 0x4000" by (simp add: r unat_align)
  have m3: "unat a2 mod 0x4000 < 0x4000" by simp
  have bd: "l_bd l = l_reloc l - 0x30000 - 44" "l_gd l = l_bd l - 36" "l_params l = l_gd l - 0x20000"
    "l_sp l = ((l_params l - 16) AND NOT (mask 4)) - 4 - 4"
    by (simp_all only: l_def board_layout_def Let_def align_masks layout.simps TOTAL_MALLOC_LEN_def) simp_all
  have big: "0x80000000 + 0x5A000 < unat (l_reloc l)" using f u0 u1 m1 u2 u3 m3 by linarith
  have c: "unat (0x30000 :: u32) = 0x30000" "unat (44 :: u32) = 44" "unat (36 :: u32) = 36" "unat (0x20000 :: u32) = 0x20000"
    "unat (16 :: u32) = 16" "unat (4 :: u32) = 4" by simp_all
  have b1: "unat (l_reloc l - 0x30000) = unat (l_reloc l) - 0x30000" using big by (intro unat_minus c) linarith
  have b2: "unat (l_bd l) = unat (l_reloc l) - 0x30000 - 44" unfolding bd(1) b1 [symmetric] using big b1 by (intro unat_minus c) linarith
  have b3: "unat (l_gd l) = unat (l_bd l) - 36" unfolding bd(2) using big b2 by (intro unat_minus c) linarith
  have b4: "unat (l_params l) = unat (l_gd l) - 0x20000" unfolding bd(3) using big b2 b3 by (intro unat_minus c) linarith
  define q where "q = (l_params l - 16) AND NOT (mask 4)"
  have b5: "unat (l_params l - 16) = unat (l_params l) - 16" using big b2 b3 b4 by (intro unat_minus c) linarith
  define j where "j = (unat (l_params l) - 16) mod 16"
  have j: "j < 16" by (simp add: j_def)
  have uq: "unat q = unat (l_params l) - 16 - j" by (simp add: q_def unat_align b5 j_def)
  have q0: "unat q mod 16 = 0" unfolding uq j_def by (simp add: minus_mod_eq_mult_div)
  have a1: "unat (l_bd l) + 44 + 0x30000 = unat (l_reloc l)" using big b2 by linarith
  have a2: "unat (l_gd l) + 36 = unat (l_bd l)" using big a1 b3 by linarith
  have a3: "unat (l_params l) + 0x20000 = unat (l_gd l)" using big a1 a2 b4 by linarith
  have a4: "unat q + 16 + j = unat (l_params l)" using big a1 a2 a3 uq j by linarith
  have big2: "0x80000000 + 0x100 < unat q" using big a1 a2 a3 a4 j by linarith
  have s1: "unat (q - 4) = unat q - 4" using big2 by (intro unat_minus c) linarith
  have "unat (q - 4 - 4) = unat (q - 4) - 4" using big2 s1 by (intro unat_minus c) linarith
  then have s2: "unat (l_sp l) + 8 = unat q" unfolding bd(4) q_def [symmetric] using s1 big2 by linarith
  have s3: "unat (l_sp l) mod 16 = 8" by (rule mod_16_back [OF s2 q0])
  have r0: "unat (l_reloc l) mod 0x4000 = 0" unfolding u3 by (simp add: minus_mod_eq_mult_div)
  have e: "unat (l_reloc l) + unat len + (unat a0 mod 0x1000 + unat a2 mod 0x4000) = 0x80000000 + unat ram_size"
    using f u0 u1 m1 u2 u3 m3 by linarith
  have s4: "unat (l_sp l) + 24 + j = unat (l_params l)" using s2 a4 by linarith
  have s5: "0x80000000 < unat (l_sp l)" using s2 big2 by linarith
  have k: "unat a0 mod 0x1000 + unat a2 mod 0x4000 < 0x4000 + 0x1000" using m1 m3 by linarith
  show ?thesis by (rule that [OF k j r0 s3 e a1 a2 a3 s4 s5])
qed

subsection \<open>Lemmas on the heap\<close>

fun run_sbrk :: "u32 list \<Rightarrow> arena \<Rightarrow> u32 list \<times> arena" where
  "run_sbrk [] a = ([], a)"
| "run_sbrk (n # ns) a = (let (p, a) = sbrk n a; (ps, a) = run_sbrk ns a in (p # ps, a))"

definition arena_ok :: "arena \<Rightarrow> bool" where
  "arena_ok a \<longleftrightarrow> 0 < unat (mem_malloc_start a) \<and> unat (mem_malloc_start a) \<le> unat (mem_malloc_brk a) \<and>
     unat (mem_malloc_brk a) \<le> unat (mem_malloc_end a) \<and> unat (mem_malloc_end a) = unat (mem_malloc_start a) + 0x30000"

lemma arena_below_ok: "0x30000 < unat d \<Longrightarrow> arena_ok (fst (arena_below d m))"
  by (simp add: arena_below_def arena_ok_def TOTAL_MALLOC_LEN_def unat_minus Let_def)

lemma arena_below_sel:
  "0x30000 < unat d \<Longrightarrow> unat (mem_malloc_brk (fst (arena_below d m))) = unat d - 0x30000"
  "unat (mem_malloc_end (fst (arena_below d m))) = unat d"
  by (simp_all add: arena_below_def TOTAL_MALLOC_LEN_def unat_minus Let_def)

lemma arena_below_mem:
  assumes "0x30000 < unat d"
  shows "snd (arena_below d m) x = (if unat d - 0x30000 \<le> unat x \<and> unat x < unat d then 0 else m x)"
proof -
  have s: "unat (d - 0x30000) = unat d - 0x30000" using assms by (simp add: unat_minus)
  have u: "unat (x - (d - 0x30000)) = (if unat d - 0x30000 \<le> unat x then unat x - (unat d - 0x30000)
      else 2 ^ 32 + unat x - (unat d - 0x30000))"
    using s by (simp add: unat_sub_if_size word_size)
  have "unat (x - (d - 0x30000)) < 0x30000 \<longleftrightarrow> unat d - 0x30000 \<le> unat x \<and> unat x < unat d"
    unfolding u using assms unat_u32_less [of x] unat_u32_less [of d]
    by (cases "unat d - 0x30000 \<le> unat x"; simp add: less_diff_conv2; linarith)
  then show ?thesis by (simp add: arena_below_def TOTAL_MALLOC_LEN_def store_def Let_def)
qed

lemma sbrk_step:
  assumes "arena_ok a" "unat n < 2 ^ 31"
  shows "sbrk n a =
    (if unat (mem_malloc_brk a) + unat n \<le> unat (mem_malloc_end a)
     then (mem_malloc_brk a, a\<lparr>mem_malloc_brk := mem_malloc_brk a + n\<rparr>) else (0, a))"
    "unat (mem_malloc_brk a) + unat n \<le> unat (mem_malloc_end a) \<Longrightarrow>
     unat (mem_malloc_brk a + n) = unat (mem_malloc_brk a) + unat n"
    "unat (mem_malloc_brk a) + unat n \<le> unat (mem_malloc_end a) \<Longrightarrow> arena_ok (a\<lparr>mem_malloc_brk := mem_malloc_brk a + n\<rparr>)"
    "mem_malloc_brk a \<noteq> 0"
proof -
  have u: "unat (mem_malloc_brk a + n) = (if unat (mem_malloc_brk a) + unat n < 2 ^ 32 then unat (mem_malloc_brk a) + unat n
      else unat (mem_malloc_brk a) + unat n - 2 ^ 32)"
    by (simp add: unat_plus_if_size word_size)
  show "sbrk n a =
    (if unat (mem_malloc_brk a) + unat n \<le> unat (mem_malloc_end a)
     then (mem_malloc_brk a, a\<lparr>mem_malloc_brk := mem_malloc_brk a + n\<rparr>) else (0, a))"
    using assms u unat_u32_less [of "mem_malloc_end a"]
    by (auto simp: sbrk_def arena_ok_def Let_def word_less_nat_alt split: if_splits)
  show n: "unat (mem_malloc_brk a) + unat n \<le> unat (mem_malloc_end a) \<Longrightarrow>
     unat (mem_malloc_brk a + n) = unat (mem_malloc_brk a) + unat n"
    using u unat_u32_less [of "mem_malloc_end a"] by simp
  show "unat (mem_malloc_brk a) + unat n \<le> unat (mem_malloc_end a) \<Longrightarrow> arena_ok (a\<lparr>mem_malloc_brk := mem_malloc_brk a + n\<rparr>)"
    using n assms(1) by (simp add: arena_ok_def)
  show "mem_malloc_brk a \<noteq> 0" using assms(1) by (auto simp: arena_ok_def)
qed

text \<open>Of two blocks the later one lies above the earlier one.\<close>

definition above :: "u32 \<times> u32 \<Rightarrow> u32 \<times> u32 \<Rightarrow> bool" where
  "above b c \<longleftrightarrow> fst b = 0 \<or> fst c = 0 \<or> unat (fst b) + unat (snd b) \<le> unat (fst c)"

definition block_in :: "nat \<Rightarrow> nat \<Rightarrow> u32 \<times> u32 \<Rightarrow> bool" where
  "block_in lo hi b \<longleftrightarrow> fst b = 0 \<or> lo \<le> unat (fst b) \<and> unat (fst b) + unat (snd b) \<le> hi"

lemma run_sbrk_blocks:
  assumes "arena_ok a" "list_all (\<lambda>n. unat n < 2 ^ 31) ns"
  shows "length (fst (run_sbrk ns a)) = length ns \<and>
    list_all (block_in (unat (mem_malloc_brk a)) (unat (mem_malloc_end a))) (zip (fst (run_sbrk ns a)) ns) \<and>
    sorted_wrt above (zip (fst (run_sbrk ns a)) ns) \<and> arena_ok (snd (run_sbrk ns a))"
  using assms
proof (induction ns arbitrary: a)
  case (Cons n ns)
  show ?case
  proof (cases "unat (mem_malloc_brk a) + unat n \<le> unat (mem_malloc_end a)")
    case True
    let ?b = "a\<lparr>mem_malloc_brk := mem_malloc_brk a + n\<rparr>"
    note st = sbrk_step [OF Cons.prems(1), of n]
    have ih: "length (fst (run_sbrk ns ?b)) = length ns" "list_all (block_in (unat (mem_malloc_brk a) + unat n) (unat (mem_malloc_end a))) (zip (fst (run_sbrk ns ?b)) ns)"
      "sorted_wrt above (zip (fst (run_sbrk ns ?b)) ns)" "arena_ok (snd (run_sbrk ns ?b))"
      using Cons.IH [of ?b] st(2,3) True Cons.prems(2) by simp_all
    have "list_all (block_in (unat (mem_malloc_brk a)) (unat (mem_malloc_end a))) (zip (fst (run_sbrk ns ?b)) ns)"
      by (rule list.pred_mono_strong [OF ih(2)]) (auto simp: block_in_def)
    moreover have "list_all (above (mem_malloc_brk a, n)) (zip (fst (run_sbrk ns ?b)) ns)"
      by (rule list.pred_mono_strong [OF ih(2)]) (auto simp: block_in_def above_def)
    ultimately show ?thesis
      using ih st(1) True Cons.prems(2) by (simp add: case_prod_beta Let_def block_in_def list_all_iff)
  next
    case False
    then show ?thesis
      using Cons.IH [OF Cons.prems(1)] sbrk_step(1) [OF Cons.prems(1), of n] Cons.prems(2)
      by (simp add: case_prod_beta Let_def block_in_def above_def list_all_iff)
  qed
qed simp

lemma sbrk_refused_iff:
  assumes "arena_ok a" "unat n < 2 ^ 31"
  shows "(fst (sbrk n a) = 0) = (unat (mem_malloc_end a) < unat (mem_malloc_brk a) + unat n)"
  using sbrk_step [OF assms] by auto

subsection \<open>Lemmas on the first stage\<close>

lemma flash_load: "list_all flash_window (map (\<lambda>i. a + of_nat i) [0..<n]) \<Longrightarrow> load_bytes (m_load (m\<lparr>m_ram := r\<rparr>)) a n = load_bytes (m_load m) a n"
  by (simp add: load_bytes_def m_load_def list_all_iff)

lemma load_flash: "list_all flash_window (map (\<lambda>i. a + of_nat i) [0..<n]) \<Longrightarrow> load_bytes (m_load m) a n = load_bytes (m_window m (hw_log (m_hw m))) a n"
  by (simp add: load_bytes_def m_load_def list_all_iff)

lemma load_bytes_length: "length (load_bytes m a n) = n"
  by (simp add: load_bytes_def)

lemma load_bytes_add: "load_bytes m a (j + k) = load_bytes m a j @ load_bytes m (a + of_nat j) k"
proof -
  have "[0..<j + k] = [0..<j] @ map (\<lambda>i. i + j) [0..<k]"
    using upt_add_eq_append [of 0 j k] map_add_upt [of j k] by (simp only: add.commute [of k j])
  then show ?thesis by (simp add: load_bytes_def comp_def add.commute add.left_commute)
qed

abbreviation flash_image :: "u32 \<Rightarrow> nat \<Rightarrow> bool" where
  "flash_image a n \<equiv> list_all flash_window (map (\<lambda>i. a + of_nat i) [0..<n])"

lemma flash_image_drop:
  assumes "flash_image a (k + n)"
  shows "flash_image a k" "flash_image (a + of_nat k) n"
proof -
  show "flash_image a k" using assms by (auto simp: list_all_iff)
  have "flash_window (a + of_nat k + of_nat i)" if "i < n" for i
    using assms that by (auto simp: list_all_iff ac_simps dest!: bspec [of _ _ "k + i"])
  then show "flash_image (a + of_nat k) n" by (simp add: list_all_iff)
qed

lemma header_crc_rejected:
  assumes "length (ih_name h) = 32" "ih_hcrc h = crc32 0 (header_bytes (h\<lparr>ih_hcrc := 0\<rparr>))" "i < 64" "b \<noteq> header_bytes h ! i"
  defines "h' \<equiv> header_of ((header_bytes h)[i := b])"
  shows "crc32 0 (header_bytes (h'\<lparr>ih_hcrc := 0\<rparr>)) \<noteq> ih_hcrc h'"
proof -
  have l: "length (header_bytes h) = 64" using assms(1) by (simp add: header_bytes_def)
  show ?thesis unfolding h'_def
    by (rule header_crc_damage [OF l assms(3,4)]) (simp add: header_of_bytes assms(1,2))
qed

lemma bootstrap_header:
  fixes old dlen end_data ram_size dest_addr m
  defines "addr \<equiv> BOOTSTRAP_CFG_MONITOR_BASE + (end_data - dest_addr)"
    and "m' \<equiv> m\<lparr>m_ram := snd (arena_below dest_addr (m_ram m))\<rparr>"
    and "hdr \<equiv> header_of (load_bytes (m_load m) (BOOTSTRAP_CFG_MONITOR_BASE + (end_data - dest_addr)) 64)"
  assumes "flash_image addr 64"
  shows "bootstrap_board_init_r old dlen end_data ram_size dest_addr m =
    (if ih_magic hdr \<noteq> IH_MAGIC \<or> crc32 0 (header_bytes (hdr\<lparr>ih_hcrc := 0\<rparr>)) \<noteq> ih_hcrc hdr then Inr None
     else rbind (inflate_mem (bootstrap_alloc dest_addr) old dlen 0 0 (addr + 64) (ih_size hdr) (ih_load hdr) m') (\<lambda>(i, m).
       if i \<noteq> 0 then Inr None
       else Inr (Some \<lparr>u_entry = ih_load hdr, u_ram_size = ram_size, u_ram = m_ram m\<rparr>)))"
proof -
  have "load_bytes (m_load m') addr 64 = load_bytes (m_load m) addr 64"
    unfolding m'_def by (rule flash_load [OF assms(4)])
  then have h: "header_of (load_bytes (m_load m') addr 64) = hdr" by (simp only: hdr_def addr_def)
  show ?thesis by (simp only: bootstrap_board_init_r_def Let_def h flip: addr_def m'_def) simp
qed

subsection \<open>Lemmas on the Ethernet devices\<close>

lemma eth_register_more:
  assumes "eth_names st \<noteq> []"
  shows "fold (\<lambda>(name, mac). eth_register name mac) devs st =
    st\<lparr>eth_names := eth_names st @ map fst devs, eth_macs := eth_macs st @ map snd devs\<rparr>"
  using assms by (induction devs arbitrary: st) (auto simp: eth_register_def)

lemma eth_register_all:
  assumes "devs \<noteq> []"
  shows "fold (\<lambda>(name, mac). eth_register name mac) devs (st\<lparr>eth_names := [], eth_macs := [], eth_current := None\<rparr>) =
    st\<lparr>eth_names := map fst devs, eth_macs := map snd devs, eth_current := Some 0,
      nenv := (nenv st)(''ethact'' \<mapsto> fst (hd devs))\<rparr>"
  using assms by (cases devs) (auto simp: eth_register_more eth_register_def set_ethact_def Let_def fun_upd_idem)

text \<open>The last device of the preferred name becomes the current one.\<close>

lemma eth_prime_loop_result:
  "\<exists>c. eth_prime_loop p k names st = st\<lparr>eth_current := c\<rparr> \<and>
    (if p \<in> Some ` set names then \<exists>i < length names. c = Some (k + i) \<and> p = Some (names ! i) else c = eth_current st)"
proof (induction p k names st rule: eth_prime_loop.induct)
  case (2 p k name names st)
  let ?st = "if p = Some name then st\<lparr>eth_current := Some k\<rparr> else st"
  obtain c where c: "eth_prime_loop p (Suc k) names ?st = ?st\<lparr>eth_current := c\<rparr>"
    "if p \<in> Some ` set names then \<exists>i < length names. c = Some (Suc k + i) \<and> p = Some (names ! i) else c = eth_current ?st"
    using 2 by blast
  have e: "eth_prime_loop p k (name # names) st = st\<lparr>eth_current := c\<rparr>" using c(1) by simp
  show ?case
  proof (cases "p \<in> Some ` set names")
    case True
    with c(2) obtain i where "i < length names" "c = Some (Suc k + i)" "p = Some (names ! i)" by auto
    with True e show ?thesis by (intro exI [of _ c]) (auto intro!: exI [of _ "Suc i"])
  next
    case False
    with c(2) e show ?thesis by (intro exI [of _ c]) (auto intro!: exI [of _ 0])
  qed
qed simp

subsection \<open>Properties of the start\<close>

text \<open>
  C18: In a RAM of at most 512 MB with room for a program of \<open>len\<close> bytes and 384 KB, \<open>board_init_f\<close> lays
  out the top of RAM without wrapping around: the program ends inside RAM and starts at a multiple of
  16 KB; below it follow, without overlap, the heap of \<open>TOTAL_MALLOC_LEN\<close> bytes, the board information, the
  global data, the boot parameters and the stack, whose two cleared words lie above the stack pointer and below the parameters;
  all of it is above the base of RAM, and less than 20 KB are lost to the alignment of the program.
\<close>
theorem board_layout_fits:
  fixes len ram_size m
  defines "l \<equiv> board_layout len ram_size"
  assumes "ram_fits len ram_size"
  shows "unat (l_reloc l) + unat len \<le> 0x80000000 + unat ram_size \<and>
    0x80000000 + unat ram_size < unat (l_reloc l) + unat len + 0x5000 \<and> unat (l_reloc l) mod 0x4000 = 0 \<and>
    unat (l_bd l) + 44 + unat TOTAL_MALLOC_LEN = unat (l_reloc l) \<and> unat (l_gd l) + 36 = unat (l_bd l) \<and>
    unat (l_params l) + 0x20000 = unat (l_gd l) \<and>
    0x80000000 < unat (l_sp l) \<and> unat (l_sp l) mod 16 = 8 \<and> unat (l_sp l) + 24 \<le> unat (l_params l) \<and>
    load_word (clear_frame l m) (l_sp l + 4) = 0 \<and> load_word (clear_frame l m) (l_sp l + 8) = 0 \<and>
    (\<forall>x. unat (l_sp l) + 12 \<le> unat x \<longrightarrow> clear_frame l m x = m x)"
proof -
  obtain k j where f: "k < 0x4000 + 0x1000" "j < 16" "unat (l_reloc l) mod 0x4000 = 0" "unat (l_sp l) mod 16 = 8"
    "unat (l_reloc l) + unat len + k = 0x80000000 + unat ram_size" "unat (l_bd l) + 44 + 0x30000 = unat (l_reloc l)"
    "unat (l_gd l) + 36 = unat (l_bd l)" "unat (l_params l) + 0x20000 = unat (l_gd l)"
    "unat (l_sp l) + 24 + j = unat (l_params l)" "0x80000000 < unat (l_sp l)"
    unfolding l_def by (rule board_layout_unat [OF assms(2)])
  have t: "unat TOTAL_MALLOC_LEN = 0x30000" by (simp add: TOTAL_MALLOC_LEN_def)
  have top: "clear_frame l m x = m x" if "unat (l_sp l) + 12 \<le> unat x" for x
    by (rule clear_frame_above [OF that])
  show ?thesis using f t top clear_frame_words [of l m] by (intro conjI allI impI; linarith | simp)
qed

theorem board_layout_fits_witness:
  "board_layout 0x2c000 0x2000000 = \<lparr>l_reloc = 0x81fd4000, l_bd = 0x81fa3fd4, l_gd = 0x81fa3fb0, l_params = 0x81f83fb0, l_sp = 0x81f83f98\<rparr> \<and>
   load_word (clear_frame (board_layout 0x2c000 0x2000000) (\<lambda>_. 1)) 0x81f83f9c = 0"
proof -
  have l: "board_layout 0x2c000 0x2000000 = \<lparr>l_reloc = 0x81fd4000, l_bd = 0x81fa3fd4, l_gd = 0x81fa3fb0, l_params = 0x81f83fb0, l_sp = 0x81f83f98\<rparr>"
    by (simp add: board_layout_def TOTAL_MALLOC_LEN_def Let_def)
  show ?thesis using board_layout_fits [of "0x2c000" "0x2000000" "\<lambda>_. 1"] by (simp add: ram_fits_def l)
qed

text \<open>
  C23: The heap that \<open>mem_malloc_init\<close> sets up below the boot loader is filled with zeros and no other byte
  of RAM changes. Over any sequence of \<open>sbrk\<close> calls with increments that are not negative, every
  block that is handed out lies inside the heap, no two blocks overlap, and an increment is refused, without any
  change, exactly when it does not fit below the end of the heap any more.
\<close>
theorem heap_blocks_disjoint:
  fixes reloc_off m
  defines "upper \<equiv> unat (CFG_MONITOR_BASE + reloc_off)" and "a \<equiv> fst (mem_malloc_init reloc_off m)"
  assumes "unat TOTAL_MALLOC_LEN < upper" "list_all (\<lambda>n. unat n < 2 ^ 31) ns" "unat n < 2 ^ 31"
  shows "snd (mem_malloc_init reloc_off m) = (\<lambda>x. if upper - unat TOTAL_MALLOC_LEN \<le> unat x \<and> unat x < upper then 0 else m x) \<and>
    list_all (block_in (upper - unat TOTAL_MALLOC_LEN) upper) (zip (fst (run_sbrk ns a)) ns) \<and>
    sorted_wrt above (zip (fst (run_sbrk ns a)) ns) \<and>
    (let b = snd (run_sbrk ns a) in
     if unat (mem_malloc_end b) < unat (mem_malloc_brk b) + unat n then sbrk n b = (0, b) else fst (sbrk n b) = mem_malloc_brk b)"
proof -
  have t: "unat TOTAL_MALLOC_LEN = 0x30000" by (simp add: TOTAL_MALLOC_LEN_def)
  have ok: "arena_ok a" unfolding a_def mem_malloc_init_def
    by (rule arena_below_ok) (use assms(3) t in \<open>simp add: upper_def\<close>)
  have "unat (mem_malloc_brk a) = upper - 0x30000" "unat (mem_malloc_end a) = upper"
    using arena_below_sel assms(3) t by (simp_all only: a_def mem_malloc_init_def upper_def)
  then show ?thesis
    using run_sbrk_blocks [OF ok assms(4)] sbrk_step(1) [OF _ assms(5), of "snd (run_sbrk ns a)"]
      arena_below_mem [of "CFG_MONITOR_BASE + reloc_off" m] assms(3)
    by (simp add: t mem_malloc_init_def fun_eq_iff Let_def flip: upper_def)
qed

theorem heap_blocks_disjoint_witness:
  "fst (run_sbrk [0x1000, 0x40000, 0x2f000] (fst (mem_malloc_init 0x1fc4000 (\<lambda>_. 7)))) = [0x81fa4000, 0, 0x81fa5000] \<and>
   (let b = snd (run_sbrk [0x1000, 0x40000, 0x2f000] (fst (mem_malloc_init 0x1fc4000 (\<lambda>_. 7)))) in sbrk 1 b = (0, b)) \<and>
   snd (mem_malloc_init 0x1fc4000 (\<lambda>_. 7)) 0x81fa4000 = 0 \<and> snd (mem_malloc_init 0x1fc4000 (\<lambda>_. 7)) 0x81fd4000 = 7"
proof -
  have a: "fst (mem_malloc_init 0x1fc4000 (\<lambda>_. 7)) =
      \<lparr>mem_malloc_start = 0x81fa4000, mem_malloc_end = 0x81fd4000, mem_malloc_brk = 0x81fa4000\<rparr>"
    by (simp add: mem_malloc_init_def arena_below_def TOTAL_MALLOC_LEN_def Let_def)
  have r: "run_sbrk [0x1000, 0x40000, 0x2f000] \<lparr>mem_malloc_start = 0x81fa4000, mem_malloc_end = 0x81fd4000, mem_malloc_brk = 0x81fa4000\<rparr> =
      ([0x81fa4000, 0, 0x81fa5000], \<lparr>mem_malloc_start = 0x81fa4000, mem_malloc_end = 0x81fd4000, mem_malloc_brk = 0x81fd4000\<rparr>)"
    by (simp add: sbrk_def Let_def)
  show ?thesis
    using heap_blocks_disjoint [of "0x1fc4000" "[0x1000, 0x40000, 0x2f000]" 1 "\<lambda>_. 7"]
    by (simp add: a r TOTAL_MALLOC_LEN_def del: run_sbrk.simps)
qed

text \<open>
  C5: The first stage, with a boot loader behind itself in flash whose header carries the magic number and a
  valid checksum and whose compressed part is at least an LZMA header long: if its LZMA
  decoding fails, nothing is started; otherwise, as far as the output does not hit the flash window, the
  boot loader is entered at the load address of the header with the size of the RAM as its argument
  and exactly the decompressed bytes in front of it. If any one byte of the header is damaged, nothing is started.
\<close>
theorem bootstrap_starts_uboot:
  fixes old dlen end_data ram_size dest_addr m h
  defines "addr \<equiv> BOOTSTRAP_CFG_MONITOR_BASE + (end_data - dest_addr)"
    and "start \<equiv> bootstrap_board_init_r old dlen end_data ram_size dest_addr"
  assumes "length (ih_name h) = 32" "load_bytes (m_load m) addr 64 = header_bytes h" "ih_magic h = IH_MAGIC"
    "ih_hcrc h = crc32 0 (header_bytes (h\<lparr>ih_hcrc := 0\<rparr>))" "13 \<le> unat (ih_size h)" "unat (ih_size h) < 2 ^ 31"
    "list_all flash_window (map (\<lambda>i. addr + of_nat i) [0..<64 + unat (ih_size h)])"
  shows "(\<exists>r. lzma_inflate (bootstrap_alloc dest_addr) old (load_bytes (m_load m) (addr + 64) (unat (ih_size h)))
             (ih_size h) dlen 0 0 = Inr r \<and>
           (case dest r of
              None \<Rightarrow> start m = Inr None
            | Some uboot \<Rightarrow>
                if \<not> store_ok (addr + 64) (unat (ih_size h)) (ih_load h) (length uboot) then start m = Inl Unmodelled_Store
                else \<exists>u. start m = Inr (Some u) \<and> u_entry u = ih_load h \<and> u_ram_size u = ram_size \<and>
                  load_bytes (u_ram u) (ih_load h) (length uboot) = uboot)) \<and>
    (\<forall>m' i b. i < 64 \<and> b \<noteq> header_bytes h ! i \<and> load_bytes (m_load m') addr 64 = (header_bytes h)[i := b] \<longrightarrow>
       start m' = Inr None)"
proof -
  let ?len = "unat (ih_size h)" and ?m = "m\<lparr>m_ram := snd (arena_below dest_addr (m_ram m))\<rparr>"
  note fl = flash_image_drop [OF assms(9)]
  note hd = bootstrap_header [OF fl(1) [unfolded addr_def], of old dlen ram_size, folded addr_def start_def]
  have src: "load_bytes (m_load ?m) (addr + 64) ?len = load_bytes (m_load m) (addr + 64) ?len"
    using flash_load [OF fl(2)] by simp
  have start: "start m = rbind (inflate_mem (bootstrap_alloc dest_addr) old dlen 0 0 (addr + 64) (ih_size h) (ih_load h) ?m) (\<lambda>(i, m).
       if i \<noteq> 0 then Inr None else Inr (Some \<lparr>u_entry = ih_load h, u_ram_size = ram_size, u_ram = m_ram m\<rparr>))"
    unfolding hd by (simp only: assms(4) header_of_bytes [OF assms(3)]) (simp add: assms(5,6))
  obtain r where r: "lzma_inflate (bootstrap_alloc dest_addr) old (load_bytes (m_load ?m) (addr + 64) ?len) (ih_size h) dlen 0 0 = Inr r"
    "dest r = None \<longrightarrow> inflate_mem (bootstrap_alloc dest_addr) old dlen 0 0 (addr + 64) (ih_size h) (ih_load h) ?m = Inr (1, ?m)"
    "\<forall>bs. dest r = Some bs \<longrightarrow> length bs < 2 ^ 32 \<and>
       inflate_mem (bootstrap_alloc dest_addr) old dlen 0 0 (addr + 64) (ih_size h) (ih_load h) ?m =
         (if store_ok (addr + 64) ?len (ih_load h) (length bs) then Inr (0, ?m\<lparr>m_ram := store (ih_load h) bs (m_ram ?m)\<rparr>) else Inl Unmodelled_Store)"
    by (rule inflate_mem_first [OF assms(7,8)])
  have "start m' = Inr None" if "i < 64" "b \<noteq> header_bytes h ! i" "load_bytes (m_load m') addr 64 = (header_bytes h)[i := b]" for m' i b
    using header_crc_rejected [OF assms(3,6) that(1,2)] by (simp add: hd that(3))
  then show ?thesis
    using r by (auto simp: src start load_bytes_store split: option.split)
qed

text \<open>A boot loader of one byte, 32 KB behind the start of the flash.\<close>

theorem bootstrap_starts_uboot_witness:
  defines "h0 \<equiv> \<lparr>ih_magic = IH_MAGIC, ih_hcrc = 0, ih_time = 0, ih_size = 20, ih_load = 0x80010000, ih_ep = 0, ih_dcrc = 0,
      ih_os = IH_OS_LINUX, ih_arch = IH_CPU_MIPS, ih_type = IH_TYPE_KERNEL, ih_comp = 0, ih_name = replicate 32 0\<rparr>"
  defines "h \<equiv> h0\<lparr>ih_hcrc := crc32 0 (header_bytes h0)\<rparr>"
  defines "fl \<equiv> \<lambda>bs. \<lparr>m_ram = \<lambda>_. 0xFF, m_hw = \<lparr>hw_log = [], hw_rd = \<lambda>_ _. 0, hw_polls = 0\<rparr>,
      m_window = \<lambda>_. store 0x9f008000 (bs @ one_byte_file) (\<lambda>_. 0xFF)\<rparr>"
  shows "\<exists>u. bootstrap_board_init_r (\<lambda>_. 0) 0x87f00000 0x81fd8000 0x2000000 0x81fd0000 (fl (header_bytes h)) = Inr (Some u) \<and>
     u_entry u = 0x80010000 \<and> u_ram_size u = 0x2000000 \<and> u_ram u 0x80010000 = 0 \<and>
     bootstrap_board_init_r (\<lambda>_. 0) 0x87f00000 0x81fd8000 0x2000000 0x81fd0000 (fl ((header_bytes h)[16 := 1])) = Inr None"
proof -
  have fw: "list_all flash_window (map (\<lambda>i. 0x9f008000 + of_nat i) [0..<84])" by code_simp
  have ld: "load_bytes (m_load (fl bs)) 0x9f008000 64 = bs" "load_bytes (m_load (fl bs)) 0x9f008040 20 = one_byte_file"
    if l: "length bs = 64" for bs
  proof -
    have "length (bs @ one_byte_file) = 84" by (simp add: l one_byte_file_def)
    then have "load_bytes (m_load (fl bs)) 0x9f008000 (64 + 20) = bs @ one_byte_file"
      using load_flash [OF fw, of "fl bs"] load_bytes_store [of "bs @ one_byte_file" "0x9f008000" "\<lambda>_. 0xFF"]
      by (simp add: fl_def)
    then show "load_bytes (m_load (fl bs)) 0x9f008000 64 = bs" "load_bytes (m_load (fl bs)) 0x9f008040 20 = one_byte_file"
      using l by (simp_all only: load_bytes_add) (simp_all add: load_bytes_length)
  qed
  have l: "length (header_bytes h) = 64" by (simp add: h_def h0_def header_bytes_def)
  have f: "length (ih_name h) = 32" "ih_hcrc h = crc32 0 (header_bytes (h\<lparr>ih_hcrc := 0\<rparr>))" "ih_size h = 20"
    "ih_magic h = IH_MAGIC" "ih_load h = 0x80010000"
    by (simp_all add: h_def h0_def)
  have b: "(1 :: byte) \<noteq> header_bytes h ! 16" by (simp add: h_def h0_def header_bytes_def be32_def)
  have al: "bootstrap_alloc 0x81fd0000 5228"
    by (simp add: bootstrap_alloc_def bootstrap_malloc_def arena_below_def TOTAL_MALLOC_LEN_def Let_def)
  have ok: "store_ok 0x9f008040 20 0x80010000 (Suc 0)"
    using below_area [of "0x80010000" "0x9f008040" 20] by (simp add: store_ok_def flash_window_def PHYSADDR_def)
  have ad: "BOOTSTRAP_CFG_MONITOR_BASE + (0x81fd8000 - 0x81fd0000) = 0x9f008000" by simp
  have n: "13 \<le> unat (ih_size h)" "unat (ih_size h) < 2 ^ 31"
    "list_all flash_window (map (\<lambda>i. 0x9f008000 + of_nat i) [0..<64 + unat (ih_size h)])"
    using fw by (simp_all add: f(3))
  note t = bootstrap_starts_uboot [of h "fl (header_bytes h)" "0x81fd8000" "0x81fd0000" "\<lambda>_. 0" "0x87f00000" "0x2000000",
      unfolded ad, OF f(1) ld(1) [OF l] f(4,2) n]
  have "bootstrap_board_init_r (\<lambda>_. 0) 0x87f00000 0x81fd8000 0x2000000 0x81fd0000 (fl ((header_bytes h)[16 := 1])) = Inr None"
    by (rule t [THEN conjunct2, rule_format, of 16 1]) (simp add: b l ld(1))
  moreover have "\<exists>u. bootstrap_board_init_r (\<lambda>_. 0) 0x87f00000 0x81fd8000 0x2000000 0x81fd0000 (fl (header_bytes h)) = Inr (Some u) \<and>
     u_entry u = 0x80010000 \<and> u_ram_size u = 0x2000000 \<and> load_bytes (u_ram u) 0x80010000 1 = [0]"
    using t [THEN conjunct1] by (simp add: f(3,5) ld(2) [OF l] lzma_inflate_one_byte_alloc al ok)
  ultimately show ?thesis by (auto simp: load_bytes_def)
qed

text \<open>
  \<open>eth_initialize\<close> keeps the devices in the order in which the drivers register them and returns their number.
  It selects a device with the name in \<open>ethprime\<close> if there is one and the first device otherwise, and \<open>ethact\<close> then
  holds the name of the selected device.
\<close>

theorem eth_initialize_selects:
  fixes devs st
  defines "st' \<equiv> snd (eth_initialize devs st)"
  assumes "devs \<noteq> []"
  shows "fst (eth_initialize devs st) = length devs \<and> eth_names st' = map fst devs \<and> eth_macs st' = map snd devs \<and>
    (\<exists>k < length devs. eth_current st' = Some k \<and> nenv st' ''ethact'' = Some (fst (devs ! k)) \<and>
       (if nenv st ''ethprime'' \<in> Some ` fst ` set devs then nenv st ''ethprime'' = Some (fst (devs ! k)) else k = 0))"
proof -
  let ?st = "st\<lparr>eth_names := map fst devs, eth_macs := map snd devs, eth_current := Some 0,
      nenv := (nenv st)(''ethact'' \<mapsto> fst (hd devs))\<rparr>"
  let ?p = "nenv st ''ethprime''"
  obtain c where c: "eth_prime_loop ?p 0 (map fst devs) ?st = ?st\<lparr>eth_current := c\<rparr>"
    "if ?p \<in> Some ` set (map fst devs) then \<exists>i < length (map fst devs). c = Some (0 + i) \<and> ?p = Some (map fst devs ! i) else c = eth_current ?st"
    using eth_prime_loop_result [of ?p 0 "map fst devs" ?st] by blast
  have "\<exists>k < length devs. c = Some k \<and> (if ?p \<in> Some ` fst ` set devs then ?p = Some (fst (devs ! k)) else k = 0)"
    using c(2) assms(2) by (auto split: if_splits)
  then obtain k where k: "k < length devs" "c = Some k" "if ?p \<in> Some ` fst ` set devs then ?p = Some (fst (devs ! k)) else k = 0"
    by blast
  show ?thesis
    using k c(1) assms(2) by (simp add: st'_def eth_initialize_def eth_register_all Let_def set_ethact_def)
qed

end
