(* ===== verification/MemSize.thy ===== *)
theory MemSize
  imports Prelude
begin

text \<open>
  \<open>common/memsize.c\<close>: how much RAM there is, found by writing markers at the powers of two of a range and
  looking which of them survive. The bus between the processor and the RAM is part of the model, because
  the routine rests on what it does with addresses beyond the RAM: a chip that decodes only some address
  lines answers the other addresses as well, and an address that nothing answers reads as whatever is on the bus.
\<close>

subsection \<open>The routine\<close>

text \<open>
  \<open>rd\<close> and \<open>wr\<close> read and write the word at an address; \<open>save\<close> is the array of the saved words. \<open>None\<close>
  stands for an index outside it. \<open>cnt\<close> counts words, the pointer arithmetic multiplies it by 4.
\<close>

function save_loop :: "(u32 \<Rightarrow> 's \<Rightarrow> u32) \<Rightarrow> (u32 \<Rightarrow> u32 \<Rightarrow> 's \<Rightarrow> 's) \<Rightarrow> u32 \<Rightarrow> u32 \<Rightarrow> u32 list \<Rightarrow> 's \<Rightarrow> (u32 list \<times> 's) option" where
  "save_loop rd wr base cnt save m =
     (if cnt = 0 then Some (save, m)
      else if length save \<ge> 32 then None
      else let addr = base + 4 * cnt in
        save_loop rd wr base (drop_bit 1 cnt) (save @ [rd addr m]) (wr addr (NOT cnt) m))"
  by pat_completeness auto
termination
proof (relation "measure (\<lambda>(_, _, _, cnt, _). unat cnt)")
  show "((rd, wr, base, drop_bit 1 cnt, save @ [rd addr m], wr addr (NOT cnt) m), (rd, wr, base, cnt, save, m))
      \<in> measure (\<lambda>(_, _, _, cnt, _). unat cnt)" if "cnt \<noteq> 0"
    for rd :: "u32 \<Rightarrow> 's \<Rightarrow> u32" and wr base and cnt :: u32 and save m addr
  proof -
    have "unat (drop_bit 1 cnt) = unat cnt div 2" by (simp add: drop_bit_eq_div unat_div)
    then show ?thesis using that by (simp add: unat_gt_0 [symmetric] del: unat_gt_0)
  qed
qed simp

declare save_loop.simps [simp del]

fun restore_loop :: "(u32 \<Rightarrow> u32 \<Rightarrow> 's \<Rightarrow> 's) \<Rightarrow> u32 \<Rightarrow> u32 \<Rightarrow> u32 list \<Rightarrow> u32 \<Rightarrow> nat \<Rightarrow> 's \<Rightarrow> 's option" where
  "restore_loop wr base words save cnt i m =
     (if \<not> cnt < words then Some m
      else case i of
        0 \<Rightarrow> None
      | Suc i \<Rightarrow> restore_loop wr base words save (push_bit 1 cnt) i (wr (base + 4 * cnt) (save ! i) m))"

fun probe_loop :: "(u32 \<Rightarrow> 's \<Rightarrow> u32) \<Rightarrow> (u32 \<Rightarrow> u32 \<Rightarrow> 's \<Rightarrow> 's) \<Rightarrow> u32 \<Rightarrow> u32 \<Rightarrow> u32 list \<Rightarrow> u32 \<Rightarrow> nat \<Rightarrow> 's \<Rightarrow> (u32 option \<times> 's) option" where
  "probe_loop rd wr base words save cnt i m =
     (if \<not> cnt < words then Some (None, m)
      else case i of
        0 \<Rightarrow> None
      | Suc i \<Rightarrow>
          let addr = base + 4 * cnt; val = rd addr m; m = wr addr (save ! i) m in
          if val \<noteq> NOT cnt
          then (case restore_loop wr base words save (push_bit 1 cnt) i m of
                  None \<Rightarrow> None | Some m \<Rightarrow> Some (Some (cnt * 4), m))
          else probe_loop rd wr base words save (push_bit 1 cnt) i m)"

declare restore_loop.simps [simp del] probe_loop.simps [simp del]

definition get_ram_size :: "(u32 \<Rightarrow> 's \<Rightarrow> u32) \<Rightarrow> (u32 \<Rightarrow> u32 \<Rightarrow> 's \<Rightarrow> 's) \<Rightarrow> u32 \<Rightarrow> u32 \<Rightarrow> 's \<Rightarrow> (u32 \<times> 's) option" where
  "get_ram_size rd wr base maxsize m =
     (let words = maxsize div 4 in
      case save_loop rd wr base (drop_bit 1 words) [] m of
        None \<Rightarrow> None
      | Some (save, m) \<Rightarrow>
          if length save \<ge> 32 then None
          else
            let i = length save; save = save @ [rd base m]; m = wr base 0 m in
            if rd base m \<noteq> 0
            then (case restore_loop wr base words save 1 i (wr base (save ! i) m) of
                    None \<Rightarrow> None | Some m \<Rightarrow> Some (0, m))
            else (case probe_loop rd wr base words save 1 i m of
                    None \<Rightarrow> None
                  | Some (None, m) \<Rightarrow> Some (maxsize, m)
                  | Some (Some sz, m) \<Rightarrow> Some (sz, m)))"

subsection \<open>Busses that undo a write\<close>

text \<open>Writing back what was read before a write restores the memory.\<close>

locale restoring_bus =
  fixes rd :: "u32 \<Rightarrow> 's \<Rightarrow> u32" and wr :: "u32 \<Rightarrow> u32 \<Rightarrow> 's \<Rightarrow> 's"
  assumes undo: "wr a (rd a m) (wr a v m) = m"

text \<open>The memory when the markers at \<open>2 ^ j\<close>, \<open>t \<le> j < k\<close>, have been written from the top, and the words saved.\<close>

fun marked :: "(u32 \<Rightarrow> u32 \<Rightarrow> 's \<Rightarrow> 's) \<Rightarrow> u32 \<Rightarrow> nat \<Rightarrow> nat \<Rightarrow> 's \<Rightarrow> 's" where
  "marked wr base k 0 m = m"
| "marked wr base k (Suc n) m =
     (let j = k - Suc n in wr (base + 4 * 2 ^ j) (NOT (2 ^ j)) (marked wr base k n m))"

definition saved :: "(u32 \<Rightarrow> 's \<Rightarrow> u32) \<Rightarrow> (u32 \<Rightarrow> u32 \<Rightarrow> 's \<Rightarrow> 's) \<Rightarrow> u32 \<Rightarrow> nat \<Rightarrow> 's \<Rightarrow> nat \<Rightarrow> u32" where
  "saved rd wr base k m n = rd (base + 4 * 2 ^ (k - Suc n)) (marked wr base k n m)"

lemma half_pow: "j < 31 \<Longrightarrow> drop_bit 1 (2 ^ Suc j :: u32) = 2 ^ j"
  by (rule bit_word_eqI) (auto simp: bit_simps simp del: power_Suc)

lemma pow_not_0: "j < 32 \<Longrightarrow> (2 ^ j :: u32) \<noteq> 0"
  by (simp add: exp_eq_0_imp_not_bit)

lemma unat_pow: "j < 32 \<Longrightarrow> unat (2 ^ j :: u32) = 2 ^ j"
proof -
  assume "j < 32"
  then have "(2 :: nat) ^ j < 2 ^ 32" by (intro power_strict_increasing) simp_all
  moreover have "(2 ^ j :: u32) = of_nat (2 ^ j)" by simp
  ultimately show ?thesis by (simp only: unat_of_nat take_bit_eq_mod) simp
qed

lemma pow_less: "j < 32 \<Longrightarrow> k < 32 \<Longrightarrow> ((2 ^ j :: u32) < 2 ^ k) = (j < k)"
  by (simp add: word_less_nat_alt unat_pow)

lemma save_loop_step:
  "cnt \<noteq> 0 \<Longrightarrow> length save < 32 \<Longrightarrow>
   save_loop rd wr base cnt save m =
   save_loop rd wr base (drop_bit 1 cnt) (save @ [rd (base + 4 * cnt) m]) (wr (base + 4 * cnt) (NOT cnt) m)"
  by (simp add: save_loop.simps [of rd wr base cnt] Let_def del: drop_bit_numeral_bit0)

lemma restore_step:
  "cnt < words \<Longrightarrow> restore_loop wr base words save cnt (Suc i) m =
     restore_loop wr base words save (push_bit 1 cnt) i (wr (base + 4 * cnt) (save ! i) m)"
  by (simp add: restore_loop.simps [of wr base words save cnt])

lemma probe_step:
  "cnt < words \<Longrightarrow> rd (base + 4 * cnt) m = NOT cnt \<Longrightarrow>
   probe_loop rd wr base words save cnt (Suc i) m =
     probe_loop rd wr base words save (push_bit 1 cnt) i (wr (base + 4 * cnt) (save ! i) m)"
  by (simp add: probe_loop.simps [of rd wr base words save cnt] Let_def)

lemma probe_stop:
  "cnt < words \<Longrightarrow> rd (base + 4 * cnt) m \<noteq> NOT cnt \<Longrightarrow>
   restore_loop wr base words save (push_bit 1 cnt) i (wr (base + 4 * cnt) (save ! i) m) = Some m' \<Longrightarrow>
   probe_loop rd wr base words save cnt (Suc i) m = Some (Some (cnt * 4), m')"
  by (simp add: probe_loop.simps [of rd wr base words save cnt] Let_def)

lemma double_pow: "push_bit 1 (2 ^ j :: u32) = 2 ^ Suc j"
  by (simp add: push_bit_eq_mult)

lemma save_loop_0 [simp]: "save_loop rd wr base 0 save m = Some (save, m)"
  by (simp add: save_loop.simps)

lemma marked_Suc: "j = k - Suc n \<Longrightarrow> marked wr base k (Suc n) m = wr (base + 4 * 2 ^ j) (NOT (2 ^ j)) (marked wr base k n m)"
  by (simp add: Let_def)

lemma saved_Suc:
  "j = k - Suc n \<Longrightarrow> map (saved rd wr base k m) [0..<Suc n] = map (saved rd wr base k m) [0..<n] @ [rd (base + 4 * 2 ^ j) (marked wr base k n m)]"
  by (simp add: saved_def)

lemma save_loop_marked:
  assumes "n < k" "k \<le> 30" "j = k - Suc n"
  shows "save_loop rd wr base (2 ^ j) (map (saved rd wr base k m) [0..<n]) (marked wr base k n m) =
    Some (map (saved rd wr base k m) [0..<k], marked wr base k k m)"
  using assms(1,3)
proof (induction j arbitrary: n)
  case 0
  then have n: "k = Suc n" by simp
  have "save_loop rd wr base (2 ^ 0) (map (saved rd wr base k m) [0..<n]) (marked wr base k n m) =
      save_loop rd wr base (drop_bit 1 (2 ^ 0)) (map (saved rd wr base k m) [0..<Suc n]) (marked wr base k (Suc n) m)"
    unfolding marked_Suc [OF 0(2)] saved_Suc [OF 0(2)]
    by (rule save_loop_step) (use n assms(2) in simp_all)
  then show ?case using n by simp
next
  case (Suc j)
  have j: "j = k - Suc (Suc n)" "Suc n < k" "j < 31" "n < 32" using Suc.prems assms(2) by auto
  have "save_loop rd wr base (2 ^ Suc j) (map (saved rd wr base k m) [0..<n]) (marked wr base k n m) =
      save_loop rd wr base (drop_bit 1 (2 ^ Suc j)) (map (saved rd wr base k m) [0..<Suc n]) (marked wr base k (Suc n) m)"
    unfolding marked_Suc [OF Suc.prems(2)] saved_Suc [OF Suc.prems(2)]
    by (rule save_loop_step) (use j pow_not_0 [of "Suc j"] in simp_all)
  also have "\<dots> = Some (map (saved rd wr base k m) [0..<k], marked wr base k k m)"
    unfolding half_pow [OF j(3)] by (rule Suc.IH [OF j(2,1)])
  finally show ?case .
qed

context restoring_bus
begin

text \<open>Restoring the words from the marker \<open>2 ^ j\<close> on gives back the original memory.\<close>

lemma unmark:
  assumes "j < k"
  shows "wr (base + 4 * 2 ^ j) (saved rd wr base k m (k - Suc j)) (marked wr base k (k - j) m) = marked wr base k (k - Suc j) m"
proof -
  have "k - j = Suc (k - Suc j)" "j = k - Suc (k - Suc j)" using assms by auto
  then show ?thesis using undo marked_Suc [of j k "k - Suc j"] by (metis saved_def)
qed

lemma restore_loop_marked:
  assumes "j \<le> k" "k \<le> 30" "\<forall>n < k. save ! n = saved rd wr base k m n"
  shows "restore_loop wr base (2 ^ k) save (2 ^ j) (k - j) (marked wr base k (k - j) m) = Some m"
  using assms(1)
proof (induction "k - j" arbitrary: j)
  case 0
  then show ?case by (simp add: restore_loop.simps)
next
  case (Suc d)
  have d: "k - j = Suc d" "d = k - Suc j" "j < k" using Suc.hyps(2) by auto
  have lt: "(2 ^ j :: u32) < 2 ^ k" using d(3) assms(2) by (simp add: pow_less)
  have sv: "save ! d = saved rd wr base k m d" using assms(3) d by simp
  have "restore_loop wr base (2 ^ k) save (2 ^ j) (Suc d) (marked wr base k (k - j) m) =
      restore_loop wr base (2 ^ k) save (2 ^ Suc j) (k - Suc j) (marked wr base k (k - Suc j) m)"
    unfolding restore_step [OF lt] double_pow using unmark [OF d(3), of base m] sv d(2) by simp
  then show ?case using Suc.hyps(1) [of "Suc j"] d by simp
qed

end

text \<open>
  A bus: \<open>dec\<close> maps an address to the cell that answers, if any, and \<open>float\<close> is what can be read where nothing answers.
\<close>

definition bus_read :: "(u32 \<Rightarrow> u32 option) \<Rightarrow> (u32 \<Rightarrow> u32) \<Rightarrow> u32 \<Rightarrow> (u32 \<Rightarrow> u32) \<Rightarrow> u32" where
  "bus_read dec float a m = (case dec a of None \<Rightarrow> float a | Some c \<Rightarrow> m c)"

definition bus_write :: "(u32 \<Rightarrow> u32 option) \<Rightarrow> u32 \<Rightarrow> u32 \<Rightarrow> (u32 \<Rightarrow> u32) \<Rightarrow> u32 \<Rightarrow> u32" where
  "bus_write dec a v m = (case dec a of None \<Rightarrow> m | Some c \<Rightarrow> m(c := v))"

interpretation bus: restoring_bus "bus_read dec float" "bus_write dec" for dec float
  by unfold_locales (auto simp: bus_read_def bus_write_def split: option.split)

text \<open>A RAM of \<open>2 ^ r\<close> words at \<open>base\<close> that decodes no further address lines.\<close>

definition ram_of :: "nat \<Rightarrow> u32 \<Rightarrow> u32 \<Rightarrow> u32 option" where
  "ram_of r base a = Some (take_bit (r + 2) (a - base))"

lemma ram_of_pow:
  assumes "j < 30" "r < 30"
  shows "ram_of r base (base + 4 * 2 ^ j) = Some (if j < r then 2 ^ (j + 2) else 0)"
proof -
  have "4 * 2 ^ j = (2 ^ (j + 2) :: u32)" by simp
  moreover have "take_bit (r + 2) (2 ^ (j + 2) :: u32) = (if j < r then 2 ^ (j + 2) else 0)"
    using assms by (intro bit_word_eqI) (auto simp: bit_simps simp del: power_Suc power_add)
  ultimately show ?thesis by (simp add: ram_of_def)
qed

lemma ram_of_base: "ram_of r base base = Some 0"
  by (simp add: ram_of_def)

lemma marker_not_0: "j < 31 \<Longrightarrow> NOT (2 ^ j :: u32) \<noteq> 0"
proof
  assume "j < 31" "NOT (2 ^ j :: u32) = 0"
  then have "bit (NOT (2 ^ j :: u32)) 31 = bit (0 :: u32) 31" by simp
  with \<open>j < 31\<close> show False by (simp add: bit_simps)
qed

lemma probe_loop_ram:
  fixes m base float r
  defines "rd \<equiv> bus_read (ram_of r base) float" and "wr \<equiv> bus_write (ram_of r base)"
  assumes "j \<le> r" "r \<le> k" "k \<le> 29" "\<forall>n < k. save ! n = saved rd wr base k m n"
  shows "probe_loop rd wr base (2 ^ k) save (2 ^ j) (k - j) ((marked wr base k (k - j) m)(0 := 0)) =
    Some (if r < k then (Some (2 ^ r * 4), m) else (None, m(0 := 0)))"
  using assms(3)
proof (induction "r - j" arbitrary: j)
  case 0
  then have j: "j = r" by simp
  show ?case
  proof (cases "r < k")
    case True
    let ?n = "k - Suc r"
    have n: "k - j = Suc ?n" using True j by simp
    have c: "ram_of r base (base + 4 * 2 ^ r) = Some 0" using ram_of_pow [of r r base] assms(4,5) by simp
    have "wr (base + 4 * 2 ^ r) (save ! ?n) ((marked wr base k (k - r) m)(0 := 0)) = wr (base + 4 * 2 ^ r) (save ! ?n) (marked wr base k (k - r) m)"
      by (simp add: wr_def bus_write_def c)
    then have u: "wr (base + 4 * 2 ^ r) (save ! ?n) ((marked wr base k (k - r) m)(0 := 0)) = marked wr base k ?n m"
      using bus.unmark [OF True, of "ram_of r base" base float m] assms(6) True by (simp add: rd_def wr_def)
    have v: "rd (base + 4 * 2 ^ r) ((marked wr base k (k - r) m)(0 := 0)) = 0"
      by (simp add: rd_def bus_read_def c)
    have ne: "(0 :: u32) \<noteq> NOT (2 ^ r)" using marker_not_0 [of r] assms(4,5) by simp
    have lt: "(2 ^ r :: u32) < 2 ^ k" using pow_less [of r k] assms(4,5) True by simp
    have nv: "rd (base + 4 * 2 ^ r) ((marked wr base k (k - r) m)(0 := 0)) \<noteq> NOT (2 ^ r)" unfolding v by (rule ne)
    have rs: "restore_loop wr base (2 ^ k) save (2 ^ Suc r) ?n (marked wr base k ?n m) = Some m"
      using bus.restore_loop_marked [of "Suc r" k save "ram_of r base" float base m] assms(5,6) True by (simp add: rd_def wr_def)
    have "probe_loop rd wr base (2 ^ k) save (2 ^ r) (Suc ?n) ((marked wr base k (k - r) m)(0 := 0)) = Some (Some (2 ^ r * 4), m)"
      by (rule probe_stop [of "2 ^ r" "2 ^ k" rd base "(marked wr base k (k - r) m)(0 := 0)" wr, OF lt nv])
        (simp only: double_pow u rs)
    then show ?thesis using True n by (simp only: j if_True)
  next
    case False
    then have "k = r" using assms(4) by simp
    then show ?thesis by (simp add: j probe_loop.simps fun_upd_def)
  qed
next
  case (Suc d)
  let ?n = "k - Suc j" and ?m = "(marked wr base k (k - j) m)(0 := 0)"
  have j: "j < r" "j < k" "k - j = Suc ?n" "j = k - Suc ?n" using Suc.hyps(2) assms(4) by auto
  have c: "ram_of r base (base + 4 * 2 ^ j) = Some (2 ^ (j + 2))" using ram_of_pow [of j r base] assms(4,5) j by simp
  have c0: "(2 ^ (j + 2) :: u32) \<noteq> 0" using pow_not_0 [of "j + 2"] j assms(4,5) by simp
  have "wr (base + 4 * 2 ^ j) (save ! ?n) ?m = (wr (base + 4 * 2 ^ j) (save ! ?n) (marked wr base k (k - j) m))(0 := 0)"
    unfolding wr_def bus_write_def c by (simp only: option.case fun_upd_twist [OF c0])
  then have u: "wr (base + 4 * 2 ^ j) (save ! ?n) ?m = (marked wr base k ?n m)(0 := 0)"
    using bus.unmark [OF j(2), of "ram_of r base" base float m] assms(6) j by (simp add: rd_def wr_def)
  have v: "rd (base + 4 * 2 ^ j) ?m = NOT (2 ^ j)"
    using c c0 by (simp only: j(3) marked_Suc [OF j(4)] rd_def wr_def bus_read_def bus_write_def option.case) simp
  have lt: "(2 ^ j :: u32) < 2 ^ k" using pow_less [of j k] j assms(5) by simp
  have "probe_loop rd wr base (2 ^ k) save (2 ^ j) (Suc ?n) ?m = probe_loop rd wr base (2 ^ k) save (2 ^ Suc j) ?n ((marked wr base k ?n m)(0 := 0))"
    by (simp only: probe_step [of "2 ^ j" "2 ^ k" rd base ?m, OF lt v] double_pow u)
  then show ?case using Suc.hyps(1) [of "Suc j"] Suc.hyps(2) j by (simp only: j(3))
qed

subsection \<open>Properties\<close>

lemma get_ram_size_saved:
  assumes "k \<le> 29"
  shows "get_ram_size rd wr base (2 ^ (k + 2)) m =
    (let save = map (saved rd wr base k m) [0..<k] @ [rd base (marked wr base k k m)]; m' = wr base 0 (marked wr base k k m) in
     if rd base m' \<noteq> 0
     then (case restore_loop wr base (2 ^ k) save 1 k (wr base (save ! k) m') of None \<Rightarrow> None | Some m \<Rightarrow> Some (0, m))
     else (case probe_loop rd wr base (2 ^ k) save 1 k m' of
             None \<Rightarrow> None
           | Some (None, m) \<Rightarrow> Some (2 ^ (k + 2), m)
           | Some (Some sz, m) \<Rightarrow> Some (sz, m)))"
proof -
  have w: "(2 ^ (k + 2) :: u32) div 4 = 2 ^ k"
  proof -
    have "(2 ^ (k + 2) :: u32) div 4 = drop_bit 2 (2 ^ (k + 2))" by (simp add: drop_bit_eq_div)
    also have "\<dots> = 2 ^ k" using assms by (intro bit_word_eqI) (auto simp: bit_simps simp del: power_Suc power_add)
    finally show ?thesis .
  qed
  have sl: "save_loop rd wr base (drop_bit 1 (2 ^ k)) [] m = Some (map (saved rd wr base k m) [0..<k], marked wr base k k m)"
  proof (cases k)
    case (Suc j)
    have j: "0 < k" "k \<le> 30" "j = k - Suc 0" "j < 31" using Suc assms by auto
    have h: "drop_bit 1 (2 ^ k :: u32) = 2 ^ j" unfolding Suc by (rule half_pow [OF j(4)])
    show ?thesis unfolding h using save_loop_marked [OF j(1-3), of rd wr base m] by (simp only: upt_0 upt.simps(1) list.map marked.simps)
  qed simp
  have n: "(32 \<le> k) = False" using assms by simp
  show ?thesis
    by (simp only: get_ram_size_def w sl Let_def option.case prod.case length_map length_upt diff_zero n if_False)
qed

text \<open>
  C20: On a RAM of \<open>2 ^ r\<close> words in a range of \<open>2 ^ k\<close> words that answers every address of the range modulo its size,
  \<open>get_ram_size\<close> returns its size in bytes. If the RAM is smaller than the range, its content is then as before; if it fills
  the range, the first word is left at zero. Where nothing answers at the base and the bus does not float at
  zero, it returns 0 and whatever answers elsewhere is as before. It never leaves the array of saved words.
\<close>
theorem get_ram_size_finds:
  assumes "r \<le> k" "k \<le> 29" "dec base = None" "float base \<noteq> 0"
  shows "get_ram_size (bus_read (ram_of r base) fl) (bus_write (ram_of r base)) base (2 ^ (k + 2)) m =
      Some (2 ^ (r + 2), if r < k then m else m(0 := 0)) \<and>
    get_ram_size (bus_read dec float) (bus_write dec) base (2 ^ (k + 2)) m = Some (0, m)"
proof
  let ?rd = "bus_read (ram_of r base) fl" and ?wr = "bus_write (ram_of r base)"
  let ?s = "map (saved ?rd ?wr base k m) [0..<k] @ [?rd base (marked ?wr base k k m)]"
  have sv: "\<forall>n < k. ?s ! n = saved ?rd ?wr base k m n" by (simp add: nth_append)
  have w: "?wr base 0 (marked ?wr base k k m) = (marked ?wr base k k m)(0 := 0)" by (simp add: bus_write_def ram_of_base)
  have z: "?rd base ((marked ?wr base k k m)(0 := 0)) = 0" by (simp add: bus_read_def ram_of_base)
  have "probe_loop ?rd ?wr base (2 ^ k) ?s 1 k ((marked ?wr base k k m)(0 := 0)) =
      Some (if r < k then (Some (2 ^ r * 4), m) else (None, m(0 := 0)))"
    using probe_loop_ram [of 0 r k ?s base fl m] assms(1,2) sv by simp
  then show "get_ram_size ?rd ?wr base (2 ^ (k + 2)) m = Some (2 ^ (r + 2), if r < k then m else m(0 := 0))"
    using assms(1) by (simp only: get_ram_size_saved [OF assms(2)] Let_def w z) (simp add: mult.commute)
next
  let ?rd = "bus_read dec float" and ?wr = "bus_write dec"
  let ?s = "map (saved ?rd ?wr base k m) [0..<k] @ [?rd base (marked ?wr base k k m)]"
  have sv: "\<forall>n < k. ?s ! n = saved ?rd ?wr base k m n" by (simp add: nth_append)
  have w: "?wr base v x = x" for v x by (simp add: bus_write_def assms(3))
  have z: "?rd base x \<noteq> 0" for x by (simp add: bus_read_def assms(3,4))
  have "restore_loop ?wr base (2 ^ k) ?s 1 k (marked ?wr base k k m) = Some m"
    using bus.restore_loop_marked [of 0 k ?s dec float base m] assms(2) sv by simp
  then show "get_ram_size ?rd ?wr base (2 ^ (k + 2)) m = Some (0, m)"
    using z by (simp only: get_ram_size_saved [OF assms(2)] Let_def w) simp
qed

theorem get_ram_size_finds_witness:
  "get_ram_size (bus_read (ram_of 23 0xa0000000) (\<lambda>_. 7)) (bus_write (ram_of 23 0xa0000000)) 0xa0000000 0x4000000 (\<lambda>_. 5) = Some (0x2000000, \<lambda>_. 5) \<and>
   get_ram_size (bus_read (ram_of 24 0xa0000000) (\<lambda>_. 7)) (bus_write (ram_of 24 0xa0000000)) 0xa0000000 0x4000000 (\<lambda>_. 5) =
     Some (0x4000000, (\<lambda>_. 5)(0 := 0)) \<and>
   get_ram_size (bus_read (\<lambda>_. None) (\<lambda>_. 7)) (bus_write (\<lambda>_. None)) 0xa0000000 0x4000000 (\<lambda>_. 5) = Some (0, \<lambda>_. 5)"
  using get_ram_size_finds [of 23 24 "\<lambda>_. None" "0xa0000000" "\<lambda>_. 7" "\<lambda>_. 7" "\<lambda>_. 5"]
    get_ram_size_finds [of 24 24 "\<lambda>_. None" "0xa0000000" "\<lambda>_. 7" "\<lambda>_. 7" "\<lambda>_. 5"] by (simp add: fun_upd_def)

end
