(* ===== verification/MemCmd.thy ===== *)
theory MemCmd
  imports MemSize LineEdit Shell Bootm
begin

text \<open>
  The memory commands of \<open>common/cmd_mem.c\<close>: \<open>md\<close>, \<open>mw\<close>, \<open>mm\<close>, \<open>nm\<close> and \<open>mtest\<close> (\<open>cp\<close> is in \<open>FlashCmd\<close>).
  The memory is that of \<open>FlashCmd\<close>, seen in units of 1, 2 or 4 bytes; \<open>mtest\<close> runs over a bus of \<open>MemSize\<close>,
  so that bad memories can be described. The console is the text written and the keys not yet read.
\<close>

subsection \<open>Units of memory\<close>

datatype mem_exit =
    Mem_Access            \<comment> \<open>a misaligned access, or a store to the flash window\<close>
  | Mem_Line rl_exit      \<comment> \<open>the line editor\<close>
  | Mem_Endless           \<comment> \<open>a loop that does not end\<close>

text \<open>Any size but 4 and 2 is handled as a byte.\<close>

definition unit_of :: "u32 \<Rightarrow> nat" where
  "unit_of sz = (if sz = 4 then 4 else if sz = 2 then 2 else 1)"

definition unit_bytes :: "u32 \<Rightarrow> u32 \<Rightarrow> byte list" where
  "unit_bytes sz v = (if sz = 4 then be32 v else if sz = 2 then be16 (ucast v) else [ucast v])"

definition unit_load :: "u32 \<Rightarrow> u32 \<Rightarrow> mach \<Rightarrow> mem_exit + u32" where
  "unit_load sz addr m =
     (let bs = load_bytes (m_load m) addr (unit_of sz) in
      if unat addr mod unit_of sz \<noteq> 0 then Inl Mem_Access
      else Inr (if sz = 4 then get32 bs 0 else if sz = 2 then ucast (get16 bs 0) else ucast (bs ! 0)))"

definition unit_store :: "u32 \<Rightarrow> u32 \<Rightarrow> u32 \<Rightarrow> mach \<Rightarrow> mem_exit + mach" where
  "unit_store sz addr v m =
     (if unat addr mod unit_of sz \<noteq> 0 \<or> flash_window addr then Inl Mem_Access
      else Inr (m\<lparr>m_ram := store addr (unit_bytes sz v) (m_ram m)\<rparr>))"

text \<open>What \<open>md\<close> and \<open>mm\<close> remember for a repetition.\<close>

record mem_last =
  dp_last_addr :: u32
  dp_last_size :: u32
  dp_last_length :: u32
  mm_last_addr :: u32
  mm_last_size :: u32

definition unit_text :: "u32 \<Rightarrow> u32 \<Rightarrow> string" where
  "unit_text sz v = sprintf1 (if sz = 4 then '' %08x'' else if sz = 2 then '' %04x'' else '' %02x'') v"

definition usage_text :: "string \<Rightarrow> string" where
  "usage_text usage = ''Usage:'' @ [LF] @ usage @ [LF]"

subsection \<open>\<open>md\<close>\<close>

text \<open>The units of a line: their text, their bytes in \<open>linebuf\<close>, and the address behind.\<close>

fun md_items :: "u32 \<Rightarrow> nat \<Rightarrow> u32 \<Rightarrow> mach \<Rightarrow> mem_exit + (string \<times> byte list \<times> u32)" where
  "md_items sz 0 addr m = Inr ([], [], addr)"
| "md_items sz (Suc n) addr m =
     rbind (unit_load sz addr m) (\<lambda>v.
       rbind (md_items sz n (addr + sz) m) (\<lambda>(t, bs, a). Inr (unit_text sz v @ t, unit_bytes sz v @ bs, a)))"

definition md_char :: "byte \<Rightarrow> char" where
  "md_char b = (if b < 0x20 \<or> b > 0x7e then CHR ''.'' else char_of (unat b))"

definition md_line :: "u32 \<Rightarrow> nat \<Rightarrow> u32 \<Rightarrow> mach \<Rightarrow> mem_exit + (string \<times> u32)" where
  "md_line sz linebytes addr m =
     rbind (md_items sz ((linebytes + unat sz - 1) div unat sz) addr m) (\<lambda>(t, bs, a).
       Inr (sprintf1 ''%08lx:'' addr @ t @ ''    '' @ map md_char (take linebytes bs) @ [LF], a))"

text \<open>\<open>polls\<close> are the answers of \<open>ctrlc\<close>; a missing one is \<open>False\<close>.\<close>

function md_loop :: "u32 \<Rightarrow> nat \<Rightarrow> u32 \<Rightarrow> bool list \<Rightarrow> mach \<Rightarrow> mem_exit + (int \<times> u32 \<times> string)" where
  "md_loop sz nbytes addr polls m =
     (let linebytes = (if nbytes > 16 then 16 else nbytes) in
      rbind (md_line sz linebytes addr m) (\<lambda>(line, a).
        if polls \<noteq> [] \<and> hd polls then Inr (1, a, line)
        else if nbytes - linebytes > 0
        then rbind (md_loop sz (nbytes - linebytes) a (tl polls) m) (\<lambda>(rc, a, out). Inr (rc, a, line @ out))
        else Inr (0, a, line)))"
  by pat_completeness auto
termination by (relation "measure (\<lambda>(_, n, _, _, _). n)") (auto split: if_splits)

declare md_loop.simps [simp del]

definition do_mem_md ::
  "string \<Rightarrow> u32 \<Rightarrow> string list \<Rightarrow> bool list \<Rightarrow> mem_last \<Rightarrow> mach \<Rightarrow> mem_exit + (int \<times> mem_last \<times> string)" where
  "do_mem_md usage flag argv polls s m =
     (if length argv < 2 then Inr (1, s, usage_text usage)
      else
        let fresh = (flag AND CMD_FLAG_REPEAT = 0); sz = cmd_get_data_size (argv ! 0) 4 in
        if fresh \<and> sz < 0 then Inr (1, s, [])
        else
          let size = (if fresh then word_of_int sz else dp_last_size s);
              addr = (if fresh then fst (simple_strtoul (argv ! 1) 16) + base_address else dp_last_addr s);
              len = (if fresh \<and> length argv > 2 then fst (simple_strtoul (argv ! 2) 16) else dp_last_length s) in
          rbind (md_loop size (unat (len * size)) addr polls m) (\<lambda>(rc, a, out).
            Inr (rc, s\<lparr>dp_last_addr := a, dp_last_length := len, dp_last_size := size\<rparr>, out)))"

subsection \<open>\<open>mw\<close>\<close>

fun mw_loop :: "u32 \<Rightarrow> nat \<Rightarrow> u32 \<Rightarrow> u32 \<Rightarrow> mach \<Rightarrow> mem_exit + mach" where
  "mw_loop sz 0 addr v m = Inr m"
| "mw_loop sz (Suc n) addr v m = rbind (unit_store sz addr v m) (mw_loop sz n (addr + sz) v)"

definition do_mem_mw :: "string list \<Rightarrow> mach \<Rightarrow> mem_exit + int \<times> mach" where
  "do_mem_mw argv m =
     (if length argv < 3 \<or> length argv > 4 then Inr (1, m)
      else
        let size = cmd_get_data_size (argv ! 0) 4 in
        if size < 1 then Inr (1, m)
        else
          let addr = fst (simple_strtoul (argv ! 1) 16) + base_address;
              writeval = fst (simple_strtoul (argv ! 2) 16);
              count = (if length argv = 4 then fst (simple_strtoul (argv ! 3) 16) else 1) in
          rbind (mw_loop (word_of_int size) (unat count) addr writeval m) (\<lambda>m. Inr (0, m)))"

subsection \<open>\<open>mm\<close> and \<open>nm\<close>\<close>

record mm_st =
  mm_buf :: string         \<comment> \<open>\<open>console_buffer\<close>\<close>
  mm_inp :: string         \<comment> \<open>keys not yet read\<close>
  mm_out :: string
  mm_mach :: mach

text \<open>One turn: the address of the next one, if there is one.\<close>

definition mm_turn :: "u32 \<Rightarrow> bool \<Rightarrow> u32 \<Rightarrow> mm_st \<Rightarrow> mem_exit + (u32 option \<times> mm_st)" where
  "mm_turn sz incrflag addr s =
     rbind (unit_load sz addr (mm_mach s)) (\<lambda>v.
     rbind (map_sum Mem_Line id (readline '' ? '' (mm_buf s) (mm_inp s))) (\<lambda>(nbytes, rl, inp).
       let buf = console_buffer rl;
           s = s\<lparr>mm_buf := buf, mm_inp := inp, mm_out := mm_out s @ sprintf1 ''%08lx:'' addr @ unit_text sz v @ rl_out rl\<rparr> in
       if nbytes = 0 \<or> nbytes = 1 \<and> buf ! 0 = CHR ''-''
       then Inr (Some (if incrflag then (if nbytes \<noteq> 0 then addr - sz else addr + sz) else addr), s)
       else
         let line = takeWhile (\<lambda>c. c \<noteq> NUL) buf; (i, endp) = simple_strtoul line 16 in
         if length line - length endp = 0 then Inr (None, s)
         else rbind (unit_store sz addr i (mm_mach s)) (\<lambda>m.
           Inr (Some (if incrflag then addr + sz else addr), s\<lparr>mm_mach := m\<rparr>))))"

text \<open>The loop reads at least a key in every turn, so \<open>Suc (length (mm_inp s))\<close> turns are enough for the input.\<close>

fun mod_mem_loop :: "nat \<Rightarrow> u32 \<Rightarrow> bool \<Rightarrow> u32 \<Rightarrow> mm_st \<Rightarrow> mem_exit + (u32 \<times> mm_st)" where
  "mod_mem_loop 0 sz incrflag addr s = Inl Mem_Endless"
| "mod_mem_loop (Suc n) sz incrflag addr s =
     rbind (mm_turn sz incrflag addr s) (\<lambda>(nxt, s).
       case nxt of None \<Rightarrow> Inr (addr, s) | Some addr \<Rightarrow> mod_mem_loop n sz incrflag addr s)"

definition mod_mem ::
  "string \<Rightarrow> bool \<Rightarrow> u32 \<Rightarrow> string list \<Rightarrow> mem_last \<Rightarrow> mm_st \<Rightarrow> mem_exit + (int \<times> mem_last \<times> mm_st)" where
  "mod_mem usage incrflag flag argv l s =
     (if length argv \<noteq> 2 then Inr (1, l, s\<lparr>mm_out := mm_out s @ usage_text usage\<rparr>)
      else
        let fresh = (flag AND CMD_FLAG_REPEAT = 0); sz = cmd_get_data_size (argv ! 0) 4 in
        if fresh \<and> sz < 0 then Inr (1, l, s)
        else
          let size = (if fresh then word_of_int sz else mm_last_size l);
              addr = (if fresh then fst (simple_strtoul (argv ! 1) 16) + base_address else mm_last_addr l) in
          rbind (mod_mem_loop (Suc (length (mm_inp s))) size incrflag addr s) (\<lambda>(addr, s).
            Inr (0, l\<lparr>mm_last_addr := addr, mm_last_size := size\<rparr>, s)))"

definition do_mem_mm :: "string \<Rightarrow> u32 \<Rightarrow> string list \<Rightarrow> mem_last \<Rightarrow> mm_st \<Rightarrow> mem_exit + (int \<times> mem_last \<times> mm_st)" where
  "do_mem_mm usage = mod_mem usage True"

definition do_mem_nm :: "string \<Rightarrow> u32 \<Rightarrow> string list \<Rightarrow> mem_last \<Rightarrow> mm_st \<Rightarrow> mem_exit + (int \<times> mem_last \<times> mm_st)" where
  "do_mem_nm usage = mod_mem usage False"

subsection \<open>\<open>mtest\<close>\<close>

text \<open>
  The quick test, over the words from \<open>start\<close> to \<open>end\<close>. An error is the address, what was found and what was expected.
  \<open>polls\<close> are the answers of \<open>ctrlc\<close>: the test has not returned when none of them is \<open>True\<close>.
\<close>

abbreviation (input) CFG_MEMTEST_START :: u32 where "CFG_MEMTEST_START \<equiv> 0x80200000"
abbreviation (input) CFG_MEMTEST_END :: u32 where "CFG_MEMTEST_END \<equiv> 0x83800000"

definition test_words :: "u32 \<Rightarrow> u32 \<Rightarrow> nat" where
  "test_words start stop = (unat stop - unat start + 3) div 4"

fun test_write :: "(u32 \<Rightarrow> u32 \<Rightarrow> 's \<Rightarrow> 's) \<Rightarrow> nat \<Rightarrow> u32 \<Rightarrow> u32 \<Rightarrow> u32 \<Rightarrow> 's \<Rightarrow> 's" where
  "test_write wr 0 addr val incr m = m"
| "test_write wr (Suc n) addr val incr m = test_write wr n (addr + 4) (val + incr) incr (wr addr val m)"

fun test_read :: "(u32 \<Rightarrow> 's \<Rightarrow> u32) \<Rightarrow> nat \<Rightarrow> u32 \<Rightarrow> u32 \<Rightarrow> u32 \<Rightarrow> 's \<Rightarrow> (u32 \<times> u32 \<times> u32) list" where
  "test_read rd 0 addr val incr m = []"
| "test_read rd (Suc n) addr val incr m =
     (let readback = rd addr m in
      (if readback \<noteq> val then [(addr, readback, val)] else []) @ test_read rd n (addr + 4) (val + incr) incr m)"

fun test_loop ::
  "(u32 \<Rightarrow> 's \<Rightarrow> u32) \<Rightarrow> (u32 \<Rightarrow> u32 \<Rightarrow> 's \<Rightarrow> 's) \<Rightarrow> u32 \<Rightarrow> nat \<Rightarrow> u32 \<Rightarrow> u32 \<Rightarrow> bool list \<Rightarrow> 's \<Rightarrow>
   int option \<times> (u32 \<times> u32 \<times> u32) list list \<times> 's" where
  "test_loop rd wr start n pattern incr [] m = (None, [], m)"
| "test_loop rd wr start n pattern incr (p # polls) m =
     (if p then (Some 1, [], m)
      else
        let m = test_write wr n start pattern incr m;
            errs = test_read rd n start pattern incr m;
            (rc, errss, m) = test_loop rd wr start n
              (if pattern AND 0x80000000 \<noteq> 0 then - pattern else NOT pattern) (- incr) polls m
        in (rc, errs # errss, m))"

definition do_mem_mtest ::
  "(u32 \<Rightarrow> 's \<Rightarrow> u32) \<Rightarrow> (u32 \<Rightarrow> u32 \<Rightarrow> 's \<Rightarrow> 's) \<Rightarrow> string list \<Rightarrow> bool list \<Rightarrow> 's \<Rightarrow>
   mem_exit + int option \<times> (u32 \<times> u32 \<times> u32) list list \<times> 's" where
  "do_mem_mtest rd wr argv polls m =
     (let start = (if length argv > 1 then fst (simple_strtoul (argv ! 1) 16) else CFG_MEMTEST_START);
          stop = (if length argv > 2 then fst (simple_strtoul (argv ! 2) 16) else CFG_MEMTEST_END);
          pattern = (if length argv > 3 then fst (simple_strtoul (argv ! 3) 16) else 0) in
      if start < stop \<and> unat start mod 4 \<noteq> 0 \<and> polls \<noteq> [] \<and> \<not> hd polls then Inl Mem_Access
      else if start < stop \<and> stop > 0xFFFFFFFC \<and> polls \<noteq> [] \<and> \<not> hd polls then Inl Mem_Endless
      else Inr (test_loop rd wr start (test_words start stop) pattern 1 polls m))"

subsection \<open>Lemmas on units and on \<open>mw\<close>\<close>

lemma length_unit_bytes: "length (unit_bytes sz v) = unit_of sz"
  by (simp add: unit_bytes_def unit_of_def be32_def be16_def)

text \<open>The size of a unit as an address difference.\<close>

definition unit_ok :: "u32 \<Rightarrow> bool" where
  "unit_ok sz \<longleftrightarrow> sz = 1 \<or> sz = 2 \<or> sz = 4"

lemma unit_ok_unat: "unit_ok sz \<Longrightarrow> unit_of sz = unat sz"
  by (auto simp: unit_ok_def unit_of_def)

lemma unit_ok_size: "word_of_int (cmd_get_data_size arg 4) = sz \<Longrightarrow> 0 < cmd_get_data_size arg 4 \<Longrightarrow> unit_ok sz"
  by (auto simp: cmd_get_data_size_def unit_ok_def Let_def split: if_splits)

lemma unat_next:
  assumes "unit_ok sz" "unat addr mod unat sz = 0" "unat addr + unat sz * Suc n \<le> 2 ^ 32" "n \<noteq> 0"
  shows "unat (addr + sz) = unat addr + unat sz"
proof -
  have "unat sz < unat sz * Suc n" using assms(1,4) by (auto simp: unit_ok_def)
  then have "unat addr + unat sz < 2 ^ 32" using assms(3) by linarith
  then show ?thesis by (simp add: unat_plus_if_size word_size)
qed

lemma mw_loop_fills:
  assumes "unit_ok sz" "unat addr mod unat sz = 0" "unat addr + unat sz * n \<le> 2 ^ 32"
    "list_all (\<lambda>i. \<not> flash_window (addr + of_nat i * sz)) [0..<n]"
  shows "mw_loop sz n addr v m = Inr (m\<lparr>m_ram := store addr (concat (replicate n (unit_bytes sz v))) (m_ram m)\<rparr>)"
  using assms(2-)
proof (induction n arbitrary: addr m)
  case 0
  then show ?case by (simp add: store_def)
next
  case (Suc n)
  have all: "\<not> flash_window (addr + of_nat i * sz)" if "i < Suc n" for i
    using Suc.prems(3) that unfolding list_all_iff by (metis atLeastLessThan_iff le0 set_upt)
  have fl: "\<not> flash_window addr" "list_all (\<lambda>i. \<not> flash_window (addr + sz + of_nat i * sz)) [0..<n]"
    using all [of 0] all [of "Suc i" for i] by (auto simp: list_all_iff algebra_simps)
  let ?u = "unit_bytes sz v" and ?us = "concat (replicate n (unit_bytes sz v))"
  have st: "unit_store sz addr v m = Inr (m\<lparr>m_ram := store addr ?u (m_ram m)\<rparr>)"
    using Suc.prems(1) fl(1) assms(1) by (simp add: unit_store_def unit_ok_unat)
  have l: "length ?u = unat sz" "length ?us = n * unat sz"
    by (simp_all add: length_unit_bytes unit_ok_unat [OF assms(1)] length_concat sum_list_replicate)
  have ap: "store (addr + sz) ?us (store addr ?u (m_ram m)) = store addr (?u @ ?us) (m_ram m)"
    using store_append [of "[]" ?us ?u addr "m_ram m"] Suc.prems(2) l by (simp add: algebra_simps)
  show ?case
  proof (cases "n = 0")
    case True
    then show ?thesis using st by simp
  next
    case False
    have nx: "unat (addr + sz) = unat addr + unat sz" by (rule unat_next [OF assms(1) Suc.prems(1,2) False])
    then have "unat (addr + sz) mod unat sz = 0" "unat (addr + sz) + unat sz * n \<le> 2 ^ 32"
      using Suc.prems by (simp_all add: algebra_simps)
    from Suc.IH [OF this fl(2), of "m\<lparr>m_ram := store addr ?u (m_ram m)\<rparr>"] show ?thesis using st ap by simp
  qed
qed

text \<open>
  \<open>mw\<close> to an aligned range of RAM fills exactly this range, \<open>count\<close> times with the low bytes of the value, highest first.
\<close>

theorem mw_fills:
  fixes argv m
  defines "sz \<equiv> word_of_int (cmd_get_data_size (argv ! 0) 4)" and "addr \<equiv> fst (simple_strtoul (argv ! 1) 16)"
    and "v \<equiv> fst (simple_strtoul (argv ! 2) 16)"
    and "n \<equiv> if length argv = 4 then unat (fst (simple_strtoul (argv ! 3) 16)) else 1"
  assumes "3 \<le> length argv" "length argv \<le> 4" "0 < cmd_get_data_size (argv ! 0) 4" "unat addr mod unat sz = 0"
    "unat addr + unat sz * n \<le> 2 ^ 32" "list_all (\<lambda>i. \<not> flash_window (addr + of_nat i * sz)) [0..<n]"
  shows "do_mem_mw argv m = Inr (0, m\<lparr>m_ram := store addr (concat (replicate n (unit_bytes sz v))) (m_ram m)\<rparr>)"
proof -
  have u: "unit_ok sz" using assms(7) by (intro unit_ok_size) (simp_all add: sz_def)
  have "unat (if length argv = 4 then fst (simple_strtoul (argv ! 3) 16) else 1) = n" by (simp add: n_def)
  then have "do_mem_mw argv m = rbind (mw_loop sz n addr v m) (\<lambda>m. Inr (0, m))"
    using assms(5-7) by (simp add: do_mem_mw_def base_address_def Let_def One_nat_def [symmetric] del: One_nat_def flip: sz_def addr_def v_def)
  then show ?thesis using mw_loop_fills [OF u assms(8-10)] by simp
qed

subsection \<open>Lemmas on \<open>mm\<close>\<close>

text \<open>What a line typed to \<open>mm\<close> means, and a sequence of them as changes of an address and the memory.\<close>

datatype mm_act = Go_Up | Go_Down | Leave | Put u32

definition mm_act :: "string \<Rightarrow> mm_act" where
  "mm_act line =
     (if line = [] then Go_Up else if line = ''-'' then Go_Down
      else let (v, endp) = simple_strtoul line 16 in if endp = line then Leave else Put v)"

fun mm_edit :: "u32 \<Rightarrow> u32 \<Rightarrow> string list \<Rightarrow> u32 \<Rightarrow> mach \<Rightarrow> mem_exit + (u32 \<times> mach \<times> string list)" where
  "mm_edit sz d [] addr m = (if unat addr mod unit_of sz \<noteq> 0 then Inl Mem_Access else Inl (Mem_Line No_Input))"
| "mm_edit sz d (keys # keyss) addr m =
     (if unat addr mod unit_of sz \<noteq> 0 then Inl Mem_Access
      else case mm_act (fold edit keys []) of
        Go_Up \<Rightarrow> mm_edit sz d keyss (addr + d) m
      | Go_Down \<Rightarrow> mm_edit sz d keyss (addr - d) m
      | Leave \<Rightarrow> Inr (addr, m, keyss)
      | Put v \<Rightarrow> rbind (unit_store sz addr v m) (mm_edit sz d keyss (addr + d)))"

definition typed_lines :: "string list \<Rightarrow> string" where
  "typed_lines keyss = concat (map (\<lambda>keys. keys @ [CR]) keyss)"

lemma prompt_mm: "prompt_ok '' ? ''"
  by (simp add: prompt_ok_def BS_def BEL_def)

lemma strtoul_suffix: "\<exists>p. line = p @ snd (simple_strtoul line b)"
proof -
  have l: "suffix (snd (strtoul_loop b r s)) s" for b r s
    by (induction s arbitrary: r) (auto intro: suffix_ConsI)
  have "\<exists>b' s. simple_strtoul line b = strtoul_loop b' 0 s \<and> (s = line \<or> s = tl line \<or> s = tl (tl line))"
    by (cases "peek line = CHR ''0''"; cases "peek (tl line) = CHR ''x'' \<and> isxdigit (peek (tl (tl line)))")
      (auto simp: simple_strtoul_def Let_def)
  then obtain b' s where s: "simple_strtoul line b = strtoul_loop b' 0 s" "s = line \<or> s = tl line \<or> s = tl (tl line)" by blast
  have "suffix s line" using s(2) by (metis suffix_order.refl suffix_order.trans suffix_tl)
  then have "suffix (snd (simple_strtoul line b)) line" unfolding s(1) using l suffix_order.trans by blast
  then show ?thesis by (auto simp: suffix_def)
qed

lemma strtoul_consumed: "(length line - length (snd (simple_strtoul line b)) = 0) = (snd (simple_strtoul line b) = line)"
proof -
  obtain p where p: "line = p @ snd (simple_strtoul line b)" using strtoul_suffix by blast
  then have "length line = length p + length (snd (simple_strtoul line b))" by (metis length_append)
  moreover have "(snd (simple_strtoul line b) = line) = (p = [])" using p by (metis append_self_conv2)
  ultimately show ?thesis by auto
qed

text \<open>A turn on a typed line; \<open>d\<close> is the distance to the next address.\<close>

abbreviation mm_dist :: "u32 \<Rightarrow> bool \<Rightarrow> u32" where
  "mm_dist sz incrflag \<equiv> if incrflag then sz else 0"

lemma mm_turn_line:
  fixes s :: mm_st and keys :: string and sz addr :: u32 and incrflag :: bool
  assumes "length (mm_buf s) = CFG_CBSIZE" "keys_ok keys" "mm_inp s = keys @ CR # rest" "unat addr mod unit_of sz = 0"
  obtains b out where "length b = CFG_CBSIZE" "mm_turn sz incrflag addr s =
    (let s = s\<lparr>mm_buf := b, mm_inp := rest, mm_out := out\<rparr> in
     case mm_act (fold edit keys []) of
       Go_Up \<Rightarrow> Inr (Some (addr + mm_dist sz incrflag), s)
     | Go_Down \<Rightarrow> Inr (Some (addr - mm_dist sz incrflag), s)
     | Leave \<Rightarrow> Inr (None, s)
     | Put v \<Rightarrow> rbind (unit_store sz addr v (mm_mach s)) (\<lambda>m. Inr (Some (addr + mm_dist sz incrflag), s\<lparr>mm_mach := m\<rparr>)))"
proof -
  define line where "line = fold edit keys []"
  obtain rl where rl: "readline '' ? '' (mm_buf s) (keys @ CR # rest) = Inr (int (length line), rl, rest)"
    "length (console_buffer rl) = CFG_CBSIZE" "takeWhile (\<lambda>c. c \<noteq> NUL) (console_buffer rl) = line"
    "console_buffer rl ! 0 = (if line = [] then NUL else hd line)"
    unfolding line_def by (rule readline_typed [OF assms(1,2) prompt_mm])
  obtain v where v: "unit_load sz addr (mm_mach s) = Inr v" using assms(4) by (auto simp: unit_load_def Let_def)
  have minus: "(int (length line) = 1 \<and> console_buffer rl ! 0 = CHR ''-'') = (line = ''-'')"
    unfolding rl(4) by (cases line) auto
  define out where "out = mm_out s @ sprintf1 ''%08lx:'' addr @ unit_text sz v @ rl_out rl"
  have t: "mm_turn sz incrflag addr s =
    (let s = s\<lparr>mm_buf := console_buffer rl, mm_inp := rest, mm_out := out\<rparr> in
     if line = [] \<or> line = ''-''
     then Inr (Some (if incrflag then (if line \<noteq> [] then addr - sz else addr + sz) else addr), s)
     else
       let (i, endp) = simple_strtoul line 16 in
       if length line - length endp = 0 then Inr (None, s)
       else rbind (unit_store sz addr i (mm_mach s)) (\<lambda>m. Inr (Some (if incrflag then addr + sz else addr), s\<lparr>mm_mach := m\<rparr>)))"
    by (simp only: mm_turn_def v rbind.simps assms(3) rl(1) map_sum.simps id_apply prod.case Let_def rl(3) minus)
      (simp add: out_def case_prod_beta del: One_nat_def)
  show ?thesis
  proof (rule that [OF rl(2)], unfold line_def [symmetric])
    show "mm_turn sz incrflag addr s =
    (let s = s\<lparr>mm_buf := console_buffer rl, mm_inp := rest, mm_out := out\<rparr> in
     case mm_act line of
       Go_Up \<Rightarrow> Inr (Some (addr + mm_dist sz incrflag), s)
     | Go_Down \<Rightarrow> Inr (Some (addr - mm_dist sz incrflag), s)
     | Leave \<Rightarrow> Inr (None, s)
     | Put v \<Rightarrow> rbind (unit_store sz addr v (mm_mach s)) (\<lambda>m. Inr (Some (addr + mm_dist sz incrflag), s\<lparr>mm_mach := m\<rparr>)))"
      unfolding t Let_def case_prod_beta strtoul_consumed by (simp add: mm_act_def case_prod_beta)
  qed
qed

text \<open>The result without the console: address, memory and pending input.\<close>

abbreviation mm_view :: "mem_exit + u32 \<times> mm_st \<Rightarrow> mem_exit + u32 \<times> mach \<times> string" where
  "mm_view \<equiv> map_sum id (\<lambda>(a, s). (a, mm_mach s, mm_inp s))"

lemma mod_mem_loop_edit:
  assumes "length (mm_buf s) = CFG_CBSIZE" "list_all keys_ok keyss" "mm_inp s = typed_lines keyss" "length keyss < n"
  shows "mm_view (mod_mem_loop n sz incrflag addr s) =
    map_sum id (\<lambda>(a, m, keyss). (a, m, typed_lines keyss)) (mm_edit sz (mm_dist sz incrflag) keyss addr (mm_mach s))"
  using assms
proof (induction keyss arbitrary: n addr s)
  case Nil
  then obtain k where "n = Suc k" by (cases n) auto
  with Nil show ?case by (simp add: mm_turn_def unit_load_def Let_def readline_def typed_lines_def)
next
  case (Cons keys keyss)
  then obtain k where n: "n = Suc k" "length keyss < k" by (cases n) auto
  have inp: "mm_inp s = keys @ CR # typed_lines keyss" using Cons.prems(3) by (simp add: typed_lines_def)
  have ks: "keys_ok keys" "list_all keys_ok keyss" using Cons.prems(2) by simp_all
  show ?case
  proof (cases "unat addr mod unit_of sz = 0")
    case False
    then show ?thesis by (simp add: n mm_turn_def unit_load_def Let_def)
  next
    case True
    from mm_turn_line [OF Cons.prems(1) ks(1) inp True, of incrflag] obtain b out where b: "length b = CFG_CBSIZE"
      and t: "mm_turn sz incrflag addr s =
    (let s = s\<lparr>mm_buf := b, mm_inp := typed_lines keyss, mm_out := out\<rparr> in
     case mm_act (fold edit keys []) of
       Go_Up \<Rightarrow> Inr (Some (addr + mm_dist sz incrflag), s)
     | Go_Down \<Rightarrow> Inr (Some (addr - mm_dist sz incrflag), s)
     | Leave \<Rightarrow> Inr (None, s)
     | Put v \<Rightarrow> rbind (unit_store sz addr v (mm_mach s)) (\<lambda>m. Inr (Some (addr + mm_dist sz incrflag), s\<lparr>mm_mach := m\<rparr>)))" .
    let ?s = "s\<lparr>mm_buf := b, mm_inp := typed_lines keyss, mm_out := out\<rparr>"
    have ih: "mm_view (mod_mem_loop k sz incrflag a s') =
        map_sum id (\<lambda>(a, m, keyss). (a, m, typed_lines keyss)) (mm_edit sz (mm_dist sz incrflag) keyss a m)"
      if "s' = ?s\<lparr>mm_mach := m\<rparr>" for a m s'
    proof -
      have s': "length (mm_buf s') = CFG_CBSIZE" "mm_inp s' = typed_lines keyss" "mm_mach s' = m" using b that by simp_all
      show ?thesis using Cons.IH [OF s'(1) ks(2) s'(2) n(2), of a] by (simp only: s'(3))
    qed
    have ih0: "mm_view (mod_mem_loop k sz incrflag a ?s) =
        map_sum id (\<lambda>(a, m, keyss). (a, m, typed_lines keyss)) (mm_edit sz (mm_dist sz incrflag) keyss a (mm_mach s))" for a
      by (rule ih) simp
    define d where "d = mm_dist sz incrflag"
    note eqs = t [folded d_def] ih [OF refl, folded d_def] ih0 [folded d_def]
    show ?thesis unfolding d_def [symmetric]
    proof (cases "mm_act (fold edit keys [])")
      case (Put v)
      then show "mm_view (mod_mem_loop n sz incrflag addr s) =
          map_sum id (\<lambda>(a, m, keyss). (a, m, typed_lines keyss)) (mm_edit sz d (keys # keyss) addr (mm_mach s))"
        using True eqs(2) by (cases "unit_store sz addr v (mm_mach s)") (simp_all add: n eqs(1) Let_def)
    qed (use True eqs(3) in \<open>simp_all add: n eqs(1) Let_def id_def\<close>)
  qed
qed

text \<open>
  C21: \<open>mm\<close> and \<open>nm\<close> on a new command act on the address and the memory exactly as the typed lines mean, whatever
  the editing keys in them: an empty line moves up by the size of a unit (\<open>nm\<close>: stays), a minus sign moves down, a line
  that starts with a hexadecimal number is stored and moves up, any other line ends the command with
  the rest of the input unread. The command stops early only at a misaligned address or at the flash.
\<close>
theorem mm_edits_memory:
  fixes argv keyss l s
  defines "sz \<equiv> word_of_int (cmd_get_data_size (argv ! 0) 4)" and "addr \<equiv> fst (simple_strtoul (argv ! 1) 16)"
    and "view \<equiv> map_sum id (\<lambda>(rc :: int, l, s). (rc, mm_last_addr l, mm_last_size l, mm_mach s, mm_inp s))"
  assumes "length argv = 2" "0 < cmd_get_data_size (argv ! 0) 4" "length (mm_buf s) = CFG_CBSIZE" "list_all keys_ok keyss"
    "mm_inp s = concat (map (\<lambda>keys. keys @ [CR]) keyss)"
  shows "view (do_mem_mm usage 0 argv l s) =
      map_sum id (\<lambda>(a, m, keyss). (0, a, sz, m, concat (map (\<lambda>keys. keys @ [CR]) keyss))) (mm_edit sz sz keyss addr (mm_mach s)) \<and>
    view (do_mem_nm usage 0 argv l s) =
      map_sum id (\<lambda>(a, m, keyss). (0, a, sz, m, concat (map (\<lambda>keys. keys @ [CR]) keyss))) (mm_edit sz 0 keyss addr (mm_mach s))"
proof -
  have len: "length ks \<le> length (typed_lines ks)" for ks by (induction ks) (simp_all add: typed_lines_def)
  have "view (mod_mem usage incrflag 0 argv l s) =
      map_sum id (\<lambda>(a, m, keyss). (0, a, sz, m, typed_lines keyss)) (mm_edit sz (mm_dist sz incrflag) keyss addr (mm_mach s))" for incrflag
  proof -
    have "mm_view (mod_mem_loop (Suc (length (mm_inp s))) sz incrflag addr s) =
        map_sum id (\<lambda>(a, m, keyss). (a, m, typed_lines keyss)) (mm_edit sz (mm_dist sz incrflag) keyss addr (mm_mach s))"
      using assms(6-8) len [of keyss] by (intro mod_mem_loop_edit) (auto simp: typed_lines_def)
    moreover have "view (mod_mem usage incrflag 0 argv l s) =
        map_sum id (\<lambda>(a, m, i). (0, a, sz, m, i)) (mm_view (mod_mem_loop (Suc (length (mm_inp s))) sz incrflag addr s))"
      unfolding view_def using assms(4,5)
      by (simp add: mod_mem_def base_address_def Let_def One_nat_def [symmetric] del: One_nat_def mod_mem_loop.simps flip: sz_def addr_def)
        (cases "mod_mem_loop (Suc (length (mm_inp s))) sz incrflag addr s"; auto)
    ultimately show ?thesis
      by (simp only:) (cases "mm_edit sz (mm_dist sz incrflag) keyss addr (mm_mach s)"; auto)
  qed
  from this [of True] this [of False] show ?thesis by (simp add: do_mem_mm_def do_mem_nm_def typed_lines_def)
qed

text \<open>A value typed with a correction, an empty line, and a line that ends the command.\<close>

theorem mm_edits_memory_witness:
  defines "s \<equiv> \<lparr>mm_buf = replicate 512 NUL, mm_inp = concat (map (\<lambda>keys. keys @ [CR]) [''a6'' @ [BS] @ ''5'', [], ''q'']),
      mm_out = [], mm_mach = demo_mach\<rparr>"
    and "l \<equiv> \<lparr>dp_last_addr = 0, dp_last_size = 0, dp_last_length = 64, mm_last_addr = 0, mm_last_size = 0\<rparr>"
  shows "\<exists>l' s'. do_mem_mm ''mm'' 0 [''mm.l'', ''80001000''] l s = Inr (0, l', s') \<and> mm_last_addr l' = 0x80001008 \<and>
    mm_last_size l' = 4 \<and> load_word (m_ram (mm_mach s')) 0x80001000 = 0xa5 \<and> mm_inp s' = []"
proof -
  let ?argv = "[''mm.l'', ''80001000'']" and ?keyss = "[''a6'' @ [BS] @ ''5'', [], ''q'']"
  have a: "fst (simple_strtoul ''80001000'' 16) = 0x80001000" by (simp add: strtoul_eval)
  have z: "cmd_get_data_size ''mm.l'' 4 = 4" by (simp add: cmd_get_data_size_def)
  have k: "list_all keys_ok ?keyss" by (simp add: keys_ok_def line_end_def key_defs)
  have e: "fold edit (''a6'' @ [BS] @ ''5'') [] = ''a5''" "fold edit [] [] = []" "fold edit ''q'' [] = ''q''"
    by (simp_all add: edit_def key_defs)
  have act: "mm_act ''a5'' = Put 0xa5" "mm_act [] = Go_Up" "mm_act ''q'' = Leave" by (simp_all add: mm_act_def strtoul_eval toupper_def)
  have st: "unit_store 4 0x80001000 0xa5 demo_mach = Inr (demo_mach\<lparr>m_ram := store_word 0x80001000 0xa5 (m_ram demo_mach)\<rparr>)"
    by (simp add: unit_store_def unit_of_def flash_window_def unit_bytes_def store_word_def)
  have ed: "mm_edit 4 4 ?keyss 0x80001000 demo_mach =
      Inr (0x80001008, demo_mach\<lparr>m_ram := store_word 0x80001000 0xa5 (m_ram demo_mach)\<rparr>, [])"
    using e act st by (simp add: unit_of_def)
  have "map_sum id (\<lambda>(rc :: int, l, s). (rc, mm_last_addr l, mm_last_size l, mm_mach s, mm_inp s)) (do_mem_mm ''mm'' 0 ?argv l s) =
      Inr (0, 0x80001008, 4, demo_mach\<lparr>m_ram := store_word 0x80001000 0xa5 (m_ram demo_mach)\<rparr>, [])"
    using mm_edits_memory [of ?argv s ?keyss "''mm''" l, THEN conjunct1, unfolded nth_Cons_0 nth_Cons_Suc One_nat_def a z]
      ed k by (simp add: s_def)
  then show ?thesis by (cases "do_mem_mm ''mm'' 0 ?argv l s") auto
qed

subsection \<open>Lemmas on \<open>md\<close>\<close>

lemma md_loop_add:
  assumes "0 < n" "0 < k"
  shows "md_loop sz (16 * n + k) addr [] m =
    rbind (md_loop sz (16 * n) addr [] m) (\<lambda>(rc, a, out). rbind (md_loop sz k a [] m) (\<lambda>(rc, a, out'). Inr (rc, a, out @ out')))"
  using assms(1)
proof (induction n arbitrary: addr)
  case (Suc n)
  show ?case
  proof (cases "n = 0")
    case True
    then show ?thesis using assms(2)
      by (simp add: md_loop.simps [of sz "16 + k"] md_loop.simps [of sz 16] Let_def rbind_assoc case_prod_beta cong: rbind_cong)
  next
    case False
    have e: "16 * Suc n + k - 16 = 16 * n + k" "16 * Suc n - 16 = 16 * n" "16 * Suc n + k > 16" "16 * Suc n > 16"
      using assms(2) False by simp_all
    show ?thesis using assms(2) False Suc.IH
      by (simp add: md_loop.simps [of sz "16 * Suc n + k"] md_loop.simps [of sz "16 * Suc n"] Let_def e rbind_assoc
          case_prod_beta del: mult_Suc_right cong: rbind_cong)
  qed
qed simp

text \<open>
  A repeated \<open>md\<close> goes on where the last one ended: without control-C, \<open>md\<close> of some full lines followed by its
  repetition writes the same text as one \<open>md\<close> of twice the length, and leaves the same address behind.
\<close>

theorem md_repeat_continues:
  fixes argv argv2 l m
  defines "sz \<equiv> cmd_get_data_size (argv ! 0) 4"
  defines "len \<equiv> fst (simple_strtoul (argv ! 2) 16)"
  defines "text \<equiv> map_sum id (\<lambda>(rc :: int, l, out). (dp_last_addr l, out))"
  assumes "length argv = 3" "length argv2 = 3" "0 < sz" "argv2 ! 0 = argv ! 0" "argv2 ! 1 = argv ! 1"
    "fst (simple_strtoul (argv2 ! 2) 16) = 2 * len" "unat (len * word_of_int sz) = 16 * n" "0 < n" "16 * n < 2 ^ 31"
  shows "text (rbind (do_mem_md usage 0 argv [] l m) (\<lambda>(rc, l, out).
      rbind (do_mem_md usage CMD_FLAG_REPEAT argv [] l m) (\<lambda>(rc, l, out'). Inr (rc, l, out @ out')))) =
    text (do_mem_md usage 0 argv2 [] l m)"
proof -
  let ?sz = "word_of_int sz :: u32" and ?addr = "fst (simple_strtoul (argv ! 1) 16)"
  define x where "x = len * ?sz"
  have x: "unat x = 16 * n" using assms(10) by (simp add: x_def)
  have "2 * len * ?sz = x + x" by (simp add: x_def algebra_simps)
  moreover have "unat (x + x) = 16 * n + 16 * n" using x assms(12) by (simp only: unat_plus_if_size) (simp add: word_size)
  ultimately have u: "unat (2 * len * ?sz) = 16 * n + 16 * n" by simp
  have one: "do_mem_md usage 0 argv [] l m = rbind (md_loop ?sz (16 * n) ?addr [] m) (\<lambda>(rc, a, out).
      Inr (rc, l\<lparr>dp_last_addr := a, dp_last_length := len, dp_last_size := ?sz\<rparr>, out))" for l
    using assms(4,6,10) by (simp add: do_mem_md_def base_address_def Let_def One_nat_def [symmetric] del: One_nat_def flip: sz_def len_def)
  have two: "do_mem_md usage 0 argv2 [] l m = rbind (md_loop ?sz (16 * n + 16 * n) ?addr [] m) (\<lambda>(rc, a, out).
      Inr (rc, l\<lparr>dp_last_addr := a, dp_last_length := 2 * len, dp_last_size := ?sz\<rparr>, out))"
    using assms(5,6,7,8,9) u
    by (simp add: do_mem_md_def base_address_def Let_def One_nat_def [symmetric] del: One_nat_def flip: sz_def)
  have rep: "do_mem_md usage CMD_FLAG_REPEAT argv [] (l\<lparr>dp_last_addr := a, dp_last_length := len, dp_last_size := ?sz\<rparr>) m =
    rbind (md_loop ?sz (16 * n) a [] m) (\<lambda>(rc, a, out).
      Inr (rc, l\<lparr>dp_last_addr := a, dp_last_length := len, dp_last_size := ?sz\<rparr>, out))" for a
    using assms(4,10) by (simp add: do_mem_md_def Let_def)
  show ?thesis
  proof (cases "md_loop ?sz (16 * n) ?addr [] m")
    case (Inl e)
    then show ?thesis using md_loop_add [of n "16 * n" ?sz ?addr m] assms(11) by (simp add: one two text_def)
  next
    case (Inr r)
    obtain rc a out where r: "r = (rc, a, out)" by (cases r)
    show ?thesis
      using md_loop_add [of n "16 * n" ?sz ?addr m] assms(11) Inr
      by (cases "md_loop ?sz (16 * n) a [] m") (auto simp: one two rep text_def r)
  qed
qed

subsection \<open>Lemmas on \<open>mtest\<close>\<close>

text \<open>What a word holds after the writing pass: the value of the last of the tested words in the same cell.\<close>

lemma test_write_other:
  assumes "\<forall>k < n. dec (addr + 4 * of_nat k) = Some (c k) \<and> c k \<noteq> x"
  shows "test_write (bus_write dec) n addr val incr m x = m x"
  using assms
proof (induction n arbitrary: addr val m c)
  case (Suc n)
  have "dec addr = Some (c 0)" "c 0 \<noteq> x" using Suc.prems [rule_format, of 0] by simp_all
  moreover have "dec (addr + 4 + 4 * of_nat k) = Some (c (Suc k)) \<and> c (Suc k) \<noteq> x" if "k < n" for k
    using Suc.prems [rule_format, of "Suc k"] that by (simp add: algebra_simps)
  ultimately show ?case using Suc.IH [of "addr + 4" "\<lambda>k. c (Suc k)"] by (simp add: bus_write_def)
qed simp

lemma test_write_last:
  assumes "\<forall>k < n. dec (addr + 4 * of_nat k) = Some (c k)" "j < n" "\<forall>k. j < k \<and> k < n \<longrightarrow> c k \<noteq> c j"
  shows "test_write (bus_write dec) n addr val incr m (c j) = val + of_nat j * incr"
  using assms
proof (induction n arbitrary: addr val m c j)
  case (Suc n)
  have d0: "dec addr = Some (c 0)" using Suc.prems(1) [rule_format, of 0] by simp
  have d: "dec (addr + 4 + 4 * of_nat k) = Some (c (Suc k))" if "k < n" for k
    using Suc.prems(1) [rule_format, of "Suc k"] that by (simp add: algebra_simps)
  show ?case
  proof (cases j)
    case 0
    then have "\<forall>k < n. dec (addr + 4 + 4 * of_nat k) = Some (c (Suc k)) \<and> c (Suc k) \<noteq> c 0"
      using d Suc.prems(3) by auto
    moreover have "bus_write dec addr val m = m(c 0 := val)" by (simp add: bus_write_def d0)
    ultimately show ?thesis using test_write_other [of n dec "addr + 4" "\<lambda>k. c (Suc k)" "c 0"] 0 by simp
  next
    case (Suc i)
    then show ?thesis
      using Suc.IH [of "addr + 4" "\<lambda>k. c (Suc k)" i "val + incr" "bus_write dec addr val m"] d Suc.prems
      by (auto simp: algebra_simps)
  qed
qed simp

lemma test_read_none:
  "(test_read rd n addr val incr m = []) = (\<forall>k < n. rd (addr + 4 * of_nat k) m = val + of_nat k * incr)"
proof (induction n arbitrary: addr val)
  case (Suc n)
  have "(\<forall>k < Suc n. rd (addr + 4 * of_nat k) m = val + of_nat k * incr) =
      (rd addr m = val \<and> (\<forall>k < n. rd (addr + 4 + 4 * of_nat k) m = val + incr + of_nat k * incr))"
    unfolding All_less_Suc2 by (simp add: algebra_simps)
  then show ?case using Suc.IH by (simp add: Let_def)
qed simp

text \<open>The tested values are distinct as long as there are fewer than \<open>2 ^ 32\<close> of them.\<close>

lemma test_values_distinct:
  assumes "incr = 1 \<or> incr = - 1" "i < 2 ^ 32" "j < 2 ^ 32" "v + of_nat i * incr = v + of_nat j * (incr :: u32)"
  shows "i = j"
proof -
  have "(of_nat i :: u32) = of_nat j" using assms(1,4) by auto
  then have "unat (of_nat i :: u32) = unat (of_nat j :: u32)" by simp
  then show ?thesis using assms(2,3) by (simp add: unat_of_nat take_bit_eq_mod)
qed

lemma test_pass:
  assumes "\<forall>k < n. dec (addr + 4 * of_nat k) = Some (c k)" "n < 2 ^ 32" "incr = 1 \<or> incr = - 1"
  shows "(test_read (bus_read dec float) n addr val incr (test_write (bus_write dec) n addr val incr m) = []) =
    inj_on c {..<n}"
proof -
  let ?m = "test_write (bus_write dec) n addr val incr m"
  have rd: "bus_read dec float (addr + 4 * of_nat k) ?m = ?m (c k)" if "k < n" for k
    using assms(1) that by (simp add: bus_read_def)
  have "(\<forall>k < n. ?m (c k) = val + of_nat k * incr) = inj_on c {..<n}"
  proof
    assume inj: "inj_on c {..<n}"
    show "\<forall>k < n. ?m (c k) = val + of_nat k * incr"
      using inj by (auto intro!: test_write_last [OF assms(1)] simp: inj_on_def)
  next
    assume ok: "\<forall>k < n. ?m (c k) = val + of_nat k * incr"
    show "inj_on c {..<n}"
    proof (rule inj_onI)
      fix i j
      assume "i \<in> {..<n}" "j \<in> {..<n}" "c i = c j"
      then have "val + of_nat i * incr = val + of_nat j * incr" using ok by (metis lessThan_iff)
      with assms(2,3) \<open>i \<in> {..<n}\<close> \<open>j \<in> {..<n}\<close> show "i = j" by (intro test_values_distinct) auto
    qed
  qed
  then show ?thesis using rd by (simp add: test_read_none)
qed

lemma test_loop_passes:
  assumes "\<forall>k < n. dec (start + 4 * of_nat k) = Some (c k)" "n < 2 ^ 32" "incr = 1 \<or> incr = - 1"
  shows "case test_loop (bus_read dec float) (bus_write dec) start n pattern incr polls m of (rc, errss, m') \<Rightarrow>
    rc = (if True \<in> set polls then Some 1 else None) \<and> length errss = length (takeWhile Not polls) \<and>
    list_all (\<lambda>errs. (errs = []) = inj_on c {..<n}) errss"
  using assms(3)
proof (induction polls arbitrary: pattern incr m)
  case (Cons p polls)
  have "- incr = 1 \<or> - incr = - 1" using Cons.prems by auto
  note ih = Cons.IH [OF this]
  show ?case
    using ih test_pass [OF assms(1,2) Cons.prems] by (simp add: case_prod_beta Let_def)
qed simp

text \<open>
  C22: \<open>mtest\<close> over an aligned range of which every word is answered by some cell: it returns exactly when control-C
  is pressed, and then always 1. Each pass before that reports an error if and only if two words of the range share a cell,
  whatever the pattern it starts from.
\<close>
theorem mtest_finds_aliasing:
  fixes argv polls dec float m
  defines "start \<equiv> if length argv > 1 then fst (simple_strtoul (argv ! 1) 16) else CFG_MEMTEST_START"
    and "stop \<equiv> if length argv > 2 then fst (simple_strtoul (argv ! 2) 16) else CFG_MEMTEST_END"
  defines "n \<equiv> (unat stop - unat start + 3) div 4"
  assumes "unat start mod 4 = 0" "stop \<le> 0xFFFFFFFC" "\<forall>k < n. dec (start + 4 * of_nat k) = Some (cell k)"
  shows "\<exists>errss m'. do_mem_mtest (bus_read dec float) (bus_write dec) argv polls m =
      Inr (if True \<in> set polls then Some 1 else None, errss, m') \<and>
    length errss = length (takeWhile Not polls) \<and> list_all (\<lambda>errs. errs = [] \<longleftrightarrow> inj_on cell {..<n}) errss"
proof -
  have "unat stop - unat start + 3 < 4294967296 * 4" using unat_u32_less [of stop] by linarith
  then have "n < 4294967296" unfolding n_def by (rule less_mult_imp_div_less)
  then have n: "n < 2 ^ 32" by simp
  let ?pattern = "if length argv > 3 then fst (simple_strtoul (argv ! 3) 16) else 0"
  have "do_mem_mtest (bus_read dec float) (bus_write dec) argv polls m =
      Inr (test_loop (bus_read dec float) (bus_write dec) start n ?pattern 1 polls m)"
    using assms(4,5) by (simp add: do_mem_mtest_def Let_def test_words_def One_nat_def [symmetric] del: One_nat_def
        flip: start_def stop_def n_def)
  then show ?thesis
    using test_loop_passes [OF assms(6) n, where incr = 1 and float = float and pattern = ?pattern and polls = polls and m = m] by (auto simp: case_prod_beta prod_eq_iff)
qed

theorem mtest_finds_aliasing_witness:
  "(\<exists>m'. do_mem_mtest (bus_read Some (\<lambda>_. 0)) (bus_write Some) [''mtest'', ''80200000'', ''80200010''] [False, True] (\<lambda>_. 9) =
      Inr (Some 1, [[]], m')) \<and>
   (\<exists>errs m'. do_mem_mtest (bus_read (ram_of 1 0x80200000) (\<lambda>_. 0)) (bus_write (ram_of 1 0x80200000))
      [''mtest'', ''80200000'', ''80200010''] [False, True] (\<lambda>_. 9) = Inr (Some 1, [errs], m') \<and> errs \<noteq> [])"
proof
  let ?argv = "[''mtest'', ''80200000'', ''80200010'']"
  have a: "fst (simple_strtoul ''80200000'' 16) = 0x80200000" by (simp add: strtoul_eval)
  have a': "fst (simple_strtoul ''80200010'' 16) = 0x80200010" by (simp add: strtoul_eval)
  have "distinct (map (\<lambda>k. 0x80200000 + 4 * of_nat k :: u32) [0, 1, 2, 3])" by simp
  moreover have "set [0, 1, 2, 3 :: nat] = {..<4}" by auto
  ultimately have "inj_on (\<lambda>k. 0x80200000 + 4 * of_nat k :: u32) {..<4}" by (metis distinct_map)
  then show "\<exists>m'. do_mem_mtest (bus_read Some (\<lambda>_. 0)) (bus_write Some) ?argv [False, True] (\<lambda>_. 9) = Inr (Some 1, [[]], m')"
    using mtest_finds_aliasing [where argv = ?argv and dec = Some and cell = "\<lambda>k. 0x80200000 + 4 * of_nat k" and
        float = "\<lambda>_. 0" and polls = "[False, True]" and m = "\<lambda>_. 9"]
    by (auto simp: a a' length_Suc_conv)
  have "ram_of 1 0x80200000 (0x80200000 + 4 * of_nat k) = Some (take_bit 3 (4 * of_nat k))" for k
    by (simp add: ram_of_def numeral_3_eq_3)
  moreover have "\<not> inj_on (\<lambda>k. take_bit 3 (4 * of_nat k) :: u32) {..<4}"
  proof
    assume "inj_on (\<lambda>k. take_bit 3 (4 * of_nat k) :: u32) {..<4}"
    from inj_onD [OF this, of 0 2] show False by simp
  qed
  ultimately show "\<exists>errs m'. do_mem_mtest (bus_read (ram_of 1 0x80200000) (\<lambda>_. 0)) (bus_write (ram_of 1 0x80200000))
      ?argv [False, True] (\<lambda>_. 9) = Inr (Some 1, [errs], m') \<and> errs \<noteq> []"
    using mtest_finds_aliasing [where argv = ?argv and dec = "ram_of 1 0x80200000" and
        cell = "\<lambda>k. take_bit 3 (4 * of_nat k)" and float = "\<lambda>_. 0" and polls = "[False, True]" and m = "\<lambda>_. 9"]
    by (auto simp: a a' length_Suc_conv)
qed

end
