(* ===== verification/NetSafe.thy ===== *)
theory NetSafe
  imports NetLoop
begin

text \<open>
  The whole of \<open>NetLoop\<close> (\<open>net/net.c\<close>), from the choice of the device to the return: whatever frames with honest
  lengths arrive, in whatever order, with whatever delays and restarts, every buffer and address keeps its
  size, no handler that is not set is called, and nothing is read or written outside a buffer, but for a RARP reply
  that meets the handler of a ping, which is called without a packet.
\<close>

subsection \<open>The parts of a turn\<close>

lemma length_hex2: "length (hex2 (w AND 0xFF)) \<le> 30"
proof -
  have "w AND 0xFF \<le> 0xFF" by (rule word_and_le1)
  then have u: "unat (w AND 0xFF) < 16 ^ 2" by (simp add: word_le_nat_alt)
  from length_num_digits [OF this, of digits_upper] show ?thesis
    by (simp add: hex2_def number_eval del: num_digits_eval, linarith)
qed

lemma default_filename_fits: "length (default_filename ip) < 128"
  using length_hex2 [of ip] length_hex2 [of "drop_bit 8 ip"] length_hex2 [of "drop_bit 16 ip"] length_hex2 [of "drop_bit 24 ip"]
  by (simp add: default_filename_def)

lemma packetHandler_NetSetTimeout [simp]: "packetHandler (NetSetTimeout i h st) = packetHandler st"
  by (simp add: NetSetTimeout_def)

lemma net_inv_TftpTimeout:
  assumes "net_inv st"
  shows "net_inv (do_TftpTimeout st)"
proof -
  have a: "net_inv (st\<lparr>TftpTimeoutCount := n, net_load_addr := a, bootm_calls := b\<rparr>)" for n a b
    using assms by (rule net_inv_cong) simp_all
  have b: "net_inv (st\<lparr>TftpTimeoutCount := n\<rparr>)" for n
    using assms by (rule net_inv_cong) simp_all
  have c: "net_inv (NetSetTimeout i h (st\<lparr>TftpTimeoutCount := n\<rparr>))" for i h n
    using b [of n] by (simp add: net_inv_def)
  show ?thesis using a b c by (simp add: do_TftpTimeout_def Let_def net_inv_NetStartAgain net_inv_TftpSend)
qed

lemma net_inv_simps [simp]: "net_inv (st\<lparr>timeHandler := h\<rparr>) = net_inv st" "net_inv (st\<lparr>NetState := s\<rparr>) = net_inv st"
  by (simp_all add: net_inv_def)

lemma net_inv_run_timeout: "net_inv st \<Longrightarrow> net_inv (run_timeout h st)"
  by (cases h) (simp_all add: run_timeout_def net_inv_TftpTimeout do_PingTimeout_def)

lemma net_inv_check_timeout: "net_inv st \<Longrightarrow> net_inv (check_timeout st)"
  by (simp add: check_timeout_def net_inv_run_timeout split: option.split)

lemma packetHandler_ArpRequest [simp]: "packetHandler (ArpRequest st) = packetHandler st"
  by (simp add: ArpRequest_def Let_def split_def eth_send_frame)

lemma net_inv_ArpTimeoutCheck:
  assumes "net_inv st"
  shows "net_inv (ArpTimeoutCheck st)"
proof -
  have a: "net_inv (st\<lparr>NetArpWaitTry := n\<rparr>)" "net_inv (st\<lparr>NetArpWaitTry := n, NetArpWaitTimerStart := t\<rparr>)" for n and t :: u32
    using assms by (auto intro: net_inv_cong)
  have "net_inv (ArpRequest (st\<lparr>NetArpWaitTry := n, NetArpWaitTimerStart := t\<rparr>))" for n t
    using a(2) [of t n] by (simp add: net_inv_def net_wf_ArpRequest)
  then show ?thesis using assms a by (simp add: ArpTimeoutCheck_def Let_def net_inv_NetStartAgain)
qed

lemma net_wf_TftpStart:
  assumes "net_wf st"
  shows "net_inv (TftpStart st)"
proof -
  have w: "net_wf (st\<lparr>tftp_filename := (if tftp_bootfile st = [] then default_filename (NetOurIP st) else tftp_bootfile st)\<rparr>)"
    using assms default_filename_fits by (simp add: net_wf_def)
  show ?thesis
    unfolding TftpStart_def Let_def
    by (rule net_inv_TftpSend) (use w in \<open>simp add: net_inv_def NetSetHandler_def NetSetTimeout_def net_wf_def\<close>)
qed

lemma net_wf_PingSend:
  assumes "net_wf st"
  shows "net_wf (PingSend st)"
proof -
  let ?s = "st\<lparr>ping_mac := NetEtherNullAddr, NetArpWaitPacketIP := NetPingIP st, NetArpWaitPacketMAC := Some PingMac\<rparr>"
  have w: "net_wf ?s" using assms by (simp add: net_wf_def)
  have l: "length (fst (NetSetEther ?s (NetArpWaitTxPacket st) NetEtherNullAddr PROT_IP)) = 1536"
    "snd (NetSetEther ?s (NetArpWaitTxPacket st) NetEtherNullAddr PROT_IP) \<le> 18"
    using length_NetSetEther [of NetEtherNullAddr ?s "NetArpWaitTxPacket st" PROT_IP] NetEthHdrSize_le [of ?s] assms
    by (simp_all add: net_wf_def)
  have "net_wf (?s\<lparr>NetIPID := i, PingSeqNo := q, NetArpWaitTxPacket := b, NetArpWaitTxPacketSize := n, NetArpWaitTry := t,
      NetArpWaitTimerStart := c\<rparr>)" if "length b = 1536" for i q b n t c
    using w that by (simp add: net_wf_def)
  then show ?thesis
    unfolding PingSend_def Let_def split_def
    using l by (intro net_wf_ArpRequest) (simp add: net_wf_def)
qed

lemma packetHandler_PingSend [simp]: "packetHandler (PingSend st) = packetHandler st"
  by (simp add: PingSend_def Let_def split_def)

lemma net_wf_PingStart: "net_wf st \<Longrightarrow> net_inv (PingStart st)"
  by (simp add: PingStart_def net_inv_def net_wf_PingSend) (simp add: NetSetHandler_def)

subsection \<open>A \<open>NULL\<close> packet\<close>

text \<open>
  \<open>NetReceive\<close> passes no packet to the handler for a RARP reply. The ping handler reads through it; the others
  do not, and a transfer by TFTP never installs the ping handler.
\<close>

definition no_ping :: "net_st \<Rightarrow> bool" where
  "no_ping st \<longleftrightarrow> packetHandler st \<noteq> Some PingHandler"

lemma no_ping_cong: "no_ping st \<Longrightarrow> packetHandler st' = packetHandler st \<Longrightarrow> no_ping st'"
  by (simp add: no_ping_def)

lemma no_ping_NetStartAgain: "no_ping st \<Longrightarrow> no_ping (NetStartAgain st)"
  by (auto simp: no_ping_def NetStartAgain_def Let_def NetSetHandler_def eth_init_def split: if_splits option.splits)

lemma no_ping_simps [simp]:
  "no_ping (TftpSend st) = no_ping st" "no_ping (NetSetTimeout i h st) = no_ping st" "no_ping (ArpRequest st) = no_ping st"
  "no_ping (tftp_count_block b st) = no_ping st" "no_ping (tftp_first_block src st) = no_ping st"
  "no_ping (st\<lparr>clock := c\<rparr>) = no_ping st" "no_ping (st\<lparr>NetState := n\<rparr>) = no_ping st" "no_ping (st\<lparr>NetRestarted := r\<rparr>) = no_ping st"
  "no_ping (st\<lparr>timeHandler := t\<rparr>) = no_ping st" "no_ping (st\<lparr>NetArpWaitTry := y\<rparr>) = no_ping st"
  by (simp_all add: no_ping_def tftp_count_block_def tftp_first_block_def Let_def)

lemma no_ping_tftp_accept: "no_ping st \<Longrightarrow> ensures UNIV no_ping (tftp_accept pkt len st)"
  unfolding tftp_accept_def Let_def
  by (rule ensures_rbind [where P = no_ping]) (auto simp: store_block_def Let_def no_ping_def NetSetTimeout_def)

lemma no_ping_do_TftpHandler: "no_ping st \<Longrightarrow> ensures UNIV no_ping (do_TftpHandler pkt dest src len st)"
proof -
  assume n: "no_ping st"
  have "no_ping (st\<lparr>TftpState := a, TftpServerPort := b\<rparr>)" "no_ping (st\<lparr>TftpState := a\<rparr>)" for a b
    using n by (simp_all add: no_ping_def)
  then show ?thesis
    using n by (simp add: do_TftpHandler_def tftp_data_def Let_def no_ping_tftp_accept no_ping_NetStartAgain)
qed

lemma no_ping_dispatch: "no_ping st \<Longrightarrow> ensures UNIV no_ping (dispatch pkt dest src len st)"
  by (auto simp: dispatch_def no_ping_do_TftpHandler split: option.split rxhand.split)
    (simp_all add: no_ping_def)

lemma no_ping_NetReceive:
  assumes "no_ping st"
  shows "ensures UNIV no_ping (NetReceive inpkt len st)"
proof -
  have "no_ping (receive_arp inpkt off l st)" for off l
  proof -
    have "no_ping (set_mac m v st)" for m v using assms by (cases m) (simp_all add: set_mac_def no_ping_def)
    then show ?thesis
      using assms by (auto simp: receive_arp_def arp_reply_def arp_answer_def Let_def split_def eth_send_frame no_ping_def
          split: option.split)
  qed
  moreover have "ensures UNIV no_ping (receive_rarp inpkt off l st)" for off l
    using assms by (simp add: receive_rarp_def Let_def) (simp add: no_ping_dispatch no_ping_def)
  moreover have "ensures UNIV no_ping (receive_ip inpkt off l st)" for off l
    using assms by (simp add: receive_ip_def Let_def no_ping_dispatch)
  ultimately show ?thesis using assms by (simp add: NetReceive_def split: option.split)
qed

lemma no_ping_timeouts: "no_ping st \<Longrightarrow> no_ping (check_timeout (ArpTimeoutCheck st))"
proof -
  assume "no_ping st"
  moreover have "no_ping (st\<lparr>NetArpWaitTry := a, NetArpWaitTimerStart := b\<rparr>)" for a b
    using calculation by (simp add: no_ping_def)
  ultimately have a: "no_ping (ArpTimeoutCheck st)"
    by (simp add: ArpTimeoutCheck_def Let_def no_ping_NetStartAgain)
  moreover have "no_ping (do_TftpTimeout u)" if "no_ping u" for u
  proof -
    have "no_ping (u\<lparr>TftpTimeoutCount := n, net_load_addr := a, bootm_calls := b\<rparr>)" "no_ping (u\<lparr>TftpTimeoutCount := n\<rparr>)"
      for n a b using that by (simp_all add: no_ping_def)
    then show ?thesis by (simp add: do_TftpTimeout_def Let_def no_ping_NetStartAgain)
  qed
  then have "no_ping (run_timeout h u)" if "no_ping u" for h u
    using that by (cases h) (simp_all add: run_timeout_def do_PingTimeout_def)
  then show ?thesis using a by (simp add: check_timeout_def split: option.split)
qed

lemma no_ping_TftpStart: "no_ping (TftpStart st)"
  by (simp add: TftpStart_def Let_def) (simp add: no_ping_def NetSetHandler_def NetSetTimeout_def)

subsection \<open>A turn and the loop\<close>

text \<open>A frame from the driver whose lengths are honest whatever VLAN the board is in.\<close>

definition frame_ok :: "byte list \<times> int \<Rightarrow> bool" where
  "frame_ok f \<longleftrightarrow> length (fst f) = PKTSIZE_ALIGN \<and> snd f \<le> int PKTSIZE_ALIGN \<and> (\<forall>st. honest_udp (fst f) (snd f) st)"

text \<open>A frame with the type of RARP, at one of the places where \<open>NetReceive\<close> looks for the type.\<close>

definition carries_rarp :: "byte list \<times> int \<Rightarrow> bool" where
  "carries_rarp f \<longleftrightarrow> PROT_RARP \<in> {get16 (fst f) 12, get16 (fst f) 16, get16 (fst f) 20}"

lemma rarp_reply_carries: "rarp_reply inpkt len st \<Longrightarrow> carries_rarp (inpkt, len)"
  by (auto simp: rarp_reply_def carries_rarp_def net_classify_def Let_def split: if_splits)

text \<open>The one way out by a fault, and what the loop keeps.\<close>

definition rarp_exits :: "proto_t \<Rightarrow> (byte list \<times> int) list \<Rightarrow> net_exit set" where
  "rarp_exits protocol rx = (if protocol = PING \<and> list_ex carries_rarp rx then {Buffer_Fault} else {})"

definition loop_inv :: "proto_t \<Rightarrow> net_st \<Rightarrow> bool" where
  "loop_inv protocol st \<longleftrightarrow> net_inv st \<and> (protocol = TFTP \<longrightarrow> no_ping st)"

lemma rarp_exits_append [simp]: "rarp_exits p (xs @ ys) = rarp_exits p xs \<union> rarp_exits p ys"
  by (simp add: rarp_exits_def)

lemma ensures_exits: "ensures E P r \<Longrightarrow> E \<subseteq> F \<Longrightarrow> ensures F P r"
  by (auto simp: ensures_def split: sum.splits)

lemma NetReceive_loop_inv:
  assumes "loop_inv protocol st" "frame_ok (p, len)" "protocol \<noteq> NETCONS"
  shows "ensures (rarp_exits protocol [(p, len)]) (loop_inv protocol) (NetReceive p len st)"
proof -
  have "net_inv st" "protocol = TFTP \<Longrightarrow> no_ping st" using assms(1) by (simp_all add: loop_inv_def)
  note e = NetReceive_exact [of st p len] no_ping_NetReceive [of st p len] rarp_reply_carries [of p len st]
  show ?thesis
    using e assms by (cases "NetReceive p len st"; cases protocol)
      (auto simp: loop_inv_def no_ping_def rarp_exits_def frame_ok_def split: if_splits)
qed

lemma receive_all_inv:
  "loop_inv protocol st \<Longrightarrow> protocol \<noteq> NETCONS \<Longrightarrow> list_all frame_ok rx \<Longrightarrow>
   ensures (rarp_exits protocol rx) (loop_inv protocol) (receive_all rx st)"
proof (induction rx arbitrary: st)
  case (Cons f rx)
  obtain p len where f: "f = (p, len)" by (cases f)
  have s: "rarp_exits protocol [(p, len)] \<subseteq> rarp_exits protocol ((p, len) # rx)"
    "rarp_exits protocol rx \<subseteq> rarp_exits protocol ((p, len) # rx)"
    by (auto simp: rarp_exits_def)
  have "ensures (rarp_exits protocol ((p, len) # rx)) (loop_inv protocol) (NetReceive p len st)"
    using Cons.prems by (intro ensures_exits [OF NetReceive_loop_inv s(1)]) (simp_all add: f)
  then show ?case
    unfolding f receive_all.simps
    by (rule ensures_rbind) (rule ensures_exits [OF Cons.IH s(2)], use Cons.prems in simp_all)
qed simp

lemma net_restart_inv:
  assumes "net_wf st" "protocol \<noteq> NETCONS" "loop_inv protocol st \<or> NetEtherNullAddr \<notin> set (eth_macs st)"
  shows "\<exists>r. net_restart protocol st = Inr r \<and> (\<forall>st'. r = Some st' \<longrightarrow> loop_inv protocol st')"
proof -
  obtain cur where cur: "eth_current st = Some cur" "cur < length (eth_macs st)" using assms(1) by (auto simp: net_wf_def)
  define s where "s = (let st = st\<lparr>NetOurEther := eth_macs st ! cur, NetState := NETLOOP_CONTINUE\<rparr>;
               st = st\<lparr>NetOurIP := bd_ip_addr st\<rparr>;
               st = st\<lparr>NetOurGatewayIP := getenv_IPaddr ''gatewayip'' st,
                       NetOurSubnetMask := getenv_IPaddr ''netmask'' st,
                       NetOurVLAN := getenv_VLAN ''vlan'' st,
                       NetOurNativeVLAN := getenv_VLAN ''nvlan'' st\<rparr>
      in if protocol = PING then st else st\<lparr>NetServerIP := getenv_IPaddr ''serverip'' st\<rparr>)"
  have r: "net_restart protocol st = (let (rc, st) = net_check_prereq protocol s in
      if rc = 1 then Inr None else if rc = 2 then Inr (Some st)
      else let st = st\<lparr>NetDevExists := True\<rparr>;
               st = (case protocol of TFTP \<Rightarrow> TftpStart st | PING \<Rightarrow> PingStart st | NETCONS \<Rightarrow> st)
           in Inr (Some (st\<lparr>NetBootFileXferSize := 0\<rparr>)))"
    by (simp add: net_restart_def cur(1) s_def Let_def)
  have "length (eth_macs st ! cur) = 6" using assms(1) cur(2) by (simp add: net_wf_def)
  then have w: "net_wf s" using assms(1) by (simp add: s_def Let_def net_wf_def)
  have ph: "packetHandler s = packetHandler st" "NetOurEther s = eth_macs st ! cur" by (simp_all add: s_def Let_def)
  have c: "net_check_prereq protocol s = (0, s) \<or> fst (net_check_prereq protocol s) = 1 \<or>
      net_check_prereq protocol s = (2, NetStartAgain s) \<and> NetOurEther s = NetEtherNullAddr"
    by (auto simp: net_check_prereq_def check_ether_def)
  have w': "net_wf (s\<lparr>NetDevExists := True\<rparr>)" using w by (simp add: net_wf_def)
  have x: "net_inv t \<Longrightarrow> net_inv (t\<lparr>NetBootFileXferSize := n\<rparr>)" for t n by (erule net_inv_cong) simp_all
  have y: "no_ping ((TftpStart t)\<lparr>NetBootFileXferSize := n\<rparr>)" for t n by (rule no_ping_cong [OF no_ping_TftpStart]) simp
  from c show ?thesis
  proof (elim disjE conjE)
    assume "net_check_prereq protocol s = (0, s)"
    then show ?thesis using r assms(2) x y net_wf_TftpStart [OF w'] net_wf_PingStart [OF w']
      by (cases protocol) (simp_all add: Let_def loop_inv_def)
  next
    assume "fst (net_check_prereq protocol s) = 1"
    then show ?thesis by (simp add: r case_prod_beta)
  next
    assume n: "net_check_prereq protocol s = (2, NetStartAgain s)" "NetOurEther s = NetEtherNullAddr"
    then have "NetEtherNullAddr \<in> set (eth_macs st)" using ph(2) cur(2) by (metis nth_mem)
    then have "loop_inv protocol s" using assms(3) w ph(1) by (simp add: loop_inv_def net_inv_def no_ping_def)
    then show ?thesis using n(1) by (simp add: r loop_inv_def net_inv_NetStartAgain no_ping_NetStartAgain)
  qed
qed

lemma loop_inv_cong: "loop_inv p st \<Longrightarrow> net_inv st' \<Longrightarrow> packetHandler st' = packetHandler st \<Longrightarrow> loop_inv p st'"
  by (simp add: loop_inv_def no_ping_def)

lemma net_turn_inv:
  assumes "loop_inv protocol st" "protocol \<noteq> NETCONS" "list_all frame_ok rx"
  shows "ensures (rarp_exits protocol rx) (\<lambda>(rc, st'). loop_inv protocol st') (net_turn protocol rx ctrlc st)"
proof -
  let ?E = "rarp_exits protocol rx"
  have "ensures ?E (loop_inv protocol) (receive_all rx st)" using assms by (intro receive_all_inv)
  then show ?thesis
    unfolding net_turn_def
  proof (rule ensures_rbind)
    fix t assume t: "loop_inv protocol t"
    define u where "u = check_timeout (ArpTimeoutCheck t)"
    have u: "loop_inv protocol u"
      unfolding u_def using t by (simp add: loop_inv_def net_inv_check_timeout net_inv_ArpTimeoutCheck no_ping_timeouts)
    have v: "loop_inv protocol (u\<lparr>NetRestarted := True\<rparr>)" "loop_inv protocol (loop_success u)"
      using u by (auto simp: loop_success_def Let_def loop_inv_def intro: net_inv_cong elim!: no_ping_cong)
    obtain r where "net_restart protocol (u\<lparr>NetRestarted := True\<rparr>) = Inr r" "\<forall>st'. r = Some st' \<longrightarrow> loop_inv protocol st'"
      using net_restart_inv [of "u\<lparr>NetRestarted := True\<rparr>" protocol] v(1) assms(2) by (auto simp: loop_inv_def net_inv_def)
    then show "ensures ?E (\<lambda>(rc, st'). loop_inv protocol st') (if ctrlc then Inr (Some (- 1), t) else
        let st = check_timeout (ArpTimeoutCheck t) in
        (case NetState st of
            NETLOOP_RESTART \<Rightarrow>
              rbind (net_restart protocol (st\<lparr>NetRestarted := True\<rparr>)) (\<lambda>r. case r of
                None \<Rightarrow> Inr (Some (- 1), st)
              | Some st \<Rightarrow> Inr (None, st))
          | NETLOOP_SUCCESS \<Rightarrow> Inr (Some (sint (NetBootFileXferSize st)), loop_success st)
          | NETLOOP_FAIL \<Rightarrow> Inr (Some (- 1), st)
          | NETLOOP_CONTINUE \<Rightarrow> Inr (None, st)))"
      using t u v by (cases "NetState u"; cases r) (simp_all add: Let_def u_def [symmetric])
  qed
qed

lemma net_run_inv:
  assumes "loop_inv protocol st" "protocol \<noteq> NETCONS" "list_all (\<lambda>ev. list_all frame_ok (ev_rx ev)) evs"
  shows "ensures (rarp_exits protocol (concat (map ev_rx evs))) (\<lambda>(rc, st'). loop_inv protocol st')
    (net_run protocol evs st)"
  using assms(1,3)
proof (induction evs arbitrary: st)
  case (Cons ev evs)
  let ?E = "rarp_exits protocol (concat (map ev_rx (ev # evs)))"
  have "loop_inv protocol (st\<lparr>clock := ev_clock ev\<rparr>)"
    using Cons.prems(1) by (auto simp: loop_inv_def intro: net_inv_cong)
  then have "ensures ?E (\<lambda>(rc, st'). loop_inv protocol st')
      (net_turn protocol (ev_rx ev) (ev_ctrlc ev) (st\<lparr>clock := ev_clock ev\<rparr>))"
    using Cons.prems(2) assms(2) by (intro ensures_exits [OF net_turn_inv]) simp_all
  then show ?case
    unfolding net_run.simps
  proof (rule ensures_rbind)
    fix q :: "int option \<times> net_st" assume q: "case q of (rc, st') \<Rightarrow> loop_inv protocol st'"
    obtain rc t where c: "q = (rc, t)" by (cases q)
    have "ensures ?E (\<lambda>(rc, st'). loop_inv protocol st') (net_run protocol evs t)"
      using q c Cons.prems(2) by (intro ensures_exits [OF Cons.IH]) simp_all
    then show "ensures ?E (\<lambda>(rc, st'). loop_inv protocol st')
        (case q of (rc, st) \<Rightarrow> (case rc of Some r \<Rightarrow> Inr (Some r, st) | None \<Rightarrow> net_run protocol evs st))"
      using q c by (cases rc) simp_all
  qed
qed simp

text \<open>The choice of the device.\<close>

lemma eth_set_loop_bound:
  "cur < length (eth_names st) \<Longrightarrow> snd (eth_set_loop n act old cur st) < length (eth_names st)"
  by (induction n act old cur st rule: eth_set_loop.induct)
    (auto simp: Let_def eth_next_def simp flip: length_greater_0_conv)

lemma net_wf_eth_set_current: "net_wf st \<Longrightarrow> net_wf (eth_set_current st)"
  using eth_set_loop_bound [of _ st]
  by (auto simp: eth_set_current_def net_wf_def set_ethact_def Let_def split_def split: option.split)

lemma eth_macs_init_loop [simp]: "eth_macs (snd (eth_init_loop n old st)) = eth_macs st"
  by (induction n old st rule: eth_init_loop.induct)
    (auto simp: Let_def eth_try_another_def set_ethact_def split: option.split)

lemma eth_macs_keeps: "eth_macs (snd (eth_init (eth_set_current st))) = eth_macs st"
  by (auto simp: eth_init_def eth_set_current_def set_ethact_def Let_def split_def split: option.split)

text \<open>
  C13: A whole \<open>NetLoop\<close> for TFTP or a ping: from any state with a selected device in which the buffers and addresses
  have their declared sizes and no device has a null address, and for any turns of the loop, with any frames whose UDP
  length covers its header and lies within the IP packet, any clock, abort keys, timeouts and restarts, it never calls a
  missing handler, never leaves a buffer and keeps the sizes, when it returns and after every number of turns if it does not, with one
  exception: in a ping, a received frame of type RARP may make the ping handler read through a \<open>NULL\<close> packet. In a
  transfer by TFTP there is no exception.
\<close>
theorem NetLoop_safe:
  assumes "net_wf st" "protocol \<noteq> NETCONS" "NetEtherNullAddr \<notin> set (eth_macs st)"
    "list_all (\<lambda>ev. list_all frame_ok (ev_rx ev)) evs"
  shows "(\<exists>rc st'. NetLoop protocol evs st = Inr (rc, st') \<and> net_wf st') \<or>
    (protocol = PING \<and> NetLoop protocol evs st = Inl Buffer_Fault \<and>
      (\<exists>ev \<in> set evs. \<exists>f \<in> set (ev_rx ev). carries_rarp f))"
proof -
  define s where "s = st\<lparr>NetRestarted := False, NetDevExists := False, NetArpWaitPacketMAC := None,
                  NetArpWaitPacketIP := 0, NetArpWaitReplyIP := 0, NetArpWaitTxPacketSize := 0,
                  nenv := (nenv st)(''ethact'' \<mapsto> ''eth1'')\<rparr>"
  have w: "net_wf s" "eth_macs s = eth_macs st" using assms(1) by (simp_all add: s_def net_wf_def)
  obtain rc u where u: "eth_init (eth_set_current s) = (rc, u)" by fastforce
  have wu: "net_wf u" "eth_macs u = eth_macs st"
    using net_wf_eth_init [OF net_wf_eth_set_current [OF w(1)]] eth_macs_keeps [of s] u w(2) by simp_all
  have l: "NetLoop protocol evs st = (if rc < 0 then Inr (Some (- 1), u)
         else rbind (net_restart protocol u) (\<lambda>r. case r of None \<Rightarrow> Inr (Some (- 1), u) | Some st \<Rightarrow> net_run protocol evs st))"
    by (simp add: NetLoop_def Let_def s_def [symmetric] u)
  obtain r where r: "net_restart protocol u = Inr r" "\<forall>st'. r = Some st' \<longrightarrow> loop_inv protocol st'"
    using net_restart_inv [OF wu(1) assms(2)] assms(3) wu(2) by auto
  show ?thesis
  proof (cases r)
    case None
    then show ?thesis using r(1) wu(1) by (simp add: l)
  next
    case (Some t)
    then have "\<not> rc < 0 \<Longrightarrow> NetLoop protocol evs st = net_run protocol evs t" using r(1) by (simp add: l)
    moreover have "ensures (rarp_exits protocol (concat (map ev_rx evs))) (\<lambda>(rc, st'). loop_inv protocol st')
        (net_run protocol evs t)" using net_run_inv [of protocol t evs] r(2) Some assms(2,4) by simp
    then have "(\<exists>rc st'. net_run protocol evs t = Inr (rc, st') \<and> net_wf st') \<or> (protocol = PING \<and>
        net_run protocol evs t = Inl Buffer_Fault \<and> (\<exists>ev \<in> set evs. \<exists>f \<in> set (ev_rx ev). carries_rarp f))"
      by (cases "net_run protocol evs t") (auto simp: rarp_exits_def loop_inv_def net_inv_def list_ex_iff split: if_splits)
    ultimately show ?thesis using wu(1) by (cases "rc < 0") (simp_all add: l)
  qed
qed

text \<open>Two turns, the first with a frame of zeros and a RARP reply, the second after the time for a retry.\<close>

theorem NetLoop_safe_witness:
  "\<exists>rc st'. NetLoop TFTP [\<lparr>ev_clock = 7, ev_rx = [(replicate 1536 0, 60), (sample_rarp, 60)], ev_ctrlc = False\<rparr>,
      \<lparr>ev_clock = 9000, ev_rx = [], ev_ctrlc = False\<rparr>] sample_net = Inr (rc, st') \<and> net_wf st'"
proof -
  have "frame_ok (replicate 1536 0, 60)"
    by (simp add: frame_ok_def honest_udp_def net_classify_def get16_def)
  moreover have "get16 sample_rarp 12 = PROT_RARP"
    by (simp add: sample_rarp_def be16_def get16_def word_cat_eq nth_append)
  then have "frame_ok (sample_rarp, 60)"
    by (simp add: frame_ok_def honest_udp_def net_classify_def) (simp add: sample_rarp_def be16_def)
  moreover have "NetEtherNullAddr \<notin> set (eth_macs sample_net)" by (simp add: sample_net_def NetEtherNullAddr_def)
  ultimately show ?thesis
    using sample_net_facts NetLoop_safe [of sample_net TFTP "[\<lparr>ev_clock = 7, ev_rx = [(replicate 1536 0, 60), (sample_rarp, 60)],
      ev_ctrlc = False\<rparr>, \<lparr>ev_clock = 9000, ev_rx = [], ev_ctrlc = False\<rparr>]"] by (simp add: net_inv_def)
qed

end
