(* ===== verification/Spec2Isabelle.thy ===== *)
theory Spec2Isabelle
  imports Crc LzmaWrapper Recovery Bootm Ping Circbuf Lists Board MemCmd NetSafe
begin

text \<open>
  Verification development of the boot loader of the TP-Link WR841N v11 (U-Boot 1.1.4 with the changes of the vendor,
  under \<open>src/u-boot\<close>), in the configuration \<open>include/configs/board953x.h\<close> and \<open>include/953x.h\<close>: a big-endian 32-bit MIPS,
  4 MB of serial NOR flash, the command line without hush, TFTP and ping as the only protocols, an environment that is never
  saved, and the compressed variant of the image.

  \<^bold>\<open>The program and its model.\<close> A first stage in flash decompresses the boot loader into RAM and calls it. The boot
  loader sets up its heap and environment, waits for a key or the reset button, and then either runs a recovery (it fetches a
  file by TFTP, checks it and programs it into the flash), boots the kernel from flash, or reads commands. The theories
  follow these parts; a theory imports those of the parts it calls.

  \<^item> \<open>Prelude\<close>: words and bytes (big-endian access, copies into lists), the result type \<open>'e + 'a\<close> with \<open>rbind\<close>, in which every
    panic, bad access and early exit of the code is a value, and \<open>ensures\<close>, its postconditions.
  \<^item> \<open>Crc\<close>: \<open>lib_generic/crc32.c\<close> and \<open>common/crc16.c\<close>. The table-driven loops are equal to the bit-serial division; the locale
    \<open>checksum\<close> carries the detection of damaged bytes for both.
  \<^item> \<open>Ctype\<close>, \<open>Vsprintf\<close>: \<open>lib_generic/ctype.c\<close> and \<open>vsprintf.c\<close>. Printing and parsing of numbers are inverse.
  \<^item> \<open>Lzma\<close>, \<open>LzmaWrapper\<close>: \<open>lib_generic/LzmaDecode.c\<close> and \<open>LzmaWrapper.c\<close>. The decoder is total and stays within its
    tables, its input and its output; its copy loop is the LZ77 one; the wrapper reads its static position as the code does.
  \<^item> \<open>Env\<close>: the environment of \<open>common/cmd_nvedit.c\<close> and \<open>env_common.c\<close> as the character array it is; sequences of
    \<open>setenv\<close> refine updates of a map (locale \<open>var_store\<close>).
  \<^item> \<open>LineEdit\<close>, \<open>Shell\<close>, \<open>Boot\<close>: \<open>common/main.c\<close> and \<open>command.c\<close>. \<open>readline\<close> with its terminal, the splitting and
    expansion of command lines, \<open>run_command\<close> with \<open>run\<close> and \<open>bootd\<close>, the boot delay with its keys, and the command loop.
  \<^item> \<open>Net\<close>, \<open>Tftp\<close>, \<open>NetLoop\<close>, \<open>TftpSession\<close>, \<open>Ping\<close>, \<open>NetSafe\<close>: \<open>net/net.c\<close>, \<open>eth.c\<close> and \<open>tftp.c\<close>. The state \<open>net_st\<close> has the static
    variables of these files as its fields; handlers are values of \<open>rxhand\<close> and \<open>thand\<close>; a run is a list of turns with
    the frames, the clock and the abort key of each. Frames, ARP, whole transfers, termination of a ping, and
    the safety of whole runs are proved, the latter two through the locale \<open>rx_handler\<close> and the invariant \<open>net_inv\<close>. The
    one unsafe frame of honest lengths, a RARP reply during a ping, is part of the statements.
  \<^item> \<open>NetBoot\<close>: the commands of \<open>common/cmd_net.c\<close> over the environment and the network.
  \<^item> \<open>SpiFlash\<close>, \<open>FlashCmd\<close>: \<open>board/atheros/common/ath_flash.c\<close> down to the register writes, \<open>common/flash.c\<close> and
    \<open>cmd_flash.c\<close>, and \<open>cp\<close>. The chip is a function from the register writes so far to what can be read; the locale
    \<open>nor_device\<close> is the contract of the driver.
  \<^item> \<open>Recovery\<close>: the parts together, from the recovery in \<open>main_loop\<close> through the commands it runs to the content of the chip.
  \<^item> \<open>LinuxBoot\<close>, \<open>Bootm\<close>: \<open>lib_mips/mips_linux.c\<close> and \<open>common/cmd_bootm.c\<close>, up to the call of the kernel. The memory is a function
    from addresses to bytes.
  \<^item> \<open>Board\<close>: \<open>lib_bootstrap/bootstrap_board.c\<close> and \<open>lib_mips/board.c\<close>, the layout of the RAM, the heap, the start of the second
    stage by the first, the settings taken from the environment, and the registration of the Ethernet devices.
  \<^item> \<open>MemSize\<close>, \<open>MemCmd\<close>: \<open>common/memsize.c\<close> and \<open>cmd_mem.c\<close>, over a bus to the RAM (locale \<open>restoring_bus\<close>).
  \<^item> \<open>Circbuf\<close>, \<open>Lists\<close>: \<open>common/circbuf.c\<close> and \<open>lists.c\<close> as arrays with bounds, refining a queue and a list (locales
    \<open>bounded_queue\<close> and \<open>item_list\<close>).

  \<^bold>\<open>Conventions.\<close> An \<open>unsigned long\<close>, a pointer and an \<open>unsigned int\<close> are \<open>32 word\<close>, an \<open>int\<close> whose range cannot be left is an
  \<open>int\<close>; a C string is a list without the terminator, and an array that is updated in place is a list of fixed length or
  a function on addresses. The byte order conversions are the identity. Code outside the repository or below it
  is an argument: the allocator, the chip, the frames and the clock, the answers of \<open>ctrlc\<close>, the junk in fresh memory.

  \<^bold>\<open>Bounds and fuel.\<close> Loops whose end depends on the surroundings run over finite data that stand for them: \<open>net_run\<close> over
  its turns and \<open>main_loop\<close> over a number of lines, both with a result for \<open>still running\<close>; \<open>mod_mem_loop\<close> over more
  turns than there are keys left; \<open>run_command\<close> has a depth for the recursion through variables, and the theorems hold
  for every depth that is large enough; \<open>hw_polls\<close> bounds the status reads of the flash, with \<open>Flash_Busy\<close> as its own exit,
  and the theorems on the driver assume a chip that is ready within it. The loops of the LZMA decoder are bounded by the
  sizes of its input and output; running past a bound would be the exit \<open>Out_Of_Loop_Bound\<close>, which is proved never to be
  taken. \<open>skip_lengths\<close> is partial, as the scan of a multi-file image may not end.

  \<^bold>\<open>Not modelled.\<close> The third-party code that is compiled in without changes of its own (\<open>zlib\<close>, \<open>bzlib\<close>, Doug Lea's allocator
  in \<open>common/dlmalloc.c\<close>, whose interface is a parameter); code that only moves values between registers (the drivers of
  the Ethernet switch, the PHY, the serial port, clock, PLL and DDR set-up, cache operations, the start code in
  assembler); what the configuration leaves out (hush, BOOTP, RARP requests, NFS, SNTP, CDP, the other commands, boards and processors, \<open>rtc\<close>,
  \<open>post\<close>, \<open>drivers\<close>, USB); the host tools. \<open>common/cmd_recovery.c\<close> is
  built only with a library that is not in the repository. Messages on the console are modelled where a program or a user reads them
  back (\<open>readline\<close>, \<open>printenv\<close>, \<open>md\<close>, \<open>mm\<close>), elsewhere they are left out. The memory of a boot is a
  function from addresses: the cached and the uncached address of a byte of RAM are different arguments of it, and the
  statement on the kernel excludes every byte that was written under the other address (\<open>meets_area\<close>).
\<close>

end
